(* ===== verification/Engine_Prelude.thy ===== *)
theory Engine_Prelude
  imports "HOL-Library.Word" "HOL-Library.Multiset" "HOL-Library.Signed_Division"
begin

text \<open>
  Shared vocabulary of the engine model (Types.h): machine integer types, the C++ notions
  of truncated remainder and array copy that the buffers use, and the collections of
  rewrite rules that the component theories fill.

  Signed \<open>int32\<close> values are modelled by \<open>int\<close>: an overflow of a signed integer is
  undefined in C++, so it is excluded by a range predicate rather than given a value.
  Unsigned values that may wrap are words of their width.
\<close>

type_synonym byte = "8 word"
type_synonym uint16 = "16 word"
type_synonym uint32 = "32 word"
type_synonym uint64 = "64 word"

named_theorems access_simps \<open>the getters of the buffer classes, unfolded\<close>
named_theorems abs_simps \<open>operations commuted with an abstraction function\<close>
named_theorems inv_intros \<open>operations preserve the invariant of their component\<close>

unbundle bit_operations_syntax

subsection \<open>Masks, shifts and narrowing read as numbers\<close>

lemma unat_and_mask: "unat (x AND mask n) = unat x mod 2 ^ n" for x :: "'a::len word"
  by (simp only: take_bit_eq_mask [symmetric] unsigned_take_bit_eq) (simp add: take_bit_eq_mod)

lemma unat_drop_bit_div: "unat (drop_bit n x) = unat x div 2 ^ n" for x :: "'a::len word"
  by (simp only: unat_drop_bit_eq) (simp add: drop_bit_eq_div)

lemma unat_ucast32_small: "unat x < 2 ^ 32 \<Longrightarrow> unat (ucast x :: uint32) = unat x" for x :: uint64
  by (simp add: unsigned_ucast_eq take_bit_nat_eq_self)

lemma and_not_low_bits: "x AND NOT (2 ^ n - 1) = x - x mod 2 ^ n" for x :: int
proof -
  have "x AND NOT (mask n) = push_bit n (drop_bit n x)"
    by (rule bit_eqI) (auto simp: bit_simps)
  then show ?thesis
    by (simp add: mask_eq_exp_minus_1 push_bit_eq_mult drop_bit_eq_div minus_mod_eq_div_mult)
qed

lemma unat_of_nat16: "n < 65536 \<Longrightarrow> unat (of_nat n :: uint16) = n"
  by (simp add: unsigned_of_nat take_bit_nat_eq_self)

lemma uint_of_nat16: "n < 65536 \<Longrightarrow> uint (of_nat n :: uint16) = int n"
  by (simp only: uint_nat unat_of_nat16)

subsection \<open>Signed 32-bit range and truncated remainder\<close>

definition in_int32 :: "int \<Rightarrow> bool" where
  "in_int32 x \<longleftrightarrow> - (2 ^ 31) \<le> x \<and> x < 2 ^ 31"

lemma in_int32I [intro]: "- 2147483648 \<le> x \<Longrightarrow> x < 2147483648 \<Longrightarrow> in_int32 x"
  by (simp add: in_int32_def)

lemma smod_nonneg: "0 \<le> (a::int) \<Longrightarrow> 0 \<le> b \<Longrightarrow> a smod b = a mod b"
  by (cases "a = 0") (simp_all add: signed_modulo_int_def signed_divide_int_def
      sgn_if minus_div_mult_eq_mod minus_mult_div_eq_mod)

subsection \<open>Copying into an array: std::copy_n\<close>

definition copy_at :: "'a list \<Rightarrow> nat \<Rightarrow> 'a list \<Rightarrow> 'a list" where
  "copy_at buf i xs = take i buf @ xs @ drop (i + length xs) buf"

lemma length_copy_at [simp]:
  "i + length xs \<le> length buf \<Longrightarrow> length (copy_at buf i xs) = length buf"
  by (simp add: copy_at_def)

lemma copy_at_Nil [simp]: "copy_at buf i [] = buf"
  by (simp add: copy_at_def)

lemma nth_copy_at:
  assumes "i + length xs \<le> length buf" "j < length buf"
  shows "copy_at buf i xs ! j =
    (if i \<le> j \<and> j < i + length xs then xs ! (j - i) else buf ! j)"
  using assms by (auto simp: copy_at_def nth_append min_def)

lemma copy_at_append:
  "i + length xs \<le> length buf \<Longrightarrow> copy_at (copy_at buf i xs) (i + length xs) ys = copy_at buf i (xs @ ys)"
  by (simp add: copy_at_def add.commute add.left_commute)

definition copy_n :: "'a list \<Rightarrow> int \<Rightarrow> 'a list \<Rightarrow> int \<Rightarrow> 'a list" where
  "copy_n src n dst i = copy_at dst (nat i) (take (nat n) src)"

lemma copy_n_none [simp]: "n \<le> 0 \<Longrightarrow> copy_n src n dst i = dst"
  by (simp add: copy_n_def)

lemma length_copy_n [simp]:
  "0 \<le> i \<Longrightarrow> i + max 0 n \<le> int (length dst) \<Longrightarrow> length (copy_n src n dst i) = length dst"
  by (auto simp: copy_n_def)

lemma nth_copy_n:
  assumes "0 \<le> i" "i + n \<le> int (length dst)" "nat n \<le> length src" "j < length dst"
  shows "copy_n src n dst i ! j =
    (if i \<le> int j \<and> int j < i + n then src ! nat (int j - i) else dst ! j)"
proof -
  have eq: "j - nat i = nat (int j - i)" using assms(1) by arith
  show ?thesis
  proof (cases "n \<le> 0")
    case True
    then show ?thesis by auto
  next
    case False
    then show ?thesis
      using assms eq unfolding copy_n_def
      by (subst nth_copy_at) (auto simp: nat_less_iff nat_le_iff)
  qed
qed

lemma mod_once:
  "0 \<le> (x::int) \<Longrightarrow> x < 2 * m \<Longrightarrow> x mod m = (if x < m then x else x - m)"
  by (auto intro: mod_pos_pos_trivial) (metis diff_ge_0_iff_ge diff_less_eq minus_mod_self2
      mod_pos_pos_trivial mult_2 not_less)

subsection \<open>Buckets: a list of lists updated at one index\<close>

lemma mset_concat_push:
  "i < length xss \<Longrightarrow> mset (concat (xss[i := xss ! i @ [x]])) = add_mset x (mset (concat xss))"
  by (induction xss arbitrary: i) (auto split: nat.splits)

lemma mset_concat_clear:
  "i < length xss \<Longrightarrow> mset (concat (xss[i := []])) + mset (xss ! i) = mset (concat xss)"
  by (induction xss arbitrary: i) (auto split: nat.splits)

subsection \<open>Lists given by an index function\<close>

lemma map_upt_eqI:
  "length xs = n \<Longrightarrow> (\<And>k. k < n \<Longrightarrow> xs ! k = f k) \<Longrightarrow> map f [0..<n] = xs"
  by (auto intro: nth_equalityI)

lemma drop_map_upt: "drop k (map f [0..<n]) = map (\<lambda>j. f (k + j)) [0..<n - k]"
  by (rule nth_equalityI) auto

lemma take_map_upt: "k \<le> n \<Longrightarrow> take k (map f [0..<n]) = map f [0..<k]"
  by (rule nth_equalityI) auto

end
