(* ===== verification/Receive_Buffer.thy ===== *)
theory Receive_Buffer
  imports Engine_Prelude
begin

text \<open>
  NetReceiveBuffer (NetReceiveBuffer.h, NetReceiveBuffer.cpp): the circular buffer of a
  receiver. The class is the record, a pointer into \<open>mpBuffer\<close> is its index, and every
  member function is one definition. The abstraction \<open>rb_abs\<close> reads the unread bytes as a
  list; each operation is shown to be the list operation it stands for.
\<close>

subsection \<open>The class and its member functions\<close>

record NetReceiveBuffer =
  rb_mMaxBufferSize :: int
  rb_mReadPos :: int
  rb_mWritePos :: int
  rb_mpBuffer :: "byte list"

definition rb_DEFAULT_BUFFER_SIZE :: int where
  "rb_DEFAULT_BUFFER_SIZE = 65535"

text \<open>
  The constructor asks for \<open>maxSize + 1\<close> bytes that are not initialised; the argument
  \<open>mem\<close> is whatever the allocation holds.
\<close>

definition rb_new :: "int \<Rightarrow> byte list \<Rightarrow> NetReceiveBuffer" where
  "rb_new maxSize mem =
     \<lparr>rb_mMaxBufferSize = maxSize, rb_mReadPos = 0, rb_mWritePos = 0,
      rb_mpBuffer = take (nat (maxSize + 1)) mem\<rparr>"

definition rb_Clear :: "NetReceiveBuffer \<Rightarrow> NetReceiveBuffer" where
  "rb_Clear b = b\<lparr>rb_mReadPos := 0, rb_mWritePos := 0\<rparr>"

definition rb_IsEmpty :: "NetReceiveBuffer \<Rightarrow> bool" where
  "rb_IsEmpty b \<longleftrightarrow> rb_mReadPos b = rb_mWritePos b"

definition rb_GetMaxSize :: "NetReceiveBuffer \<Rightarrow> int" where
  "rb_GetMaxSize b = rb_mMaxBufferSize b"

definition rb_GetFreeSize :: "NetReceiveBuffer \<Rightarrow> int" where
  "rb_GetFreeSize b =
     (let readPos = rb_mReadPos b; writePos = rb_mWritePos b in
      if readPos > writePos then readPos - writePos - 1
      else rb_mMaxBufferSize b - (writePos - readPos) - 1)"

definition rb_GetUseSize :: "NetReceiveBuffer \<Rightarrow> int" where
  "rb_GetUseSize b =
     (let readPos = rb_mReadPos b; writePos = rb_mWritePos b in
      if readPos > writePos then rb_mMaxBufferSize b - (readPos - writePos)
      else writePos - readPos)"

definition rb_GetBufferPtr :: "NetReceiveBuffer \<Rightarrow> int" where
  "rb_GetBufferPtr b = 0"

definition rb_GetReadPtr :: "NetReceiveBuffer \<Rightarrow> int" where
  "rb_GetReadPtr b = rb_mReadPos b"

definition rb_GetWritePtr :: "NetReceiveBuffer \<Rightarrow> int" where
  "rb_GetWritePtr b = rb_mWritePos b"

definition rb_GetLinearWriteSize :: "NetReceiveBuffer \<Rightarrow> int" where
  "rb_GetLinearWriteSize b =
     (let readPos = rb_mReadPos b; writePos = rb_mWritePos b in
      if readPos > writePos then readPos - writePos - 1
      else rb_mMaxBufferSize b - writePos - (if readPos = 0 then 1 else 0))"

definition rb_GetLinearReadSize :: "NetReceiveBuffer \<Rightarrow> int" where
  "rb_GetLinearReadSize b =
     (let readPos = rb_mReadPos b; writePos = rb_mWritePos b in
      if readPos > writePos then rb_mMaxBufferSize b - readPos
      else writePos - readPos)"

definition rb_MoveReadPos :: "NetReceiveBuffer \<Rightarrow> int \<Rightarrow> NetReceiveBuffer" where
  "rb_MoveReadPos b sz =
     b\<lparr>rb_mReadPos := (rb_mReadPos b + sz) smod rb_mMaxBufferSize b\<rparr>"

definition rb_MoveWritePos :: "NetReceiveBuffer \<Rightarrow> int \<Rightarrow> NetReceiveBuffer" where
  "rb_MoveWritePos b sz =
     b\<lparr>rb_mWritePos := (rb_mWritePos b + sz) smod rb_mMaxBufferSize b\<rparr>"

definition rb_Write :: "NetReceiveBuffer \<Rightarrow> byte list \<Rightarrow> int \<Rightarrow> int \<times> NetReceiveBuffer" where
  "rb_Write b pData sz =
     (let writeSize = min (rb_GetFreeSize b) sz in
      if writeSize = 0 then (writeSize, b)
      else if writeSize + rb_mWritePos b < rb_mMaxBufferSize b then
        (writeSize,
         rb_MoveWritePos
           (b\<lparr>rb_mpBuffer := copy_n pData writeSize (rb_mpBuffer b) (rb_mWritePos b)\<rparr>) writeSize)
      else
        (let linearSize = rb_GetLinearWriteSize b;
             buf1 = copy_n pData linearSize (rb_mpBuffer b) (rb_mWritePos b);
             remainSize = writeSize - linearSize;
             buf2 = copy_n (drop (nat linearSize) pData) remainSize buf1 0
         in (writeSize, rb_MoveWritePos (b\<lparr>rb_mpBuffer := buf2\<rparr>) writeSize)))"

text \<open>\<open>Peek\<close> and \<open>Read\<close> share the copy out of the ring: the bytes delivered and their number.\<close>

definition rb_Peek :: "NetReceiveBuffer \<Rightarrow> int \<Rightarrow> byte list \<times> int" where
  "rb_Peek b sz =
     (let readSize = min (rb_GetUseSize b) sz in
      if readSize = 0 then ([], readSize)
      else if readSize + rb_mReadPos b > rb_mMaxBufferSize b then
        (let linearSize = rb_GetLinearReadSize b;
             remainSize = readSize - linearSize
         in (take (nat linearSize) (drop (nat (rb_mReadPos b)) (rb_mpBuffer b))
               @ take (nat remainSize) (rb_mpBuffer b), readSize))
      else (take (nat readSize) (drop (nat (rb_mReadPos b)) (rb_mpBuffer b)), readSize))"

definition rb_Read :: "NetReceiveBuffer \<Rightarrow> int \<Rightarrow> byte list \<times> int \<times> NetReceiveBuffer" where
  "rb_Read b sz =
     (let readSize = min (rb_GetUseSize b) sz in
      if readSize = 0 then ([], readSize, b)
      else if readSize + rb_mReadPos b > rb_mMaxBufferSize b then
        (let linearSize = rb_GetLinearReadSize b;
             remainSize = readSize - linearSize
         in (take (nat linearSize) (drop (nat (rb_mReadPos b)) (rb_mpBuffer b))
               @ take (nat remainSize) (rb_mpBuffer b),
             readSize, rb_MoveReadPos b readSize))
      else (take (nat readSize) (drop (nat (rb_mReadPos b)) (rb_mpBuffer b)),
            readSize, rb_MoveReadPos b readSize))"

lemmas rb_getters = rb_IsEmpty_def rb_GetMaxSize_def rb_GetFreeSize_def rb_GetUseSize_def
  rb_GetBufferPtr_def rb_GetReadPtr_def rb_GetWritePtr_def rb_GetLinearWriteSize_def
  rb_GetLinearReadSize_def Let_def

declare rb_getters [access_simps]

subsection \<open>Well-formed buffers and the bytes they hold\<close>

definition rb_wf :: "NetReceiveBuffer \<Rightarrow> bool" where
  "rb_wf b \<longleftrightarrow>
     0 \<le> rb_mReadPos b \<and> rb_mReadPos b < rb_mMaxBufferSize b \<and>
     0 \<le> rb_mWritePos b \<and> rb_mWritePos b < rb_mMaxBufferSize b \<and>
     int (length (rb_mpBuffer b)) = rb_mMaxBufferSize b + 1"

definition rb_abs :: "NetReceiveBuffer \<Rightarrow> byte list" where
  "rb_abs b = map (\<lambda>k. rb_mpBuffer b ! nat ((rb_mReadPos b + int k) mod rb_mMaxBufferSize b))
                  [0..<nat (rb_GetUseSize b)]"

lemma rb_wfD:
  assumes "rb_wf b"
  shows "0 \<le> rb_mReadPos b" "rb_mReadPos b < rb_mMaxBufferSize b"
    "0 \<le> rb_mWritePos b" "rb_mWritePos b < rb_mMaxBufferSize b"
    "int (length (rb_mpBuffer b)) = rb_mMaxBufferSize b + 1" "0 < rb_mMaxBufferSize b"
  using assms by (auto simp: rb_wf_def)

lemma rb_use_bounds:
  "rb_wf b \<Longrightarrow> 0 \<le> rb_GetUseSize b \<and> rb_GetUseSize b < rb_mMaxBufferSize b"
  by (auto simp: rb_wf_def access_simps)

lemma rb_free_use:
  "rb_GetFreeSize b = rb_mMaxBufferSize b - 1 - rb_GetUseSize b"
  by (simp add: access_simps)

lemma rb_free_bounds:
  "rb_wf b \<Longrightarrow> 0 \<le> rb_GetFreeSize b \<and> rb_GetFreeSize b < rb_mMaxBufferSize b"
  by (auto simp: rb_wf_def access_simps)

lemma rb_use_mod:
  "rb_wf b \<Longrightarrow> rb_GetUseSize b = (rb_mWritePos b - rb_mReadPos b) mod rb_mMaxBufferSize b"
  by (subst mod_add_self2 [symmetric], subst mod_once) (auto simp: rb_wf_def access_simps)

lemma length_rb_abs: "rb_wf b \<Longrightarrow> int (length (rb_abs b)) = rb_GetUseSize b"
  using rb_use_bounds [of b] by (simp add: rb_abs_def)

lemma rb_new_wf [inv_intros]:
  "0 < maxSize \<Longrightarrow> int (length mem) = maxSize + 1 \<Longrightarrow> rb_wf (rb_new maxSize mem)"
  by (simp add: rb_wf_def rb_new_def)

lemma rb_new_abs [abs_simps]: "rb_abs (rb_new maxSize mem) = []"
  by (simp add: rb_abs_def rb_new_def access_simps)

lemma rb_Clear_wf [inv_intros]: "rb_wf b \<Longrightarrow> rb_wf (rb_Clear b)"
  by (simp add: rb_wf_def rb_Clear_def)

lemma rb_Clear_abs [abs_simps]: "rb_abs (rb_Clear b) = []"
  by (simp add: rb_abs_def rb_Clear_def access_simps)

subsection \<open>Moving the positions\<close>

lemma rb_Move_wf [inv_intros]:
  assumes "rb_wf b" "0 \<le> sz"
  shows "rb_wf (rb_MoveReadPos b sz)" "rb_wf (rb_MoveWritePos b sz)"
  using assms by (auto simp: rb_wf_def rb_MoveReadPos_def rb_MoveWritePos_def smod_nonneg)

lemma rb_MoveReadPos_use:
  assumes "rb_wf b" "0 \<le> n" "n \<le> rb_GetUseSize b"
  shows "rb_GetUseSize (rb_MoveReadPos b n) = rb_GetUseSize b - n"
proof -
  let ?m = "rb_mMaxBufferSize b"
  have wf': "rb_wf (rb_MoveReadPos b n)" using assms by (intro inv_intros)
  have "rb_GetUseSize (rb_MoveReadPos b n)
      = (rb_mWritePos b - (rb_mReadPos b + n) mod ?m) mod ?m"
    using rb_use_mod [OF wf'] assms rb_wfD [OF assms(1)]
    by (simp add: rb_MoveReadPos_def smod_nonneg)
  also have "\<dots> = ((rb_mWritePos b - rb_mReadPos b) mod ?m - n) mod ?m"
    by (simp add: mod_simps algebra_simps)
  also have "\<dots> = (rb_GetUseSize b - n) mod ?m"
    by (simp add: rb_use_mod [OF assms(1)])
  also have "\<dots> = rb_GetUseSize b - n"
    using assms rb_use_bounds [OF assms(1)] by (intro mod_pos_pos_trivial) auto
  finally show ?thesis .
qed

lemma rb_MoveReadPos_abs [abs_simps]:
  assumes "rb_wf b" "0 \<le> n" "n \<le> rb_GetUseSize b"
  shows "rb_abs (rb_MoveReadPos b n) = drop (nat n) (rb_abs b)"
proof -
  let ?m = "rb_mMaxBufferSize b"
  have *: "((rb_mReadPos b + n) mod ?m + int k) mod ?m
         = (rb_mReadPos b + int (nat n + k)) mod ?m" for k
    using assms(2) by (simp add: mod_simps algebra_simps)
  show ?thesis
    unfolding rb_abs_def rb_MoveReadPos_use [OF assms] drop_map_upt
    using assms rb_wfD [OF assms(1)]
    by (intro map_cong) (auto simp: rb_MoveReadPos_def smod_nonneg * nat_diff_distrib)
qed

lemma rb_MoveWritePos_use:
  assumes "rb_wf b" "0 \<le> n" "n \<le> rb_GetFreeSize b"
  shows "rb_GetUseSize (rb_MoveWritePos b n) = rb_GetUseSize b + n"
proof -
  let ?m = "rb_mMaxBufferSize b"
  have wf': "rb_wf (rb_MoveWritePos b n)" using assms by (intro inv_intros)
  have "rb_GetUseSize (rb_MoveWritePos b n)
      = ((rb_mWritePos b + n) mod ?m - rb_mReadPos b) mod ?m"
    using rb_use_mod [OF wf'] assms rb_wfD [OF assms(1)]
    by (simp add: rb_MoveWritePos_def smod_nonneg)
  also have "\<dots> = ((rb_mWritePos b - rb_mReadPos b) mod ?m + n) mod ?m"
    by (simp add: mod_simps algebra_simps)
  also have "\<dots> = (rb_GetUseSize b + n) mod ?m"
    by (simp add: rb_use_mod [OF assms(1)])
  also have "\<dots> = rb_GetUseSize b + n"
    using assms rb_use_bounds [OF assms(1)] rb_free_use [of b]
    by (intro mod_pos_pos_trivial) auto
  finally show ?thesis .
qed

subsection \<open>Reading\<close>

text \<open>
  The unread bytes are the linear run from the read position followed, when the write
  position has wrapped, by the run from index 0. \<open>Read\<close> and \<open>Peek\<close> copy a prefix of it.
\<close>

lemma rb_linear_run:
  assumes "rb_wf b" "0 \<le> n" "rb_mReadPos b + n \<le> rb_mMaxBufferSize b"
  shows "take (nat n) (drop (nat (rb_mReadPos b)) (rb_mpBuffer b))
       = map (\<lambda>k. rb_mpBuffer b ! nat ((rb_mReadPos b + int k) mod rb_mMaxBufferSize b)) [0..<nat n]"
    (is "?run = map ?f _")
proof (rule map_upt_eqI [symmetric])
  note wf = rb_wfD [OF assms(1)]
  have fits: "nat (rb_mReadPos b) + nat n \<le> length (rb_mpBuffer b)"
    using wf assms(2,3) by linarith
  then show "length ?run = nat n" by simp
  fix k assume k: "k < nat n"
  then have "(rb_mReadPos b + int k) mod rb_mMaxBufferSize b = rb_mReadPos b + int k"
    using wf assms(3) by (intro mod_pos_pos_trivial) auto
  moreover have "nat (rb_mReadPos b + int k) = nat (rb_mReadPos b) + k"
    using wf by simp
  ultimately show "?run ! k = ?f k" using k fits by simp
qed

lemma rb_wrapped_run:
  assumes "rb_wf b" "rb_mMaxBufferSize b \<le> rb_mReadPos b + n" "n < rb_mMaxBufferSize b"
  shows "take (nat (rb_mMaxBufferSize b - rb_mReadPos b)) (drop (nat (rb_mReadPos b)) (rb_mpBuffer b))
         @ take (nat (n - (rb_mMaxBufferSize b - rb_mReadPos b))) (rb_mpBuffer b)
       = map (\<lambda>k. rb_mpBuffer b ! nat ((rb_mReadPos b + int k) mod rb_mMaxBufferSize b)) [0..<nat n]"
    (is "take ?l _ @ take ?t _ = map ?f _")
proof -
  note wf = rb_wfD [OF assms(1)]
  have n: "nat n = ?l + ?t" using wf assms(2,3) by simp
  have "take ?l (drop (nat (rb_mReadPos b)) (rb_mpBuffer b)) = map ?f [0..<?l]"
    using rb_linear_run [OF assms(1), of "int ?l"] wf by simp
  moreover have "take ?t (rb_mpBuffer b) = map (\<lambda>k. ?f (?l + k)) [0..<?t]"
  proof (rule map_upt_eqI [symmetric])
    show "length (take ?t (rb_mpBuffer b)) = ?t" using wf assms(3) by simp
    fix k assume "k < ?t"
    moreover from this have "(rb_mReadPos b + int (?l + k)) mod rb_mMaxBufferSize b = int k"
      using wf assms(3) by (subst mod_once) auto
    ultimately show "take ?t (rb_mpBuffer b) ! k = ?f (?l + k)" by simp
  qed
  moreover have "map ?f [0..<?l + ?t] = map ?f [0..<?l] @ map (\<lambda>k. ?f (?l + k)) [0..<?t]"
    by (rule nth_equalityI) (auto simp: nth_append)
  ultimately show ?thesis by (simp add: n)
qed

lemma rb_Peek_correct:
  assumes wf: "rb_wf b" and "0 \<le> n"
  shows "rb_Peek b n = (take (nat n) (rb_abs b), min (rb_GetUseSize b) n)"
proof -
  let ?k = "min (rb_GetUseSize b) n"
  note bounds = rb_wfD [OF wf] rb_use_bounds [OF wf]
  have abs: "take (nat n) (rb_abs b) = map (\<lambda>k. rb_mpBuffer b !
      nat ((rb_mReadPos b + int k) mod rb_mMaxBufferSize b)) [0..<nat ?k]"
  proof (cases "n \<le> rb_GetUseSize b")
    case True
    then show ?thesis using assms(2) unfolding rb_abs_def by (subst take_map_upt) auto
  next
    case False
    then show ?thesis using bounds unfolding rb_abs_def by (simp add: min_def)
  qed
  consider "?k = 0" | "?k \<noteq> 0" "?k + rb_mReadPos b > rb_mMaxBufferSize b"
    | "?k \<noteq> 0" "?k + rb_mReadPos b \<le> rb_mMaxBufferSize b" by linarith
  then show ?thesis
  proof cases
    case 1
    then show ?thesis using abs by (simp add: rb_Peek_def)
  next
    case 2
    then have "rb_GetLinearReadSize b = rb_mMaxBufferSize b - rb_mReadPos b"
      using bounds by (auto simp: rb_GetLinearReadSize_def rb_GetUseSize_def Let_def split: if_splits)
    moreover have "rb_mMaxBufferSize b \<le> rb_mReadPos b + ?k" "?k < rb_mMaxBufferSize b"
      using 2 bounds by auto
    note rb_wrapped_run [OF wf this]
    ultimately show ?thesis
      using 2
      unfolding rb_Peek_def abs by (simp add: Let_def)
  next
    case 3
    then show ?thesis
      using rb_linear_run [OF wf, of ?k] bounds assms(2)
      unfolding rb_Peek_def abs by (simp add: Let_def add.commute)
  qed
qed

lemma rb_Read_Peek:
  "rb_wf b \<Longrightarrow> rb_Read b n = (fst (rb_Peek b n), snd (rb_Peek b n), rb_MoveReadPos b (snd (rb_Peek b n)))"
  by (auto simp: rb_Read_def rb_Peek_def Let_def rb_MoveReadPos_def smod_nonneg rb_wf_def)

lemma rb_Read_correct:
  assumes wf: "rb_wf b" and "0 \<le> n"
  shows "\<exists>b'. rb_Read b n = (take (nat n) (rb_abs b), min (rb_GetUseSize b) n, b') \<and> rb_wf b' \<and>
     rb_abs b' = drop (nat n) (rb_abs b) \<and> rb_mMaxBufferSize b' = rb_mMaxBufferSize b"
proof -
  let ?k = "min (rb_GetUseSize b) n"
  have k: "0 \<le> ?k" "?k \<le> rb_GetUseSize b" using rb_use_bounds [OF wf] assms(2) by auto
  have "drop (nat ?k) (rb_abs b) = drop (nat n) (rb_abs b)"
    using length_rb_abs [OF wf] by (cases "n \<le> rb_GetUseSize b") (auto simp: min_def)
  then show ?thesis
    using rb_Read_Peek [OF wf, of n] rb_Peek_correct [OF assms] rb_Move_wf(1) [OF wf k(1)]
      rb_MoveReadPos_abs [OF wf k]
    by (simp add: rb_MoveReadPos_def)
qed

subsection \<open>Writing\<close>

text \<open>
  Both branches of \<open>Write\<close> store byte \<open>k\<close> of the data at the \<open>k\<close>-th free cell and leave the
  cells that hold unread bytes alone.
\<close>

definition rb_written :: "NetReceiveBuffer \<Rightarrow> byte list \<Rightarrow> int \<Rightarrow> byte list \<Rightarrow> bool" where
  "rb_written b pData n buf \<longleftrightarrow> length buf = length (rb_mpBuffer b) \<and>
     (\<forall>j. 0 \<le> j \<and> j < rb_mMaxBufferSize b \<longrightarrow> buf ! nat j =
        (let d = (j - rb_mWritePos b) mod rb_mMaxBufferSize b in
         if d < n then pData ! nat d else rb_mpBuffer b ! nat j))"

lemma rb_mod_dist:
  assumes "rb_wf b" "0 \<le> j" "j < rb_mMaxBufferSize b"
  shows "(j - rb_mWritePos b) mod rb_mMaxBufferSize b =
    (if rb_mWritePos b \<le> j then j - rb_mWritePos b
     else j - rb_mWritePos b + rb_mMaxBufferSize b)"
  using assms rb_wfD [OF assms(1)]
  by (subst mod_add_self2 [symmetric], subst mod_once) auto

lemma rb_written_linear:
  assumes wf: "rb_wf b" and n: "0 \<le> n" "n + rb_mWritePos b \<le> rb_mMaxBufferSize b"
    and len: "nat n \<le> length pData"
  shows "rb_written b pData n (copy_n pData n (rb_mpBuffer b) (rb_mWritePos b))"
proof -
  note bounds = rb_wfD [OF wf]
  have "copy_n pData n (rb_mpBuffer b) (rb_mWritePos b) ! nat j =
      (let d = (j - rb_mWritePos b) mod rb_mMaxBufferSize b in
       if d < n then pData ! nat d else rb_mpBuffer b ! nat j)"
    if j: "0 \<le> j" "j < rb_mMaxBufferSize b" for j
    using bounds n len j unfolding rb_mod_dist [OF wf j]
    by (subst nth_copy_n) (auto simp: Let_def)
  then show ?thesis using bounds n by (simp add: rb_written_def)
qed

lemma rb_written_wrapped:
  assumes wf: "rb_wf b" and n: "rb_mMaxBufferSize b \<le> n + rb_mWritePos b" "n < rb_mMaxBufferSize b"
    and len: "nat n \<le> length pData" and l: "l = rb_mMaxBufferSize b - rb_mWritePos b"
  shows "rb_written b pData n
    (copy_n (drop (nat l) pData) (n - l) (copy_n pData l (rb_mpBuffer b) (rb_mWritePos b)) 0)"
proof -
  note bounds = rb_wfD [OF wf]
  let ?buf1 = "copy_n pData l (rb_mpBuffer b) (rb_mWritePos b)"
  have l': "0 < l" "l \<le> n" "nat l \<le> length pData" using bounds n len l by auto
  have len1: "length ?buf1 = length (rb_mpBuffer b)" using bounds l l' by simp
  have "copy_n (drop (nat l) pData) (n - l) ?buf1 0 ! nat j =
      (let d = (j - rb_mWritePos b) mod rb_mMaxBufferSize b in
       if d < n then pData ! nat d else rb_mpBuffer b ! nat j)"
    if j: "0 \<le> j" "j < rb_mMaxBufferSize b" for j
  proof -
    have 1: "copy_n (drop (nat l) pData) (n - l) ?buf1 0 ! nat j =
        (if j < n - l then pData ! nat (l + j) else ?buf1 ! nat j)"
      using bounds n len j len1 l l' by (subst nth_copy_n) (auto simp: nat_add_distrib)
    have 2: "?buf1 ! nat j =
        (if rb_mWritePos b \<le> j then pData ! nat (j - rb_mWritePos b) else rb_mpBuffer b ! nat j)"
      using bounds n len j l l' by (subst nth_copy_n) auto
    have 3: "l + j = j - rb_mWritePos b + rb_mMaxBufferSize b" using l by simp
    show ?thesis
      unfolding rb_mod_dist [OF wf j] 1 2 3 using bounds n l j by (auto simp: Let_def)
  qed
  then show ?thesis using len1 bounds n l l' by (simp add: rb_written_def)
qed

lemma rb_written_abs:
  assumes wf: "rb_wf b" and n: "0 \<le> n" "n \<le> rb_GetFreeSize b" and len: "nat n \<le> length pData"
    and w: "rb_written b pData n buf"
  defines "b' \<equiv> rb_MoveWritePos (b\<lparr>rb_mpBuffer := buf\<rparr>) n"
  shows "rb_wf b' \<and> rb_abs b' = rb_abs b @ take (nat n) pData"
proof -
  let ?m = "rb_mMaxBufferSize b" and ?u = "rb_GetUseSize b" and ?r = "rb_mReadPos b"
  let ?b = "b\<lparr>rb_mpBuffer := buf\<rparr>"
  note bounds = rb_wfD [OF wf] rb_use_bounds [OF wf] rb_free_use [of b]
  have wf1: "rb_wf ?b" using wf w by (simp add: rb_wf_def rb_written_def)
  have same: "rb_GetFreeSize ?b = rb_GetFreeSize b" "rb_GetUseSize ?b = ?u"
    by (simp_all add: access_simps)
  have use: "rb_GetUseSize b' = ?u + n"
    unfolding b'_def using rb_MoveWritePos_use [OF wf1 n(1)] n(2) same by simp
  have wf': "rb_wf b'" unfolding b'_def by (intro inv_intros wf1 n)
  have cell: "rb_mpBuffer b' ! nat ((?r + int k) mod ?m) =
      (if int k < ?u then rb_mpBuffer b ! nat ((?r + int k) mod ?m) else pData ! nat (int k - ?u))"
    if k: "int k < ?u + n" for k
  proof -
    have "((?r + int k) mod ?m - rb_mWritePos b) mod ?m
        = (int k - (rb_mWritePos b - ?r) mod ?m) mod ?m"
      by (simp add: mod_simps algebra_simps)
    also have "\<dots> = (int k - ?u) mod ?m" by (simp add: rb_use_mod [OF wf])
    also have "\<dots> = (if int k < ?u then int k - ?u + ?m else int k - ?u)"
      using k n bounds by (subst mod_add_self2 [symmetric], subst mod_once) auto
    finally have d: "((?r + int k) mod ?m - rb_mWritePos b) mod ?m
        = (if int k < ?u then int k - ?u + ?m else int k - ?u)" .
    have "buf ! nat ((?r + int k) mod ?m) =
        (let d = ((?r + int k) mod ?m - rb_mWritePos b) mod ?m in
         if d < n then pData ! nat d else rb_mpBuffer b ! nat ((?r + int k) mod ?m))"
      using w bounds by (auto simp: rb_written_def)
    then show ?thesis
      unfolding b'_def d using k n bounds by (auto simp: Let_def rb_MoveWritePos_def)
  qed
  have fields: "rb_mReadPos b' = ?r" "rb_mMaxBufferSize b' = ?m"
    by (simp_all add: b'_def rb_MoveWritePos_def)
  have "rb_abs b' = rb_abs b @ take (nat n) pData"
  proof (rule nth_equalityI)
    show "length (rb_abs b') = length (rb_abs b @ take (nat n) pData)"
      using use bounds n len by (simp add: rb_abs_def nat_add_distrib)
    fix k assume "k < length (rb_abs b')"
    then have k: "int k < ?u + n" using length_rb_abs [OF wf'] use by simp
    then have "rb_abs b' ! k = rb_mpBuffer b' ! nat ((?r + int k) mod ?m)"
      using use by (subst rb_abs_def, subst nth_map) (auto simp: fields)
    moreover have "nat (int k - ?u) = k - nat ?u" using bounds by arith
    ultimately show "rb_abs b' ! k = (rb_abs b @ take (nat n) pData) ! k"
      using k cell [OF k] bounds len by (auto simp: rb_abs_def nth_append)
  qed
  then show ?thesis using wf' by simp
qed

lemma rb_Write_shape:
  assumes wf: "rb_wf b" and "0 \<le> n" and len: "nat n \<le> length pData"
  shows "\<exists>buf. rb_written b pData (min (rb_GetFreeSize b) n) buf \<and>
    rb_Write b pData n = (min (rb_GetFreeSize b) n,
      rb_MoveWritePos (b\<lparr>rb_mpBuffer := buf\<rparr>) (min (rb_GetFreeSize b) n))"
proof -
  let ?k = "min (rb_GetFreeSize b) n"
  note bounds = rb_wfD [OF wf] rb_free_bounds [OF wf]
  have k: "0 \<le> ?k" "nat ?k \<le> length pData" "?k < rb_mMaxBufferSize b" using bounds assms by auto
  consider "?k = 0" | "?k \<noteq> 0" "?k + rb_mWritePos b < rb_mMaxBufferSize b"
    | "?k \<noteq> 0" "rb_mMaxBufferSize b \<le> ?k + rb_mWritePos b" by linarith
  then show ?thesis
  proof cases
    case 1
    have "\<not> j mod rb_mMaxBufferSize b < 0" for j using bounds by (simp add: not_less)
    then have "rb_written b pData ?k (rb_mpBuffer b)"
      using 1 by (simp add: rb_written_def Let_def)
    moreover have "rb_MoveWritePos (b\<lparr>rb_mpBuffer := rb_mpBuffer b\<rparr>) 0 = b"
      using bounds by (simp add: rb_MoveWritePos_def smod_nonneg)
    ultimately show ?thesis using 1 by (auto simp: rb_Write_def)
  next
    case 2
    then show ?thesis
      using rb_written_linear [OF wf k(1) _ k(2)] by (auto simp: rb_Write_def Let_def)
  next
    case 3
    then have "rb_GetLinearWriteSize b = rb_mMaxBufferSize b - rb_mWritePos b"
      using bounds assms(2) by (auto simp: access_simps split: if_splits)
    then show ?thesis
      using 3 rb_written_wrapped [OF wf 3(2) k(3,2)] by (auto simp: rb_Write_def Let_def)
  qed
qed

lemma rb_Write_correct:
  assumes wf: "rb_wf b" and n: "0 \<le> n" and len: "nat n \<le> length pData"
  shows "\<exists>b'. rb_Write b pData n = (min (rb_GetFreeSize b) n, b') \<and> rb_wf b' \<and>
     rb_abs b' = rb_abs b @ take (nat (min (rb_GetFreeSize b) n)) pData \<and>
     rb_mMaxBufferSize b' = rb_mMaxBufferSize b"
proof -
  let ?k = "min (rb_GetFreeSize b) n"
  have k: "0 \<le> ?k" "?k \<le> rb_GetFreeSize b" "nat ?k \<le> length pData"
    using rb_free_bounds [OF wf] n len by auto
  from rb_Write_shape [OF assms] obtain buf where "rb_written b pData ?k buf"
    "rb_Write b pData n = (?k, rb_MoveWritePos (b\<lparr>rb_mpBuffer := buf\<rparr>) ?k)" by blast
  then show ?thesis using rb_written_abs [OF wf k] by (auto simp: rb_MoveWritePos_def)
qed

subsection \<open>Receiving into the two free runs\<close>

text \<open>
  \<open>Receiver::Register\<close> hands the system the linear free run at the write position and, when
  there is more room, the run from index 0; the completed receive has filled them in this
  order with \<open>n\<close> bytes, and \<open>MoveWritePos n\<close> takes them into the buffer.
\<close>

definition rb_fill :: "NetReceiveBuffer \<Rightarrow> byte list \<Rightarrow> NetReceiveBuffer" where
  "rb_fill b bytes =
     (let l = rb_GetLinearWriteSize b; n = int (length bytes) in
      b\<lparr>rb_mpBuffer :=
          copy_n (drop (nat l) bytes) (n - l)
            (copy_n bytes (min l n) (rb_mpBuffer b) (rb_GetWritePtr b)) (rb_GetBufferPtr b)\<rparr>)"

lemma rb_fill_written:
  assumes wf: "rb_wf b" and n: "int (length bytes) \<le> rb_GetFreeSize b"
  shows "rb_written b bytes (int (length bytes)) (rb_mpBuffer (rb_fill b bytes))"
proof -
  let ?n = "int (length bytes)" and ?l = "rb_GetLinearWriteSize b"
  note bounds = rb_wfD [OF wf] rb_free_bounds [OF wf]
  show ?thesis
  proof (cases "?n \<le> ?l")
    case True
    then have "?n + rb_mWritePos b \<le> rb_mMaxBufferSize b"
      using bounds n by (auto simp: access_simps split: if_splits)
    then show ?thesis
      using rb_written_linear [OF wf, of ?n bytes] True
      by (simp add: rb_fill_def Let_def min_def access_simps(6,7))
  next
    case False
    then have l: "?l = rb_mMaxBufferSize b - rb_mWritePos b"
      using bounds n by (auto simp: access_simps split: if_splits)
    then show ?thesis
      using rb_written_wrapped [OF wf, of ?n bytes ?l] False bounds n
      by (simp add: rb_fill_def Let_def min_def access_simps(5,7))
  qed
qed

lemma rb_fill_correct:
  assumes wf: "rb_wf b" and n: "int (length bytes) \<le> rb_GetFreeSize b"
  defines "b' \<equiv> rb_MoveWritePos (rb_fill b bytes) (int (length bytes))"
  shows "rb_wf b' \<and> rb_abs b' = rb_abs b @ bytes \<and> rb_mMaxBufferSize b' = rb_mMaxBufferSize b"
proof -
  have "rb_fill b bytes = b\<lparr>rb_mpBuffer := rb_mpBuffer (rb_fill b bytes)\<rparr>"
    by (simp add: rb_fill_def Let_def)
  then show ?thesis
    using rb_written_abs [OF wf _ n _ rb_fill_written [OF wf n]]
    unfolding b'_def by (metis (no_types, lifting) NetReceiveBuffer.select_convs(1)
      NetReceiveBuffer.surjective NetReceiveBuffer.update_convs(3,4) nat_int of_nat_0_le_iff
      order_refl rb_MoveWritePos_def take_all)
qed

subsection \<open>The contract of a byte ring\<close>

datatype ring_op = Ring_Write "byte list" | Ring_Read nat

fun ring_run :: "('b \<Rightarrow> byte list \<Rightarrow> int \<Rightarrow> int \<times> 'b) \<Rightarrow> ('b \<Rightarrow> int \<Rightarrow> byte list \<times> int \<times> 'b)
    \<Rightarrow> 'b \<Rightarrow> ring_op list \<Rightarrow> byte list \<times> byte list \<times> 'b" where
  "ring_run wr rd b [] = ([], [], b)"
| "ring_run wr rd b (Ring_Write bs # ops) =
     (let (k, b1) = wr b bs (int (length bs)); (ins, outs, b2) = ring_run wr rd b1 ops
      in (take (nat k) bs @ ins, outs, b2))"
| "ring_run wr rd b (Ring_Read n # ops) =
     (let (bs, _, b1) = rd b (int n); (ins, outs, b2) = ring_run wr rd b1 ops
      in (ins, bs @ outs, b2))"

locale byte_ring =
  fixes wf :: "'b \<Rightarrow> bool" and bytes_of :: "'b \<Rightarrow> byte list" and free :: "'b \<Rightarrow> int"
    and wr :: "'b \<Rightarrow> byte list \<Rightarrow> int \<Rightarrow> int \<times> 'b"
    and rd :: "'b \<Rightarrow> int \<Rightarrow> byte list \<times> int \<times> 'b"
  assumes wr_law: "wf b \<Longrightarrow> \<exists>b'. wr b bs (int (length bs)) = (min (free b) (int (length bs)), b') \<and>
      wf b' \<and> bytes_of b' = bytes_of b @ take (nat (min (free b) (int (length bs)))) bs"
    and rd_law: "wf b \<Longrightarrow> \<exists>k b'. rd b (int n) = (take n (bytes_of b), k, b') \<and>
      wf b' \<and> bytes_of b' = drop n (bytes_of b)"
begin

text \<open>Bytes leave in the order they were accepted: none is lost, repeated or reordered.\<close>

lemma run_fifo:
  "wf b \<Longrightarrow> ring_run wr rd b ops = (ins, outs, b') \<Longrightarrow>
     wf b' \<and> bytes_of b @ ins = outs @ bytes_of b'"
proof (induction ops arbitrary: b ins outs)
  case Nil
  then show ?case by simp
next
  case (Cons a ops)
  show ?case
  proof (cases a)
    case (Ring_Write bs)
    then show ?thesis
      using Cons wr_law [OF Cons.prems(1), of bs] by (fastforce split: prod.splits)
  next
    case (Ring_Read n)
    obtain k b1 where rd: "rd b (int n) = (take n (bytes_of b), k, b1)" "wf b1"
      "bytes_of b1 = drop n (bytes_of b)" using rd_law [OF Cons.prems(1)] by blast
    obtain outs' where "ring_run wr rd b1 ops = (ins, outs', b')" "outs = take n (bytes_of b) @ outs'"
      using Cons.prems(2) Ring_Read rd(1) by (auto split: prod.splits)
    with Cons.IH [OF rd(2)] rd(3) show ?thesis by (metis append.assoc append_take_drop_id)
  qed
qed

end

interpretation recv_ring: byte_ring rb_wf rb_abs rb_GetFreeSize rb_Write rb_Read
proof unfold_locales
  fix b bs
  assume "rb_wf b"
  then show "\<exists>b'. rb_Write b bs (int (length bs)) = (min (rb_GetFreeSize b) (int (length bs)), b') \<and>
      rb_wf b' \<and> rb_abs b' = rb_abs b @ take (nat (min (rb_GetFreeSize b) (int (length bs)))) bs"
    using rb_Write_correct [of b "int (length bs)" bs] by auto
next
  fix b n
  assume "rb_wf b"
  then show "\<exists>k b'. rb_Read b (int n) = (take n (rb_abs b), k, b') \<and>
      rb_wf b' \<and> rb_abs b' = drop n (rb_abs b)"
    using rb_Read_correct [of b "int n"] by auto
qed

subsection \<open>Properties\<close>

text \<open>C9: A receive buffer is a first-in first-out byte stream: after any sequence of \<open>Write\<close> and
  \<open>Read\<close> calls on a new buffer, the bytes accepted are the bytes delivered followed by the bytes
  still held, across every wrap of the positions.\<close>

theorem receive_buffer_is_a_byte_stream:
  assumes "0 < maxSize" and "int (length mem) = maxSize + 1"
    and "ring_run rb_Write rb_Read (rb_new maxSize mem) ops = (ins, outs, b)"
  shows "rb_wf b \<and> ins = outs @ rb_abs b"
  using recv_ring.run_fifo [OF rb_new_wf [OF assms(1,2)] assms(3)] by (simp add: rb_new_abs)

theorem receive_buffer_is_a_byte_stream_witness:
  "\<exists>ins outs b. ring_run rb_Write rb_Read (rb_new 4 (replicate 5 0))
       [Ring_Write [1, 2, 3], Ring_Read 2, Ring_Write [4, 5]] = (ins, outs, b) \<and>
     rb_wf b \<and> ins = outs @ rb_abs b"
proof -
  obtain ins outs b where r: "ring_run rb_Write rb_Read (rb_new 4 (replicate 5 0))
       [Ring_Write [1, 2, 3], Ring_Read 2, Ring_Write [4, 5]] = (ins, outs, b)"
    by (metis prod_cases3)
  from receive_buffer_is_a_byte_stream [OF _ _ r] r show ?thesis by simp
qed

text \<open>\<open>Write\<close> accepts as many bytes as fit, reports their number and appends exactly those,
  whether or not the copy wraps; the buffer never holds more than \<open>maxSize - 1\<close> bytes.\<close>

theorem write_appends_what_fits:
  assumes "rb_wf b" and "0 \<le> n" and "nat n \<le> length pData"
  shows "\<exists>b'. rb_Write b pData n = (min (rb_GetFreeSize b) n, b') \<and> rb_wf b' \<and>
     rb_abs b' = rb_abs b @ take (nat (min (rb_GetFreeSize b) n)) pData \<and>
     int (length (rb_abs b')) \<le> rb_mMaxBufferSize b - 1"
proof -
  from rb_Write_correct [OF assms] obtain b' where b': "rb_Write b pData n = (min (rb_GetFreeSize b) n, b')"
    "rb_wf b'" "rb_abs b' = rb_abs b @ take (nat (min (rb_GetFreeSize b) n)) pData"
    "rb_mMaxBufferSize b' = rb_mMaxBufferSize b" by blast
  then show ?thesis using length_rb_abs [OF b'(2)] rb_use_bounds [OF b'(2)] by auto
qed

theorem write_appends_what_fits_witness:
  "\<exists>b'. rb_Write (rb_new 4 (replicate 5 0)) [9, 8, 7, 6, 5] 5
      = (min (rb_GetFreeSize (rb_new 4 (replicate 5 0))) 5, b') \<and> rb_wf b' \<and>
     rb_abs b' = rb_abs (rb_new 4 (replicate 5 0)) @
       take (nat (min (rb_GetFreeSize (rb_new 4 (replicate 5 0))) 5)) [9, 8, 7, 6, 5] \<and>
     int (length (rb_abs b')) \<le> rb_mMaxBufferSize (rb_new 4 (replicate 5 0)) - 1"
  by (rule write_appends_what_fits) (simp_all add: rb_new_wf)

text \<open>A completed receive is an append: filling the two free runs that are handed to the system
  with \<open>n\<close> bytes and then calling \<open>MoveWritePos n\<close> leaves the buffer that holds its old bytes
  followed by the received ones, as long as \<open>n\<close> is at most the free size.\<close>

theorem receive_into_free_runs_appends:
  assumes "rb_wf b" and "int (length bytes) \<le> rb_GetFreeSize b"
  shows "rb_wf (rb_MoveWritePos (rb_fill b bytes) (int (length bytes))) \<and>
    rb_abs (rb_MoveWritePos (rb_fill b bytes) (int (length bytes))) = rb_abs b @ bytes"
  using rb_fill_correct [OF assms] by simp

theorem receive_into_free_runs_appends_witness:
  "rb_wf (rb_MoveWritePos (rb_fill (rb_new 4 (replicate 5 0)) [1, 2, 3]) (int (length [1 :: byte, 2, 3]))) \<and>
   rb_abs (rb_MoveWritePos (rb_fill (rb_new 4 (replicate 5 0)) [1, 2, 3]) (int (length [1 :: byte, 2, 3])))
     = rb_abs (rb_new 4 (replicate 5 0)) @ [1, 2, 3]"
  by (rule receive_into_free_runs_appends) (simp_all add: rb_new_wf, simp add: rb_new_def access_simps)



end
