(* ===== verification/Timing_Wheel.thy ===== *)
theory Timing_Wheel
  imports Engine_Prelude
begin

text \<open>
  TimingWheel and TimerHandle (TimingWheel.h, TimingWheel.cpp): the three-level hierarchical
  timing wheel of the actor scheduler. Ticks are \<open>uint64\<close> words, buckets are lists, a
  cancellation flag is the address of its shared \<open>atomic<bool>\<close>, and a callback is any value
  \<open>'cb\<close>. The abstraction \<open>tw_abs\<close> is the multiset of pending nodes; a tick is shown to
  remove exactly the nodes that expire at the current tick.
\<close>

subsection \<open>Constants, nodes and the wheel\<close>

definition LEVEL0_BITS :: nat where "LEVEL0_BITS = 8"
definition LEVEL1_BITS :: nat where "LEVEL1_BITS = 8"
definition LEVEL2_BITS :: nat where "LEVEL2_BITS = 7"

definition LEVEL0_SIZE :: uint32 where "LEVEL0_SIZE = push_bit LEVEL0_BITS 1"
definition LEVEL1_SIZE :: uint32 where "LEVEL1_SIZE = push_bit LEVEL1_BITS 1"
definition LEVEL2_SIZE :: uint32 where "LEVEL2_SIZE = push_bit LEVEL2_BITS 1"

definition LEVEL0_MASK :: uint32 where "LEVEL0_MASK = LEVEL0_SIZE - 1"
definition LEVEL1_MASK :: uint32 where "LEVEL1_MASK = LEVEL1_SIZE - 1"
definition LEVEL2_MASK :: uint32 where "LEVEL2_MASK = LEVEL2_SIZE - 1"

definition DEFAULT_TICK_INTERVAL :: uint64 where "DEFAULT_TICK_INTERVAL = 16"

lemmas level_defs = LEVEL0_BITS_def LEVEL1_BITS_def LEVEL2_BITS_def
  LEVEL0_SIZE_def LEVEL1_SIZE_def LEVEL2_SIZE_def LEVEL0_MASK_def LEVEL1_MASK_def LEVEL2_MASK_def

type_synonym flag_addr = nat
type_synonym cancel_flags = "flag_addr \<Rightarrow> bool"

text \<open>\<open>TimerHandle::Cancel\<close> through a handle whose flag pointer may be null.\<close>

definition th_Cancel :: "flag_addr option \<Rightarrow> cancel_flags \<Rightarrow> cancel_flags" where
  "th_Cancel handle flags = (case handle of None \<Rightarrow> flags | Some f \<Rightarrow> flags(f := True))"

text \<open>The constructor of a handle allocates its flag, at \<open>f\<close>.\<close>

definition th_new :: "flag_addr \<Rightarrow> cancel_flags \<Rightarrow> flag_addr option \<times> cancel_flags" where
  "th_new f flags = (Some f, flags(f := False))"

definition th_GetCancelFlag :: "flag_addr option \<Rightarrow> flag_addr option" where
  [simp]: "th_GetCancelFlag handle = handle"

record 'cb TimingNode =
  tn_mExpireTick :: uint64
  tn_mpCancelFlag :: "flag_addr option"
  tn_mpCallback :: "'cb option"

definition tn_new :: "uint64 \<Rightarrow> flag_addr option \<Rightarrow> 'cb option \<Rightarrow> 'cb TimingNode" where
  [simp]: "tn_new expireTick pCancelFlag pCallback =
     \<lparr>tn_mExpireTick = expireTick, tn_mpCancelFlag = pCancelFlag, tn_mpCallback = pCallback\<rparr>"

definition tn_GetExpiredTick :: "'cb TimingNode \<Rightarrow> uint64" where
  [simp]: "tn_GetExpiredTick node = tn_mExpireTick node"

text \<open>\<open>Execute\<close> returns the callback it invokes, if it invokes one.\<close>

definition tn_Execute :: "cancel_flags \<Rightarrow> 'cb TimingNode \<Rightarrow> 'cb option" where
  "tn_Execute flags node =
     (case tn_mpCancelFlag node of
        None \<Rightarrow> None
      | Some f \<Rightarrow> if flags f then None else tn_mpCallback node)"

record 'cb TimingWheel =
  tw_mbTicking :: bool
  tw_mTickIntervalMs :: uint64
  tw_mCurrentTick :: uint64
  tw_mLastTickTime :: int
  tw_mWheel0 :: "'cb TimingNode list list"
  tw_mWheel1 :: "'cb TimingNode list list"
  tw_mWheel2 :: "'cb TimingNode list list"

text \<open>Clock readings (\<open>steady_clock\<close>) are integers of nanoseconds.\<close>

definition tw_new :: "uint64 \<Rightarrow> int \<Rightarrow> 'cb TimingWheel" where
  "tw_new tickInterval now =
     \<lparr>tw_mbTicking = False, tw_mTickIntervalMs = max tickInterval DEFAULT_TICK_INTERVAL,
      tw_mCurrentTick = 0, tw_mLastTickTime = now,
      tw_mWheel0 = replicate (unat LEVEL0_SIZE) [],
      tw_mWheel1 = replicate (unat LEVEL1_SIZE) [],
      tw_mWheel2 = replicate (unat LEVEL2_SIZE) []\<rparr>"

definition tw_GetMaxDelayMs :: "'cb TimingWheel \<Rightarrow> uint64" where
  "tw_GetMaxDelayMs w =
     tw_mTickIntervalMs w * ucast LEVEL0_SIZE * ucast LEVEL1_SIZE * ucast LEVEL2_SIZE"

subsection \<open>Filing a node, cascading a bucket, processing a tick\<close>

definition push_back :: "'a list list \<Rightarrow> nat \<Rightarrow> 'a \<Rightarrow> 'a list list" where
  "push_back wheel i node = wheel[i := wheel ! i @ [node]]"

definition tw_addNode :: "'cb TimingNode \<Rightarrow> 'cb TimingWheel \<Rightarrow> 'cb TimingWheel" where
  "tw_addNode node w =
     (let expire = tn_mExpireTick node; delay = expire - tw_mCurrentTick w in
      if delay < ucast LEVEL0_SIZE then
        w\<lparr>tw_mWheel0 := push_back (tw_mWheel0 w) (unat (expire AND ucast LEVEL0_MASK)) node\<rparr>
      else if delay < ucast (push_bit LEVEL1_BITS LEVEL0_SIZE) then
        w\<lparr>tw_mWheel1 := push_back (tw_mWheel1 w)
            (unat (drop_bit LEVEL0_BITS expire AND ucast LEVEL1_MASK)) node\<rparr>
      else
        w\<lparr>tw_mWheel2 := push_back (tw_mWheel2 w)
            (unat (drop_bit (LEVEL0_BITS + LEVEL1_BITS) expire AND ucast LEVEL2_MASK)) node\<rparr>)"

text \<open>
  \<open>cascade\<close> receives a reference to a bucket; the bucket is named by its level and index.
\<close>

datatype bucket = Bucket1 nat | Bucket2 nat

fun bucket_nodes :: "bucket \<Rightarrow> 'cb TimingWheel \<Rightarrow> 'cb TimingNode list" where
  "bucket_nodes (Bucket1 i) w = tw_mWheel1 w ! i"
| "bucket_nodes (Bucket2 i) w = tw_mWheel2 w ! i"

fun bucket_empty :: "bucket \<Rightarrow> 'cb TimingWheel \<Rightarrow> 'cb TimingWheel" where
  "bucket_empty (Bucket1 i) w = w\<lparr>tw_mWheel1 := (tw_mWheel1 w)[i := []]\<rparr>"
| "bucket_empty (Bucket2 i) w = w\<lparr>tw_mWheel2 := (tw_mWheel2 w)[i := []]\<rparr>"

definition tw_cascade :: "bucket \<Rightarrow> 'cb TimingWheel \<Rightarrow> 'cb TimingWheel" where
  "tw_cascade bucket w = fold tw_addNode (bucket_nodes bucket w) (bucket_empty bucket w)"

definition tw_cascades :: "'cb TimingWheel \<Rightarrow> 'cb TimingWheel" where
  "tw_cascades w =
     (let depth0 = (ucast (tw_mCurrentTick w AND ucast LEVEL0_MASK) :: uint32) in
      if depth0 = 0 \<and> tw_mCurrentTick w > 0 then
        (let depth1 = (ucast (drop_bit LEVEL0_BITS (tw_mCurrentTick w) AND ucast LEVEL1_MASK) :: uint32);
             w1 = tw_cascade (Bucket1 (unat depth1)) w
         in if depth1 = 0 then
              (let depth2 = (ucast (drop_bit (LEVEL0_BITS + LEVEL1_BITS) (tw_mCurrentTick w)
                                     AND ucast LEVEL2_MASK) :: uint32)
               in tw_cascade (Bucket2 (unat depth2)) w1)
            else w1)
      else w)"

definition tw_processTick ::
  "'cb TimingWheel \<Rightarrow> 'cb TimingNode list \<Rightarrow> 'cb TimingWheel \<times> 'cb TimingNode list" where
  "tw_processTick w outExecuteList =
     (let depth0 = (ucast (tw_mCurrentTick w AND ucast LEVEL0_MASK) :: uint32);
          w1 = tw_cascades w
      in (w1\<lparr>tw_mWheel0 := (tw_mWheel0 w1)[unat depth0 := []]\<rparr>,
          outExecuteList @ tw_mWheel0 w1 ! unat depth0))"

subsection \<open>The public operations\<close>

datatype timer_error = Bad_Function_Call

text \<open>
  \<open>AddTiming\<close>: \<open>f\<close> is the address of the flag that the new handle allocates. The result is
  the callback invoked on the spot, when the delay is 0, and the wheel; calling an empty
  \<open>std::function\<close> throws.
\<close>

definition tw_AddTiming :: "'cb option \<Rightarrow> uint64 \<Rightarrow> flag_addr \<Rightarrow> 'cb TimingWheel
    \<Rightarrow> timer_error + ('cb option \<times> 'cb TimingWheel)" where
  "tw_AddTiming pCallback delayMs f w =
     (if delayMs = 0 then
        (case pCallback of None \<Rightarrow> Inl Bad_Function_Call | Some cb \<Rightarrow> Inr (Some cb, w))
      else
        (let safeDelayMs = min delayMs (tw_GetMaxDelayMs w);
             delayTicks = safeDelayMs div tw_mTickIntervalMs w;
             node = tn_new (tw_mCurrentTick w + delayTicks) (th_GetCancelFlag (Some f)) pCallback
         in Inr (None, tw_addNode node w)))"

fun tw_ticks :: "nat \<Rightarrow> 'cb TimingWheel \<Rightarrow> 'cb TimingNode list \<Rightarrow> 'cb TimingWheel \<times> 'cb TimingNode list" where
  "tw_ticks 0 w out = (w, out)"
| "tw_ticks (Suc n) w out =
     (let (w1, out1) = tw_processTick w out
      in tw_ticks n (w1\<lparr>tw_mCurrentTick := tw_mCurrentTick w1 + 1\<rparr>) out1)"

text \<open>
  \<open>Tick\<close> returns the nodes it executes and the wheel. Its counter \<open>i\<close> is a \<open>uint32\<close>
  compared with a \<open>uint64\<close>: from \<open>2 ^ 32\<close> due ticks on the loop has no end, which is the
  value \<open>None\<close>.
\<close>

definition tw_Tick :: "int \<Rightarrow> 'cb TimingWheel \<Rightarrow> ('cb TimingNode list \<times> 'cb TimingWheel) option" where
  "tw_Tick now w =
     (if tw_mbTicking w then Some ([], w)
      else
        (let elapsedMs = (word_of_int ((now - tw_mLastTickTime w) sdiv 1000000) :: uint64) in
         if elapsedMs < tw_mTickIntervalMs w then Some ([], w\<lparr>tw_mbTicking := False\<rparr>)
         else
           (let tickCount = elapsedMs div tw_mTickIntervalMs w;
                w1 = w\<lparr>tw_mbTicking := True,
                  tw_mLastTickTime := tw_mLastTickTime w + uint (tickCount * tw_mTickIntervalMs w) * 1000000\<rparr>
            in if 2 ^ 32 \<le> unat tickCount then None
               else (let (w2, executeList) = tw_ticks (unat tickCount) w1 []
                     in Some (executeList, w2\<lparr>tw_mbTicking := False\<rparr>)))))"

text \<open>
  The callbacks of the collected nodes run outside the lock, one after the other: \<open>run\<close> is
  the effect of a callback on the state \<open>'st\<close> and \<open>flags\<close> reads the cancellation flags of a
  state, so that a callback may cancel a later node of the same batch.
\<close>

fun tn_execute_all :: "('cb \<Rightarrow> 'st \<Rightarrow> 'st) \<Rightarrow> ('st \<Rightarrow> cancel_flags) \<Rightarrow> 'cb TimingNode list \<Rightarrow> 'st \<Rightarrow> 'st" where
  "tn_execute_all run flags [] st = st"
| "tn_execute_all run flags (node # nodes) st =
     tn_execute_all run flags nodes
       (case tn_Execute (flags st) node of None \<Rightarrow> st | Some cb \<Rightarrow> run cb st)"

subsection \<open>The bucket indices as numbers\<close>

abbreviation expire :: "'cb TimingNode \<Rightarrow> nat" where
  "expire node \<equiv> unat (tn_mExpireTick node)"

abbreviation tick :: "('cb, 'a) TimingWheel_scheme \<Rightarrow> nat" where
  "tick w \<equiv> unat (tw_mCurrentTick w)"

lemma level_values:
  "LEVEL0_SIZE = 256" "LEVEL1_SIZE = 256" "LEVEL2_SIZE = 128"
  "LEVEL0_MASK = 255" "LEVEL1_MASK = 255" "LEVEL2_MASK = 127"
  "push_bit LEVEL1_BITS LEVEL0_SIZE = 65536"
  by (simp_all add: level_defs push_bit_eq_mult)

lemma mask_255: "(255 :: uint64) = mask 8" and mask_127: "(127 :: uint64) = mask 7"
  by (simp_all add: mask_eq_exp_minus_1)

lemma mask_casts:
  "(ucast LEVEL0_MASK :: uint64) = mask 8" "(ucast LEVEL1_MASK :: uint64) = mask 8"
  "(ucast LEVEL2_MASK :: uint64) = mask 7"
  by (simp_all add: level_values mask_255 [symmetric] mask_127 [symmetric])

lemma size_casts:
  "(ucast LEVEL0_SIZE :: uint64) = 256"
  "(ucast (push_bit LEVEL1_BITS LEVEL0_SIZE) :: uint64) = 65536"
  by (simp_all add: level_defs push_bit_eq_mult)

lemma slot0: "unat (t AND ucast LEVEL0_MASK) = unat t mod 256" for t :: uint64
  by (simp only: mask_casts unat_and_mask) simp

lemma slot1: "unat (drop_bit LEVEL0_BITS t AND ucast LEVEL1_MASK) = unat t div 256 mod 256" for t :: uint64
  by (simp only: mask_casts unat_and_mask unat_drop_bit_div LEVEL0_BITS_def) simp

lemma slot2: "unat (drop_bit (LEVEL0_BITS + LEVEL1_BITS) t AND ucast LEVEL2_MASK)
    = unat t div 65536 mod 128" for t :: uint64
  by (simp only: mask_casts unat_and_mask unat_drop_bit_div LEVEL0_BITS_def LEVEL1_BITS_def) simp

lemma small_mod: "0 < m \<Longrightarrow> m \<le> 2 ^ 32 \<Longrightarrow> n mod m < (2 :: nat) ^ 32"
  by (rule order.strict_trans2 [OF mod_less_divisor])

lemma depths:
  fixes t :: uint64
  shows "unat (ucast (t AND ucast LEVEL0_MASK) :: uint32) = unat t mod 256"
    and "unat (ucast (drop_bit LEVEL0_BITS t AND ucast LEVEL1_MASK) :: uint32) = unat t div 256 mod 256"
    and "unat (ucast (drop_bit (LEVEL0_BITS + LEVEL1_BITS) t AND ucast LEVEL2_MASK) :: uint32)
       = unat t div 65536 mod 128"
  by (subst unat_ucast32_small; simp only: slot0 slot1 slot2 small_mod; simp)+

lemma word_zero_iff: "x = 0 \<longleftrightarrow> unat x = 0" for x :: "'a::len word"
  by (simp add: unat_eq_0)

text \<open>A cascade step over numbers: which buckets are emptied at tick \<open>tick w\<close>.\<close>

lemma tw_cascades_nat:
  "tw_cascades w =
     (if tick w mod 256 = 0 \<and> 0 < tick w then
        (let w1 = tw_cascade (Bucket1 (tick w div 256 mod 256)) w
         in if tick w div 256 mod 256 = 0 then tw_cascade (Bucket2 (tick w div 65536 mod 128)) w1
            else w1)
      else w)"
  unfolding tw_cascades_def Let_def word_zero_iff depths word_less_nat_alt by simp

lemma tw_processTick_nat:
  "tw_processTick w out =
     (let w1 = tw_cascades w
      in (w1\<lparr>tw_mWheel0 := (tw_mWheel0 w1)[tick w mod 256 := []]\<rparr>,
          out @ tw_mWheel0 w1 ! (tick w mod 256)))"
  unfolding tw_processTick_def Let_def depths ..

lemma tw_addNode_nat:
  assumes "tick w \<le> expire n"
  shows "tw_addNode n w =
    (if expire n - tick w < 256 then
       w\<lparr>tw_mWheel0 := push_back (tw_mWheel0 w) (expire n mod 256) n\<rparr>
     else if expire n - tick w < 65536 then
       w\<lparr>tw_mWheel1 := push_back (tw_mWheel1 w) (expire n div 256 mod 256) n\<rparr>
     else w\<lparr>tw_mWheel2 := push_back (tw_mWheel2 w) (expire n div 65536 mod 128) n\<rparr>)"
proof -
  have "unat (tn_mExpireTick n - tw_mCurrentTick w) = expire n - tick w"
    using assms by (simp add: unat_sub word_le_nat_alt)
  then show ?thesis
    unfolding tw_addNode_def Let_def slot0 slot1 slot2 word_less_nat_alt size_casts by simp
qed

subsection \<open>The invariant of the wheel\<close>

text \<open>
  A node with expiry \<open>e\<close> sits at the current tick \<open>c\<close> in the level-0 bucket of \<open>e\<close> when it
  is due within 256 ticks, and otherwise in the bucket of \<open>e\<close> of a higher level whose next
  cascade, at the tick \<open>256 * (e div 256)\<close> or \<open>65536 * (e div 65536)\<close>, is still to come.
\<close>

definition filed0 :: "nat \<Rightarrow> nat \<Rightarrow> nat \<Rightarrow> bool" where
  "filed0 c i e \<longleftrightarrow> e mod 256 = i \<and> c \<le> e \<and> e < c + 256"

definition filed1 :: "nat \<Rightarrow> nat \<Rightarrow> nat \<Rightarrow> bool" where
  "filed1 c i e \<longleftrightarrow> e div 256 mod 256 = i \<and> c \<le> 256 * (e div 256) \<and> e < c + 65536 \<and> 256 \<le> e"

definition filed2 :: "nat \<Rightarrow> nat \<Rightarrow> nat \<Rightarrow> bool" where
  "filed2 c i e \<longleftrightarrow> e div 65536 mod 128 = i \<and> c \<le> 65536 * (e div 65536) \<and> e \<le> c + 2 ^ 23 \<and> 65536 \<le> e"

lemmas filed_defs = filed0_def filed1_def filed2_def

definition all_filed :: "(nat \<Rightarrow> nat \<Rightarrow> bool) \<Rightarrow> 'cb TimingNode list list \<Rightarrow> bool" where
  "all_filed P wheel \<longleftrightarrow> (\<forall>i < length wheel. \<forall>n \<in> set (wheel ! i). P i (expire n))"

definition tw_wf :: "'cb TimingWheel \<Rightarrow> bool" where
  "tw_wf w \<longleftrightarrow>
     length (tw_mWheel0 w) = 256 \<and> length (tw_mWheel1 w) = 256 \<and> length (tw_mWheel2 w) = 128 \<and>
     all_filed (filed0 (tick w)) (tw_mWheel0 w) \<and>
     all_filed (filed1 (tick w)) (tw_mWheel1 w) \<and>
     all_filed (filed2 (tick w)) (tw_mWheel2 w)"

definition past1 :: "'cb TimingWheel \<Rightarrow> bool" where
  "past1 w \<longleftrightarrow> all_filed (\<lambda>i e. tick w < 256 * (e div 256)) (tw_mWheel1 w)"

definition past2 :: "'cb TimingWheel \<Rightarrow> bool" where
  "past2 w \<longleftrightarrow> all_filed (\<lambda>i e. tick w < 65536 * (e div 65536)) (tw_mWheel2 w)"

definition tw_abs :: "'cb TimingWheel \<Rightarrow> 'cb TimingNode multiset" where
  "tw_abs w = mset (concat (tw_mWheel0 w)) + mset (concat (tw_mWheel1 w)) + mset (concat (tw_mWheel2 w))"

lemma all_filed_push:
  assumes "all_filed P wheel" "i < length wheel" "P i (expire n)"
  shows "all_filed P (push_back wheel i n)"
  using assms by (auto simp: all_filed_def push_back_def nth_list_update)

lemma all_filed_clear: "all_filed P wheel \<Longrightarrow> all_filed P (wheel[i := []])"
  by (cases "i < length wheel") (auto simp: all_filed_def nth_list_update split: if_splits)

lemma all_filed_mono:
  "all_filed P wheel \<Longrightarrow> (\<And>i e. i < length wheel \<Longrightarrow> P i e \<Longrightarrow> Q i e) \<Longrightarrow> all_filed Q wheel"
  by (auto simp: all_filed_def)

lemma all_filed_empty: "all_filed P (replicate k [])"
  by (simp add: all_filed_def)

lemma in_wheel: "n \<in># mset (concat wheel) \<longleftrightarrow> (\<exists>i < length wheel. n \<in> set (wheel ! i))"
  by simp (metis in_set_conv_nth)

lemma mset_push: "i < length wheel \<Longrightarrow> mset (concat (push_back wheel i n)) = add_mset n (mset (concat wheel))"
  by (simp add: push_back_def mset_concat_push)

lemma length_push [simp]: "length (push_back wheel i n) = length wheel"
  by (simp add: push_back_def)

lemma tw_new_wf [inv_intros]: "tw_wf (tw_new interval now)"
  by (simp add: tw_wf_def tw_new_def level_values all_filed_empty)

lemma tw_new_abs [abs_simps]: "tw_abs (tw_new interval now) = {#}"
  by (simp add: tw_abs_def tw_new_def)

subsection \<open>Filing preserves the invariant and adds one node\<close>

lemma filed1_delay:
  assumes "c \<le> e" "256 \<le> e - c" "e - c < 65536"
  shows "filed1 c (e div 256 mod 256) e" "c < 256 * (e div 256)"
proof -
  have "e = 256 * (e div 256) + e mod 256" "e mod 256 < 256" by simp_all
  with assms show "c < 256 * (e div 256)" by linarith
  moreover have "e < c + 65536" "256 \<le> e" using assms by linarith+
  ultimately show "filed1 c (e div 256 mod 256) e" by (simp add: filed1_def)
qed

lemma filed2_delay:
  assumes "c \<le> e" "65536 \<le> e - c" "e - c \<le> 2 ^ 23"
  shows "filed2 c (e div 65536 mod 128) e" "c < 65536 * (e div 65536)"
proof -
  have "e = 65536 * (e div 65536) + e mod 65536" "e mod 65536 < 65536" by simp_all
  with assms show "c < 65536 * (e div 65536)" by linarith
  moreover have "e \<le> c + 2 ^ 23" "65536 \<le> e" using assms by linarith+
  ultimately show "filed2 c (e div 65536 mod 128) e" by (simp add: filed2_def)
qed

definition due_in_range :: "nat \<Rightarrow> nat \<Rightarrow> bool" where
  "due_in_range c e \<longleftrightarrow> c \<le> e \<and> e \<le> c + 2 ^ 23"

lemma tw_addNode_tick [simp]: "tw_mCurrentTick (tw_addNode n w) = tw_mCurrentTick w"
  by (simp add: tw_addNode_def Let_def)

lemma tw_addNode_interval [simp]: "tw_mTickIntervalMs (tw_addNode n w) = tw_mTickIntervalMs w"
  by (simp add: tw_addNode_def Let_def)

lemma tw_addNode_wf [inv_intros]:
  assumes "tw_wf w" "due_in_range (tick w) (expire n)"
  shows "tw_wf (tw_addNode n w)"
proof -
  have le: "tick w \<le> expire n" using assms(2) by (simp add: due_in_range_def)
  have "filed0 (tick w) (expire n mod 256) (expire n)" if "expire n - tick w < 256"
    using le that by (simp add: filed0_def)
  then show ?thesis
    using assms le filed1_delay(1) [OF le] filed2_delay(1) [OF le]
    by (auto simp: tw_wf_def tw_addNode_nat [OF le] due_in_range_def intro!: all_filed_push)
qed

lemma tw_addNode_abs [abs_simps]:
  assumes "tw_wf w" "due_in_range (tick w) (expire n)"
  shows "tw_abs (tw_addNode n w) = add_mset n (tw_abs w)"
proof -
  have le: "tick w \<le> expire n" using assms(2) by (simp add: due_in_range_def)
  show ?thesis
    using assms(1) by (simp add: tw_addNode_nat [OF le] tw_abs_def tw_wf_def mset_push)
qed

lemma tw_addNode_past:
  assumes "tw_wf w" "due_in_range (tick w) (expire n)"
  shows "past1 w \<Longrightarrow> past1 (tw_addNode n w)" "past2 w \<Longrightarrow> past2 (tw_addNode n w)"
proof -
  have le: "tick w \<le> expire n" using assms(2) by (simp add: due_in_range_def)
  show "past1 w \<Longrightarrow> past1 (tw_addNode n w)"
    using assms(1) filed1_delay(2) [OF le]
    by (auto simp: past1_def tw_wf_def tw_addNode_nat [OF le] intro!: all_filed_push)
  show "past2 w \<Longrightarrow> past2 (tw_addNode n w)"
    using assms filed2_delay(2) [OF le]
    by (auto simp: past2_def tw_wf_def due_in_range_def tw_addNode_nat [OF le] intro!: all_filed_push)
qed

lemma fold_addNode:
  assumes "tw_wf w" "\<forall>n \<in> set ns. due_in_range (tick w) (expire n)"
  shows "tw_wf (fold tw_addNode ns w) \<and> tw_abs (fold tw_addNode ns w) = tw_abs w + mset ns \<and>
    tw_mCurrentTick (fold tw_addNode ns w) = tw_mCurrentTick w \<and>
    tw_mTickIntervalMs (fold tw_addNode ns w) = tw_mTickIntervalMs w \<and>
    (past1 w \<longrightarrow> past1 (fold tw_addNode ns w)) \<and> (past2 w \<longrightarrow> past2 (fold tw_addNode ns w))"
  using assms
proof (induction ns arbitrary: w)
  case Nil
  then show ?case by simp
next
  case (Cons n ns)
  then have n: "due_in_range (tick w) (expire n)" by simp
  from Cons.IH [of "tw_addNode n w"] Cons.prems tw_addNode_wf [OF Cons.prems(1) n]
    tw_addNode_abs [OF Cons.prems(1) n] tw_addNode_past [OF Cons.prems(1) n]
  show ?case by simp
qed

subsection \<open>Cascading\<close>

lemma bucket_empty_filed:
  assumes "tw_wf w"
  shows "tw_wf (bucket_empty bk w)"
    "past1 w \<Longrightarrow> past1 (bucket_empty bk w)" "past2 w \<Longrightarrow> past2 (bucket_empty bk w)"
  using assms by (cases bk; auto simp: tw_wf_def past1_def past2_def intro: all_filed_clear)+

lemma bucket_empty_tick [simp]:
  "tw_mCurrentTick (bucket_empty bk w) = tw_mCurrentTick w"
  "tw_mTickIntervalMs (bucket_empty bk w) = tw_mTickIntervalMs w"
  by (cases bk; simp)+

fun bucket_valid :: "bucket \<Rightarrow> bool" where
  "bucket_valid (Bucket1 i) = (i < 256)"
| "bucket_valid (Bucket2 i) = (i < 128)"

lemma bucket_empty_abs:
  "tw_wf w \<Longrightarrow> bucket_valid bk \<Longrightarrow>
     tw_abs (bucket_empty bk w) + mset (bucket_nodes bk w) = tw_abs w"
  using mset_concat_clear [of _ "tw_mWheel1 w"] mset_concat_clear [of _ "tw_mWheel2 w"]
  by (cases bk) (auto simp: tw_abs_def tw_wf_def add.assoc add.left_commute add.commute)

lemma filed_due: 
  "filed1 c i e \<Longrightarrow> due_in_range c e" "filed2 c i e \<Longrightarrow> due_in_range c e"
proof -
  have "256 * (e div 256) \<le> e" "65536 * (e div 65536) \<le> e" by simp_all
  then show "filed1 c i e \<Longrightarrow> due_in_range c e" "filed2 c i e \<Longrightarrow> due_in_range c e"
    by (auto simp: filed_defs due_in_range_def)
qed

lemma bucket_nodes_due:
  "tw_wf w \<Longrightarrow> bucket_valid bk \<Longrightarrow> \<forall>n \<in> set (bucket_nodes bk w). due_in_range (tick w) (expire n)"
  by (cases bk; auto simp: tw_wf_def all_filed_def; meson filed_due)

lemma tw_cascade_facts:
  assumes "tw_wf w" "bucket_valid bk"
  shows "tw_wf (tw_cascade bk w)" "tw_abs (tw_cascade bk w) = tw_abs w"
    "tw_mCurrentTick (tw_cascade bk w) = tw_mCurrentTick w"
    "tw_mTickIntervalMs (tw_cascade bk w) = tw_mTickIntervalMs w"
    "past1 (bucket_empty bk w) \<Longrightarrow> past1 (tw_cascade bk w)"
    "past2 (bucket_empty bk w) \<Longrightarrow> past2 (tw_cascade bk w)"
  using fold_addNode [OF bucket_empty_filed(1) [OF assms(1)], of "bucket_nodes bk w" bk]
    bucket_nodes_due [OF assms] bucket_empty_abs [OF assms]
  by (simp_all add: tw_cascade_def)

text \<open>
  At a tick \<open>c\<close> that is a multiple of 256, the nodes of level 1 whose cascade is due now all
  sit in bucket \<open>c div 256 mod 256\<close>; likewise for level 2 and multiples of 65536.
\<close>

lemma due_bucket1:
  assumes "filed1 c i e" "\<not> c < 256 * (e div 256)"
  shows "i = c div 256 mod 256" "c mod 256 = 0"
proof -
  have "c = 256 * (e div 256)" using assms by (simp add: filed1_def)
  then show "i = c div 256 mod 256" "c mod 256 = 0" using assms(1) by (simp_all add: filed1_def)
qed

lemma due_bucket2:
  assumes "filed2 c i e" "\<not> c < 65536 * (e div 65536)"
  shows "i = c div 65536 mod 128" "c mod 65536 = 0"
proof -
  have "c = 65536 * (e div 65536)" using assms by (simp add: filed2_def)
  then show "i = c div 65536 mod 128" "c mod 65536 = 0" using assms(1) by (simp_all add: filed2_def)
qed

lemma past1_after_clear:
  assumes "tw_wf w" shows "past1 (bucket_empty (Bucket1 (tick w div 256 mod 256)) w)"
  using assms due_bucket1(1)
  by (auto simp: past1_def all_filed_def tw_wf_def nth_list_update split: if_splits) blast

lemma past2_after_clear:
  assumes "tw_wf w" shows "past2 (bucket_empty (Bucket2 (tick w div 65536 mod 128)) w)"
  using assms due_bucket2(1)
  by (auto simp: past2_def all_filed_def tw_wf_def nth_list_update split: if_splits) blast

lemma past1_idle:
  assumes "tw_wf w" "\<not> (tick w mod 256 = 0 \<and> 0 < tick w)" shows "past1 w"
  unfolding past1_def
proof (rule all_filed_mono [where P = "filed1 (tick w)"])
  show "all_filed (filed1 (tick w)) (tw_mWheel1 w)" using assms by (simp add: tw_wf_def)
  fix i e assume f: "filed1 (tick w) i e"
  show "tick w < 256 * (e div 256)"
  proof (rule ccontr)
    assume "\<not> tick w < 256 * (e div 256)"
    from due_bucket1(2) [OF f this] assms(2) this f show False by (auto simp: filed1_def)
  qed
qed

lemma past2_idle:
  assumes "tw_wf w" "\<not> (tick w mod 65536 = 0 \<and> 0 < tick w)" shows "past2 w"
  unfolding past2_def
proof (rule all_filed_mono [where P = "filed2 (tick w)"])
  show "all_filed (filed2 (tick w)) (tw_mWheel2 w)" using assms by (simp add: tw_wf_def)
  fix i e assume f: "filed2 (tick w) i e"
  show "tick w < 65536 * (e div 65536)"
  proof (rule ccontr)
    assume "\<not> tick w < 65536 * (e div 65536)"
    from due_bucket2(2) [OF f this] assms(2) this f show False by (auto simp: filed2_def)
  qed
qed

lemma mod_65536_split: "c mod 256 = 0 \<and> c div 256 mod 256 = 0 \<longleftrightarrow> c mod 65536 = (0 :: nat)"
proof -
  have "c mod 65536 = 256 * (c div 256 mod 256) + c mod 256"
    using mod_mult2_eq [of c 256 256] by simp
  then show ?thesis by auto
qed

lemma tw_cascades_facts:
  assumes wf: "tw_wf w"
  shows "tw_wf (tw_cascades w) \<and> tw_abs (tw_cascades w) = tw_abs w \<and>
    tw_mCurrentTick (tw_cascades w) = tw_mCurrentTick w \<and>
    tw_mTickIntervalMs (tw_cascades w) = tw_mTickIntervalMs w \<and>
    past1 (tw_cascades w) \<and> past2 (tw_cascades w)"
proof (cases "tick w mod 256 = 0 \<and> 0 < tick w")
  case False
  moreover from this have "\<not> (tick w mod 65536 = 0 \<and> 0 < tick w)"
    using mod_65536_split [of "tick w"] by auto
  ultimately have "past1 w" "past2 w" using past1_idle [OF wf] past2_idle [OF wf] by blast+
  moreover from False have "tw_cascades w = w" by (auto simp: tw_cascades_nat)
  ultimately show ?thesis using wf by simp
next
  case True
  let ?w1 = "tw_cascade (Bucket1 (tick w div 256 mod 256)) w"
  have v1: "bucket_valid (Bucket1 (tick w div 256 mod 256))"
    and v2: "bucket_valid (Bucket2 (tick w div 65536 mod 128))" by simp_all
  note w1 = tw_cascade_facts [OF wf v1]
  have p1: "past1 ?w1" using w1(5) past1_after_clear [OF wf] by simp
  show ?thesis
  proof (cases "tick w div 256 mod 256 = 0")
    case False
    then have "\<not> (tick w mod 65536 = 0 \<and> 0 < tick w)"
      using mod_65536_split [of "tick w"] by auto
    then have "past2 ?w1" using past2_idle [OF w1(1)] unfolding w1(3) by blast
    moreover have "tw_cascades w = ?w1"
      using True False by (simp only: tw_cascades_nat Let_def if_True if_False simp_thms)
    ultimately show ?thesis using w1(1-4) p1 by metis
  next
    case True': True
    note w2 = tw_cascade_facts [OF w1(1) v2]
    have "past2 (tw_cascade (Bucket2 (tick w div 65536 mod 128)) ?w1)"
      using w2(6) past2_after_clear [OF w1(1)] by (simp add: w1(3))
    moreover have "past1 (tw_cascade (Bucket2 (tick w div 65536 mod 128)) ?w1)"
      by (rule w2(5) [OF bucket_empty_filed(2) [OF w1(1) p1]])
    moreover have "tw_cascades w = tw_cascade (Bucket2 (tick w div 65536 mod 128)) ?w1"
      using True True' by (simp only: tw_cascades_nat Let_def if_True simp_thms)
    ultimately show ?thesis using w1(2-4) w2(1-4) by metis
  qed
qed

subsection \<open>One tick removes exactly the nodes that are due\<close>

lemma mod_window: "e mod 256 = c mod 256 \<Longrightarrow> c \<le> e \<Longrightarrow> e < c + 256 \<Longrightarrow> e = (c :: nat)"
  by (metis add.commute add_diff_inverse_nat dvd_imp_le leD less_diff_conv2 mod_eq_dvd_iff_nat
      not_less zero_less_diff diff_is_0_eq order.antisym)

lemma filter_mset_split:
  "A + B = M \<Longrightarrow> \<forall>x \<in># A. \<not> P x \<Longrightarrow> \<forall>x \<in># B. P x \<Longrightarrow>
     filter_mset P M = B \<and> filter_mset (\<lambda>x. \<not> P x) M = A"
  by (auto simp: filter_mset_eq_conv multiset_filter_mono)

lemma in_cleared: "n \<in> set (xs[k := []] ! i) \<Longrightarrow> i < length xs \<Longrightarrow> i \<noteq> k \<and> n \<in> set (xs ! i)"
  by (cases "i = k") auto

definition tw_advance :: "'cb TimingWheel \<Rightarrow> 'cb TimingNode list \<Rightarrow> 'cb TimingWheel \<times> 'cb TimingNode list" where
  "tw_advance w out = (let (w1, out1) = tw_processTick w out
     in (w1\<lparr>tw_mCurrentTick := tw_mCurrentTick w1 + 1\<rparr>, out1))"

lemma filed_suc:
  "filed1 c i e \<Longrightarrow> c < 256 * (e div 256) \<Longrightarrow> filed1 (Suc c) i e"
  "filed2 c i e \<Longrightarrow> c < 65536 * (e div 65536) \<Longrightarrow> filed2 (Suc c) i e"
  unfolding filed1_def filed2_def by simp_all

lemma wf_cleared_tick:
  assumes wf: "tw_wf w" and p: "past1 w" "past2 w" and c: "tick w + 1 < 2 ^ 64"
  shows "tw_wf (w\<lparr>tw_mWheel0 := (tw_mWheel0 w)[tick w mod 256 := []],
                  tw_mCurrentTick := tw_mCurrentTick w + 1\<rparr>)" (is "tw_wf ?w")
proof -
  have t: "unat (tw_mCurrentTick w + 1) = Suc (tick w)" using c by (simp add: unat_plus_simple unat_plus_if')
  have "all_filed (filed0 (Suc (tick w))) ((tw_mWheel0 w)[tick w mod 256 := []])"
    unfolding all_filed_def
  proof (intro allI impI ballI)
    fix i n
    assume i: "i < length ((tw_mWheel0 w)[tick w mod 256 := []])"
      and n: "n \<in> set ((tw_mWheel0 w)[tick w mod 256 := []] ! i)"
    then have "i \<noteq> tick w mod 256" "n \<in> set (tw_mWheel0 w ! i)" using in_cleared by fastforce+
    moreover from this i wf have "filed0 (tick w) i (expire n)" by (auto simp: tw_wf_def all_filed_def)
    ultimately show "filed0 (Suc (tick w)) i (expire n)" by (auto simp: filed0_def le_eq_less_or_eq)
  qed
  moreover have "all_filed (filed1 (Suc (tick w))) (tw_mWheel1 w)"
    using wf p(1) filed_suc(1) unfolding tw_wf_def past1_def all_filed_def by blast
  moreover have "all_filed (filed2 (Suc (tick w))) (tw_mWheel2 w)"
    using wf p(2) filed_suc(2) unfolding tw_wf_def past2_def all_filed_def by blast
  ultimately show ?thesis using wf by (simp add: tw_wf_def t)
qed

lemma due_nodes_split:
  assumes wf: "tw_wf w" and p: "past1 w" "past2 w"
  defines "w' \<equiv> w\<lparr>tw_mWheel0 := (tw_mWheel0 w)[tick w mod 256 := []]\<rparr>"
  shows "filter_mset (\<lambda>n. expire n = tick w) (tw_abs w) = mset (tw_mWheel0 w ! (tick w mod 256)) \<and>
    filter_mset (\<lambda>n. expire n \<noteq> tick w) (tw_abs w) = tw_abs w'"
proof (rule filter_mset_split)
  show "tw_abs w' + mset (tw_mWheel0 w ! (tick w mod 256)) = tw_abs w"
    using wf mset_concat_clear [of "tick w mod 256" "tw_mWheel0 w"]
    by (auto simp: tw_abs_def w'_def tw_wf_def)
  show "\<forall>n \<in># mset (tw_mWheel0 w ! (tick w mod 256)). expire n = tick w"
  proof
    fix n assume "n \<in># mset (tw_mWheel0 w ! (tick w mod 256))"
    moreover have "tick w mod 256 < 256" by simp
    ultimately have "filed0 (tick w) (tick w mod 256) (expire n)"
      using wf unfolding tw_wf_def all_filed_def by auto
    then show "expire n = tick w" unfolding filed0_def using mod_window by blast
  qed
  have "expire n \<noteq> tick w" if "n \<in># tw_abs w'" for n
  proof -
    have len: "length (tw_mWheel0 w) = 256" "length (tw_mWheel1 w) = 256" "length (tw_mWheel2 w) = 128"
      using wf by (simp_all add: tw_wf_def)
    from that have "n \<in># mset (concat ((tw_mWheel0 w)[tick w mod 256 := []])) \<or>
        n \<in># mset (concat (tw_mWheel1 w)) \<or> n \<in># mset (concat (tw_mWheel2 w))"
      unfolding tw_abs_def w'_def union_iff by simp
    then consider i where "i < 256" "n \<in> set ((tw_mWheel0 w)[tick w mod 256 := []] ! i)"
      | i where "i < 256" "n \<in> set (tw_mWheel1 w ! i)" | i where "i < 128" "n \<in> set (tw_mWheel2 w ! i)"
      unfolding in_wheel length_list_update len by blast
    then show ?thesis
    proof cases
      case 1
      then have "i \<noteq> tick w mod 256" "n \<in> set (tw_mWheel0 w ! i)"
        using wf in_cleared [OF 1(2)] by (auto simp: tw_wf_def)
      moreover from this 1 wf have "filed0 (tick w) i (expire n)"
        unfolding tw_wf_def all_filed_def by auto
      ultimately show ?thesis by (auto simp: filed0_def)
    next
      case 2
      then have "tick w < 256 * (expire n div 256)"
        using p(1) wf by (auto simp: past1_def all_filed_def tw_wf_def)
      moreover have "256 * (expire n div 256) \<le> expire n" by simp
      ultimately show ?thesis by linarith
    next
      case 3
      then have "tick w < 65536 * (expire n div 65536)"
        using p(2) wf by (auto simp: past2_def all_filed_def tw_wf_def)
      moreover have "65536 * (expire n div 65536) \<le> expire n" by simp
      ultimately show ?thesis by linarith
    qed
  qed
  then show "\<forall>n \<in># tw_abs w'. \<not> expire n = tick w" by blast
qed

lemma tw_advance_exact:
  assumes wf: "tw_wf w" and c: "tick w + 1 < 2 ^ 64"
  obtains L w' where "tw_advance w out = (w', out @ L)"
    "mset L = filter_mset (\<lambda>n. expire n = tick w) (tw_abs w)"
    "tw_abs w' = filter_mset (\<lambda>n. expire n \<noteq> tick w) (tw_abs w)"
    "tw_wf w'" "tick w' = tick w + 1" "tw_mTickIntervalMs w' = tw_mTickIntervalMs w"
proof -
  let ?w1 = "tw_cascades w"
  let ?L = "tw_mWheel0 ?w1 ! (tick w mod 256)"
  let ?w' = "?w1\<lparr>tw_mWheel0 := (tw_mWheel0 ?w1)[tick w mod 256 := []],
                 tw_mCurrentTick := tw_mCurrentTick ?w1 + 1\<rparr>"
  from tw_cascades_facts [OF wf] have w1: "tw_wf ?w1" "tw_abs ?w1 = tw_abs w"
    "tw_mCurrentTick ?w1 = tw_mCurrentTick w" "tw_mTickIntervalMs ?w1 = tw_mTickIntervalMs w"
    "past1 ?w1" "past2 ?w1" by blast+
  show ?thesis
  proof (rule that [of ?w' ?L])
    show "tw_advance w out = (?w', out @ ?L)"
      unfolding tw_advance_def tw_processTick_nat Let_def by simp
    have abs': "tw_abs ?w' = tw_abs (?w1\<lparr>tw_mWheel0 := (tw_mWheel0 ?w1)[tick w mod 256 := []]\<rparr>)"
      by (simp add: tw_abs_def)
    show "mset ?L = filter_mset (\<lambda>n. expire n = tick w) (tw_abs w)"
      "tw_abs ?w' = filter_mset (\<lambda>n. expire n \<noteq> tick w) (tw_abs w)"
      using due_nodes_split [OF w1(1,5,6)] abs' unfolding w1(2,3) by simp_all
    show "tw_wf ?w'" using wf_cleared_tick [OF w1(1,5,6)] c unfolding w1(3) by simp
    show "tick ?w' = tick w + 1" using c by (simp add: w1(3) unat_plus_if')
    show "tw_mTickIntervalMs ?w' = tw_mTickIntervalMs w" by (simp add: w1(4))
  qed
qed

lemma tw_abs_future:
  assumes "tw_wf w" "n \<in># tw_abs w" shows "tick w \<le> expire n"
proof -
  have "n \<in># mset (concat (tw_mWheel0 w)) \<or> n \<in># mset (concat (tw_mWheel1 w)) \<or>
      n \<in># mset (concat (tw_mWheel2 w))" using assms(2) unfolding tw_abs_def union_iff by simp
  then consider i where "filed0 (tick w) i (expire n)" | i where "filed1 (tick w) i (expire n)"
    | i where "filed2 (tick w) i (expire n)"
    using assms(1) unfolding in_wheel tw_wf_def all_filed_def by metis
  then show ?thesis
    using filed_due by cases (auto simp: filed0_def due_in_range_def)
qed

subsection \<open>A batch of ticks\<close>

lemma tw_ticks_Suc: "tw_ticks (Suc n) w out = (let (w1, out1) = tw_advance w out in tw_ticks n w1 out1)"
  by (simp add: tw_advance_def Let_def split: prod.splits)

lemma filter_mset_join:
  "filter_mset P M + filter_mset Q (filter_mset (\<lambda>x. \<not> P x) M) = filter_mset (\<lambda>x. P x \<or> Q x) M"
  by (rule multiset_eqI) auto

lemma tw_ticks_exact:
  assumes "tw_wf w" "tick w + n < 2 ^ 64"
  shows "\<exists>L w'. tw_ticks n w out = (w', out @ L) \<and>
    mset L = filter_mset (\<lambda>x. expire x < tick w + n) (tw_abs w) \<and>
    tw_abs w' = filter_mset (\<lambda>x. tick w + n \<le> expire x) (tw_abs w) \<and>
    sorted (map expire L) \<and> tw_wf w' \<and> tick w' = tick w + n \<and>
    tw_mTickIntervalMs w' = tw_mTickIntervalMs w"
  using assms
proof (induction n arbitrary: w out)
  case 0
  then have "\<forall>x \<in># tw_abs w. tick w \<le> expire x" using tw_abs_future by blast
  then have "filter_mset (\<lambda>x. expire x < tick w) (tw_abs w) = filter_mset (\<lambda>_. False) (tw_abs w)"
    "filter_mset (\<lambda>x. tick w \<le> expire x) (tw_abs w) = filter_mset (\<lambda>_. True) (tw_abs w)"
    by - (rule filter_mset_cong; force)+
  with 0 show ?case by auto
next
  case (Suc n)
  from Suc.prems have "tick w + 1 < 2 ^ 64" by simp
  from tw_advance_exact [OF Suc.prems(1) this, of out] obtain L1 w1 where 1:
    "tw_advance w out = (w1, out @ L1)" "mset L1 = filter_mset (\<lambda>x. expire x = tick w) (tw_abs w)"
    "tw_abs w1 = filter_mset (\<lambda>x. expire x \<noteq> tick w) (tw_abs w)" "tw_wf w1" "tick w1 = tick w + 1"
    "tw_mTickIntervalMs w1 = tw_mTickIntervalMs w" by blast
  from Suc.IH [OF 1(4), of "out @ L1"] Suc.prems(2) obtain L2 w2 where 2:
    "tw_ticks n w1 (out @ L1) = (w2, out @ L1 @ L2)"
    "mset L2 = filter_mset (\<lambda>x. expire x < tick w1 + n) (tw_abs w1)"
    "tw_abs w2 = filter_mset (\<lambda>x. tick w1 + n \<le> expire x) (tw_abs w1)"
    "sorted (map expire L2)" "tw_wf w2" "tick w2 = tick w1 + n"
    "tw_mTickIntervalMs w2 = tw_mTickIntervalMs w1" by (auto simp: 1(5))
  have future: "tick w \<le> expire x" if "x \<in># tw_abs w" for x
    using tw_abs_future [OF Suc.prems(1) that] .
  have "mset (L1 @ L2) = filter_mset (\<lambda>x. expire x < tick w + Suc n) (tw_abs w)"
    unfolding mset_append 1(2) 2(2) 1(3) filter_mset_join using future
    by (intro filter_mset_cong) (auto simp: 1(5) le_eq_less_or_eq)
  moreover have "tw_abs w2 = filter_mset (\<lambda>x. tick w + Suc n \<le> expire x) (tw_abs w)"
    unfolding 2(3) 1(3) filter_filter_mset by (intro filter_mset_cong) (auto simp: 1(5))
  moreover have "sorted (map expire (L1 @ L2))"
  proof -
    have "\<forall>x \<in> set L1. expire x = tick w" using 1(2) by (metis (mono_tags, lifting) mem_Collect_eq set_mset_filter set_mset_mset)
    moreover have "\<forall>x \<in> set L2. tick w \<le> expire x"
      using 2(2) 1(3) future by (metis (no_types, lifting) mem_Collect_eq set_mset_filter set_mset_mset)
    moreover from calculation(1) have "sorted (map expire L1)"
      by (induction L1) auto
    ultimately show ?thesis using 2(4) by (auto simp: sorted_append)
  qed
  ultimately show ?case
    using 1 2 by (intro exI [of _ "L1 @ L2"] exI [of _ w2]) (simp only: tw_ticks_Suc Let_def, simp)
qed

subsection \<open>Adding a timer\<close>

text \<open>The largest delay is \<open>2 ^ 23\<close> ticks when that many intervals do not overflow \<open>uint64\<close>.\<close>

lemma max_delay_nat:
  assumes "unat (tw_mTickIntervalMs w) * 2 ^ 23 < 2 ^ 64"
  shows "unat (tw_GetMaxDelayMs w) = unat (tw_mTickIntervalMs w) * 2 ^ 23"
proof -
  have "tw_GetMaxDelayMs w = tw_mTickIntervalMs w * 8388608"
    by (simp add: tw_GetMaxDelayMs_def level_defs push_bit_eq_mult)
  moreover have "unat (8388608 :: uint64) = 2 ^ 23" by simp
  ultimately show ?thesis using assms by (simp add: unat_mult_lem [THEN iffD1])
qed

definition delay_ticks :: "'cb TimingWheel \<Rightarrow> uint64 \<Rightarrow> nat" where
  "delay_ticks w delayMs =
     min (unat delayMs) (unat (tw_mTickIntervalMs w) * 2 ^ 23) div unat (tw_mTickIntervalMs w)"

lemma delay_ticks_le: "0 < tw_mTickIntervalMs w \<Longrightarrow> delay_ticks w delayMs \<le> 2 ^ 23"
proof -
  assume "0 < tw_mTickIntervalMs w"
  then have "0 < unat (tw_mTickIntervalMs w)" by (simp add: word_less_nat_alt)
  then have "unat (tw_mTickIntervalMs w) * 2 ^ 23 div unat (tw_mTickIntervalMs w) = 2 ^ 23" by simp
  then show ?thesis unfolding delay_ticks_def by (metis div_le_mono min.cobounded2)
qed

lemma tw_AddTiming_files:
  assumes wf: "tw_wf w" and i: "0 < tw_mTickIntervalMs w" "unat (tw_mTickIntervalMs w) * 2 ^ 23 < 2 ^ 64"
    and t: "tick w + 2 ^ 23 < 2 ^ 64" and d: "delayMs \<noteq> 0"
  shows "\<exists>n w'. tw_AddTiming cb delayMs f w = Inr (None, w') \<and>
    expire n = tick w + delay_ticks w delayMs \<and> tn_mpCancelFlag n = Some f \<and> tn_mpCallback n = cb \<and>
    tw_abs w' = add_mset n (tw_abs w) \<and> tw_wf w' \<and> tick w' = tick w \<and>
    tw_mTickIntervalMs w' = tw_mTickIntervalMs w"
proof -
  let ?d = "min delayMs (tw_GetMaxDelayMs w) div tw_mTickIntervalMs w"
  let ?n = "\<lparr>tn_mExpireTick = tw_mCurrentTick w + ?d, tn_mpCancelFlag = Some f, tn_mpCallback = cb\<rparr>"
  have "unat (min delayMs (tw_GetMaxDelayMs w)) = min (unat delayMs) (unat (tw_mTickIntervalMs w) * 2 ^ 23)"
    using max_delay_nat [OF i(2)] by (auto simp: min_def word_le_nat_alt)
  then have d': "unat ?d = delay_ticks w delayMs"
    by (simp add: delay_ticks_def unat_div_distrib)
  have e: "expire ?n = tick w + delay_ticks w delayMs"
    using t delay_ticks_le [OF i(1), of delayMs] d' by (simp add: unat_plus_if')
  have due: "due_in_range (tick w) (expire ?n)"
    unfolding e due_in_range_def using delay_ticks_le [OF i(1)] by simp
  show ?thesis
    using d tw_addNode_wf [OF wf due] tw_addNode_abs [OF wf due] e
    by (intro exI [of _ ?n] exI [of _ "tw_addNode ?n w"]) (simp add: tw_AddTiming_def Let_def)
qed

subsection \<open>Tick follows the clock\<close>

text \<open>
  The wheel is aligned with a start time \<open>t0\<close> when its last tick time is exactly
  \<open>tick\<close> intervals after \<open>t0\<close>; \<open>due_ticks\<close> is the tick the clock has reached.
\<close>

definition tw_aligned :: "int \<Rightarrow> 'cb TimingWheel \<Rightarrow> bool" where
  "tw_aligned t0 w \<longleftrightarrow>
     tw_mLastTickTime w = t0 + int (tick w) * uint (tw_mTickIntervalMs w) * 1000000"

definition due_ticks :: "int \<Rightarrow> uint64 \<Rightarrow> int \<Rightarrow> nat" where
  "due_ticks t0 interval now = nat ((now - t0) div 1000000 div uint interval)"

lemma tw_new_aligned: "tw_aligned now (tw_new interval now)"
  by (simp add: tw_aligned_def tw_new_def)

lemma sdiv_nonneg: "0 \<le> (a :: int) \<Longrightarrow> 0 < b \<Longrightarrow> a sdiv b = a div b"
  by (simp add: signed_divide_int_def sgn_if)

lemma elapsed_ticks:
  assumes al: "tw_aligned t0 w" and i: "0 < tw_mTickIntervalMs w" and now: "tw_mLastTickTime w \<le> now"
  shows "due_ticks t0 (tw_mTickIntervalMs w) now
      = tick w + nat ((now - tw_mLastTickTime w) div 1000000 div uint (tw_mTickIntervalMs w))"
proof -
  let ?i = "uint (tw_mTickIntervalMs w)"
  let ?e = "(now - tw_mLastTickTime w) div 1000000"
  have i0: "0 < ?i" using i by (simp add: word_less_def)
  have "now - t0 = (now - tw_mLastTickTime w) + int (tick w) * ?i * 1000000"
    using al by (simp add: tw_aligned_def)
  then have "(now - t0) div 1000000 = ?e + int (tick w) * ?i" by simp
  then have "(now - t0) div 1000000 div ?i = ?e div ?i + int (tick w)" using i0 by simp
  moreover have "0 \<le> ?e div ?i" using now i0 by (simp add: pos_imp_zdiv_nonneg_iff)
  ultimately show ?thesis by (simp add: due_ticks_def nat_add_distrib)
qed

lemma frame_wf [simp]:
  "tw_wf (w\<lparr>tw_mbTicking := t\<rparr>) = tw_wf w" "tw_wf (w\<lparr>tw_mLastTickTime := l\<rparr>) = tw_wf w"
  "tw_abs (w\<lparr>tw_mbTicking := t\<rparr>) = tw_abs w" "tw_abs (w\<lparr>tw_mLastTickTime := l\<rparr>) = tw_abs w"
  by (simp_all add: tw_wf_def tw_abs_def)

lemma uint_less_unat: "unat (x :: uint64) < 2 ^ n \<Longrightarrow> uint x < 2 ^ n"
  by (metis of_nat_less_iff of_nat_numeral of_nat_power uint_nat)

lemma uint_div_mult:
  "uint (x div y * y) = uint x div uint y * uint y" for x y :: uint64
proof -
  have "unat x div unat y * unat y \<le> unat x" by simp
  also have "\<dots> < 2 ^ LENGTH(64)" by (rule unsigned_less)
  finally have "unat (x div y) * unat y < 2 ^ LENGTH(64)" by (simp only: unat_div_distrib)
  then have "unat (x div y * y) = unat x div unat y * unat y"
    unfolding unat_mult_lem by (simp only: unat_div_distrib)
  then show ?thesis by (simp only: uint_nat zdiv_int of_nat_mult)
qed

lemma tw_addNode_last [simp]:
  "tw_mLastTickTime (tw_addNode n w) = tw_mLastTickTime w" "tw_mbTicking (tw_addNode n w) = tw_mbTicking w"
  by (simp_all add: tw_addNode_def Let_def)

lemma fold_addNode_last:
  "tw_mLastTickTime (fold tw_addNode ns w) = tw_mLastTickTime w"
  by (induction ns arbitrary: w) simp_all

lemma bucket_empty_last [simp]: "tw_mLastTickTime (bucket_empty bk w) = tw_mLastTickTime w"
  by (cases bk) simp_all

lemma tw_ticks_last: "tw_mLastTickTime (fst (tw_ticks n w out)) = tw_mLastTickTime w"
  by (induction n arbitrary: w out)
     (simp_all add: tw_processTick_def tw_cascades_def tw_cascade_def Let_def fold_addNode_last)

lemma cascades_last:
  "tw_mLastTickTime (tw_cascades w) = tw_mLastTickTime w" "tw_mbTicking (tw_cascades w) = tw_mbTicking w"
  "tw_mTickIntervalMs (tw_cascades w) = tw_mTickIntervalMs w"
proof -
  have "tw_mTickIntervalMs (fold tw_addNode ns w) = tw_mTickIntervalMs w" for ns and w :: "'a TimingWheel"
    by (induction ns arbitrary: w) simp_all
  moreover have "tw_mTickIntervalMs (bucket_empty bk w) = tw_mTickIntervalMs w" for bk and w :: "'a TimingWheel" by (cases bk) simp_all
  moreover have "tw_mbTicking (fold tw_addNode ns w) = tw_mbTicking w" for ns and w :: "'a TimingWheel"
    by (induction ns arbitrary: w) simp_all
  moreover have "tw_mbTicking (bucket_empty bk w) = tw_mbTicking w" for bk and w :: "'a TimingWheel" by (cases bk) simp_all
  ultimately show "tw_mLastTickTime (tw_cascades w) = tw_mLastTickTime w" "tw_mbTicking (tw_cascades w) = tw_mbTicking w"
    "tw_mTickIntervalMs (tw_cascades w) = tw_mTickIntervalMs w"
    by (simp_all add: tw_cascades_def tw_cascade_def Let_def fold_addNode_last)
qed

lemma tw_advance_last:
  "tw_advance w out = (w', out') \<Longrightarrow> tw_mLastTickTime w' = tw_mLastTickTime w \<and> tw_mbTicking w' = tw_mbTicking w \<and>
    tw_mTickIntervalMs w' = tw_mTickIntervalMs w"
  by (auto simp: tw_advance_def tw_processTick_def Let_def cascades_last)

text \<open>What one reading of the clock computes: the ticks that are due and the new last tick time.\<close>

lemma clock_reading:
  fixes w :: "'cb TimingWheel"
  defines "E \<equiv> \<lambda>now. word_of_int ((now - tw_mLastTickTime w) sdiv 1000000) :: uint64"
  assumes al: "tw_aligned t0 w"
    and i: "0 < tw_mTickIntervalMs w" "unat (tw_mTickIntervalMs w) < 2 ^ 32"
    and now: "tw_mLastTickTime w \<le> now" and bound: "due_ticks t0 (tw_mTickIntervalMs w) now < 2 ^ 32"
  shows "due_ticks t0 (tw_mTickIntervalMs w) now = tick w + unat (E now div tw_mTickIntervalMs w)"
    and "E now < tw_mTickIntervalMs w \<Longrightarrow> E now div tw_mTickIntervalMs w = 0"
    and "tw_mLastTickTime w + uint (E now div tw_mTickIntervalMs w * tw_mTickIntervalMs w) * 1000000 =
      t0 + int (tick w + unat (E now div tw_mTickIntervalMs w)) * uint (tw_mTickIntervalMs w) * 1000000"
    and "tw_mLastTickTime w + uint (E now div tw_mTickIntervalMs w * tw_mTickIntervalMs w) * 1000000 \<le> now"
proof -
  let ?i = "uint (tw_mTickIntervalMs w)" and ?k = "E now div tw_mTickIntervalMs w"
  let ?e = "(now - tw_mLastTickTime w) div 1000000"
  note due = elapsed_ticks [OF al i(1) now]
  have i0: "0 < ?i" using i by (simp add: word_less_def)
  have e0: "0 \<le> ?e" using now by simp
  have "nat (?e div ?i) < 2 ^ 32" using bound due by linarith
  then have k32: "?e div ?i < 2 ^ 32" by simp
  have "?e = ?e div ?i * ?i + ?e mod ?i" "?e mod ?i < ?i" using i0 by simp_all
  then have "?e < (?e div ?i + 1) * ?i" unfolding distrib_right by linarith
  also have "\<dots> \<le> 2 ^ 32 * 2 ^ 32"
    using k32 uint_less_unat [OF i(2)] i0 e0 by (intro mult_mono) simp_all
  finally have E: "uint (E now) = ?e" using e0 now by (simp add: E_def uint_word_of_int sdiv_nonneg)
  have k: "unat ?k = nat (?e div ?i)"
    using uint_div_distrib [of "E now" "tw_mTickIntervalMs w"] by (simp only: E flip: nat_uint_eq)
  then show "due_ticks t0 (tw_mTickIntervalMs w) now = tick w + unat ?k" using due by simp
  show "E now < tw_mTickIntervalMs w \<Longrightarrow> ?k = 0"
    by (simp add: word_div_no word_less_nat_alt word_arith_nat_div)
  have step: "uint (?k * tw_mTickIntervalMs w) = ?e div ?i * ?i" by (simp add: uint_div_mult E)
  have "0 \<le> ?e div ?i" using e0 i0 by (simp add: pos_imp_zdiv_nonneg_iff)
  then show "tw_mLastTickTime w + uint (?k * tw_mTickIntervalMs w) * 1000000 =
      t0 + int (tick w + unat ?k) * ?i * 1000000"
    unfolding step k using al by (simp add: tw_aligned_def algebra_simps)
  have "?e div ?i * ?i \<le> ?e" using i0 by (simp add: minus_mod_eq_div_mult [symmetric])
  moreover have "?e * 1000000 \<le> now - tw_mLastTickTime w" by simp
  ultimately show "tw_mLastTickTime w + uint (?k * tw_mTickIntervalMs w) * 1000000 \<le> now"
    unfolding step by linarith
qed

lemma tw_Tick_exact:
  assumes wf: "tw_wf w" and al: "tw_aligned t0 w" and idle: "\<not> tw_mbTicking w"
    and i: "0 < tw_mTickIntervalMs w" "unat (tw_mTickIntervalMs w) < 2 ^ 32"
    and now: "tw_mLastTickTime w \<le> now" and bound: "due_ticks t0 (tw_mTickIntervalMs w) now < 2 ^ 32"
  shows "\<exists>L w'. tw_Tick now w = Some (L, w') \<and> tick w' = due_ticks t0 (tw_mTickIntervalMs w) now \<and>
    mset L = filter_mset (\<lambda>x. expire x < tick w') (tw_abs w) \<and>
    tw_abs w' = filter_mset (\<lambda>x. tick w' \<le> expire x) (tw_abs w) \<and> sorted (map expire L) \<and>
    tw_wf w' \<and> tw_aligned t0 w' \<and> \<not> tw_mbTicking w' \<and> tw_mTickIntervalMs w' = tw_mTickIntervalMs w \<and>
    tw_mLastTickTime w' \<le> now"
proof -
  define E where "E = (word_of_int ((now - tw_mLastTickTime w) sdiv 1000000) :: uint64)"
  note clock = clock_reading [OF al i now bound, folded E_def]
  show ?thesis
  proof (cases "E < tw_mTickIntervalMs w")
    case True
    then have t: "due_ticks t0 (tw_mTickIntervalMs w) now = tick w" using clock(1,2) by simp
    have "\<forall>x \<in># tw_abs w. tick w \<le> expire x" using tw_abs_future [OF wf] by blast
    then have "filter_mset (\<lambda>x. expire x < tick w) (tw_abs w) = filter_mset (\<lambda>_. False) (tw_abs w)"
      "filter_mset (\<lambda>x. tick w \<le> expire x) (tw_abs w) = filter_mset (\<lambda>_. True) (tw_abs w)"
      by - (rule filter_mset_cong; force)+
    moreover have "tw_Tick now w = Some ([], w\<lparr>tw_mbTicking := False\<rparr>)"
      using True idle by (simp add: tw_Tick_def Let_def E_def [symmetric])
    moreover have "tw_aligned t0 (w\<lparr>tw_mbTicking := False\<rparr>)" using al by (simp add: tw_aligned_def)
    ultimately show ?thesis using wf now
      by (intro exI [of _ "[]"] exI [of _ "w\<lparr>tw_mbTicking := False\<rparr>"]) (simp add: t)
  next
    case False
    let ?k = "E div tw_mTickIntervalMs w"
    define w1 where "w1 = w\<lparr>tw_mbTicking := True,
      tw_mLastTickTime := tw_mLastTickTime w + uint (?k * tw_mTickIntervalMs w) * 1000000\<rparr>"
    from tw_ticks_exact [of w1 "unat ?k" "[]"] wf bound clock(1) obtain L w2 where 2:
      "tw_ticks (unat ?k) w1 [] = (w2, L)" "mset L = filter_mset (\<lambda>x. expire x < tick w + unat ?k) (tw_abs w)"
      "tw_abs w2 = filter_mset (\<lambda>x. tick w + unat ?k \<le> expire x) (tw_abs w)" "sorted (map expire L)"
      "tw_wf w2" "tick w2 = tick w + unat ?k" "tw_mTickIntervalMs w2 = tw_mTickIntervalMs w"
      by (auto simp: w1_def)
    have last: "tw_mLastTickTime w2 = tw_mLastTickTime w + uint (?k * tw_mTickIntervalMs w) * 1000000"
      using tw_ticks_last [of "unat ?k" w1 "[]"] 2(1) by (simp add: w1_def)
    have "tw_Tick now w = Some (L, w2\<lparr>tw_mbTicking := False\<rparr>)"
      using False idle 2(1) bound clock(1) by (simp add: tw_Tick_def Let_def E_def [symmetric] w1_def not_le)
    moreover have "tw_aligned t0 (w2\<lparr>tw_mbTicking := False\<rparr>)"
      unfolding tw_aligned_def using last clock(3) 2(6,7) by simp
    moreover have "tw_mLastTickTime w2 \<le> now" using last clock(4) by simp
    ultimately show ?thesis using 2 clock(1)
      by (intro exI [of _ L] exI [of _ "w2\<lparr>tw_mbTicking := False\<rparr>"]) simp
  qed
qed

subsection \<open>A run of timer insertions and clock readings\<close>

text \<open>
  The operations the scheduler performs on the wheel, in any order: timers are added and
  \<open>Tick\<close> is called at given times. The run returns the nodes in the order they fire.
\<close>

datatype 'cb wheel_op = Op_Add "'cb option" uint64 flag_addr | Op_Tick int

fun tw_run :: "'cb wheel_op list \<Rightarrow> 'cb TimingWheel \<Rightarrow> ('cb TimingNode list \<times> 'cb TimingWheel) option" where
  "tw_run [] w = Some ([], w)"
| "tw_run (Op_Add cb delayMs f # ops) w =
     (case tw_AddTiming cb delayMs f w of Inl e \<Rightarrow> None | Inr (_, w1) \<Rightarrow> tw_run ops w1)"
| "tw_run (Op_Tick now # ops) w =
     (case tw_Tick now w of None \<Rightarrow> None
      | Some (L, w1) \<Rightarrow> map_option (\<lambda>(L', w2). (L @ L', w2)) (tw_run ops w1))"

text \<open>The nodes the additions of a run file, given the tick each of them happens at.\<close>

fun tw_added :: "int \<Rightarrow> uint64 \<Rightarrow> nat \<Rightarrow> 'cb wheel_op list \<Rightarrow> (nat \<times> flag_addr) multiset" where
  "tw_added t0 interval c [] = {#}"
| "tw_added t0 interval c (Op_Add cb delayMs f # ops) =
     add_mset (c + min (unat delayMs) (unat interval * 2 ^ 23) div unat interval, f)
       (tw_added t0 interval c ops)"
| "tw_added t0 interval c (Op_Tick now # ops) = tw_added t0 interval (due_ticks t0 interval now) ops"

fun ops_ok :: "int \<Rightarrow> uint64 \<Rightarrow> int \<Rightarrow> 'cb wheel_op list \<Rightarrow> bool" where
  "ops_ok t0 interval l [] = True"
| "ops_ok t0 interval l (Op_Add cb delayMs f # ops) = (delayMs \<noteq> 0 \<and> ops_ok t0 interval l ops)"
| "ops_ok t0 interval l (Op_Tick now # ops) =
     (l \<le> now \<and> due_ticks t0 interval now < 2 ^ 32 \<and> ops_ok t0 interval now ops)"

definition wheel_ready :: "int \<Rightarrow> 'cb TimingWheel \<Rightarrow> bool" where
  "wheel_ready t0 w \<longleftrightarrow> tw_wf w \<and> tw_aligned t0 w \<and> \<not> tw_mbTicking w \<and> tick w < 2 ^ 32 \<and>
     0 < tw_mTickIntervalMs w \<and> unat (tw_mTickIntervalMs w) < 2 ^ 32"

abbreviation node_key :: "'cb TimingNode \<Rightarrow> nat \<times> flag_addr" where
  "node_key n \<equiv> (expire n, the (tn_mpCancelFlag n))"

lemma ready_add:
  assumes "wheel_ready t0 w" "delayMs \<noteq> 0"
  shows "\<exists>n w'. tw_AddTiming cb delayMs f w = Inr (None, w') \<and> wheel_ready t0 w' \<and>
    tw_mTickIntervalMs w' = tw_mTickIntervalMs w \<and> tick w' = tick w \<and>
    tw_mLastTickTime w' = tw_mLastTickTime w \<and> tw_abs w' = add_mset n (tw_abs w) \<and>
    node_key n = (tick w + delay_ticks w delayMs, f)"
proof -
  have "unat (tw_mTickIntervalMs w) * 2 ^ 23 < 2 ^ 64" "tick w + 2 ^ 23 < 2 ^ 64"
    using assms(1) by (simp_all add: wheel_ready_def)
  with tw_AddTiming_files [of w delayMs cb f] assms obtain n w' where
    1: "tw_AddTiming cb delayMs f w = Inr (None, w')" "expire n = tick w + delay_ticks w delayMs"
      "tn_mpCancelFlag n = Some f" "tw_abs w' = add_mset n (tw_abs w)" "tw_wf w'" "tick w' = tick w"
      "tw_mTickIntervalMs w' = tw_mTickIntervalMs w" by (auto simp: wheel_ready_def)
  from 1(1) assms(2) have "tw_mLastTickTime w' = tw_mLastTickTime w" "tw_mbTicking w' = tw_mbTicking w"
    by (auto simp: tw_AddTiming_def Let_def)
  moreover have "tw_mCurrentTick w' = tw_mCurrentTick w" using 1(6) by (simp add: word_unat_eq_iff)
  moreover from calculation 1 assms(1) have "wheel_ready t0 w'"
    by (simp add: wheel_ready_def tw_aligned_def)
  ultimately show ?thesis using 1 by auto
qed

lemma ready_tick:
  assumes "wheel_ready t0 w" "tw_mLastTickTime w \<le> now" "due_ticks t0 (tw_mTickIntervalMs w) now < 2 ^ 32"
  shows "\<exists>L w'. tw_Tick now w = Some (L, w') \<and> wheel_ready t0 w' \<and>
    tw_mTickIntervalMs w' = tw_mTickIntervalMs w \<and> tick w' = due_ticks t0 (tw_mTickIntervalMs w) now \<and>
    tw_mLastTickTime w' \<le> now \<and> mset L + tw_abs w' = tw_abs w \<and> sorted (map expire L) \<and>
    (\<forall>x \<in> set L. tick w \<le> expire x \<and> expire x < tick w')"
proof -
  from tw_Tick_exact [of w t0 now] assms obtain L w' where
    1: "tw_Tick now w = Some (L, w')" "tick w' = due_ticks t0 (tw_mTickIntervalMs w) now"
      "mset L = filter_mset (\<lambda>x. expire x < tick w') (tw_abs w)"
      "tw_abs w' = filter_mset (\<lambda>x. tick w' \<le> expire x) (tw_abs w)" "sorted (map expire L)"
      "tw_wf w'" "tw_aligned t0 w'" "\<not> tw_mbTicking w'" "tw_mTickIntervalMs w' = tw_mTickIntervalMs w"
      "tw_mLastTickTime w' \<le> now" by (auto simp: wheel_ready_def)
  have "mset L + tw_abs w' = tw_abs w" unfolding 1(3,4) by (rule multiset_eqI) auto
  moreover have "tick w \<le> expire x \<and> expire x < tick w'" if "x \<in> set L" for x
  proof -
    from that have "x \<in># filter_mset (\<lambda>x. expire x < tick w') (tw_abs w)" by (simp flip: 1(3))
    with tw_abs_future assms(1) show ?thesis by (auto simp: wheel_ready_def)
  qed
  moreover have "wheel_ready t0 w'"
    using 1(2,6-9) assms(1,3) by (simp add: wheel_ready_def)
  ultimately show ?thesis using 1 by auto
qed

lemma tw_run_exact:
  assumes "wheel_ready t0 w" "tw_mLastTickTime w \<le> l" "ops_ok t0 (tw_mTickIntervalMs w) l ops"
  shows "\<exists>L w'. tw_run ops w = Some (L, w') \<and> wheel_ready t0 w' \<and> tick w \<le> tick w' \<and>
    image_mset node_key (mset L + tw_abs w') =
      image_mset node_key (tw_abs w) + tw_added t0 (tw_mTickIntervalMs w) (tick w) ops \<and>
    sorted (map expire L) \<and> (\<forall>x \<in> set L. tick w \<le> expire x \<and> expire x < tick w')"
  using assms
proof (induction ops arbitrary: w l)
  case Nil
  then show ?case by auto
next
  case (Cons a ops)
  show ?case
  proof (cases a)
    case (Op_Add cb delayMs f)
    with Cons.prems have ok: "delayMs \<noteq> 0" "ops_ok t0 (tw_mTickIntervalMs w) l ops" by auto
    from ready_add [OF Cons.prems(1) ok(1), of cb f] obtain n w1 where 1:
      "tw_AddTiming cb delayMs f w = Inr (None, w1)" "wheel_ready t0 w1"
      "tw_mTickIntervalMs w1 = tw_mTickIntervalMs w" "tick w1 = tick w"
      "tw_mLastTickTime w1 = tw_mLastTickTime w" "tw_abs w1 = add_mset n (tw_abs w)"
      "node_key n = (tick w + delay_ticks w delayMs, f)" by blast
    from Cons.IH [OF 1(2), of l] Cons.prems(2) ok(2) obtain L w2 where 2:
      "tw_run ops w1 = Some (L, w2)" "wheel_ready t0 w2" "tick w \<le> tick w2"
      "image_mset node_key (mset L + tw_abs w2) = image_mset node_key (tw_abs w1)
         + tw_added t0 (tw_mTickIntervalMs w) (tick w) ops"
      "sorted (map expire L)" "\<forall>x \<in> set L. tick w \<le> expire x \<and> expire x < tick w2"
      by (auto simp: 1(3-5))
    have "tw_run (a # ops) w = Some (L, w2)" using Op_Add 1(1) 2(1) by simp
    moreover have "image_mset node_key (mset L + tw_abs w2) =
        image_mset node_key (tw_abs w) + tw_added t0 (tw_mTickIntervalMs w) (tick w) (a # ops)"
      using 2(4) 1(6,7) Op_Add by (simp add: delay_ticks_def)
    ultimately show ?thesis using 2 by blast
  next
    case (Op_Tick now)
    with Cons.prems have ok: "tw_mLastTickTime w \<le> now" "due_ticks t0 (tw_mTickIntervalMs w) now < 2 ^ 32"
      "ops_ok t0 (tw_mTickIntervalMs w) now ops" by auto
    from ready_tick [OF Cons.prems(1) ok(1,2)] obtain L1 w1 where 1:
      "tw_Tick now w = Some (L1, w1)" "wheel_ready t0 w1" "tw_mTickIntervalMs w1 = tw_mTickIntervalMs w"
      "tick w1 = due_ticks t0 (tw_mTickIntervalMs w) now" "tw_mLastTickTime w1 \<le> now"
      "mset L1 + tw_abs w1 = tw_abs w" "sorted (map expire L1)"
      "\<forall>x \<in> set L1. tick w \<le> expire x \<and> expire x < tick w1" by blast
    from Cons.IH [OF 1(2,5)] ok(3) obtain L w2 where 2:
      "tw_run ops w1 = Some (L, w2)" "wheel_ready t0 w2" "tick w1 \<le> tick w2"
      "image_mset node_key (mset L + tw_abs w2) = image_mset node_key (tw_abs w1)
         + tw_added t0 (tw_mTickIntervalMs w) (tick w1) ops"
      "sorted (map expire L)" "\<forall>x \<in> set L. tick w1 \<le> expire x \<and> expire x < tick w2"
      by (auto simp: 1(3))
    have mono: "tick w \<le> tick w1"
      using elapsed_ticks [OF _ _ ok(1)] Cons.prems(1) 1(4) by (auto simp: wheel_ready_def)
    have "tw_run (a # ops) w = Some (L1 @ L, w2)" using Op_Tick 1(1) 2(1) by simp
    moreover have "image_mset node_key (mset (L1 @ L) + tw_abs w2) =
        image_mset node_key (tw_abs w) + tw_added t0 (tw_mTickIntervalMs w) (tick w) (a # ops)"
      using 2(4) 1(4) Op_Tick unfolding 1(6) [symmetric] by (simp add: ac_simps)
    moreover have "sorted (map expire (L1 @ L))"
      using 1(7,8) 2(5,6) by (fastforce simp: sorted_append)
    moreover have "\<forall>x \<in> set (L1 @ L). tick w \<le> expire x \<and> expire x < tick w2"
      using 1(8) 2(3,6) mono by fastforce
    ultimately show ?thesis using 2(2,3) mono by (meson order.trans)
  qed
qed

subsection \<open>Properties\<close>

lemma tw_new_ready:
  assumes "unat interval < 2 ^ 32" shows "wheel_ready t0 (tw_new interval t0)"
proof -
  have "unat (max interval 16) < 2 ^ 32" "(0 :: uint64) < max interval 16"
    using assms by (auto simp: max_def word_less_nat_alt word_le_nat_alt)
  then show ?thesis
    by (simp add: wheel_ready_def tw_new_wf tw_new_aligned)
       (simp add: tw_new_def DEFAULT_TICK_INTERVAL_def)
qed

lemma fired_keys:
  assumes "image_mset k (A + B) = M" "\<forall>x \<in># A. P (k x)" "\<forall>x \<in># B. \<not> P (k x)"
  shows "image_mset k A = filter_mset P M"
proof -
  have "image_mset k B + image_mset k A = M" using assms(1) by (simp add: add.commute)
  from filter_mset_split [OF this, of P] assms(2,3) show ?thesis by auto
qed

text \<open>C1: Starting from a new wheel, every sequence of timer insertions and clock readings returns,
  and the timers it fires are exactly the inserted ones whose expiry tick the clock has passed, each
  once and in the order of their ticks: no timer is lost in a cascade, fires early or fires twice.\<close>

theorem wheel_fires_exactly_the_due_timers:
  fixes ops :: "'cb wheel_op list"
  assumes "unat interval < 2 ^ 32" and "ops_ok t0 (max interval DEFAULT_TICK_INTERVAL) t0 ops"
  shows "\<exists>L w'. tw_run ops (tw_new interval t0) = Some (L, w') \<and> sorted (map expire L) \<and>
    image_mset node_key (mset L) = filter_mset (\<lambda>key. fst key < tick w')
      (tw_added t0 (max interval DEFAULT_TICK_INTERVAL) 0 ops)"
proof -
  let ?w = "tw_new interval t0 :: 'cb TimingWheel"
  have new: "tick ?w = 0" "tw_mLastTickTime ?w = t0" "tw_mTickIntervalMs ?w = max interval DEFAULT_TICK_INTERVAL"
    by (simp_all add: tw_new_def)
  from tw_run_exact [OF tw_new_ready [OF assms(1)], of t0 t0 ops] assms(2) obtain L w' where
    1: "tw_run ops ?w = Some (L, w')" "wheel_ready t0 w'" "sorted (map expire L)"
      "image_mset node_key (mset L + tw_abs w') = tw_added t0 (max interval DEFAULT_TICK_INTERVAL) 0 ops"
      "\<forall>x \<in> set L. expire x < tick w'" unfolding new tw_new_abs by auto
  have "\<forall>x \<in># tw_abs w'. tick w' \<le> expire x"
    using tw_abs_future 1(2) by (auto simp: wheel_ready_def)
  with fired_keys [OF 1(4), of "\<lambda>key. fst key < tick w'"] 1(1,3,5) show ?thesis by (auto simp: not_less)
qed

theorem wheel_fires_exactly_the_due_timers_witness:
  "\<exists>L w'. tw_run [Op_Add (Some ''ping'') 100 7, Op_Tick 200000000] (tw_new 16 0) = Some (L, w') \<and>
    sorted (map expire L) \<and> image_mset node_key (mset L) = filter_mset (\<lambda>key. fst key < tick w')
      (tw_added 0 (max 16 DEFAULT_TICK_INTERVAL) 0
        [Op_Add (Some ''ping'') 100 7, Op_Tick 200000000])"
  by (rule wheel_fires_exactly_the_due_timers)
     (simp_all add: tw_new_def DEFAULT_TICK_INTERVAL_def due_ticks_def)

text \<open>After a \<open>Tick\<close> at time \<open>now\<close> the current tick is the number of whole intervals since the
  wheel was created, whatever calls came before: late or irregular calls of \<open>Tick\<close> neither lose
  nor invent a tick, and all due nodes are collected in one call.\<close>

theorem tick_follows_the_clock:
  assumes "wheel_ready t0 w" and "tw_mLastTickTime w \<le> now"
    and "due_ticks t0 (tw_mTickIntervalMs w) now < 2 ^ 32"
  shows "\<exists>L w'. tw_Tick now w = Some (L, w') \<and> wheel_ready t0 w' \<and>
    int (tick w') = (now - t0) div 1000000 div uint (tw_mTickIntervalMs w) \<and>
    mset L + tw_abs w' = tw_abs w \<and> (\<forall>x \<in> set L. expire x < tick w') \<and>
    (\<forall>x \<in># tw_abs w'. tick w' \<le> expire x)"
proof -
  from ready_tick [OF assms] obtain L w' where 1: "tw_Tick now w = Some (L, w')" "wheel_ready t0 w'"
    "tick w' = due_ticks t0 (tw_mTickIntervalMs w) now" "mset L + tw_abs w' = tw_abs w"
    "\<forall>x \<in> set L. expire x < tick w'" by blast
  have "tw_mLastTickTime w - t0 = int (tick w) * uint (tw_mTickIntervalMs w) * 1000000"
    using assms(1) by (simp add: wheel_ready_def tw_aligned_def)
  moreover have "0 \<le> int (tick w) * uint (tw_mTickIntervalMs w) * 1000000" by simp
  ultimately have "t0 \<le> now" using assms(2) by linarith
  then have "0 \<le> (now - t0) div 1000000 div uint (tw_mTickIntervalMs w)"
    using assms(1) by (simp add: wheel_ready_def word_less_def pos_imp_zdiv_nonneg_iff)
  then have "int (tick w') = (now - t0) div 1000000 div uint (tw_mTickIntervalMs w)"
    unfolding 1(3) due_ticks_def by simp
  moreover have "\<forall>x \<in># tw_abs w'. tick w' \<le> expire x"
    using tw_abs_future 1(2) unfolding wheel_ready_def by blast
  ultimately show ?thesis using 1 by blast
qed

theorem tick_follows_the_clock_witness:
  "\<exists>L w'. tw_Tick 50000000 (tw_new 16 0 :: string TimingWheel) = Some (L, w') \<and> wheel_ready 0 w' \<and>
    int (tick w') = (50000000 - 0) div 1000000 div uint (tw_mTickIntervalMs (tw_new 16 0 :: string TimingWheel)) \<and>
    mset L + tw_abs w' = tw_abs (tw_new 16 0) \<and> (\<forall>x \<in> set L. expire x < tick w') \<and>
    (\<forall>x \<in># tw_abs w'. tick w' \<le> expire x)"
  by (rule tick_follows_the_clock)
     (simp_all add: tw_new_ready, simp_all add: tw_new_def DEFAULT_TICK_INTERVAL_def due_ticks_def)

text \<open>\<open>AddTiming\<close> with a nonzero delay files exactly one node that expires after the delay in
  whole intervals, a delay above \<open>GetMaxDelayMs\<close> being cut to \<open>2 ^ 23\<close> ticks, under the flag of the
  returned handle, and the wheel stays well formed.\<close>

theorem add_timing_files_one_node:
  assumes "wheel_ready t0 w" and "delayMs \<noteq> 0"
  shows "\<exists>n w'. tw_AddTiming cb delayMs f w = Inr (None, w') \<and> wheel_ready t0 w' \<and>
    tw_abs w' = add_mset n (tw_abs w) \<and> tn_mpCancelFlag n = Some f \<and> tn_mpCallback n = cb \<and>
    expire n = tick w + min (unat delayMs div unat (tw_mTickIntervalMs w)) (2 ^ 23)"
proof -
  let ?i = "unat (tw_mTickIntervalMs w)"
  have i: "0 < ?i" using assms(1) by (simp add: wheel_ready_def word_less_nat_alt)
  have cap: "?i * 2 ^ 23 div ?i = 2 ^ 23" using i by simp
  have "delay_ticks w delayMs = min (unat delayMs div ?i) (2 ^ 23)"
  proof (cases "unat delayMs \<le> ?i * 2 ^ 23")
    case True
    from div_le_mono [OF this, of ?i] True show ?thesis unfolding cap by (simp add: delay_ticks_def)
  next
    case False
    then have "2 ^ 23 \<le> unat delayMs div ?i" using div_le_mono [of "?i * 2 ^ 23" "unat delayMs" ?i] cap by simp
    then show ?thesis using False cap by (simp add: delay_ticks_def min_def)
  qed
  moreover from ready_add [OF assms, of cb f] obtain w'' where "tw_AddTiming cb delayMs f w = Inr (None, w'')"
    "wheel_ready t0 w''" by blast
  moreover from tw_AddTiming_files [of w delayMs cb f] assms obtain n w' where
    "tw_AddTiming cb delayMs f w = Inr (None, w')" "expire n = tick w + delay_ticks w delayMs"
    "tn_mpCancelFlag n = Some f" "tn_mpCallback n = cb" "tw_abs w' = add_mset n (tw_abs w)"
    by (auto simp: wheel_ready_def)
  ultimately show ?thesis by auto
qed

theorem add_timing_files_one_node_witness:
  "\<exists>n w'. tw_AddTiming (Some ''ping'') 1000000000 7 (tw_new 16 0) = Inr (None, w') \<and> wheel_ready 0 w' \<and>
    tw_abs w' = add_mset n (tw_abs (tw_new 16 0)) \<and> tn_mpCancelFlag n = Some 7 \<and>
    tn_mpCallback n = Some ''ping'' \<and> expire n = tick (tw_new 16 0 :: string TimingWheel)
      + min (unat (1000000000 :: uint64) div unat (tw_mTickIntervalMs (tw_new 16 0 :: string TimingWheel))) (2 ^ 23)"
  by (rule add_timing_files_one_node) (simp_all add: tw_new_ready)

text \<open>C26: The delay of a timer counts from the last tick of the wheel and not from the call of \<open>AddTiming\<close>: the node fires
  at the next \<open>Tick\<close> exactly when its delay in whole intervals and one interval more have passed since
  \<open>mLastTickTime\<close>. A timer that is added while the wheel is late fires early, possibly at once.\<close>

theorem delay_counts_from_the_last_tick:
  assumes "wheel_ready t0 w" and "delayMs \<noteq> 0"
    and "tw_mLastTickTime w \<le> now" and "due_ticks t0 (tw_mTickIntervalMs w) now < 2 ^ 32"
  shows "\<exists>n w1 L w2. tw_AddTiming cb delayMs f w = Inr (None, w1) \<and> tw_abs w1 = add_mset n (tw_abs w) \<and>
    tn_mpCancelFlag n = Some f \<and> tw_Tick now w1 = Some (L, w2) \<and>
    (n \<in> set L \<longleftrightarrow> tw_mLastTickTime w +
      (int (min (unat delayMs div unat (tw_mTickIntervalMs w)) (2 ^ 23)) + 1) * uint (tw_mTickIntervalMs w) * 1000000 \<le> now)"
proof -
  let ?i = "uint (tw_mTickIntervalMs w)" and ?d = "int (min (unat delayMs div unat (tw_mTickIntervalMs w)) (2 ^ 23))"
  let ?e = "(now - tw_mLastTickTime w) div 1000000"
  have i0: "0 < ?i" using assms(1) by (simp add: wheel_ready_def word_less_def)
  from ready_add [OF assms(1,2), of cb f] add_timing_files_one_node [OF assms(1,2), of cb f] obtain n w1 where 1:
    "tw_AddTiming cb delayMs f w = Inr (None, w1)" "wheel_ready t0 w1" "tw_abs w1 = add_mset n (tw_abs w)"
    "tn_mpCancelFlag n = Some f" "expire n = tick w + min (unat delayMs div unat (tw_mTickIntervalMs w)) (2 ^ 23)" "tw_mTickIntervalMs w1 = tw_mTickIntervalMs w"
    "tw_mLastTickTime w1 = tw_mLastTickTime w" "tick w1 = tick w" by fastforce
  from tw_Tick_exact [of w1 t0 now] 1(2) assms(3,4) obtain L w2 where 2: "tw_Tick now w1 = Some (L, w2)"
    "tick w2 = due_ticks t0 (tw_mTickIntervalMs w) now" "mset L = filter_mset (\<lambda>x. expire x < tick w2) (tw_abs w1)"
    by (auto simp: wheel_ready_def 1(6,7))
  have "n \<in># mset L \<longleftrightarrow> expire n < tick w2" unfolding 2(3) 1(3) by simp
  also have "tick w2 = tick w + nat (?e div ?i)"
    using elapsed_ticks [OF _ _ assms(3), of t0] assms(1) unfolding 2(2) by (simp add: wheel_ready_def)
  also have "expire n < tick w + nat (?e div ?i) \<longleftrightarrow> ?d < ?e div ?i"
    unfolding 1(5) by (simp only: nat_add_left_cancel_less zless_nat_eq_int_zless)
  also have "\<dots> \<longleftrightarrow> ?d + 1 \<le> ?e div ?i" by linarith
  also have "\<dots> \<longleftrightarrow> (?d + 1) * ?i \<le> ?e"
  proof
    assume "?d + 1 \<le> ?e div ?i"
    then have "(?d + 1) * ?i \<le> ?e div ?i * ?i" using i0 by (intro mult_right_mono) simp_all
    also have "\<dots> \<le> ?e" using i0 by (simp add: minus_mod_eq_div_mult [symmetric])
    finally show "(?d + 1) * ?i \<le> ?e" .
  qed (use i0 zdiv_mono1 [of "(?d + 1) * ?i" ?e ?i] in simp)
  also have "\<dots> \<longleftrightarrow> (?d + 1) * ?i * 1000000 \<le> now - tw_mLastTickTime w" by linarith
  finally have "n \<in> set L \<longleftrightarrow> tw_mLastTickTime w + (?d + 1) * ?i * 1000000 \<le> now" by auto
  with 1 2 show ?thesis by blast
qed

theorem delay_counts_from_the_last_tick_witness:
  "\<exists>n w1 L w2. tw_AddTiming (Some ''ping'') 100 7 (tw_new 16 0) = Inr (None, w1) \<and> tn_mpCancelFlag n = Some 7 \<and>
    tw_Tick 1000000000 w1 = Some (L, w2) \<and> n \<in> set L"
proof -
  have "due_ticks 0 (tw_mTickIntervalMs (tw_new 16 0 :: string TimingWheel)) 1000000000 < 2 ^ 32"
    "tw_mLastTickTime (tw_new 16 0 :: string TimingWheel) \<le> 1000000000" "wheel_ready 0 (tw_new 16 0 :: string TimingWheel)"
    by (simp_all add: tw_new_ready) (simp_all add: tw_new_def DEFAULT_TICK_INTERVAL_def due_ticks_def)
  then show ?thesis
    using delay_counts_from_the_last_tick [of 0 "tw_new 16 0" 100 1000000000 "Some ''ping''" 7]
    by (auto simp: tw_new_def DEFAULT_TICK_INTERVAL_def)
qed

text \<open>A cancelled timer never runs: when the flag of a handle is set and callbacks never clear a
  flag, executing a batch of collected nodes has the same effect as executing the batch without
  the nodes of that handle.\<close>

theorem cancelled_timer_never_runs:
  assumes "\<And>cb st g. flags st g \<Longrightarrow> flags (run cb st) g" and "flags st f"
  shows "tn_execute_all run flags nodes st =
    tn_execute_all run flags (filter (\<lambda>n. tn_mpCancelFlag n \<noteq> Some f) nodes) st"
  using assms(2)
  by (induction nodes arbitrary: st) (auto simp: tn_Execute_def assms(1) split: option.splits)

theorem cancelled_timer_never_runs_witness:
  "tn_execute_all (\<lambda>cb (st, log). (st, cb # log)) fst
     [\<lparr>tn_mExpireTick = 3, tn_mpCancelFlag = Some 7, tn_mpCallback = Some ''ping''\<rparr>]
     (th_Cancel (Some 7) (\<lambda>_. False), []) =
   tn_execute_all (\<lambda>cb (st, log). (st, cb # log)) fst (filter (\<lambda>n. tn_mpCancelFlag n \<noteq> Some 7)
     [\<lparr>tn_mExpireTick = 3, tn_mpCancelFlag = Some 7, tn_mpCallback = Some ''ping''\<rparr>])
     (th_Cancel (Some 7) (\<lambda>_. False), [])"
  by (rule cancelled_timer_never_runs) (auto simp: th_Cancel_def)

end
