(* ===== verification/Send_Buffer.thy ===== *)
theory Send_Buffer
  imports Engine_Prelude
begin

text \<open>
  NetSendBuffer (NetSendBuffer.h, NetSendBuffer.cpp) and SendBufferAllocator
  (SendBufferAllocator.h, SendBufferAllocator.cpp): the linear buffer one packet is built in.
  A pointer into \<open>mpBuffer\<close> is its index; \<open>mpBuffer\<close> is \<open>None\<close> where the unique pointer is
  null. The last section gives the reserve/store/commit protocol as an interface.
\<close>

subsection \<open>NetSendBuffer\<close>

record NetSendBuffer =
  sb_mMaxBufferSize :: int
  sb_mReadPos :: int
  sb_mWritePos :: int
  sb_mpBuffer :: "byte list option"

definition sb_MAX_BUFFER_SIZE :: int where
  "sb_MAX_BUFFER_SIZE = 655336"

text \<open>
  \<open>MakeUniqueArray\<close> of no bytes asks \<open>MemoryAllocator::Alloc\<close> for 0 bytes, which returns
  \<open>nullptr\<close>. The bytes of any other allocation are whatever the memory holds.
\<close>

definition sb_new :: "int \<Rightarrow> byte list \<Rightarrow> NetSendBuffer" where
  "sb_new maxSize mem =
     \<lparr>sb_mMaxBufferSize = maxSize, sb_mReadPos = 0, sb_mWritePos = 0,
      sb_mpBuffer = (if maxSize = 0 then None else Some (take (nat maxSize) mem))\<rparr>"

definition sb_Clear :: "NetSendBuffer \<Rightarrow> NetSendBuffer" where
  "sb_Clear b = b\<lparr>sb_mReadPos := 0, sb_mWritePos := 0\<rparr>"

definition sb_GetMaxSize :: "NetSendBuffer \<Rightarrow> int" where
  "sb_GetMaxSize b = sb_mMaxBufferSize b"

definition sb_GetFreeSize :: "NetSendBuffer \<Rightarrow> int" where
  "sb_GetFreeSize b = sb_mMaxBufferSize b - sb_mWritePos b"

definition sb_GetUseSize :: "NetSendBuffer \<Rightarrow> int" where
  "sb_GetUseSize b = sb_mWritePos b"

definition sb_GetBufferPtr :: "NetSendBuffer \<Rightarrow> int" where
  "sb_GetBufferPtr b = 0"

definition sb_GetReadPtr :: "NetSendBuffer \<Rightarrow> int" where
  "sb_GetReadPtr b = sb_mReadPos b"

definition sb_GetWritePtr :: "NetSendBuffer \<Rightarrow> int" where
  "sb_GetWritePtr b = sb_mWritePos b"

text \<open>
  The accesses that are undefined in C++ are values of their own: reading or writing
  through a null \<open>mpBuffer\<close>, and a store that runs past the allocation.
\<close>

datatype memory_error = NullDereference | HeapOverflow

text \<open>
  \<open>Reserve\<close> reads \<open>mpBuffer[0]\<close> into a local that is not used; that read is what makes a
  null buffer fail here. Its other results are a null pointer and the write pointer.
\<close>

definition sb_Reserve :: "NetSendBuffer \<Rightarrow> int \<Rightarrow> memory_error + int option" where
  "sb_Reserve b sz =
     (if sb_GetFreeSize b < sz then Inr None
      else case sb_mpBuffer b of
             None \<Rightarrow> Inl NullDereference
           | Some buf \<Rightarrow> Inr (Some (sb_mWritePos b)))"

definition sb_MoveReadPos :: "NetSendBuffer \<Rightarrow> int \<Rightarrow> NetSendBuffer" where
  "sb_MoveReadPos b sz =
     (if sz + sb_mReadPos b > sb_mWritePos b then b
      else b\<lparr>sb_mReadPos := sb_mReadPos b + sz\<rparr>)"

definition sb_MoveWritePos :: "NetSendBuffer \<Rightarrow> int \<Rightarrow> NetSendBuffer" where
  "sb_MoveWritePos b sz =
     (if sb_GetFreeSize b < sz then b
      else b\<lparr>sb_mWritePos := sb_mWritePos b + sz\<rparr>)"

definition sb_Commit :: "NetSendBuffer \<Rightarrow> int \<Rightarrow> NetSendBuffer" where
  "sb_Commit b sz = sb_MoveWritePos b sz"

text \<open>The caller's store of some bytes through a pointer that \<open>Reserve\<close> returned.\<close>

definition sb_store :: "NetSendBuffer \<Rightarrow> int \<Rightarrow> byte list \<Rightarrow> memory_error + NetSendBuffer" where
  "sb_store b ptr xs =
     (case sb_mpBuffer b of
        None \<Rightarrow> Inl NullDereference
      | Some buf \<Rightarrow>
          if ptr + int (length xs) > int (length buf) then Inl HeapOverflow
          else Inr (b\<lparr>sb_mpBuffer := Some (copy_at buf (nat ptr) xs)\<rparr>))"

text \<open>The bytes a WSABUF made of \<open>GetReadPtr\<close> and \<open>GetUseSize\<close> points at.\<close>

definition sb_wsabuf :: "NetSendBuffer \<Rightarrow> byte list" where
  "sb_wsabuf b = (case sb_mpBuffer b of None \<Rightarrow> []
     | Some buf \<Rightarrow> take (nat (sb_GetUseSize b)) (drop (nat (sb_GetReadPtr b)) buf))"

subsection \<open>SendBufferAllocator\<close>

definition sba_SMALL_STRIDE :: int where "sba_SMALL_STRIDE = 256"
definition sba_LARGE_STRIDE :: int where "sba_LARGE_STRIDE = 4096"
definition sba_THRESHOLD :: int where "sba_THRESHOLD = 4096"
definition sba_MAX_SIZE :: int where "sba_MAX_SIZE = 65536"

definition sba_getAllocSize :: "int \<Rightarrow> int" where
  "sba_getAllocSize sz =
     (if sz \<le> sba_THRESHOLD
      then (sz + sba_SMALL_STRIDE - 1) AND NOT (sba_SMALL_STRIDE - 1)
      else (sz + sba_LARGE_STRIDE - 1) AND NOT (sba_LARGE_STRIDE - 1))"

definition sba_Alloc :: "int \<Rightarrow> byte list \<Rightarrow> NetSendBuffer option" where
  "sba_Alloc sz mem =
     (if sz < 0 \<or> sz > sba_MAX_SIZE then None
      else let allocSize = sba_getAllocSize sz in Some (sb_new allocSize mem))"

lemmas sba_constants = sba_SMALL_STRIDE_def sba_LARGE_STRIDE_def sba_THRESHOLD_def sba_MAX_SIZE_def

subsection \<open>Rounding up to a stride\<close>

lemma round_up_bounds:
  assumes "0 \<le> (sz::int)"
  shows "sz \<le> (sz + 2 ^ n - 1) AND NOT (2 ^ n - 1)"
    "(sz + 2 ^ n - 1) AND NOT (2 ^ n - 1) < sz + 2 ^ n"
    "2 ^ n dvd (sz + 2 ^ n - 1) AND NOT (2 ^ n - 1)"
proof -
  let ?x = "sz + 2 ^ n - 1"
  have eq: "?x AND NOT (2 ^ n - 1) = ?x - ?x mod 2 ^ n"
    by (rule and_not_low_bits)
  have r: "0 \<le> ?x mod 2 ^ n" "?x mod 2 ^ n < 2 ^ n" by simp_all
  show "sz \<le> ?x AND NOT (2 ^ n - 1)" "?x AND NOT (2 ^ n - 1) < sz + 2 ^ n"
    unfolding eq using r by linarith+
  show "2 ^ n dvd ?x AND NOT (2 ^ n - 1)"
    unfolding eq by (rule dvd_minus_mod)
qed

lemma sba_getAllocSize_small:
  assumes "0 \<le> sz" "sz \<le> 4096"
  shows "sz \<le> sba_getAllocSize sz" "sba_getAllocSize sz < sz + 256" "256 dvd sba_getAllocSize sz"
  using round_up_bounds [OF assms(1), of 8] assms
  by (simp_all add: sba_getAllocSize_def sba_constants)

lemma sba_getAllocSize_large:
  assumes "4096 < sz"
  shows "sz \<le> sba_getAllocSize sz" "sba_getAllocSize sz < sz + 4096" "4096 dvd sba_getAllocSize sz"
  using round_up_bounds [of sz 12] assms
  by (simp_all add: sba_getAllocSize_def sba_constants)

lemma sba_getAllocSize_ge: "0 \<le> sz \<Longrightarrow> sz \<le> sba_getAllocSize sz"
  by (cases "sz \<le> 4096") (auto intro: sba_getAllocSize_small sba_getAllocSize_large)

lemma sba_getAllocSize_max:
  assumes "0 \<le> sz" "sz \<le> 65536"
  shows "sba_getAllocSize sz \<le> 65536"
proof (cases "sz \<le> 4096")
  case True
  then show ?thesis using sba_getAllocSize_small [OF assms(1)] by linarith
next
  case False
  then have "4096 < sz" by simp
  note l = sba_getAllocSize_large [OF this]
  then obtain k where k: "sba_getAllocSize sz = 4096 * k" by (auto elim: dvdE)
  with l(2) assms have "k \<le> 16" by linarith
  with k show ?thesis by simp
qed

text \<open>A send buffer allocated for a packet of 1 to 65536 bytes is at least as large as asked for, at most
  65536 bytes, and less than one stride (256 up to 4096 bytes, 4096 above) larger; every other
  size except 0 is refused.\<close>

theorem send_buffer_size_is_rounded_up:
  "(sba_Alloc sz mem = None \<longleftrightarrow> sz < 0 \<or> 65536 < sz) \<and>
   (\<forall>b. sba_Alloc sz mem = Some b \<longrightarrow>
      sz \<le> sb_GetFreeSize b \<and> sb_GetFreeSize b \<le> 65536 \<and>
      sb_GetFreeSize b < sz + (if sz \<le> 4096 then 256 else 4096) \<and>
      (if sz \<le> 4096 then 256 else 4096) dvd sb_GetMaxSize b \<and> sb_GetUseSize b = 0)"
proof (intro conjI allI impI)
  show "sba_Alloc sz mem = None \<longleftrightarrow> sz < 0 \<or> 65536 < sz"
    by (simp add: sba_Alloc_def sba_constants Let_def)
  fix b assume a: "sba_Alloc sz mem = Some b"
  then have sz: "0 \<le> sz" "sz \<le> 65536" and b: "b = sb_new (sba_getAllocSize sz) mem"
    by (auto simp: sba_Alloc_def sba_constants Let_def split: if_splits)
  note b = b sb_new_def sb_GetFreeSize_def sb_GetMaxSize_def sb_GetUseSize_def
  show "sz \<le> sb_GetFreeSize b" using sba_getAllocSize_ge [OF sz(1)] by (simp add: b)
  show "sb_GetFreeSize b \<le> 65536" using sba_getAllocSize_max [OF sz] by (simp add: b)
  show "sb_GetFreeSize b < sz + (if sz \<le> 4096 then 256 else 4096)"
    "(if sz \<le> 4096 then 256 else 4096) dvd sb_GetMaxSize b"
    using sba_getAllocSize_small [OF sz(1)] sba_getAllocSize_large [of sz] by (auto simp: b)
  show "sb_GetUseSize b = 0" by (simp add: b)
qed

lemma send_buffer_size_is_rounded_up_witness:
  "\<exists>b. sba_Alloc 300 [] = Some b \<and> 300 \<le> sb_GetFreeSize b \<and> sb_GetFreeSize b < 300 + 256"
proof -
  obtain b where b: "sba_Alloc 300 [] = Some b"
    by (simp add: sba_Alloc_def sba_constants Let_def)
  then show ?thesis using send_buffer_size_is_rounded_up [of 300 "[]"] by simp
qed

subsection \<open>Invariant and contents\<close>

definition sb_wf :: "NetSendBuffer \<Rightarrow> bool" where
  "sb_wf b \<longleftrightarrow> 0 \<le> sb_mReadPos b \<and> sb_mReadPos b \<le> sb_mWritePos b \<and>
     sb_mWritePos b \<le> sb_mMaxBufferSize b \<and>
     (case sb_mpBuffer b of None \<Rightarrow> sb_mMaxBufferSize b = 0
      | Some buf \<Rightarrow> int (length buf) = sb_mMaxBufferSize b)"

definition sb_contents :: "NetSendBuffer \<Rightarrow> byte list" where
  "sb_contents b = (case sb_mpBuffer b of None \<Rightarrow> [] | Some buf \<Rightarrow> take (nat (sb_mWritePos b)) buf)"

lemma sb_new_wf [inv_intros]: "0 \<le> n \<Longrightarrow> n \<le> int (length mem) \<Longrightarrow> sb_wf (sb_new n mem)"
  by (simp add: sb_wf_def sb_new_def)

lemma sb_Clear_wf [inv_intros]: "sb_wf b \<Longrightarrow> sb_wf (sb_Clear b)"
  by (auto simp: sb_wf_def sb_Clear_def split: option.splits)

lemma sb_Move_wf [inv_intros]:
  "sb_wf b \<Longrightarrow> 0 \<le> n \<Longrightarrow> sb_wf (sb_MoveReadPos b n)"
  "sb_wf b \<Longrightarrow> 0 \<le> n \<Longrightarrow> sb_wf (sb_Commit b n)"
  by (auto simp: sb_wf_def sb_Commit_def sb_MoveReadPos_def sb_MoveWritePos_def sb_GetFreeSize_def
      split: option.splits)

lemma sb_store_wf [inv_intros]:
  "sb_wf b \<Longrightarrow> 0 \<le> ptr \<Longrightarrow> sb_store b ptr xs = Inr b' \<Longrightarrow> sb_wf b'"
  by (auto simp: sb_wf_def sb_store_def split: option.splits if_splits)

lemma sb_Reserve_fits:
  assumes "sb_wf b" "0 < n" "n \<le> sb_GetFreeSize b"
  shows "sb_Reserve b n = Inr (Some (sb_mWritePos b))"
  using assms by (auto simp: sb_wf_def sb_Reserve_def sb_GetFreeSize_def split: option.splits)

lemma sb_store_twice:
  assumes "0 \<le> ptr" "sb_store b ptr xs = Inr b'"
  shows "sb_store b' (ptr + int (length xs)) ys = sb_store b ptr (xs @ ys)"
proof -
  obtain buf where buf: "sb_mpBuffer b = Some buf" "ptr + int (length xs) \<le> int (length buf)"
    "b' = b\<lparr>sb_mpBuffer := Some (copy_at buf (nat ptr) xs)\<rparr>"
    using assms(2) by (auto simp: sb_store_def split: option.splits if_splits)
  have fits: "nat ptr + length xs \<le> length buf" using buf(2) assms(1) by linarith
  have "copy_at (copy_at buf (nat ptr) xs) (nat ptr + length xs) ys = copy_at buf (nat ptr) (xs @ ys)"
    by (rule copy_at_append [OF fits])
  then show ?thesis using buf fits assms(1) by (simp add: sb_store_def nat_add_distrib add.assoc)
qed

lemma sb_store_reserved:
  assumes wf: "sb_wf b" and fits: "int (length xs) \<le> sb_GetFreeSize b" and ne: "xs \<noteq> []"
  shows "\<exists>b'. sb_store b (sb_mWritePos b) xs = Inr b' \<and>
     sb_contents (sb_Commit b' (int (length xs))) = sb_contents b @ xs \<and>
     sb_wf (sb_Commit b' (int (length xs))) \<and>
     sb_GetFreeSize (sb_Commit b' (int (length xs))) = sb_GetFreeSize b - int (length xs)"
proof (cases "sb_mpBuffer b")
  case None
  then have "sb_mMaxBufferSize b = 0" "0 \<le> sb_mWritePos b" using wf by (simp_all add: sb_wf_def)
  then have "int (length xs) \<le> 0" using fits unfolding sb_GetFreeSize_def by linarith
  then show ?thesis using ne by simp
next
  case (Some buf)
  let ?b = "b\<lparr>sb_mpBuffer := Some (copy_at buf (nat (sb_mWritePos b)) xs)\<rparr>"
  have bounds: "0 \<le> sb_mWritePos b" "nat (sb_mWritePos b) + length xs \<le> length buf"
    "int (length buf) = sb_mMaxBufferSize b"
    using wf fits Some by (auto simp: sb_wf_def sb_GetFreeSize_def)
  have st: "sb_store b (sb_mWritePos b) xs = Inr ?b"
    using Some bounds by (simp add: sb_store_def)
  have "nat (sb_mWritePos b + int (length xs)) = nat (sb_mWritePos b) + length xs"
    using bounds by simp
  then have "sb_contents (sb_Commit ?b (int (length xs))) = sb_contents b @ xs"
    using Some bounds fits
    by (simp add: sb_contents_def sb_Commit_def sb_MoveWritePos_def sb_GetFreeSize_def copy_at_def)
  moreover have "sb_wf (sb_Commit ?b (int (length xs)))"
    by (rule sb_Move_wf(2) [OF sb_store_wf [OF wf bounds(1) st]]) simp
  ultimately show ?thesis
    using fits st by (auto simp: sb_Commit_def sb_MoveWritePos_def sb_GetFreeSize_def)
qed

end
