(* ===== verification/Session_State.thy ===== *)
theory Session_State
  imports Engine_Prelude
begin

text \<open>
  The session life cycle as the atomic \<open>mSessionState\<close> of Session.h and Session.cpp: its enums
  and the compare-and-exchange transitions, each a function from the state to the new state and
  the value returned. The IOCP event types of IocpEvent.h are here too.
\<close>

datatype eSessionState = Connected | Waiting | InGame | Disconnected

datatype eDisconnectReason = ClientRequest | Timeout | Kicked | ServerFull | ServerShutdown
  | SocketError | StateError | ServiceError

datatype eIocpEventType = AcceptEvent | ConnectEvent | DisconnectEvent | SendEvent | ReceiveEvent

instantiation eSessionState :: enum
begin

definition enum_eSessionState :: "eSessionState list" where
  "enum_eSessionState = [Connected, Waiting, InGame, Disconnected]"

definition enum_all_eSessionState :: "(eSessionState \<Rightarrow> bool) \<Rightarrow> bool" where
  "enum_all_eSessionState P \<longleftrightarrow> P Connected \<and> P Waiting \<and> P InGame \<and> P Disconnected"

definition enum_ex_eSessionState :: "(eSessionState \<Rightarrow> bool) \<Rightarrow> bool" where
  "enum_ex_eSessionState P \<longleftrightarrow> P Connected \<or> P Waiting \<or> P InGame \<or> P Disconnected"

instance
proof
  show "(UNIV :: eSessionState set) = set enum_class.enum"
    using eSessionState.exhaust by (auto simp: enum_eSessionState_def)
  show "distinct (enum_class.enum :: eSessionState list)"
    by (simp add: enum_eSessionState_def)
  show "enum_class.enum_all P \<longleftrightarrow> Ball UNIV P" for P :: "eSessionState \<Rightarrow> bool"
    unfolding enum_all_eSessionState_def by (metis UNIV_I eSessionState.exhaust)
  show "enum_class.enum_ex P \<longleftrightarrow> Bex UNIV P" for P :: "eSessionState \<Rightarrow> bool"
    unfolding enum_ex_eSessionState_def by (metis UNIV_I eSessionState.exhaust)
qed

end

text \<open>The value an enumerator has in the \<open>uint16\<close> it is printed as.\<close>

fun reason_code :: "eDisconnectReason \<Rightarrow> uint16" where
  "reason_code ClientRequest = 0"
| "reason_code Timeout = 1"
| "reason_code Kicked = 2"
| "reason_code ServerFull = 3"
| "reason_code ServerShutdown = 4"
| "reason_code SocketError = 5"
| "reason_code StateError = 6"
| "reason_code ServiceError = 7"

subsection \<open>The atomic transitions\<close>

text \<open>
  \<open>compare_exchange_weak\<close> is modelled by its value on the platform the engine targets: on
  x64 it does not fail when the expected value is there.
\<close>

definition cas_state :: "eSessionState \<Rightarrow> eSessionState \<Rightarrow> eSessionState \<Rightarrow> bool \<times> eSessionState" where
  "cas_state expected desired st = (if st = expected then (True, desired) else (False, st))"

definition SetSessionInGame :: "eSessionState \<Rightarrow> bool \<times> eSessionState" where
  "SetSessionInGame = cas_state Connected InGame"

definition setSessionWaiting :: "eSessionState \<Rightarrow> bool \<times> eSessionState" where
  "setSessionWaiting = cas_state Disconnected Disconnected"

definition setWaitingToConnected :: "eSessionState \<Rightarrow> bool \<times> eSessionState" where
  "setWaitingToConnected = cas_state Waiting Connected"

definition setSessionConnected :: "eSessionState \<Rightarrow> bool \<times> eSessionState" where
  "setSessionConnected = cas_state Disconnected Connected"

definition setSessionDisconnected :: "eSessionState \<Rightarrow> bool \<times> eSessionState" where
  "setSessionDisconnected st = (st \<noteq> Disconnected, Disconnected)"

definition IsInGame :: "eSessionState \<Rightarrow> bool" where "IsInGame st \<longleftrightarrow> st = InGame"
definition IsConnected :: "eSessionState \<Rightarrow> bool" where "IsConnected st \<longleftrightarrow> st = Connected"
definition IsWaiting :: "eSessionState \<Rightarrow> bool" where "IsWaiting st \<longleftrightarrow> st = Waiting"
definition IsDisconnected :: "eSessionState \<Rightarrow> bool" where "IsDisconnected st \<longleftrightarrow> st = Disconnected"

lemmas state_ops = SetSessionInGame_def setSessionWaiting_def setWaitingToConnected_def
  setSessionConnected_def setSessionDisconnected_def cas_state_def

lemmas state_tests = IsInGame_def IsConnected_def IsWaiting_def IsDisconnected_def

subsection \<open>Transitions of the life cycle\<close>

inductive state_step :: "eSessionState \<Rightarrow> eSessionState \<Rightarrow> bool" where
  in_game: "SetSessionInGame st = (b, st') \<Longrightarrow> state_step st st'"
| waiting: "setSessionWaiting st = (b, st') \<Longrightarrow> state_step st st'"
| admitted: "setWaitingToConnected st = (b, st') \<Longrightarrow> state_step st st'"
| connected: "setSessionConnected st = (b, st') \<Longrightarrow> state_step st st'"
| disconnected: "setSessionDisconnected st = (b, st') \<Longrightarrow> state_step st st'"

inductive_cases state_stepE: "state_step st st'"
inductive_simps state_step_iff: "state_step st st'"

lemma state_step_not_waiting: "state_step st st' \<Longrightarrow> st \<noteq> Waiting \<Longrightarrow> st' \<noteq> Waiting"
  by (elim state_stepE) (auto simp: state_ops split: if_splits)

text \<open>Any interleaving of the atomic transitions of a new session (which starts as \<open>Disconnected\<close>) never
  puts it in the state \<open>Waiting\<close>: \<open>setSessionWaiting\<close> exchanges \<open>Disconnected\<close> for \<open>Disconnected\<close>. So
  \<open>IsWaiting\<close> is never true and \<open>setWaitingToConnected\<close> never succeeds.\<close>

theorem waiting_state_is_never_entered:
  assumes "state_step\<^sup>*\<^sup>* Disconnected st"
  shows "\<not> IsWaiting st \<and> setWaitingToConnected st = (False, st)"
proof -
  have "st \<noteq> Waiting"
    using assms by (induction rule: rtranclp_induct) (auto dest: state_step_not_waiting)
  then show ?thesis by (simp add: state_tests state_ops)
qed

lemma waiting_state_is_never_entered_witness:
  "state_step\<^sup>*\<^sup>* Disconnected InGame \<and> \<not> IsWaiting InGame"
proof -
  have "state_step Disconnected Connected" "state_step Connected InGame"
    by (auto simp: state_step_iff state_ops)
  then have r: "state_step\<^sup>*\<^sup>* Disconnected InGame" by auto
  then show ?thesis using waiting_state_is_never_entered [OF r] by simp
qed

fun disconnect_attempts :: "nat \<Rightarrow> eSessionState \<Rightarrow> bool list" where
  "disconnect_attempts 0 st = []"
| "disconnect_attempts (Suc n) st =
     (case setSessionDisconnected st of (won, st') \<Rightarrow> won # disconnect_attempts n st')"

lemma disconnect_attempts_lost: "disconnect_attempts n Disconnected = replicate n False"
  by (induction n) (simp_all add: setSessionDisconnected_def)

text \<open>Of any number of disconnect attempts on a session that is not disconnected, exactly the first one
  wins: it alone sees \<open>true\<close> and goes on to \<open>OnDisconnecting\<close> and the disconnect request.\<close>

theorem one_disconnect_wins:
  assumes "\<not> IsDisconnected st"
  shows "disconnect_attempts (Suc n) st = True # replicate n False"
  using assms by (simp add: setSessionDisconnected_def state_tests disconnect_attempts_lost)

lemma one_disconnect_wins_witness:
  "disconnect_attempts 3 InGame = [True, False, False]"
  using one_disconnect_wins [of InGame 2] by (simp add: state_tests numeral_eq_Suc)

end
