(* ===== verification/Packets.thy ===== *)
theory Packets
  imports Send_Buffer Session_State
begin

text \<open>
  The packet layer: PacketHeader and PacketSession (PacketSession.h, PacketSession.cpp),
  its SessionTimeoutTracker (SessionTimeoutTracker.h, SessionTimeoutTracker.cpp), and the
  dispatch and message construction of the game server (Generated/PacketServiceTypeHandler.h,
  Generated/LoginPacketHandler.h and the handlers and GameSession beside them).

  A pointer into the receive buffer is the list of the bytes of the allocation from there on,
  so a read past the allocation is visible: it makes the result \<open>None\<close>. The virtual functions
  a session class overrides are arguments of the loop. The protobuf library is a parameter: a
  message type is given by its parser, its size and its serializer.
\<close>

subsection \<open>The header, packed and little-endian\<close>

record PacketHeader =
  ph_size :: uint16
  ph_id :: uint32

definition SIZEOF_HEADER :: int where
  "SIZEOF_HEADER = 6"

definition ph_read :: "byte list \<Rightarrow> PacketHeader option" where
  "ph_read p =
     (if int (length p) < SIZEOF_HEADER then None
      else Some
        \<lparr>ph_size = ucast (p ! 0) OR push_bit 8 (ucast (p ! 1)),
         ph_id = ucast (p ! 2) OR push_bit 8 (ucast (p ! 3))
                 OR push_bit 16 (ucast (p ! 4)) OR push_bit 24 (ucast (p ! 5))\<rparr>)"

definition ph_bytes :: "PacketHeader \<Rightarrow> byte list" where
  "ph_bytes h =
     [ucast (ph_size h), ucast (drop_bit 8 (ph_size h)),
      ucast (ph_id h), ucast (drop_bit 8 (ph_id h)),
      ucast (drop_bit 16 (ph_id h)), ucast (drop_bit 24 (ph_id h))]"

lemma length_ph_bytes [simp]: "length (ph_bytes h) = 6"
  by (simp add: ph_bytes_def)

lemma ph_bytes_nonempty [simp]: "ph_bytes h \<noteq> []"
  by (simp add: ph_bytes_def)

lemma join_uint16:
  "ucast (ucast w :: byte) OR push_bit 8 (ucast (ucast (drop_bit 8 w) :: byte)) = w" for w :: uint16
  by (rule bit_eqI) (auto simp: bit_simps)

lemma join_uint32:
  "ucast (ucast w :: byte) OR push_bit 8 (ucast (ucast (drop_bit 8 w) :: byte))
     OR push_bit 16 (ucast (ucast (drop_bit 16 w) :: byte))
     OR push_bit 24 (ucast (ucast (drop_bit 24 w) :: byte)) = w" (is "?l = w") for w :: uint32
proof -
  have eq: "24 + (n - 24) = n" if "\<not> n - 16 < 8" for n :: nat using that by arith
  show ?thesis by (rule bit_eqI, auto simp: bit_simps) (metis eq)
qed

lemma ph_read_bytes [simp]: "ph_read (ph_bytes h @ p) = Some h"
  by (simp add: ph_read_def ph_bytes_def SIZEOF_HEADER_def nth_Cons' join_uint16 join_uint32)

lemma ph_read_append: "ph_read p = Some h \<Longrightarrow> ph_read (p @ q) = Some h"
  by (auto simp: ph_read_def SIZEOF_HEADER_def nth_append split: if_splits)

lemma ph_read_take: "6 \<le> n \<Longrightarrow> ph_read (take n p) = ph_read p"
  by (auto simp: ph_read_def SIZEOF_HEADER_def)

subsection \<open>SessionTimeoutTracker\<close>

record SessionTimeoutTracker =
  tt_mLastActivityMs :: int

definition tt_ONE_SECOND_MS :: int where
  "tt_ONE_SECOND_MS = 1000"

text \<open>Each call of \<open>getNowTimeMs\<close> reads the steady clock; its successive values are arguments.\<close>

definition tt_new :: "int \<Rightarrow> SessionTimeoutTracker" where
  "tt_new now = \<lparr>tt_mLastActivityMs = now\<rparr>"

definition tt_UpdateActivity :: "int \<Rightarrow> int \<Rightarrow> SessionTimeoutTracker \<Rightarrow> SessionTimeoutTracker" where
  "tt_UpdateActivity now now' t =
     (if now - tt_mLastActivityMs t > tt_ONE_SECOND_MS then t\<lparr>tt_mLastActivityMs := now'\<rparr> else t)"

definition tt_GetLastActivityMs :: "SessionTimeoutTracker \<Rightarrow> int" where
  "tt_GetLastActivityMs t = tt_mLastActivityMs t"

text \<open>What PacketSession does with its tracker.\<close>

definition ps_OnActivityUpdate :: "int \<Rightarrow> int \<Rightarrow> SessionTimeoutTracker \<Rightarrow> SessionTimeoutTracker" where
  "ps_OnActivityUpdate now now' mTimeoutTracker = tt_UpdateActivity now now' mTimeoutTracker"

definition ps_OnGetLastActivityMs :: "SessionTimeoutTracker \<Rightarrow> int" where
  "ps_OnGetLastActivityMs mTimeoutTracker = tt_GetLastActivityMs mTimeoutTracker"

text \<open>The tracked activity time lags the last activity by at most one second and never runs ahead of the
  clock, and updating it never moves it back.\<close>

theorem activity_time_within_a_second:
  assumes "tt_GetLastActivityMs t \<le> now" "now \<le> now'"
  shows "let t' = tt_UpdateActivity now now' t in
    now - tt_ONE_SECOND_MS \<le> tt_GetLastActivityMs t' \<and> tt_GetLastActivityMs t' \<le> now' \<and>
    tt_GetLastActivityMs t \<le> tt_GetLastActivityMs t'"
  using assms by (auto simp: tt_UpdateActivity_def tt_GetLastActivityMs_def tt_ONE_SECOND_MS_def Let_def)

lemma activity_time_within_a_second_witness:
  "tt_GetLastActivityMs (tt_UpdateActivity 2500 2501 (tt_new 1000)) \<ge> 1500"
  using activity_time_within_a_second [of "tt_new 1000" 2500 2501]
  by (simp add: tt_new_def tt_GetLastActivityMs_def tt_ONE_SECOND_MS_def Let_def)

subsection \<open>PacketSession::OnReceive\<close>

text \<open>
  The session is a value of type \<open>'s\<close>. \<open>onActivity\<close> is \<open>OnActivityUpdate\<close> and
  \<open>onPacket\<close> the override of \<open>OnRecvPacket\<close>: it gets the pointer to the packet and its size.
  \<open>ps_loop\<close> is the \<open>while (true)\<close> loop with \<open>processLen\<close>; the header check compares the
  \<open>uint16\<close> size with \<open>DEFAULT_BUFFER_SIZE\<close> = 65535 as the code does.
\<close>

definition PS_MAX_PACKET :: int where
  "PS_MAX_PACKET = 65535"

function ps_loop :: "('s \<Rightarrow> 's) \<Rightarrow> (byte list \<Rightarrow> int \<Rightarrow> 's \<Rightarrow> 's) \<Rightarrow> byte list \<Rightarrow> int \<Rightarrow> int \<Rightarrow> 's
    \<Rightarrow> (int \<times> 's) option" where
  "ps_loop onActivity onPacket pBuffer len processLen s =
     (let dataSize = len - processLen in
      if dataSize < SIZEOF_HEADER then Some (processLen, s)
      else case ph_read (drop (nat processLen) pBuffer) of
        None \<Rightarrow> None
      | Some h \<Rightarrow>
          (let sz = uint (ph_size h) in
           if sz < SIZEOF_HEADER \<or> PS_MAX_PACKET < sz then Some (- 1, s)
           else if dataSize < sz then Some (processLen, s)
           else ps_loop onActivity onPacket pBuffer len (processLen + sz)
                  (onPacket (drop (nat processLen) pBuffer) sz (onActivity s))))"
  by pat_completeness auto
termination
  by (relation "measure (\<lambda>(_, _, _, len, processLen, _). nat (len - processLen))")
    (auto simp: SIZEOF_HEADER_def)

declare ps_loop.simps [simp del]

lemma ps_loop_short: "len - pl < SIZEOF_HEADER \<Longrightarrow> ps_loop onA onP buf len pl s = Some (pl, s)"
  by (simp add: ps_loop.simps)

lemma uint16_le_max: "\<not> PS_MAX_PACKET < uint (w :: uint16)"
  using unsigned_less [of w, where ?'a = int] by (simp add: PS_MAX_PACKET_def)

lemma ps_loop_header:
  assumes "\<not> len - pl < SIZEOF_HEADER" "ph_read (drop (nat pl) buf) = Some h"
  shows "uint (ph_size h) < SIZEOF_HEADER \<Longrightarrow> ps_loop onA onP buf len pl s = Some (- 1, s)"
    and "\<not> uint (ph_size h) < SIZEOF_HEADER \<Longrightarrow> len - pl < uint (ph_size h) \<Longrightarrow>
      ps_loop onA onP buf len pl s = Some (pl, s)"
    and "\<not> uint (ph_size h) < SIZEOF_HEADER \<Longrightarrow> \<not> len - pl < uint (ph_size h) \<Longrightarrow>
      ps_loop onA onP buf len pl s =
      ps_loop onA onP buf len (pl + uint (ph_size h)) (onP (drop (nat pl) buf) (uint (ph_size h)) (onA s))"
  using assms uint16_le_max [of "ph_size h"] by (simp_all add: ps_loop.simps [of _ _ _ _ pl] Let_def)

definition ps_OnReceive :: "('s \<Rightarrow> 's) \<Rightarrow> (byte list \<Rightarrow> int \<Rightarrow> 's \<Rightarrow> 's) \<Rightarrow> byte list \<Rightarrow> int \<Rightarrow> 's
    \<Rightarrow> (int \<times> 's) option" where
  "ps_OnReceive onActivity onPacket pBuffer len s = ps_loop onActivity onPacket pBuffer len 0 s"

subsection \<open>The framing of a byte stream\<close>

text \<open>
  What the loop does to a stream of bytes: the packets it contains, the bytes left, and
  whether it met a header whose size is below the size of a header.
\<close>

function frames :: "byte list \<Rightarrow> byte list list \<times> byte list \<times> bool" where
  "frames xs =
     (case ph_read xs of
        None \<Rightarrow> ([], xs, False)
      | Some h \<Rightarrow>
          (let n = unat (ph_size h) in
           if n < 6 then ([], xs, True)
           else if length xs < n then ([], xs, False)
           else case frames (drop n xs) of (fs, rest, bad) \<Rightarrow> (take n xs # fs, rest, bad)))"
  by pat_completeness auto
termination
  by (relation "measure length") (auto simp: ph_read_def SIZEOF_HEADER_def split: if_splits)

declare frames.simps [simp del]

lemma frames_None: "ph_read xs = None \<Longrightarrow> frames xs = ([], xs, False)"
  by (simp add: frames.simps)

lemma frames_bad: "ph_read xs = Some h \<Longrightarrow> unat (ph_size h) < 6 \<Longrightarrow> frames xs = ([], xs, True)"
  by (simp add: frames.simps)

lemma frames_partial:
  "ph_read xs = Some h \<Longrightarrow> \<not> unat (ph_size h) < 6 \<Longrightarrow> length xs < unat (ph_size h) \<Longrightarrow>
   frames xs = ([], xs, False)"
  by (simp add: frames.simps)

lemma frames_step:
  "ph_read xs = Some h \<Longrightarrow> \<not> unat (ph_size h) < 6 \<Longrightarrow> \<not> length xs < unat (ph_size h) \<Longrightarrow>
   frames xs = (case frames (drop (unat (ph_size h)) xs) of
     (fs, rest, bad) \<Rightarrow> (take (unat (ph_size h)) xs # fs, rest, bad))"
  by (subst frames.simps) (simp add: Let_def)

lemmas frames_cases = frames_None frames_bad frames_partial frames_step

lemma frames_concat: "frames xs = (fs, rest, bad) \<Longrightarrow> concat fs @ rest = xs"
proof (induction xs arbitrary: fs rest bad rule: frames.induct)
  case (1 xs)
  show ?case
  proof (cases "ph_read xs")
    case None
    then show ?thesis using 1(2) by (simp add: frames_None)
  next
    case (Some h)
    consider "unat (ph_size h) < 6" | "\<not> unat (ph_size h) < 6" "length xs < unat (ph_size h)"
      | "\<not> unat (ph_size h) < 6" "\<not> length xs < unat (ph_size h)" by blast
    then show ?thesis
    proof cases
      case 3
      then show ?thesis using 1(2) 1(1) [OF Some refl 3] Some
        by (cases "frames (drop (unat (ph_size h)) xs)") (auto simp: frames_step)
    qed (use 1(2) Some in \<open>auto simp: frames_bad frames_partial\<close>)
  qed
qed

lemma frames_rest_le: "frames xs = (fs, rest, bad) \<Longrightarrow> length rest \<le> length xs"
  using arg_cong [OF frames_concat, of xs fs rest bad length] by simp

text \<open>Bytes that arrive later do not change the packets already framed.\<close>

lemma frames_append:
  "frames xs = (fs, rest, False) \<Longrightarrow>
   frames (xs @ ys) = (case frames (rest @ ys) of (gs, r, b) \<Rightarrow> (fs @ gs, r, b))"
proof (induction xs arbitrary: fs rest rule: frames.induct)
  case (1 xs)
  show ?case
  proof (cases "ph_read xs")
    case None
    then show ?thesis using 1(2) by (simp add: frames_None split: prod.splits)
  next
    case (Some h)
    let ?n = "unat (ph_size h)"
    consider "?n < 6" | "\<not> ?n < 6" "length xs < ?n" | "\<not> ?n < 6" "\<not> length xs < ?n" by blast
    then show ?thesis
    proof cases
      case 3
      then obtain fs' where fs': "frames (drop ?n xs) = (fs', rest, False)" "fs = take ?n xs # fs'"
        using 1(2) Some by (auto simp: frames_step split: prod.splits)
      have "frames (drop ?n xs @ ys) = (case frames (rest @ ys) of (gs, r, b) \<Rightarrow> (fs' @ gs, r, b))"
        by (rule 1(1) [OF Some refl 3 fs'(1)])
      then show ?thesis
        using 3 fs'(2) by (subst frames_step [OF ph_read_append [OF Some]]) (auto split: prod.splits)
    qed (use 1(2) Some in \<open>auto simp: frames_bad frames_partial split: prod.splits\<close>)
  qed
qed

subsection \<open>The loop computes the framing\<close>

definition frame_effects :: "('s \<Rightarrow> 's) \<Rightarrow> (byte list \<Rightarrow> int \<Rightarrow> 's \<Rightarrow> 's) \<Rightarrow> byte list list \<Rightarrow> 's \<Rightarrow> 's" where
  "frame_effects onActivity onPacket fs s =
     fold (\<lambda>f s. onPacket f (int (length f)) (onActivity s)) fs s"

definition reads_own_packet :: "(byte list \<Rightarrow> int \<Rightarrow> 's \<Rightarrow> 's) \<Rightarrow> bool" where
  "reads_own_packet onPacket \<longleftrightarrow>
     (\<forall>p h s. ph_read p = Some h \<longrightarrow> SIZEOF_HEADER \<le> uint (ph_size h) \<longrightarrow>
        onPacket p (uint (ph_size h)) s = onPacket (take (unat (ph_size h)) p) (uint (ph_size h)) s)"

lemma ps_loop_frames:
  "reads_own_packet onPacket \<Longrightarrow> 0 \<le> pl \<Longrightarrow> pl \<le> len \<Longrightarrow> len \<le> int (length buf) \<Longrightarrow>
    frames (drop (nat pl) (take (nat len) buf)) = (fs, rest, bad) \<Longrightarrow>
    ps_loop onActivity onPacket buf len pl s =
      Some (if bad then - 1 else len - int (length rest), frame_effects onActivity onPacket fs s)"
proof (induction onActivity onPacket buf len pl s arbitrary: fs rest bad rule: ps_loop.induct)
  case (1 onActivity onPacket buf len pl s)
  note IH = 1(1) and own = 1(2) and prems = 1(3-6)
  let ?xs = "drop (nat pl) (take (nat len) buf)"
  have len_xs: "int (length ?xs) = len - pl" using prems(1-3) by auto
  have xs: "?xs = take (nat (len - pl)) (drop (nat pl) buf)"
    using prems(1,2) by (simp add: drop_take nat_diff_distrib)
  show ?case
  proof (cases "len - pl < 6")
    case True
    then have "ph_read ?xs = None" using len_xs by (simp only: ph_read_def SIZEOF_HEADER_def) simp
    then have "fs = []" "rest = ?xs" "\<not> bad" using prems(4) frames_None by auto
    then show ?thesis using True len_xs
      by (simp add: ps_loop.simps [of _ _ _ _ pl] SIZEOF_HEADER_def frame_effects_def)
  next
    case False
    then obtain h where h: "ph_read ?xs = Some h"
      using len_xs by (simp only: ph_read_def SIZEOF_HEADER_def) simp
    moreover have "ph_read ?xs = ph_read (drop (nat pl) buf)"
      unfolding xs by (rule ph_read_take) (use False in simp)
    ultimately have h': "ph_read (drop (nat pl) buf) = Some h" by simp
    note cases = ps_loop_header [OF False [folded SIZEOF_HEADER_def] h']
    let ?n = "unat (ph_size h)"
    have n: "uint (ph_size h) = int ?n" by simp
    consider "?n < 6" | "\<not> ?n < 6" "length ?xs < ?n" | "\<not> ?n < 6" "\<not> length ?xs < ?n" by blast
    then show ?thesis
    proof cases
      case 1
      then have "uint (ph_size h) < SIZEOF_HEADER" using n unfolding SIZEOF_HEADER_def by linarith
      moreover have "fs = []" "bad" using prems(4) frames_bad [OF h 1] by auto
      ultimately show ?thesis by (simp add: cases(1) frame_effects_def)
    next
      case 2
      then have "\<not> uint (ph_size h) < SIZEOF_HEADER" "len - pl < uint (ph_size h)"
        using n len_xs unfolding SIZEOF_HEADER_def by linarith+
      moreover have "fs = []" "rest = ?xs" "\<not> bad" using prems(4) frames_partial [OF h 2] by auto
      ultimately show ?thesis using len_xs by (simp add: cases(2) frame_effects_def)
    next
      case 3
      then have sz: "\<not> uint (ph_size h) < SIZEOF_HEADER" "\<not> len - pl < uint (ph_size h)"
        using n len_xs unfolding SIZEOF_HEADER_def by linarith+
      obtain fs' where fs': "frames (drop ?n ?xs) = (fs', rest, bad)" "fs = take ?n ?xs # fs'"
        using prems(4) frames_step [OF h 3] by (auto split: prod.splits)
      let ?pl = "pl + int ?n" and ?p = "drop (nat pl) buf"
      have nn: "?n \<le> nat (len - pl)" using 3(2) len_xs by linarith
      have pkt: "take ?n ?p = take ?n ?xs" "length (take ?n ?xs) = ?n"
        using nn 3(2) unfolding xs by (simp_all add: min_absorb1)
      have rest: "drop (nat ?pl) (take (nat len) buf) = drop ?n ?xs"
        using prems(1) by (simp add: nat_add_distrib add.commute)
      have range: "0 \<le> ?pl" "?pl \<le> len" using 3(2) len_xs prems(1) by linarith+
      have big: "\<not> (uint (ph_size h) < SIZEOF_HEADER \<or> PS_MAX_PACKET < uint (ph_size h))"
        using sz(1) uint16_le_max by blast
      note step = IH [OF refl _ h' refl big sz(2), unfolded n, OF _ own range prems(3),
          unfolded rest, OF _ fs'(1)]
      have "onPacket ?p (int ?n) (onActivity s) = onPacket (take ?n ?xs) (int ?n) (onActivity s)"
        using own h' sz(1) unfolding reads_own_packet_def n [symmetric] by (metis pkt(1) not_less)
      then show ?thesis
        using sz step False pkt(2) unfolding fs'(2)
        by (simp add: cases(3) [unfolded n] frame_effects_def Let_def)
    qed
  qed
qed

lemma OnReceive_frames:
  assumes "reads_own_packet onPacket" "0 \<le> len" "len \<le> int (length buf)"
    "frames (take (nat len) buf) = (fs, rest, bad)"
  shows "ps_OnReceive onActivity onPacket buf len s =
      Some (if bad then - 1 else len - int (length rest), frame_effects onActivity onPacket fs s)"
  using ps_loop_frames [OF assms(1), of 0 len buf fs rest bad onActivity s] assms(2-4)
  by (simp add: ps_OnReceive_def)

lemma frame_effects_append:
  "frame_effects onA onP (fs @ gs) s = frame_effects onA onP gs (frame_effects onA onP fs s)"
  by (simp add: frame_effects_def)

text \<open>C33: OnReceive on a buffer that holds the \<open>len\<close> bytes always returns without reading outside of it; the
  result is -1 or a number of consumed bytes between 0 and \<open>len\<close>.\<close>

theorem on_receive_is_total:
  assumes "reads_own_packet onPacket" "0 \<le> len" "len \<le> int (length buf)"
  shows "\<exists>n s'. ps_OnReceive onActivity onPacket buf len s = Some (n, s') \<and> (n = - 1 \<or> 0 \<le> n \<and> n \<le> len)"
proof -
  obtain fs rest bad where f: "frames (take (nat len) buf) = (fs, rest, bad)" by (cases "frames (take (nat len) buf)")
  have "length rest \<le> length (take (nat len) buf)" by (rule frames_rest_le [OF f])
  then have "int (length rest) \<le> len" using assms(2,3) by simp
  then show ?thesis using OnReceive_frames [OF assms f] by auto
qed

lemma on_receive_is_total_witness:
  "\<exists>n s'. ps_OnReceive id (\<lambda>p n s. Suc s) [6, 0, 1, 0, 1, 0, 9] 7 (0::nat) = Some (n, s') \<and> n \<le> 7"
  using on_receive_is_total [of "\<lambda>p n s. Suc s" 7 "[6, 0, 1, 0, 1, 0, 9]" id 0]
  by (fastforce simp: reads_own_packet_def)

text \<open>C38: Receiving a byte stream in two pieces, the second starting with the bytes the first call left over,
  has the same effect on the session and consumes the same bytes as receiving it at once.\<close>

theorem receiving_in_pieces_is_receiving_whole:
  assumes own: "reads_own_packet onPacket"
    and 1: "ps_OnReceive onActivity onPacket xs (int (length xs)) s = Some (n, s1)" "0 \<le> n"
    and 2: "ps_OnReceive onActivity onPacket (drop (nat n) xs @ ys) (int (length xs) - n + int (length ys)) s1
              = Some (m, s2)"
  shows "ps_OnReceive onActivity onPacket (xs @ ys) (int (length (xs @ ys))) s
           = Some (if m < 0 then - 1 else n + m, s2)"
proof -
  obtain fs rest bad where f: "frames xs = (fs, rest, bad)" by (cases "frames xs")
  note c = frames_concat [OF f]
  have r1: "n = (if bad then - 1 else int (length xs) - int (length rest))"
    "s1 = frame_effects onActivity onPacket fs s"
    using OnReceive_frames [OF own, of "int (length xs)" xs fs rest bad onActivity s] 1(1) f by auto
  then have "\<not> bad" using 1(2) by auto
  then have n: "n = int (length (concat fs))" and rest: "drop (nat n) xs = rest"
    using r1(1) by (auto simp flip: c)
  obtain gs r b where g: "frames (rest @ ys) = (gs, r, b)" by (cases "frames (rest @ ys)")
  have len: "int (length xs) - n + int (length ys) = int (length (rest @ ys))"
    using n by (simp flip: c)
  have r2: "m = (if b then - 1 else int (length (rest @ ys)) - int (length r))"
    "s2 = frame_effects onActivity onPacket gs s1"
    using OnReceive_frames [OF own, of "int (length (rest @ ys))" "rest @ ys" gs r b onActivity s1] 2 g
    unfolding rest len by auto
  have whole: "frames (xs @ ys) = (fs @ gs, r, b)"
    using frames_append [of xs fs rest ys] f g \<open>\<not> bad\<close> by simp
  have "length r \<le> length (rest @ ys)" by (rule frames_rest_le [OF g])
  then show ?thesis
    using OnReceive_frames [OF own, of "int (length (xs @ ys))" "xs @ ys" "fs @ gs" r b onActivity s] whole
      r1(2) r2 n len by (auto simp: frame_effects_append)
qed

lemma receiving_in_pieces_is_receiving_whole_witness:
  "ps_OnReceive id (\<lambda>p n s. n # s) ([6, 0, 1, 0, 1, 0, 7, 0] @ [1, 0, 1, 0, 9]) 13 [] = Some (13, [7, 6])"
proof -
  let ?P = "\<lambda>(p :: byte list) (n :: int) s. n # s"
  have a: "ps_OnReceive id ?P [6, 0, 1, 0, 1, 0, 7, 0] (int (length [6, 0, 1, 0, 1, 0, 7, 0 :: byte])) [] = Some (6, [6])"
    by (simp add: ps_OnReceive_def ps_loop.simps ph_read_def SIZEOF_HEADER_def PS_MAX_PACKET_def)
  have b: "ps_OnReceive id ?P (drop (nat 6) [6, 0, 1, 0, 1, 0, 7, 0] @ [1, 0, 1, 0, 9])
      (int (length [6, 0, 1, 0, 1, 0, 7, 0 :: byte]) - 6 + int (length [1, 0, 1, 0, 9 :: byte])) [6] = Some (7, [7, 6])"
    by (simp add: ps_OnReceive_def ps_loop.simps ph_read_def SIZEOF_HEADER_def PS_MAX_PACKET_def)
  show ?thesis
    using receiving_in_pieces_is_receiving_whole [OF _ a _ b] by (simp add: reads_own_packet_def)
qed

end
