(* ===== verification/Packet_Handlers.thy ===== *)
theory Packet_Handlers
  imports Packets
begin

text \<open>
  Building and dispatching packets: \<open>MakeSendBuffer\<close>, \<open>HandlePacket\<close> and the handler tables of
  Generated/LoginPacketHandler.h and Generated/PacketServiceTypeHandler.h of the two programs,
  their handlers, and \<open>GameSession::OnRecvPacket\<close>. A protobuf message class is a parameter:
  \<open>byteSize\<close> is \<open>ByteSizeLong\<close>, \<open>serialize p n\<close> the bytes \<open>SerializeToArray\<close> writes into an array of
  \<open>n\<close> bytes or \<open>None\<close> when it returns false, \<open>parse\<close> is \<open>ParseFromArray\<close>. What a handler does
  to the session is threaded through a state of type \<open>'s\<close>, with \<open>disconnect\<close> and \<open>print\<close> as the
  operations it uses.
\<close>

subsection \<open>Packet ids\<close>

definition ID_C2S_ECHO_REQ :: uint32 where "ID_C2S_ECHO_REQ = 0x00010001"
definition ID_S2C_ECHO_RES :: uint32 where "ID_S2C_ECHO_RES = 0x00010002"
definition ID_C2S_LOGIN_REQ :: uint32 where "ID_C2S_LOGIN_REQ = 0x00010003"
definition ID_S2C_LOGIN_RES :: uint32 where "ID_S2C_LOGIN_RES = 0x00010004"
definition SERVICE_TYPE_LOGIN :: uint32 where "SERVICE_TYPE_LOGIN = 0x0001"

lemmas packet_ids = ID_C2S_ECHO_REQ_def ID_S2C_ECHO_RES_def ID_C2S_LOGIN_REQ_def
  ID_S2C_LOGIN_RES_def SERVICE_TYPE_LOGIN_def

definition GET_SERVICE_TYPE :: "uint32 \<Rightarrow> uint16" where
  "GET_SERVICE_TYPE packetId = ucast (drop_bit 16 packetId AND 0x0000FFFF)"

definition GET_PACKET_ID :: "uint32 \<Rightarrow> uint16" where
  "GET_PACKET_ID packetId = ucast (packetId AND 0x0000FFFF)"

subsection \<open>LoginPacketHandler::MakeSendBuffer\<close>

datatype build_error = Crashed | Memory memory_error

definition lph_MakeSendBuffer :: "('p \<Rightarrow> nat) \<Rightarrow> ('p \<Rightarrow> int \<Rightarrow> byte list option) \<Rightarrow> byte list \<Rightarrow> 'p \<Rightarrow> uint32
    \<Rightarrow> build_error + NetSendBuffer" where
  "lph_MakeSendBuffer byteSize serialize mem packet packetId =
     (let dataSize = (of_nat (byteSize packet) :: uint16);
          packetSize = dataSize + 6 in
      case sba_Alloc (uint packetSize) mem of
        None \<Rightarrow> Inl (Memory NullDereference)
      | Some sendBuffer \<Rightarrow>
          (case sb_Reserve sendBuffer (uint packetSize) of
             Inl e \<Rightarrow> Inl (Memory e)
           | Inr None \<Rightarrow> Inl Crashed
           | Inr (Some pBuffer) \<Rightarrow>
               (case sb_store sendBuffer pBuffer (ph_bytes \<lparr>ph_size = packetSize, ph_id = packetId\<rparr>) of
                  Inl e \<Rightarrow> Inl (Memory e)
                | Inr sendBuffer1 \<Rightarrow>
                    (case serialize packet (uint dataSize) of
                       None \<Rightarrow> Inl Crashed
                     | Some bytes \<Rightarrow>
                         (case sb_store sendBuffer1 (pBuffer + SIZEOF_HEADER) bytes of
                            Inl e \<Rightarrow> Inl (Memory e)
                          | Inr sendBuffer2 \<Rightarrow> Inr (sb_Commit sendBuffer2 (uint packetSize)))))))"

subsection \<open>LoginPacketHandler of the game server\<close>

type_synonym 's packet_handle = "uint16 \<Rightarrow> byte list \<Rightarrow> 's \<Rightarrow> bool \<times> 's"

definition lph_HANDLE_PACKET_ID_INVALID :: "uint16 \<Rightarrow> uint32 \<Rightarrow> byte list \<Rightarrow> 's \<Rightarrow> bool \<times> 's" where
  "lph_HANDLE_PACKET_ID_INVALID sz packetId pBuffer s = (False, s)"

definition lph_HANDLE_C2S_ECHO_REQ :: "('m \<Rightarrow> 's \<Rightarrow> 's) \<Rightarrow> 'm \<Rightarrow> 's \<Rightarrow> bool \<times> 's" where
  "lph_HANDLE_C2S_ECHO_REQ print echoMsg s = (True, print echoMsg s)"

definition lph_HANDLE_C2S_LOGIN_REQ :: "'l \<Rightarrow> 's \<Rightarrow> bool \<times> 's" where
  "lph_HANDLE_C2S_LOGIN_REQ packet s = (False, s)"

text \<open>The private template \<open>HandlePacket\<close>: parse what follows the header, then handle it.\<close>

definition lph_ParseAndHandle :: "(byte list \<Rightarrow> 'p option) \<Rightarrow> ('p \<Rightarrow> 's \<Rightarrow> bool \<times> 's) \<Rightarrow> 's packet_handle" where
  "lph_ParseAndHandle parse handlePacket sz pBuffer s =
     (case parse (take (nat (uint sz - SIZEOF_HEADER)) (drop (nat SIZEOF_HEADER) pBuffer)) of
        None \<Rightarrow> (False, s)
      | Some packet \<Rightarrow> handlePacket packet s)"

definition lph_Init :: "(byte list \<Rightarrow> 'm option) \<Rightarrow> (byte list \<Rightarrow> 'l option) \<Rightarrow> ('m \<Rightarrow> 's \<Rightarrow> 's)
    \<Rightarrow> uint32 \<rightharpoonup> 's packet_handle" where
  "lph_Init parseEcho parseLogin print =
     [ID_C2S_ECHO_REQ \<mapsto> lph_ParseAndHandle parseEcho (lph_HANDLE_C2S_ECHO_REQ print),
      ID_C2S_LOGIN_REQ \<mapsto> lph_ParseAndHandle parseLogin lph_HANDLE_C2S_LOGIN_REQ]"

definition lph_HandlePacket :: "(uint32 \<rightharpoonup> 's packet_handle) \<Rightarrow> uint16 \<Rightarrow> uint32 \<Rightarrow> byte list \<Rightarrow> 's \<Rightarrow> bool \<times> 's" where
  "lph_HandlePacket sPacketHandleMap sz packetId pBuffer s =
     (case sPacketHandleMap packetId of
        Some handle \<Rightarrow> handle sz pBuffer s
      | None \<Rightarrow> lph_HANDLE_PACKET_ID_INVALID sz packetId pBuffer s)"

subsection \<open>LoginPacketHandler of the dummy client\<close>

definition dlph_HANDLE_PACKET_ID_INVALID :: "uint16 \<Rightarrow> uint32 \<Rightarrow> byte list \<Rightarrow> 's \<Rightarrow> bool \<times> 's" where
  "dlph_HANDLE_PACKET_ID_INVALID sz packetId pBuffer s = (True, s)"

definition dlph_HANDLE_S2C_ECHO_RES :: "'m \<Rightarrow> 's \<Rightarrow> bool \<times> 's" where
  "dlph_HANDLE_S2C_ECHO_RES packet s = (True, s)"

definition dlph_HANDLE_S2C_LOGIN_RES :: "'l \<Rightarrow> 's \<Rightarrow> bool \<times> 's" where
  "dlph_HANDLE_S2C_LOGIN_RES packet s = (True, s)"

text \<open>The template of the generated header is the one of the server, line for line.\<close>

definition dlph_ParseAndHandle :: "(byte list \<Rightarrow> 'p option) \<Rightarrow> ('p \<Rightarrow> 's \<Rightarrow> bool \<times> 's) \<Rightarrow> 's packet_handle" where
  [simp]: "dlph_ParseAndHandle = lph_ParseAndHandle"

definition dlph_Init :: "(byte list \<Rightarrow> 'm option) \<Rightarrow> (byte list \<Rightarrow> 'l option) \<Rightarrow> uint32 \<rightharpoonup> 's packet_handle" where
  "dlph_Init parseEcho parseLogin =
     [ID_S2C_ECHO_RES \<mapsto> dlph_ParseAndHandle parseEcho dlph_HANDLE_S2C_ECHO_RES,
      ID_S2C_LOGIN_RES \<mapsto> dlph_ParseAndHandle parseLogin dlph_HANDLE_S2C_LOGIN_RES]"

definition dlph_HandlePacket :: "(uint32 \<rightharpoonup> 's packet_handle) \<Rightarrow> uint16 \<Rightarrow> uint32 \<Rightarrow> byte list \<Rightarrow> 's \<Rightarrow> bool \<times> 's" where
  "dlph_HandlePacket sPacketHandleMap sz packetId pBuffer s =
     (case sPacketHandleMap packetId of
        Some handle \<Rightarrow> handle sz pBuffer s
      | None \<Rightarrow> dlph_HANDLE_PACKET_ID_INVALID sz packetId pBuffer s)"

subsection \<open>PacketServiceTypeHandler and GameSession::OnRecvPacket\<close>

type_synonym 's service_handle = "uint16 \<Rightarrow> uint32 \<Rightarrow> byte list \<Rightarrow> 's \<Rightarrow> bool \<times> 's"

definition psh_HANDLE_SERVICE_TYPE_INVALID :: "uint16 \<Rightarrow> uint16 \<Rightarrow> byte list \<Rightarrow> 's \<Rightarrow> bool \<times> 's" where
  "psh_HANDLE_SERVICE_TYPE_INVALID sz packetId pBuffer s = (False, s)"

text \<open>The table of the server; the client's has its own \<open>LoginPacketHandler::HandlePacket\<close> in it.\<close>

definition psh_Init :: "'s service_handle \<Rightarrow> uint32 \<rightharpoonup> 's service_handle" where
  "psh_Init loginHandlePacket = [SERVICE_TYPE_LOGIN \<mapsto> loginHandlePacket]"

text \<open>
  \<open>HANDLE_SERVICE_TYPE_INVALID\<close> takes a \<open>uint16\<close> packet id: passing the 32-bit id narrows it.
  A packet shorter than a header cannot be read; the caller's framing excludes it.
\<close>

definition psh_HandlePacketServiceType :: "(uint32 \<rightharpoonup> 's service_handle) \<Rightarrow> uint16 \<Rightarrow> byte list \<Rightarrow> 's
    \<Rightarrow> (bool \<times> 's) option" where
  "psh_HandlePacketServiceType sPacketServiceTypeMap len pBuffer s =
     (case ph_read pBuffer of
        None \<Rightarrow> None
      | Some h \<Rightarrow>
          (let serviceType = GET_SERVICE_TYPE (ph_id h) in
           case sPacketServiceTypeMap (ucast serviceType) of
             Some handle \<Rightarrow> Some (handle (ph_size h) (ph_id h) pBuffer s)
           | None \<Rightarrow> Some (psh_HANDLE_SERVICE_TYPE_INVALID (ph_size h) (ucast (ph_id h)) pBuffer s)))"

text \<open>
  The headers of the client are generated from the same template; these functions are the same line for line.
\<close>

definition dlph_MakeSendBuffer :: "('p \<Rightarrow> nat) \<Rightarrow> ('p \<Rightarrow> int \<Rightarrow> byte list option) \<Rightarrow> byte list \<Rightarrow> 'p \<Rightarrow> uint32
    \<Rightarrow> build_error + NetSendBuffer" where
  [simp]: "dlph_MakeSendBuffer = lph_MakeSendBuffer"

definition dpsh_Init :: "'s service_handle \<Rightarrow> uint32 \<rightharpoonup> 's service_handle" where
  [simp]: "dpsh_Init = psh_Init"

definition dpsh_HANDLE_SERVICE_TYPE_INVALID :: "uint16 \<Rightarrow> uint16 \<Rightarrow> byte list \<Rightarrow> 's \<Rightarrow> bool \<times> 's" where
  [simp]: "dpsh_HANDLE_SERVICE_TYPE_INVALID = psh_HANDLE_SERVICE_TYPE_INVALID"

definition dpsh_HandlePacketServiceType :: "(uint32 \<rightharpoonup> 's service_handle) \<Rightarrow> uint16 \<Rightarrow> byte list \<Rightarrow> 's
    \<Rightarrow> (bool \<times> 's) option" where
  [simp]: "dpsh_HandlePacketServiceType = psh_HandlePacketServiceType"

definition gs_OnRecvPacket :: "(eDisconnectReason \<Rightarrow> 's \<Rightarrow> 's) \<Rightarrow> (uint32 \<rightharpoonup> 's service_handle)
    \<Rightarrow> byte list \<Rightarrow> int \<Rightarrow> 's \<Rightarrow> 's" where
  "gs_OnRecvPacket disconnect sPacketServiceTypeMap pBuffer len s =
     (case psh_HandlePacketServiceType sPacketServiceTypeMap (word_of_int len) pBuffer s of
        None \<Rightarrow> s
      | Some (handled, s') \<Rightarrow> if handled then s' else disconnect Kicked s')"

definition dgs_OnRecvPacket :: "(eDisconnectReason \<Rightarrow> 's \<Rightarrow> 's) \<Rightarrow> (uint32 \<rightharpoonup> 's service_handle)
    \<Rightarrow> byte list \<Rightarrow> int \<Rightarrow> 's \<Rightarrow> 's" where
  "dgs_OnRecvPacket disconnect sPacketServiceTypeMap pBuffer len s =
     (case dpsh_HandlePacketServiceType sPacketServiceTypeMap (word_of_int len) pBuffer s of
        None \<Rightarrow> s
      | Some (handled, s') \<Rightarrow> if handled then s' else disconnect Kicked s')"

lemma OnRecvPacket_same: "dgs_OnRecvPacket = gs_OnRecvPacket"
  by (simp add: fun_eq_iff dgs_OnRecvPacket_def gs_OnRecvPacket_def)

definition server_table :: "(byte list \<Rightarrow> 'm option) \<Rightarrow> (byte list \<Rightarrow> 'l option) \<Rightarrow> ('m \<Rightarrow> 's \<Rightarrow> 's)
    \<Rightarrow> uint32 \<rightharpoonup> 's service_handle" where
  "server_table parseEcho parseLogin print =
     psh_Init (lph_HandlePacket (lph_Init parseEcho parseLogin print))"

definition client_table :: "(byte list \<Rightarrow> 'm option) \<Rightarrow> (byte list \<Rightarrow> 'l option) \<Rightarrow> uint32 \<rightharpoonup> 's service_handle" where
  "client_table parseEcho parseLogin = dpsh_Init (dlph_HandlePacket (dlph_Init parseEcho parseLogin))"

subsection \<open>One packet on the wire\<close>

definition packet_bytes :: "uint32 \<Rightarrow> byte list \<Rightarrow> byte list" where
  "packet_bytes pid body = ph_bytes \<lparr>ph_size = of_nat (6 + length body), ph_id = pid\<rparr> @ body"

definition packet_fits :: "byte list \<Rightarrow> bool" where
  "packet_fits body \<longleftrightarrow> length body \<le> 65529"

lemma length_packet_bytes [simp]: "length (packet_bytes pid body) = 6 + length body"
  by (simp add: packet_bytes_def)

lemma packet_size_fits: "packet_fits body \<Longrightarrow> unat (of_nat (6 + length body) :: uint16) = 6 + length body"
  unfolding packet_fits_def by (rule unat_of_nat16) simp

lemma frames_packet:
  assumes "packet_fits body" "frames rest = (fs, r, b)"
  shows "frames (packet_bytes pid body @ rest) = (packet_bytes pid body # fs, r, b)"
proof -
  let ?h = "\<lparr>ph_size = of_nat (6 + length body), ph_id = pid\<rparr> :: PacketHeader"
  have h: "ph_read (packet_bytes pid body @ rest) = Some ?h"
    by (simp add: packet_bytes_def)
  have n: "unat (ph_size ?h) = length (packet_bytes pid body)"
    using packet_size_fits [OF assms(1)] by simp
  show ?thesis
    using assms(2) by (subst frames_step [OF h]) (simp_all only: n, simp_all)
qed

lemma frames_packets:
  assumes "\<forall>(pid, body) \<in> set ps. packet_fits body" "frames tail = ([], tail, False)"
  shows "frames (concat (map (\<lambda>(pid, body). packet_bytes pid body) ps) @ tail)
    = (map (\<lambda>(pid, body). packet_bytes pid body) ps, tail, False)"
  using assms by (induction ps) (auto simp: frames_packet)

text \<open>C22: A stream of packets of up to 65529 payload bytes, followed by an incomplete packet, is delivered whole:
  OnReceive hands every packet to OnRecvPacket once, in order, with its size, and consumes exactly
  the complete packets, whatever bytes follow in the buffer.\<close>

theorem packets_are_delivered_whole:
  assumes own: "reads_own_packet onPacket" and fits: "\<forall>(pid, body) \<in> set ps. packet_fits body"
    and tail: "length tail < 6 \<or>
      (\<exists>h. ph_read tail = Some h \<and> 6 \<le> unat (ph_size h) \<and> length tail < unat (ph_size h))"
  defines "stream \<equiv> concat (map (\<lambda>(pid, body). packet_bytes pid body) ps)"
  shows "ps_OnReceive onActivity onPacket (stream @ tail @ junk) (int (length (stream @ tail))) s =
    Some (int (length stream),
          fold (\<lambda>(pid, body) s. onPacket (packet_bytes pid body) (6 + int (length body)) (onActivity s)) ps s)"
proof -
  have "frames tail = ([], tail, False)"
    using tail
  proof (elim disjE exE conjE)
    show ?thesis if "length tail < 6"
      using that by (intro frames_None) (simp add: ph_read_def SIZEOF_HEADER_def)
    show ?thesis if "ph_read tail = Some h" "6 \<le> unat (ph_size h)" "length tail < unat (ph_size h)" for h
      using that by (intro frames_partial [OF that(1)]) auto
  qed
  then have "frames (stream @ tail) = (map (\<lambda>(pid, body). packet_bytes pid body) ps, tail, False)"
    unfolding stream_def using fits by (intro frames_packets) auto
  then show ?thesis
    using OnReceive_frames [OF own, of "int (length (stream @ tail))" "stream @ tail @ junk" _ tail False onActivity s]
    by (simp add: frame_effects_def fold_map o_def case_prod_unfold)
qed

lemma packets_are_delivered_whole_witness:
  "ps_OnReceive id (\<lambda>p n s. n # s) (packet_bytes 1 [7] @ packet_bytes 2 [] @ [9, 0] @ [1]) 15 []
     = Some (13, [6, 7])"
  using packets_are_delivered_whole [of "\<lambda>p n s. n # s" "[(1, [7]), (2, [])]" "[9, 0]" id "[1]" "[]"]
  by (simp add: reads_own_packet_def packet_fits_def)

subsection \<open>Dispatch\<close>

lemma id_parts: "ucast (GET_SERVICE_TYPE pid) = drop_bit 16 pid"
proof -
  have m: "0x0000FFFF = (mask 16 :: uint32)" by (simp add: mask_eq_exp_minus_1)
  show ?thesis unfolding GET_SERVICE_TYPE_def m
    by (rule bit_word_eqI) (auto simp: bit_simps dest: bit_imp_le_length)
qed

lemma ParseAndHandle_packet:
  assumes "packet_fits body"
  shows "lph_ParseAndHandle parse handlePacket (6 + of_nat (length body)) (packet_bytes pid body) s =
    (case parse body of None \<Rightarrow> (False, s) | Some packet \<Rightarrow> handlePacket packet s)"
proof -
  have "uint (of_nat (6 + length body) :: uint16) = int (6 + length body)"
    using assms unfolding packet_fits_def by (intro uint_of_nat16) simp
  then have "uint (6 + of_nat (length body) :: uint16) = int (6 + length body)" by simp
  then show ?thesis by (simp add: lph_ParseAndHandle_def packet_bytes_def SIZEOF_HEADER_def)
qed

lemma service_of_ids [simp]:
  "drop_bit 16 ID_C2S_ECHO_REQ = SERVICE_TYPE_LOGIN" "drop_bit 16 ID_S2C_ECHO_RES = SERVICE_TYPE_LOGIN"
  "drop_bit 16 ID_C2S_LOGIN_REQ = SERVICE_TYPE_LOGIN" "drop_bit 16 ID_S2C_LOGIN_RES = SERVICE_TYPE_LOGIN"
  "ID_C2S_ECHO_REQ \<noteq> ID_C2S_LOGIN_REQ" "ID_S2C_ECHO_RES \<noteq> ID_S2C_LOGIN_RES"
  by (simp_all add: packet_ids)

lemma service_dispatch:
  "psh_HandlePacketServiceType (psh_Init login) len (packet_bytes pid body) s =
     Some (if drop_bit 16 pid = SERVICE_TYPE_LOGIN
           then login (of_nat (6 + length body)) pid (packet_bytes pid body) s else (False, s))"
proof -
  have "ph_read (packet_bytes pid body) = Some \<lparr>ph_size = of_nat (6 + length body), ph_id = pid\<rparr>"
    using ph_read_bytes by (simp add: packet_bytes_def)
  then show ?thesis
    by (simp add: psh_HandlePacketServiceType_def id_parts psh_Init_def psh_HANDLE_SERVICE_TYPE_INVALID_def Let_def)
qed

text \<open>The game server's OnRecvPacket prints the message of a well-formed echo request and disconnects the
  sender as \<open>Kicked\<close> on every other packet: an unknown id or service type, a body that does not
  parse, and every login request.\<close>

theorem server_dispatch:
  assumes "packet_fits body"
  shows "gs_OnRecvPacket disconnect (server_table parseEcho parseLogin print) (packet_bytes pid body) n s =
    (if pid = ID_C2S_ECHO_REQ
     then (case parseEcho body of Some msg \<Rightarrow> print msg s | None \<Rightarrow> disconnect Kicked s)
     else disconnect Kicked s)"
  by (simp add: ParseAndHandle_packet [OF assms] gs_OnRecvPacket_def server_table_def service_dispatch lph_HandlePacket_def lph_Init_def
      lph_HANDLE_PACKET_ID_INVALID_def lph_HANDLE_C2S_ECHO_REQ_def lph_HANDLE_C2S_LOGIN_REQ_def
      split: option.splits)

lemma server_dispatch_witness:
  "gs_OnRecvPacket (\<lambda>r s. Inl r # s) (server_table (\<lambda>b. Some b) (\<lambda>b. None :: nat option) (\<lambda>m s. Inr m # s))
     (packet_bytes ID_C2S_ECHO_REQ [104, 105]) 8 [] = [Inr [104, 105]]"
  using server_dispatch [of "[104, 105]" _ "\<lambda>b. Some b" _ _ ID_C2S_ECHO_REQ] by (simp add: packet_fits_def)

text \<open>The dummy client's OnRecvPacket leaves the session alone on every packet of the login service, known
  or not, except a known one whose body does not parse; that one and every packet of another
  service disconnect it as \<open>Kicked\<close>.\<close>

theorem client_dispatch:
  assumes "packet_fits body"
  shows "gs_OnRecvPacket disconnect (client_table parseEcho parseLogin) (packet_bytes pid body) n s =
    (if drop_bit 16 pid \<noteq> SERVICE_TYPE_LOGIN \<or> pid = ID_S2C_ECHO_RES \<and> parseEcho body = None \<or>
        pid = ID_S2C_LOGIN_RES \<and> parseLogin body = None
     then disconnect Kicked s else s)"
  by (auto simp add: ParseAndHandle_packet [OF assms] gs_OnRecvPacket_def client_table_def service_dispatch dlph_HandlePacket_def dlph_Init_def
      dlph_HANDLE_PACKET_ID_INVALID_def dlph_HANDLE_S2C_ECHO_RES_def dlph_HANDLE_S2C_LOGIN_RES_def
      split: option.splits)

lemma client_dispatch_witness:
  "gs_OnRecvPacket (\<lambda>r s. r # s) (client_table (\<lambda>b. Some b) (\<lambda>b. None :: nat option))
     (packet_bytes ID_S2C_LOGIN_RES [1]) 7 [] = [Kicked]"
  using client_dispatch [of "[1]" _ "\<lambda>b. Some b" "\<lambda>b. None :: nat option" ID_S2C_LOGIN_RES]
  by (simp add: packet_fits_def)

subsection \<open>MakeSendBuffer builds the packet\<close>

definition serializes :: "('p \<Rightarrow> nat) \<Rightarrow> ('p \<Rightarrow> int \<Rightarrow> byte list option) \<Rightarrow> ('p \<Rightarrow> byte list) \<Rightarrow> bool" where
  "serializes byteSize serialize wire \<longleftrightarrow>
     (\<forall>p n. length (wire p) = byteSize p \<and>
        serialize p n = (if n < int (byteSize p) then None else Some (wire p)))"

lemma serializesD:
  assumes "serializes byteSize serialize wire"
  shows "length (wire p) = byteSize p" "n < int (byteSize p) \<Longrightarrow> serialize p n = None"
    "int (byteSize p) \<le> n \<Longrightarrow> serialize p n = Some (wire p)"
  using assms by (auto simp: serializes_def)

lemma alloc_for_packet:
  assumes "0 < n" "n \<le> 65536" "65536 \<le> length mem"
  obtains b where "sba_Alloc n mem = Some b" "sb_wf b" "n \<le> sb_GetFreeSize b" "sb_contents b = []"
    "sb_mWritePos b = 0" "sb_mReadPos b = 0"
proof -
  let ?b = "sb_new (sba_getAllocSize n) mem"
  have "n \<le> sba_getAllocSize n" "sba_getAllocSize n \<le> 65536"
    using sba_getAllocSize_ge sba_getAllocSize_max assms by auto
  then show thesis using assms
    by (intro that [of ?b])
      (auto simp: sba_Alloc_def sba_constants Let_def sb_new_def sb_GetFreeSize_def sb_contents_def sb_wf_def)
qed

lemma MakeSendBuffer_packet:
  assumes ser: "serializes byteSize serialize wire" and size: "byteSize p \<le> 65529"
    and mem: "65536 \<le> length mem"
  shows "\<exists>b. lph_MakeSendBuffer byteSize serialize mem p pid = Inr b \<and> sb_wf b \<and>
    sb_contents b = packet_bytes pid (wire p) \<and> sb_wsabuf b = packet_bytes pid (wire p)"
proof -
  let ?n = "byteSize p" and ?h = "\<lparr>ph_size = of_nat (byteSize p) + 6, ph_id = pid\<rparr> :: PacketHeader"
  note w = serializesD [OF ser]
  have ps: "of_nat ?n + 6 = (of_nat (6 + ?n) :: uint16)" by simp
  have u: "uint (of_nat ?n + 6 :: uint16) = 6 + int ?n" "uint (of_nat ?n :: uint16) = int ?n"
    unfolding ps using size by (subst uint_of_nat16, simp_all)+
  obtain b where b: "sba_Alloc (6 + int ?n) mem = Some b" "sb_wf b" "6 + int ?n \<le> sb_GetFreeSize b"
    "sb_contents b = []" "sb_mWritePos b = 0" "sb_mReadPos b = 0"
    using alloc_for_packet [of "6 + int ?n" mem] size mem by auto
  have res: "sb_Reserve b (6 + int ?n) = Inr (Some 0)"
    using sb_Reserve_fits [OF b(2) _ b(3)] b(5) by simp
  obtain b1 where b1: "sb_store b 0 (ph_bytes ?h) = Inr b1"
    using sb_store_reserved [OF b(2), of "ph_bytes ?h"] b(3,5) by auto
  obtain b2 where b2: "sb_store b 0 (ph_bytes ?h @ wire p) = Inr b2"
    "sb_contents (sb_Commit b2 (6 + int ?n)) = ph_bytes ?h @ wire p" "sb_wf (sb_Commit b2 (6 + int ?n))"
    using sb_store_reserved [OF b(2), of "ph_bytes ?h @ wire p"] b(3-5) w(1) [of p]
    by (auto simp: ph_bytes_def)
  have st: "sb_store b1 (0 + SIZEOF_HEADER) (wire p) = Inr b2"
    using sb_store_twice [OF _ b1, of "wire p"] b2(1) by (simp add: SIZEOF_HEADER_def)
  have "lph_MakeSendBuffer byteSize serialize mem p pid = Inr (sb_Commit b2 (6 + int ?n))"
    unfolding lph_MakeSendBuffer_def Let_def u b(1) using res b1 st w(3) [of p "int ?n"] by simp
  moreover have "packet_bytes pid (wire p) = ph_bytes ?h @ wire p"
    by (simp add: packet_bytes_def w(1) add.commute)
  moreover have "sb_mReadPos (sb_Commit b2 (6 + int ?n)) = 0"
    using b2(1) b(6) by (auto simp: sb_store_def sb_Commit_def sb_MoveWritePos_def split: option.splits if_splits)
  then have "sb_wsabuf (sb_Commit b2 (6 + int ?n)) = sb_contents (sb_Commit b2 (6 + int ?n))"
    by (simp add: sb_wsabuf_def sb_contents_def sb_GetUseSize_def sb_GetReadPtr_def split: option.split)
  ultimately show ?thesis using b2(2,3) by simp
qed

text \<open>For a message of up to 65529 bytes MakeSendBuffer returns a buffer that holds exactly the packet: a header
  with the total size and the id, then the serialized message; sending it sends those bytes.\<close>

theorem make_send_buffer_builds_the_packet:
  assumes ser: "serializes byteSize serialize wire" and size: "byteSize p \<le> 65529"
    and mem: "65536 \<le> length mem"
  shows "\<exists>b. lph_MakeSendBuffer byteSize serialize mem p pid = Inr b \<and> sb_wf b \<and>
    sb_contents b = packet_bytes pid (wire p) \<and> sb_wsabuf b = packet_bytes pid (wire p)"
  by (rule MakeSendBuffer_packet [OF assms])

lemma make_send_buffer_builds_the_packet_witness:
  "\<exists>b. lph_MakeSendBuffer length (\<lambda>p n. if n < int (length p) then None else Some p) (replicate 65536 0)
     [104, 105] 7 = Inr b \<and> sb_wsabuf b = packet_bytes 7 [104, 105]"
  using make_send_buffer_builds_the_packet
    [of length "\<lambda>p n. if n < int (length p) then None else Some p" "\<lambda>p. p" "[104, 105]" "replicate 65536 0" 7]
  by (auto simp: serializes_def)

lemma alloc_size_at_least_a_stride:
  assumes "0 < k" "k \<le> 65536"
  shows "256 \<le> sba_getAllocSize k"
proof -
  have "256 dvd sba_getAllocSize k"
    using sba_getAllocSize_small(3) [of k] sba_getAllocSize_large(3) [of k] assms
    by (cases "k \<le> 4096") (auto intro: dvd_trans [of 256 4096])
  then show ?thesis using sba_getAllocSize_ge [of k] assms by (auto dest!: zdvd_imp_le)
qed

text \<open>A message of 65530 bytes or more does not become a packet. The 16-bit packet size wraps: at 65530 bytes
  (and wherever the truncated size is that) the buffer is empty and Reserve reads through a null
  pointer, from 65531 to 65535 bytes the message is serialized past the end of a 256-byte buffer,
  and only above 65535 bytes the failing serialization stops the process.\<close>

theorem oversized_message_overruns_the_buffer:
  assumes ser: "serializes byteSize serialize wire" and size: "65530 \<le> byteSize p"
    and mem: "65536 \<le> length mem"
  shows "lph_MakeSendBuffer byteSize serialize mem p pid = Inl (
    if byteSize p mod 65536 = 65530 then Memory NullDereference
    else if byteSize p \<le> 65535 then Memory HeapOverflow else Crashed)"
proof -
  let ?n = "byteSize p" and ?d = "of_nat (byteSize p) :: uint16"
  note w = serializesD [OF ser]
  have d: "uint ?d = int (?n mod 65536)"
    by (simp add: unsigned_of_nat take_bit_eq_mod)
  have k: "uint (?d + 6) = (uint ?d + 6) mod 65536" by (simp add: uint_word_ariths)
  show ?thesis
  proof (cases "?n mod 65536 = 65530")
    case True
    then have "uint (?d + 6) = 0" unfolding k d by simp
    then show ?thesis using True unfolding lph_MakeSendBuffer_def Let_def
      by (simp add: sba_Alloc_def sba_constants sba_getAllocSize_def sb_new_def sb_Reserve_def
          sb_GetFreeSize_def)
  next
    case False
    define m where "m = ?n mod 65536"
    define r where "r = uint (?d + 6)"
    have m: "m < 65536" "m \<noteq> 65530" using False by (simp_all add: m_def)
    have r_eq: "r = (if m < 65530 then int m + 6 else int m - 65530)"
      using m mod_once [of "int m + 6" 65536] unfolding r_def k d m_def [symmetric] by auto
    then have r: "0 < r" "r \<le> 65536" using m by (auto split: if_splits)
    let ?buf = "take (nat (sba_getAllocSize r)) mem"
    have size_ge: "256 \<le> sba_getAllocSize r" "sba_getAllocSize r \<le> 65536" "r \<le> sba_getAllocSize r"
      using alloc_size_at_least_a_stride [OF r] sba_getAllocSize_max [of r] sba_getAllocSize_ge [of r] r by auto
    then have alloc: "sba_Alloc r mem = Some (sb_new (sba_getAllocSize r) mem)"
      "sb_mpBuffer (sb_new (sba_getAllocSize r) mem) = Some ?buf"
      "int (length ?buf) = sba_getAllocSize r"
      using r mem by (auto simp: sba_Alloc_def sba_constants Let_def sb_new_def)
    have res: "sb_Reserve (sb_new (sba_getAllocSize r) mem) r = Inr (Some 0)"
      using size_ge by (auto simp: sb_Reserve_def sb_GetFreeSize_def sb_new_def)
    let ?h = "\<lparr>ph_size = ?d + 6, ph_id = pid\<rparr> :: PacketHeader"
    obtain b1 where b1: "sb_store (sb_new (sba_getAllocSize r) mem) 0 (ph_bytes ?h) = Inr b1"
      "sb_mpBuffer b1 = Some (copy_at ?buf 0 (ph_bytes ?h))"
    proof
      let ?b1 = "sb_new (sba_getAllocSize r) mem\<lparr>sb_mpBuffer := Some (copy_at ?buf 0 (ph_bytes ?h))\<rparr>"
      have "\<not> 0 + int (length (ph_bytes ?h)) > int (length ?buf)" using alloc(3) size_ge by simp
      then show "sb_store (sb_new (sba_getAllocSize r) mem) 0 (ph_bytes ?h) = Inr ?b1"
        unfolding sb_store_def alloc(2) option.case by simp
      show "sb_mpBuffer ?b1 = Some (copy_at ?buf 0 (ph_bytes ?h))" by simp
    qed
    have len1: "int (length (copy_at ?buf 0 (ph_bytes ?h))) = sba_getAllocSize r"
      using alloc(3) size_ge by simp
    show ?thesis
    proof (cases "?n \<le> 65535")
      case True
      then have n: "m = ?n" "int ?n = r + 65530" using r_eq size False by (auto simp: m_def)
      then have "sba_getAllocSize r < int (6 + ?n)"
        using sba_getAllocSize_small(2) [of r] True r(1) by auto
      then have "sb_store b1 (0 + SIZEOF_HEADER) (wire p) = Inl HeapOverflow"
        using len1 w(1) [of p] by (simp add: sb_store_def b1(2) SIZEOF_HEADER_def)
      then show ?thesis
        using True False alloc(1) res b1(1) w(3) [of p "uint ?d"] n(1)
        unfolding lph_MakeSendBuffer_def Let_def r_def [symmetric] by (simp add: d m_def)
    next
      case big: False
      then have "uint ?d < int ?n" using m(1) unfolding d m_def by linarith
      then show ?thesis
        using big False alloc(1) res b1(1) w(2) [of "uint ?d" p]
        unfolding lph_MakeSendBuffer_def Let_def r_def [symmetric] by simp
    qed
  qed
qed

lemma oversized_message_overruns_the_buffer_witness:
  "lph_MakeSendBuffer id (\<lambda>n k. if k < int n then None else Some (replicate n 0)) (replicate 65536 0) 65533 7
     = Inl (Memory HeapOverflow)"
  using oversized_message_overruns_the_buffer
    [of id "\<lambda>n k. if k < int n then None else Some (replicate n 0)" "\<lambda>n. replicate n 0" 65533 "replicate 65536 0" 7]
  by (simp add: serializes_def)

subsection \<open>From MakeSendBuffer to the handler\<close>

lemma ParseAndHandle_take:
  assumes "6 \<le> unat sz"
  shows "lph_ParseAndHandle parse handle sz (take (unat sz) p) s = lph_ParseAndHandle parse handle sz p s"
proof -
  have "take (nat (uint sz - SIZEOF_HEADER)) (drop (nat SIZEOF_HEADER) (take (unat sz) p))
      = take (nat (uint sz - SIZEOF_HEADER)) (drop (nat SIZEOF_HEADER) p)"
    by (simp add: drop_take SIZEOF_HEADER_def min_def nat_diff_distrib')
  then show ?thesis unfolding lph_ParseAndHandle_def by simp
qed

lemma OnRecvPacket_reads_own_packet:
  "reads_own_packet (gs_OnRecvPacket disconnect (server_table parseEcho parseLogin print))"
proof -
  have "gs_OnRecvPacket disconnect (server_table parseEcho parseLogin print) p n s =
      gs_OnRecvPacket disconnect (server_table parseEcho parseLogin print) (take (unat (ph_size h)) p) n s"
    if h: "ph_read p = Some h" "SIZEOF_HEADER \<le> uint (ph_size h)" for p h n s
  proof -
    have n6: "6 \<le> unat (ph_size h)"
      using h(2) uint_nat [of "ph_size h"] unfolding SIZEOF_HEADER_def by linarith
    then have h': "ph_read (take (unat (ph_size h)) p) = Some h" using h(1) ph_read_take by simp
    show ?thesis
      using h(1) h' unfolding gs_OnRecvPacket_def psh_HandlePacketServiceType_def server_table_def psh_Init_def
        lph_HandlePacket_def lph_Init_def lph_HANDLE_PACKET_ID_INVALID_def psh_HANDLE_SERVICE_TYPE_INVALID_def
      by (simp add: Let_def ParseAndHandle_take [OF n6])
  qed
  then show ?thesis unfolding reads_own_packet_def by blast
qed

lemma frame_effects_packets:
  "frame_effects id onPacket (map (packet_bytes pid) bodies) s =
     fold (\<lambda>body s. onPacket (packet_bytes pid body) (6 + int (length body)) s) bodies s"
  by (simp add: frame_effects_def fold_map o_def)

lemma built_stream:
  assumes ser: "serializes byteSize serialize wire" and mem: "65536 \<le> length mem"
    and built: "list_all2 (\<lambda>m b. lph_MakeSendBuffer byteSize serialize mem m pid = Inr b) ms bs"
    and fits: "\<forall>m \<in> set ms. byteSize m \<le> 65529"
  shows "map sb_wsabuf bs = map (packet_bytes pid) (map wire ms)"
  using built fits
proof (induction rule: list_all2_induct)
  case (Cons m ms b bs)
  then show ?case using MakeSendBuffer_packet [OF ser _ mem, of m pid] by auto
qed simp

text \<open>End to end: the echo requests a client builds with MakeSendBuffer and sends one after the other are, when
  the server receives their bytes, printed once each, in order, with nothing left over and no
  disconnect.\<close>

theorem echo_requests_reach_the_handler:
  fixes msg :: "'p \<Rightarrow> 'm"
  assumes ser: "serializes byteSize serialize wire" and mem: "65536 \<le> length mem"
    and parse: "\<forall>m. parseEcho (wire m) = Some (msg m)"
    and built: "list_all2 (\<lambda>m b. lph_MakeSendBuffer byteSize serialize mem m ID_C2S_ECHO_REQ = Inr b) ms bs"
    and fits: "\<forall>m \<in> set ms. byteSize m \<le> 65529"
  defines "stream \<equiv> concat (map sb_wsabuf bs)"
  shows "ps_OnReceive id (gs_OnRecvPacket disconnect (server_table parseEcho parseLogin print))
           stream (int (length stream)) s = Some (int (length stream), fold (\<lambda>m. print (msg m)) ms s)"
proof -
  let ?onP = "gs_OnRecvPacket disconnect (server_table parseEcho parseLogin print)"
  let ?packets = "map (\<lambda>m. (ID_C2S_ECHO_REQ, wire m)) ms"
  have wire_fits: "packet_fits (wire m)" if "m \<in> set ms" for m
    using fits that serializesD(1) [OF ser] by (simp add: packet_fits_def)
  have "stream = concat (map (\<lambda>(pid, body). packet_bytes pid body) ?packets) @ []"
    unfolding stream_def built_stream [OF ser mem built fits] by (simp add: o_def)
  then have f: "frames stream = (map (packet_bytes ID_C2S_ECHO_REQ) (map wire ms), [], False)"
    using wire_fits frames_None [of "[]"]
    by (simp only:) (subst frames_packets, auto simp: ph_read_def SIZEOF_HEADER_def)
  have "frame_effects id ?onP (map (packet_bytes ID_C2S_ECHO_REQ) (map wire ms)) s = fold (\<lambda>m. print (msg m)) ms s"
    unfolding frame_effects_packets fold_map o_def
  proof (rule fold_cong)
    fix m assume "m \<in> set ms"
    note d = service_dispatch ParseAndHandle_packet [OF wire_fits [OF this]]
    show "(\<lambda>s. ?onP (packet_bytes ID_C2S_ECHO_REQ (wire m)) (6 + int (length (wire m))) s) = print (msg m)"
      using parse by (intro ext) (simp add: d gs_OnRecvPacket_def server_table_def lph_HandlePacket_def
          lph_Init_def lph_HANDLE_C2S_ECHO_REQ_def)
  qed simp_all
  moreover have "reads_own_packet ?onP" by (rule OnRecvPacket_reads_own_packet)
  note OnReceive_frames [OF this, of "int (length stream)" stream
      "map (packet_bytes ID_C2S_ECHO_REQ) (map wire ms)" "[]" False id s]
  ultimately show ?thesis using f by (simp del: map_map)
qed

lemma echo_requests_reach_the_handler_witness:
  "\<exists>bs. length bs = 2 \<and> ps_OnReceive id (gs_OnRecvPacket (\<lambda>r s. s)
      (server_table (\<lambda>b. Some b) (\<lambda>b. None :: nat option) (\<lambda>m s. s @ [m])))
      (concat (map sb_wsabuf bs)) (int (length (concat (map sb_wsabuf bs)))) []
    = Some (int (length (concat (map sb_wsabuf bs))), [[104], [105, 106]])"
proof -
  let ?ser = "\<lambda>p n. if n < int (length p) then None else Some (p :: byte list)"
  have ser: "serializes length ?ser (\<lambda>p. p)" by (simp add: serializes_def)
  obtain b1 b2 where "lph_MakeSendBuffer length ?ser (replicate 65536 0) [104] ID_C2S_ECHO_REQ = Inr b1"
    "lph_MakeSendBuffer length ?ser (replicate 65536 0) [105, 106] ID_C2S_ECHO_REQ = Inr b2"
    using MakeSendBuffer_packet [OF ser, of "[104]" "replicate 65536 0" ID_C2S_ECHO_REQ]
      MakeSendBuffer_packet [OF ser, of "[105, 106]" "replicate 65536 0" ID_C2S_ECHO_REQ] by auto
  then have "list_all2 (\<lambda>m b. lph_MakeSendBuffer length ?ser (replicate 65536 0) m ID_C2S_ECHO_REQ = Inr b)
      [[104], [105, 106]] [b1, b2]" by simp
  note echo_requests_reach_the_handler [OF ser _ _ this, of "\<lambda>b. Some b" "\<lambda>b. b" "\<lambda>r s. s"
      "\<lambda>b. None :: nat option" "\<lambda>m s. s @ [m]" "[]"]
  then show ?thesis by (intro exI [of _ "[b1, b2]"]) simp
qed

end
