(* ===== verification/Fifo_Interface.thy ===== *)
theory Fifo_Interface
  imports Engine_Prelude
begin

text \<open>
  What the users of a queue rely on. The sender, the actors and the wait queue take items from a
  queue in loops; \<open>fifo_queue\<close> states the laws of \<open>TryEnqueue\<close> and \<open>TryDequeue\<close> they need, and the
  lemmas about their loops are proved once from it. A result is \<open>None\<close> when the operation does not
  return, and \<open>Inl\<close> when it touches memory it must not.
\<close>

type_synonym ('e, 'r) outcome = "('e + 'r) option"

text \<open>The loops over \<open>TryDequeue\<close>: up to \<open>n\<close> times with a break on failure, and until it fails.\<close>

fun drain_upto :: "('q \<Rightarrow> ('e, 'a option \<times> 'q) outcome) \<Rightarrow> nat \<Rightarrow> 'q \<Rightarrow> ('e, 'a list \<times> 'q) outcome" where
  "drain_upto deq 0 q = Some (Inr ([], q))"
| "drain_upto deq (Suc n) q =
     (case deq q of
        None \<Rightarrow> None
      | Some (Inl e) \<Rightarrow> Some (Inl e)
      | Some (Inr (None, q')) \<Rightarrow> Some (Inr ([], q'))
      | Some (Inr (Some x, q')) \<Rightarrow>
          (case drain_upto deq n q' of
             None \<Rightarrow> None
           | Some (Inl e) \<Rightarrow> Some (Inl e)
           | Some (Inr (xs, q'')) \<Rightarrow> Some (Inr (x # xs, q''))))"

text \<open>A history of operations, and what a bounded list answers to it.\<close>

datatype 'a queue_op = Enq 'a | Deq
datatype 'a queue_result = Enqueued bool | Dequeued "'a option"

fun queue_run :: "('q \<Rightarrow> 'a \<Rightarrow> ('e, bool \<times> 'q) outcome) \<Rightarrow> ('q \<Rightarrow> ('e, 'a option \<times> 'q) outcome)
    \<Rightarrow> 'a queue_op list \<Rightarrow> 'q \<Rightarrow> ('e, 'a queue_result list \<times> 'q) outcome" where
  "queue_run enq deq [] q = Some (Inr ([], q))"
| "queue_run enq deq (op # ops) q =
     (case (case op of Enq x \<Rightarrow> map_option (map_sum id (map_prod Enqueued id)) (enq q x)
                     | Deq \<Rightarrow> map_option (map_sum id (map_prod Dequeued id)) (deq q)) of
        None \<Rightarrow> None
      | Some (Inl e) \<Rightarrow> Some (Inl e)
      | Some (Inr (r, q')) \<Rightarrow>
          (case queue_run enq deq ops q' of
             None \<Rightarrow> None
           | Some (Inl e) \<Rightarrow> Some (Inl e)
           | Some (Inr (rs, q'')) \<Rightarrow> Some (Inr (r # rs, q''))))"

fun list_run :: "int \<Rightarrow> 'a queue_op list \<Rightarrow> 'a list \<Rightarrow> 'a queue_result list \<times> 'a list" where
  "list_run n [] xs = ([], xs)"
| "list_run n (Enq x # ops) xs =
     (let ok = int (length xs) < n; (rs, ys) = list_run n ops (if ok then xs @ [x] else xs)
      in (Enqueued ok # rs, ys))"
| "list_run n (Deq # ops) xs =
     (let (rs, ys) = list_run n ops (tl xs)
      in (Dequeued (case xs of [] \<Rightarrow> None | x # _ \<Rightarrow> Some x) # rs, ys))"

locale fifo_queue =
  fixes wf :: "'q \<Rightarrow> bool"
    and contents :: "'q \<Rightarrow> 'a list"
    and bound :: "'q \<Rightarrow> int"
    and enq :: "'q \<Rightarrow> 'a \<Rightarrow> ('e, bool \<times> 'q) outcome"
    and deq :: "'q \<Rightarrow> ('e, 'a option \<times> 'q) outcome"
  assumes enq_full: "wf q \<Longrightarrow> bound q \<le> int (length (contents q)) \<Longrightarrow> enq q x = Some (Inr (False, q))"
    and enq_room: "wf q \<Longrightarrow> int (length (contents q)) < bound q \<Longrightarrow>
      \<exists>q'. enq q x = Some (Inr (True, q')) \<and> wf q' \<and> contents q' = contents q @ [x] \<and> bound q' = bound q"
    and deq_empty: "wf q \<Longrightarrow> contents q = [] \<Longrightarrow> deq q = Some (Inr (None, q))"
    and deq_first: "wf q \<Longrightarrow> contents q = x # xs \<Longrightarrow>
      \<exists>q'. deq q = Some (Inr (Some x, q')) \<and> wf q' \<and> contents q' = xs \<and> bound q' = bound q"
begin

lemma drain:
  "wf q \<Longrightarrow> \<exists>q'. drain_upto deq n q = Some (Inr (take n (contents q), q')) \<and> wf q' \<and>
     contents q' = drop n (contents q) \<and> bound q' = bound q"
proof (induction n arbitrary: q)
  case (Suc n)
  show ?case
  proof (cases "contents q")
    case Nil
    then show ?thesis using deq_empty [OF Suc.prems] Suc.prems by simp
  next
    case (Cons x xs)
    then obtain q1 where q1: "deq q = Some (Inr (Some x, q1))" "wf q1" "contents q1 = xs" "bound q1 = bound q"
      using deq_first [OF Suc.prems] by blast
    then show ?thesis using Suc.IH [OF q1(2)] Cons by auto
  qed
qed simp

lemma drain_all:
  assumes "wf q" "length (contents q) < n"
  shows "\<exists>q'. drain_upto deq n q = Some (Inr (contents q, q')) \<and> wf q' \<and> contents q' = []"
  using drain [OF assms(1), of n] assms(2) by auto

lemma run_list_run:
  "wf q \<Longrightarrow> \<exists>q'. queue_run enq deq ops q = Some (Inr (fst (list_run (bound q) ops (contents q)), q')) \<and>
     wf q' \<and> contents q' = snd (list_run (bound q) ops (contents q)) \<and> bound q' = bound q"
proof (induction ops arbitrary: q)
  case (Cons op ops)
  show ?case
  proof (cases op)
    case (Enq x)
    show ?thesis
    proof (cases "int (length (contents q)) < bound q")
      case True
      then show ?thesis using enq_room [OF Cons.prems True, of x] Cons.IH Enq
        by (fastforce simp: split_beta)
    next
      case False
      then show ?thesis using enq_full [OF Cons.prems, of x] Cons.IH [OF Cons.prems] Enq
        by (auto simp: split_beta)
    qed
  next
    case Deq
    show ?thesis
    proof (cases "contents q")
      case Nil
      then show ?thesis using deq_empty [OF Cons.prems Nil] Cons.IH [OF Cons.prems] Deq
        by (auto simp: split_beta)
    next
      case (Cons y ys)
      then show ?thesis using deq_first [OF Cons.prems Cons] Cons.IH Deq
        by (fastforce simp: split_beta)
    qed
  qed
qed simp

lemma enq_then_drain:
  assumes "wf q" "int (length (contents q)) < bound q" "length (contents q) < n"
  shows "\<exists>q1 q2. enq q x = Some (Inr (True, q1)) \<and>
    drain_upto deq n q1 = Some (Inr (contents q @ [x], q2)) \<and> contents q2 = []"
proof -
  obtain q1 where "enq q x = Some (Inr (True, q1))" "wf q1" "contents q1 = contents q @ [x]"
    using enq_room [OF assms(1,2)] by blast
  then show ?thesis using drain [of q1 n] assms(3) by auto
qed

end

end
