(* ===== verification/Lock_Free_Queue.thy ===== *)
theory Lock_Free_Queue
  imports Fifo_Interface
begin

text \<open>
  LockFreeQueue (LockFreeQueue.h) with its heap: nodes live at addresses, the head and tail are
  tagged pointers. The operations are run without interference here (every compare-and-exchange
  sees the values just read). \<open>NewObject\<close> hands out an address
  that is not allocated and \<open>DeleteObject\<close> takes one back; using an address that is not allocated
  is an error value. The retry loops are partial functions: their value is \<open>None\<close> when they never end.
\<close>

subsection \<open>State\<close>

record 'a Node =
  nd_data :: 'a
  nd_pNextNode :: "nat option"

record Node16 =
  n16_pNode :: "nat option"
  n16_count :: int

datatype node_error = BadNode

record 'a LockFreeQueue =
  lq_mMaxCount :: int
  lq_mCount :: int
  lq_mHead :: Node16
  lq_mTail :: Node16
  lq_heap :: "nat \<rightharpoonup> 'a Node"
  lq_fresh :: nat

definition lq_DEFAULT_MAX_COUNT :: int where
  "lq_DEFAULT_MAX_COUNT = 65535"

text \<open>The dummy node's data is value-initialised: the argument \<open>dflt\<close>.\<close>

definition lq_new :: "'a \<Rightarrow> int \<Rightarrow> 'a LockFreeQueue" where
  "lq_new dflt maxCount =
     \<lparr>lq_mMaxCount = maxCount, lq_mCount = 0,
      lq_mHead = \<lparr>n16_pNode = Some 0, n16_count = 0\<rparr>,
      lq_mTail = \<lparr>n16_pNode = Some 0, n16_count = 0\<rparr>,
      lq_heap = [0 \<mapsto> \<lparr>nd_data = dflt, nd_pNextNode = None\<rparr>],
      lq_fresh = 1\<rparr>"

definition lq_node :: "'a LockFreeQueue \<Rightarrow> nat option \<Rightarrow> node_error + 'a Node" where
  "lq_node q p = (case p of None \<Rightarrow> Inl BadNode
     | Some a \<Rightarrow> (case lq_heap q a of None \<Rightarrow> Inl BadNode | Some nd \<Rightarrow> Inr nd))"

subsection \<open>Operations\<close>

definition lq_moveTail :: "'a LockFreeQueue \<Rightarrow> node_error + 'a LockFreeQueue" where
  "lq_moveTail q =
     (let expected = lq_mTail q in
      case lq_node q (n16_pNode expected) of
        Inl e \<Rightarrow> Inl e
      | Inr nd \<Rightarrow>
          (case nd_pNextNode nd of
             None \<Rightarrow> Inr q
           | Some p \<Rightarrow> Inr (q\<lparr>lq_mTail := \<lparr>n16_pNode = Some p, n16_count = n16_count expected + 1\<rparr>\<rparr>)))"

text \<open>The body of the \<open>while (true)\<close> of \<open>TryEnqueue\<close>: \<open>Some\<close> new state, and whether it breaks.\<close>

definition lq_link :: "nat \<Rightarrow> 'a LockFreeQueue \<Rightarrow> node_error + bool \<times> 'a LockFreeQueue" where
  "lq_link pDesired q =
     (case n16_pNode (lq_mTail q) of
        None \<Rightarrow> Inl BadNode
      | Some t \<Rightarrow>
          (case lq_heap q t of
             None \<Rightarrow> Inl BadNode
           | Some nd \<Rightarrow>
               (if nd_pNextNode nd = None then
                  (case lq_moveTail (q\<lparr>lq_heap := (lq_heap q)(t \<mapsto> nd\<lparr>nd_pNextNode := Some pDesired\<rparr>)\<rparr>) of
                     Inl e \<Rightarrow> Inl e | Inr q' \<Rightarrow> Inr (True, q'))
                else (case lq_moveTail q of Inl e \<Rightarrow> Inl e | Inr q' \<Rightarrow> Inr (False, q')))))"

partial_function (option) lq_link_loop :: "nat \<Rightarrow> 'a LockFreeQueue \<Rightarrow> (node_error, 'a LockFreeQueue) outcome" where
  "lq_link_loop pDesired q =
     (case lq_link pDesired q of
        Inl e \<Rightarrow> Some (Inl e)
      | Inr (linked, q') \<Rightarrow> if linked then Some (Inr q') else lq_link_loop pDesired q')"

definition lq_TryEnqueue :: "'a LockFreeQueue \<Rightarrow> 'a \<Rightarrow> (node_error, bool \<times> 'a LockFreeQueue) outcome" where
  "lq_TryEnqueue q data =
     (if lq_mMaxCount q \<le> lq_mCount q then Some (Inr (False, q))
      else
        let pDesired = lq_fresh q;
            q1 = q\<lparr>lq_heap := (lq_heap q)(pDesired \<mapsto> \<lparr>nd_data = data, nd_pNextNode = None\<rparr>),
                   lq_fresh := lq_fresh q + 1\<rparr> in
        case lq_link_loop pDesired q1 of
          None \<Rightarrow> None
        | Some (Inl e) \<Rightarrow> Some (Inl e)
        | Some (Inr q2) \<Rightarrow> Some (Inr (True, q2\<lparr>lq_mCount := lq_mCount q2 + 1\<rparr>)))"

text \<open>
  The body of the \<open>do ... while\<close> of \<open>TryDequeue\<close>. A \<open>continue\<close> goes to the loop condition, so it
  leaves \<open>expected\<close> and \<open>desired\<close> as far as they have been assigned.
\<close>

definition lq_deq_body :: "'a LockFreeQueue \<Rightarrow> Node16 \<Rightarrow> Node16 \<Rightarrow> 'a option
    \<Rightarrow> node_error + 'a LockFreeQueue \<times> Node16 \<times> Node16 \<times> 'a option" where
  "lq_deq_body q expected desired outData =
     (if n16_pNode (lq_mHead q) = n16_pNode (lq_mTail q) then
        (case lq_moveTail q of Inl e \<Rightarrow> Inl e | Inr q' \<Rightarrow> Inr (q', expected, desired, outData))
      else
        (let expected = lq_mHead q in
         if n16_pNode expected = None then Inr (q, expected, desired, outData)
         else case lq_node q (n16_pNode expected) of
           Inl e \<Rightarrow> Inl e
         | Inr nd \<Rightarrow>
             (let desired = \<lparr>n16_pNode = nd_pNextNode nd, n16_count = n16_count expected + 1\<rparr> in
              if n16_pNode desired = None then Inr (q, expected, desired, outData)
              else case lq_node q (n16_pNode desired) of
                Inl e \<Rightarrow> Inl e
              | Inr nd' \<Rightarrow> Inr (q, expected, desired, Some (nd_data nd')))))"

text \<open>A failing compare-and-exchange stores the value it found in \<open>expected\<close>.\<close>

partial_function (option) lq_deq_loop :: "'a LockFreeQueue \<Rightarrow> Node16 \<Rightarrow> Node16 \<Rightarrow> 'a option
    \<Rightarrow> (node_error, 'a LockFreeQueue \<times> Node16 \<times> 'a option) outcome" where
  "lq_deq_loop q expected desired outData =
     (case lq_deq_body q expected desired outData of
        Inl e \<Rightarrow> Some (Inl e)
      | Inr (q', expected', desired', outData') \<Rightarrow>
          if lq_mHead q' = expected'
          then Some (Inr (q'\<lparr>lq_mHead := desired'\<rparr>, expected', outData'))
          else lq_deq_loop q' (lq_mHead q') desired' outData')"

definition lq_TryDequeue :: "'a LockFreeQueue \<Rightarrow> (node_error, 'a option \<times> 'a LockFreeQueue) outcome" where
  "lq_TryDequeue q =
     (if lq_mCount q \<le> 0 then Some (Inr (None, q\<lparr>lq_mCount := lq_mCount q - 1 + 1\<rparr>))
      else
        let zero = \<lparr>n16_pNode = None, n16_count = 0\<rparr> in
        case lq_deq_loop (q\<lparr>lq_mCount := lq_mCount q - 1\<rparr>) zero zero None of
          None \<Rightarrow> None
        | Some (Inl e) \<Rightarrow> Some (Inl e)
        | Some (Inr (q', expected, outData)) \<Rightarrow>
            Some (Inr (outData, case n16_pNode expected of
                                  None \<Rightarrow> q'
                                | Some a \<Rightarrow> q'\<lparr>lq_heap := (lq_heap q')(a := None)\<rparr>)))"

partial_function (option) lq_clear_loop :: "nat option \<Rightarrow> 'a LockFreeQueue \<Rightarrow> (node_error, 'a LockFreeQueue) outcome" where
  "lq_clear_loop pNode q =
     (case pNode of
        None \<Rightarrow> Some (Inr q)
      | Some a \<Rightarrow>
          (case lq_heap q a of
             None \<Rightarrow> Some (Inl BadNode)
           | Some nd \<Rightarrow> lq_clear_loop (nd_pNextNode nd) (q\<lparr>lq_heap := (lq_heap q)(a := None)\<rparr>)))"

definition lq_Clear :: "'a LockFreeQueue \<Rightarrow> (node_error, 'a LockFreeQueue) outcome" where
  "lq_Clear q = lq_clear_loop (n16_pNode (lq_mHead q)) q"

text \<open>The destructor is \<open>Clear\<close>.\<close>

definition lq_destroy :: "'a LockFreeQueue \<Rightarrow> (node_error, 'a LockFreeQueue) outcome" where
  "lq_destroy q = lq_Clear q"

definition lq_IsEmpty :: "'a LockFreeQueue \<Rightarrow> bool" where
  "lq_IsEmpty q \<longleftrightarrow> lq_mCount q = 0"

definition lq_Count :: "'a LockFreeQueue \<Rightarrow> int" where
  "lq_Count q = lq_mCount q"

definition lq_MaxCount :: "'a LockFreeQueue \<Rightarrow> int" where
  "lq_MaxCount q = lq_mMaxCount q"

subsection \<open>The chain of nodes and the abstraction\<close>

fun chain :: "(nat \<rightharpoonup> 'a Node) \<Rightarrow> nat list \<Rightarrow> bool" where
  "chain h [] \<longleftrightarrow> False"
| "chain h [a] \<longleftrightarrow> (\<exists>x. h a = Some \<lparr>nd_data = x, nd_pNextNode = None\<rparr>)"
| "chain h (a # b # ns) \<longleftrightarrow> (\<exists>x. h a = Some \<lparr>nd_data = x, nd_pNextNode = Some b\<rparr>) \<and> chain h (b # ns)"

definition chain_data :: "(nat \<rightharpoonup> 'a Node) \<Rightarrow> nat list \<Rightarrow> 'a list" where
  "chain_data h ns = map (\<lambda>a. nd_data (the (h a))) ns"

text \<open>
  A queue at rest: the nodes from the head on, the tail the last of them, the count their number
  without the dummy, and no other node allocated for it.
\<close>

definition lq_rest :: "'a LockFreeQueue \<Rightarrow> nat list \<Rightarrow> bool" where
  "lq_rest q ns \<longleftrightarrow> chain (lq_heap q) ns \<and> distinct ns \<and> dom (lq_heap q) = set ns \<and>
     n16_pNode (lq_mHead q) = Some (hd ns) \<and> n16_pNode (lq_mTail q) = Some (last ns) \<and>
     lq_mCount q = int (length ns) - 1 \<and> (\<forall>a \<in> set ns. a < lq_fresh q)"

definition lq_wf :: "'a LockFreeQueue \<Rightarrow> bool" where
  "lq_wf q \<longleftrightarrow> (\<exists>ns. lq_rest q ns)"

text \<open>The contents, read by walking from the head; \<open>lq_fresh\<close> bounds the length of the walk.\<close>

fun walk :: "(nat \<rightharpoonup> 'a Node) \<Rightarrow> nat \<Rightarrow> nat option \<Rightarrow> nat list" where
  "walk h 0 p = []"
| "walk h (Suc n) None = []"
| "walk h (Suc n) (Some a) = (case h a of None \<Rightarrow> [] | Some nd \<Rightarrow> a # walk h n (nd_pNextNode nd))"

definition lq_abs :: "'a LockFreeQueue \<Rightarrow> 'a list" where
  "lq_abs q = chain_data (lq_heap q) (tl (walk (lq_heap q) (lq_fresh q) (n16_pNode (lq_mHead q))))"

subsection \<open>Facts about chains\<close>

lemma chain_nonempty: "chain h ns \<Longrightarrow> ns \<noteq> []"
  by auto

lemma chain_cong: "(\<And>a. a \<in> set ns \<Longrightarrow> h a = h' a) \<Longrightarrow> chain h ns = chain h' ns"
  by (induction h ns rule: chain.induct) auto

lemma chain_data_cong: "(\<And>a. a \<in> set ns \<Longrightarrow> h a = h' a) \<Longrightarrow> chain_data h ns = chain_data h' ns"
  by (simp add: chain_data_def)

lemma chain_ConsD:
  "chain h (a # ns) \<Longrightarrow> \<exists>nd. h a = Some nd \<and> nd_pNextNode nd = (if ns = [] then None else Some (hd ns)) \<and>
     (ns \<noteq> [] \<longrightarrow> chain h ns)"
  by (cases ns) auto

lemma chain_last: "chain h ns \<Longrightarrow> \<exists>x. h (last ns) = Some \<lparr>nd_data = x, nd_pNextNode = None\<rparr>"
  by (induction h ns rule: chain.induct) auto

lemma chain_snoc:
  "chain h ns \<Longrightarrow> distinct ns \<Longrightarrow> f \<notin> set ns \<Longrightarrow> h (last ns) = Some nd \<Longrightarrow>
   chain (h(f \<mapsto> \<lparr>nd_data = x, nd_pNextNode = None\<rparr>, last ns \<mapsto> nd\<lparr>nd_pNextNode := Some f\<rparr>)) (ns @ [f])"
proof (induction h ns rule: chain.induct)
  case (3 h a b ns)
  let ?h = "h(f \<mapsto> \<lparr>nd_data = x, nd_pNextNode = None\<rparr>, last (b # ns) \<mapsto> nd\<lparr>nd_pNextNode := Some f\<rparr>)"
  have "chain ?h ((b # ns) @ [f])" using 3 by (intro "3.IH") auto
  moreover have "?h a = h a" using 3(3,4) by auto
  then have "\<exists>x. ?h a = Some \<lparr>nd_data = x, nd_pNextNode = Some b\<rparr>" using 3(2) by auto
  moreover have last: "last (a # b # ns) = last (b # ns)" by simp
  ultimately show ?case unfolding last append_Cons chain.simps by blast
qed auto

lemma walk_chain: "chain h ns \<Longrightarrow> length ns \<le> n \<Longrightarrow> walk h n (Some (hd ns)) = ns"
proof (induction ns arbitrary: n)
  case (Cons a ns)
  obtain m where m: "n = Suc m" "length ns \<le> m" using Cons.prems(2) by (cases n) auto
  obtain nd where nd: "h a = Some nd" "nd_pNextNode nd = (if ns = [] then None else Some (hd ns))"
    "ns \<noteq> [] \<longrightarrow> chain h ns" using chain_ConsD [OF Cons.prems(1)] by blast
  have "walk h m (nd_pNextNode nd) = ns"
  proof (cases "ns = []")
    case True
    then show ?thesis using nd by (cases m) simp_all
  next
    case False
    then show ?thesis using nd m(2) Cons.IH [of m] by simp
  qed
  then show ?case using m(1) nd(1) by simp
qed simp

lemma lq_restD:
  assumes "lq_rest q ns"
  shows "chain (lq_heap q) ns" "distinct ns" "dom (lq_heap q) = set ns" "ns \<noteq> []"
    "n16_pNode (lq_mHead q) = Some (hd ns)" "n16_pNode (lq_mTail q) = Some (last ns)"
    "lq_mCount q = int (length ns) - 1" "\<And>a. a \<in> set ns \<Longrightarrow> a < lq_fresh q"
  using assms chain_nonempty by (auto simp: lq_rest_def)

lemma lq_abs_rest:
  assumes "lq_rest q ns"
  shows "lq_abs q = chain_data (lq_heap q) (tl ns)"
proof -
  note r = lq_restD [OF assms]
  have "card (set ns) \<le> card {..<lq_fresh q}" using r(8) by (intro card_mono) auto
  then have "length ns \<le> lq_fresh q" using distinct_card [OF r(2)] by simp
  then show ?thesis using walk_chain [OF r(1)] r(5) by (simp add: lq_abs_def)
qed

lemma length_lq_abs: "lq_rest q ns \<Longrightarrow> int (length (lq_abs q)) = lq_mCount q"
  using lq_restD(4,7) [of q ns] by (cases ns) (simp_all add: lq_abs_rest chain_data_def)

lemma lq_new_rest: "lq_rest (lq_new dflt n) [0]"
  by (simp add: lq_rest_def lq_new_def)

lemma lq_new_wf [inv_intros]: "lq_wf (lq_new dflt n)"
  unfolding lq_wf_def by (rule exI, rule lq_new_rest)

lemma lq_new_abs [abs_simps]: "lq_abs (lq_new dflt n) = []"
  by (simp add: lq_abs_rest [OF lq_new_rest] chain_data_def)

subsection \<open>The operations on a queue at rest\<close>

lemma enqueue_rest:
  assumes rest: "lq_rest q ns" and room: "lq_mCount q < lq_mMaxCount q"
  obtains q' where "lq_TryEnqueue q x = Some (Inr (True, q'))" "lq_rest q' (ns @ [lq_fresh q])"
    "lq_abs q' = lq_abs q @ [x]" "lq_mMaxCount q' = lq_mMaxCount q"
    "\<forall>a \<in> set ns. nd_data (the (lq_heap q' a)) = nd_data (the (lq_heap q a))"
proof -
  note r = lq_restD [OF rest]
  let ?f = "lq_fresh q"
  obtain y where y: "lq_heap q (last ns) = Some \<lparr>nd_data = y, nd_pNextNode = None\<rparr>"
    using chain_last [OF r(1)] by blast
  have f: "?f \<notin> set ns" using r(8) by blast
  then have lf: "last ns \<noteq> ?f" using r(4) last_in_set by metis
  let ?h = "(lq_heap q)(?f \<mapsto> \<lparr>nd_data = x, nd_pNextNode = None\<rparr>,
      last ns \<mapsto> \<lparr>nd_data = y, nd_pNextNode = Some ?f\<rparr>)"
  let ?q' = "q\<lparr>lq_heap := ?h, lq_fresh := ?f + 1, lq_mCount := lq_mCount q + 1,
      lq_mTail := \<lparr>n16_pNode = Some ?f, n16_count = n16_count (lq_mTail q) + 1\<rparr>\<rparr>"
  have enq: "lq_TryEnqueue q x = Some (Inr (True, ?q'))"
    using room lf r(6) y unfolding lq_TryEnqueue_def Let_def
    by (subst lq_link_loop.simps) (simp add: lq_link_def lq_moveTail_def lq_node_def)
  have "chain ?h (ns @ [?f])" using chain_snoc [OF r(1,2) f y] by simp
  then have rest': "lq_rest ?q' (ns @ [?f])"
    using r f by (auto simp: lq_rest_def less_SucI)
  have "chain_data ?h (tl (ns @ [?f])) = chain_data (lq_heap q) (tl ns) @ [x]"
    using r(4) lf f y by (auto simp: chain_data_def dest: list.set_sel(2))
  then have "lq_abs ?q' = lq_abs q @ [x]"
    unfolding lq_abs_rest [OF rest'] lq_abs_rest [OF rest] by simp
  moreover have "\<forall>a \<in> set ns. nd_data (the (lq_heap ?q' a)) = nd_data (the (lq_heap q a))" using f y by auto
  ultimately show thesis using that enq rest' by simp
qed

lemma dequeue_rest:
  assumes rest: "lq_rest q (a # b # ns)"
  obtains q' where "lq_TryDequeue q = Some (Inr (Some (nd_data (the (lq_heap q b))), q'))"
    "lq_rest q' (b # ns)" "lq_abs q' = tl (lq_abs q)" "lq_mMaxCount q' = lq_mMaxCount q"
    "lq_heap q' b = lq_heap q b"
proof -
  note r = lq_restD [OF rest]
  obtain y where a: "lq_heap q a = Some \<lparr>nd_data = y, nd_pNextNode = Some b\<rparr>" and ch: "chain (lq_heap q) (b # ns)"
    using r(1) by auto
  then obtain nd where b: "lq_heap q b = Some nd" using chain_ConsD by blast
  have neq: "n16_pNode (lq_mHead q) \<noteq> n16_pNode (lq_mTail q)" using r(2,5,6) by auto
  let ?q' = "q\<lparr>lq_mCount := lq_mCount q - 1, lq_mHead := \<lparr>n16_pNode = Some b, n16_count = n16_count (lq_mHead q) + 1\<rparr>,
     lq_heap := (lq_heap q)(a := None)\<rparr>"
  have deq: "lq_TryDequeue q = Some (Inr (Some (nd_data (the (lq_heap q b))), ?q'))"
    using r(5,7) a b neq unfolding lq_TryDequeue_def Let_def
    by (subst lq_deq_loop.simps) (simp add: lq_deq_body_def lq_node_def Let_def)
  have out: "a \<notin> set (b # ns)" using r(2) by simp
  have "chain ((lq_heap q)(a := None)) (b # ns)"
    using ch out by (subst chain_cong [of _ _ "lq_heap q"]) auto
  then have rest': "lq_rest ?q' (b # ns)" using r out by (auto simp: lq_rest_def)
  have "chain_data ((lq_heap q)(a := None)) ns = chain_data (lq_heap q) ns"
    using out by (intro chain_data_cong) auto
  then have "lq_abs ?q' = tl (lq_abs q)"
    unfolding lq_abs_rest [OF rest'] lq_abs_rest [OF rest] by (simp add: chain_data_def)
  then show thesis using that deq rest' out by simp
qed

interpretation lq: fifo_queue lq_wf lq_abs lq_mMaxCount lq_TryEnqueue lq_TryDequeue
proof
  fix q :: "'a LockFreeQueue" and x :: 'a and xs
  assume "lq_wf q"
  then obtain ns where rest: "lq_rest q ns" by (auto simp: lq_wf_def)
  show "lq_TryEnqueue q x = Some (Inr (False, q))" if "lq_mMaxCount q \<le> int (length (lq_abs q))"
    using that length_lq_abs [OF rest] by (simp add: lq_TryEnqueue_def)
  show "\<exists>q'. lq_TryEnqueue q x = Some (Inr (True, q')) \<and> lq_wf q' \<and> lq_abs q' = lq_abs q @ [x] \<and>
      lq_mMaxCount q' = lq_mMaxCount q" if "int (length (lq_abs q)) < lq_mMaxCount q"
    using that length_lq_abs [OF rest] enqueue_rest [OF rest, of x] unfolding lq_wf_def by metis
  show "lq_TryDequeue q = Some (Inr (None, q))" if "lq_abs q = []"
    using that length_lq_abs [OF rest] by (simp add: lq_TryDequeue_def)
  show "\<exists>q'. lq_TryDequeue q = Some (Inr (Some x, q')) \<and> lq_wf q' \<and> lq_abs q' = xs \<and>
      lq_mMaxCount q' = lq_mMaxCount q" if abs: "lq_abs q = x # xs"
  proof -
    obtain a b ns' where ns: "ns = a # b # ns'"
      using abs lq_restD(4) [OF rest] by (cases ns; cases "tl ns") (auto simp: lq_abs_rest [OF rest] chain_data_def)
    moreover have "nd_data (the (lq_heap q b)) = x"
      using abs ns by (simp add: lq_abs_rest [OF rest] chain_data_def)
    moreover have "tl (lq_abs q) = xs" using abs by simp
    ultimately show ?thesis using dequeue_rest [OF rest [unfolded ns]] unfolding lq_wf_def by metis
  qed
qed

text \<open>C21: Any sequence of TryEnqueue and TryDequeue calls on a new queue answers exactly as a list bounded by
  \<open>maxCount\<close>: enqueues are refused when the bound is reached and append otherwise, dequeues return the
  elements in the order of their enqueueing and fail only when there is none. Every call returns and
  touches allocated nodes only.\<close>

theorem queue_answers_like_a_bounded_list:
  "\<exists>q'. queue_run lq_TryEnqueue lq_TryDequeue ops (lq_new dflt maxCount) =
     Some (Inr (fst (list_run maxCount ops []), q')) \<and> lq_abs q' = snd (list_run maxCount ops []) \<and>
     lq_Count q' = int (length (snd (list_run maxCount ops [])))"
proof -
  have b: "lq_mMaxCount (lq_new dflt maxCount) = maxCount" by (simp add: lq_new_def)
  obtain q' where q': "queue_run lq_TryEnqueue lq_TryDequeue ops (lq_new dflt maxCount) =
      Some (Inr (fst (list_run maxCount ops []), q'))" "lq_wf q'" "lq_abs q' = snd (list_run maxCount ops [])"
    using lq.run_list_run [OF lq_new_wf, of ops dflt maxCount] unfolding b lq_new_abs by blast
  then show ?thesis using length_lq_abs by (fastforce simp: lq_wf_def lq_Count_def)
qed

subsection \<open>Clear\<close>

lemma clear_loop_chain:
  "chain (lq_heap q) ns \<Longrightarrow> distinct ns \<Longrightarrow>
   lq_clear_loop (Some (hd ns)) q = Some (Inr (q\<lparr>lq_heap := (\<lambda>a. if a \<in> set ns then None else lq_heap q a)\<rparr>))"
proof (induction ns arbitrary: q)
  case (Cons a ns)
  let ?q = "q\<lparr>lq_heap := (lq_heap q)(a := None)\<rparr>"
  obtain nd where nd: "lq_heap q a = Some nd" "nd_pNextNode nd = (if ns = [] then None else Some (hd ns))"
    "ns \<noteq> [] \<longrightarrow> chain (lq_heap q) ns" using chain_ConsD [OF Cons.prems(1)] by blast
  have step: "lq_clear_loop (Some (hd (a # ns))) q = lq_clear_loop (nd_pNextNode nd) ?q"
    using nd(1) by (subst lq_clear_loop.simps) simp
  show ?case
  proof (cases "ns = []")
    case True
    then show ?thesis unfolding step using nd(2)
      by (subst lq_clear_loop.simps) (auto simp: fun_upd_def if_distrib cong: if_cong)
  next
    case False
    have "chain (lq_heap ?q) ns"
      using nd(3) False Cons.prems(2) by (subst chain_cong [of _ _ "lq_heap q"]) auto
    then have "lq_clear_loop (Some (hd ns)) ?q =
        Some (Inr (?q\<lparr>lq_heap := (\<lambda>b. if b \<in> set ns then None else lq_heap ?q b)\<rparr>))"
      using Cons.IH [of ?q] Cons.prems(2) by (simp only: distinct.simps)
    moreover have "(\<lambda>b. if b \<in> set ns then None else lq_heap ?q b)
        = (\<lambda>b. if b \<in> set (a # ns) then None else lq_heap q b)" by auto
    ultimately show ?thesis unfolding step using nd(2) False by simp
  qed
qed simp

lemma Clear_rest:
  assumes "lq_wf q"
  shows "lq_Clear q = Some (Inr (q\<lparr>lq_heap := Map.empty\<rparr>))"
proof -
  obtain ns where rest: "lq_rest q ns" using assms by (auto simp: lq_wf_def)
  note r = lq_restD [OF rest]
  have "(\<lambda>a. if a \<in> set ns then None else lq_heap q a) = Map.empty"
    using r(3) by (intro ext) (auto simp: domIff)
  then show ?thesis using clear_loop_chain [OF r(1,2)] r(5) by (simp add: lq_Clear_def)
qed

lemma Clear_again:
  assumes "lq_wf q"
  shows "lq_Clear (q\<lparr>lq_heap := Map.empty\<rparr>) = Some (Inl BadNode)"
proof -
  obtain ns where "lq_rest q ns" using assms by (auto simp: lq_wf_def)
  from lq_restD(5) [OF this] show ?thesis unfolding lq_Clear_def by (subst lq_clear_loop.simps) simp
qed

lemma enq_after_Clear:
  assumes "lq_wf q" "lq_Count q < lq_MaxCount q"
  shows "lq_TryEnqueue (q\<lparr>lq_heap := Map.empty\<rparr>) x = Some (Inl BadNode)"
proof -
  obtain ns where rest: "lq_rest q ns" using assms(1) by (auto simp: lq_wf_def)
  note r = lq_restD [OF rest]
  have "last ns \<noteq> lq_fresh q" using r(8) [OF last_in_set [OF r(4)]] by simp
  then show ?thesis using assms(2) r(6) unfolding lq_TryEnqueue_def lq_Count_def lq_MaxCount_def Let_def
    by (subst lq_link_loop.simps) (simp add: lq_link_def)
qed

text \<open>Clear frees every node, the one \<open>mHead\<close> and \<open>mTail\<close> point at included, and leaves head, tail and count as
  they are. So the queue cannot be used again: a second Clear, which is what the destructor runs,
  works on a freed node, and so does an enqueue.\<close>

theorem clear_leaves_dangling_head_and_tail:
  assumes "lq_wf q"
  shows "\<exists>q'. lq_Clear q = Some (Inr q') \<and> lq_heap q' = Map.empty \<and> lq_Count q' = lq_Count q \<and>
    lq_destroy q' = Some (Inl BadNode) \<and>
    (lq_Count q < lq_MaxCount q \<longrightarrow> lq_TryEnqueue q' x = Some (Inl BadNode))"
proof -
  let ?q' = "q\<lparr>lq_heap := Map.empty\<rparr>"
  have "lq_Clear q = Some (Inr ?q')" by (rule Clear_rest [OF assms])
  moreover have "lq_destroy ?q' = Some (Inl BadNode)"
    unfolding lq_destroy_def by (rule Clear_again [OF assms])
  moreover have "lq_TryEnqueue ?q' x = Some (Inl BadNode)" if "lq_Count q < lq_MaxCount q"
    by (rule enq_after_Clear [OF assms that])
  ultimately show ?thesis by (intro exI [of _ ?q']) (simp add: lq_Count_def)
qed

lemma clear_leaves_dangling_head_and_tail_witness:
  "\<exists>q'. lq_Clear (lq_new (0::nat) 10) = Some (Inr q') \<and> lq_destroy q' = Some (Inl BadNode) \<and>
     lq_TryEnqueue q' 5 = Some (Inl BadNode)"
  using clear_leaves_dangling_head_and_tail [OF lq_new_wf, of "0::nat" 10 5]
  by (auto simp: lq_new_def lq_Count_def lq_MaxCount_def)

end
