(* ===== verification/Wait_Queue.thy ===== *)
theory Wait_Queue
  imports Engine_Prelude
begin

text \<open>
  WaitQueueManager (WaitQueueManager.h, WaitQueueManager.cpp): the tickets of the clients that
  wait for a place. Every operation runs under \<open>mLock\<close>, so it is one step. The queue holds weak
  references: \<open>alive s\<close> says whether \<open>lock()\<close> on the reference to \<open>s\<close> succeeds.
\<close>

subsection \<open>State and operations\<close>

record 's WaitQueueManager =
  wq_mMaxWaitSize :: int
  wq_mWaitTicket :: uint64
  wq_mEnterTicket :: uint64
  wq_mEnterWaitQueue :: "'s list"

definition wq_new :: "int \<Rightarrow> 's WaitQueueManager" where
  "wq_new maxWaitSize =
     \<lparr>wq_mMaxWaitSize = maxWaitSize, wq_mWaitTicket = 0, wq_mEnterTicket = 0, wq_mEnterWaitQueue = []\<rparr>"

definition wq_EnterWaitQueue :: "'s WaitQueueManager \<Rightarrow> 's \<Rightarrow> uint64 option \<times> 's WaitQueueManager" where
  "wq_EnterWaitQueue w pSession =
     (if wq_mMaxWaitSize w \<le> int (length (wq_mEnterWaitQueue w)) then (None, w)
      else (Some (wq_mWaitTicket w),
            w\<lparr>wq_mEnterWaitQueue := wq_mEnterWaitQueue w @ [pSession], wq_mWaitTicket := wq_mWaitTicket w + 1\<rparr>))"

fun wq_dequeue_loop :: "('s \<Rightarrow> bool) \<Rightarrow> uint64 \<Rightarrow> 's list \<Rightarrow> 's option \<times> uint64 \<times> 's list" where
  "wq_dequeue_loop alive enter [] = (None, enter, [])"
| "wq_dequeue_loop alive enter (s # ss) =
     (if alive s then (Some s, enter + 1, ss) else wq_dequeue_loop alive (enter + 1) ss)"

definition wq_DequeueWaitQueue :: "('s \<Rightarrow> bool) \<Rightarrow> 's WaitQueueManager \<Rightarrow> 's option \<times> 's WaitQueueManager" where
  "wq_DequeueWaitQueue alive w =
     (case wq_dequeue_loop alive (wq_mEnterTicket w) (wq_mEnterWaitQueue w) of
        (r, enter, ss) \<Rightarrow> (r, w\<lparr>wq_mEnterTicket := enter, wq_mEnterWaitQueue := ss\<rparr>))"

definition wq_GetWaitCount :: "'s WaitQueueManager \<Rightarrow> uint64 \<Rightarrow> uint64" where
  "wq_GetWaitCount w myTicket =
     (if myTicket > wq_mEnterTicket w then myTicket - wq_mEnterTicket w else 0)"

subsection \<open>Tickets and positions\<close>

text \<open>A history: who enters, and which dequeues see which references alive.\<close>

datatype 's wait_op = Enter 's | Dequeue "'s \<Rightarrow> bool"

fun wq_step :: "'s wait_op \<Rightarrow> 's WaitQueueManager \<Rightarrow> 's WaitQueueManager" where
  "wq_step (Enter s) w = snd (wq_EnterWaitQueue w s)"
| "wq_step (Dequeue alive) w = snd (wq_DequeueWaitQueue alive w)"

definition wq_run :: "'s wait_op list \<Rightarrow> 's WaitQueueManager \<Rightarrow> 's WaitQueueManager" where
  "wq_run ops w = fold wq_step ops w"

definition wq_wf :: "nat \<Rightarrow> 's WaitQueueManager \<Rightarrow> bool" where
  "wq_wf issued w \<longleftrightarrow> unat (wq_mWaitTicket w) \<le> issued \<and>
     unat (wq_mWaitTicket w) = unat (wq_mEnterTicket w) + length (wq_mEnterWaitQueue w) \<and>
     int (length (wq_mEnterWaitQueue w)) \<le> max 0 (wq_mMaxWaitSize w)"

definition enters :: "'s wait_op list \<Rightarrow> nat" where
  "enters ops = length (filter (\<lambda>op. case op of Enter _ \<Rightarrow> True | Dequeue _ \<Rightarrow> False) ops)"

lemma unat_succ: "unat w + 1 < 2 ^ 64 \<Longrightarrow> unat (w + 1) = unat w + 1" for w :: uint64
  by (simp add: unat_plus_if')

declare dropWhile_eq_Nil_conv [simp del]

lemma wq_dequeue_loop_spec:
  "wq_dequeue_loop alive enter ss =
     (case dropWhile (\<lambda>s. \<not> alive s) ss of
        [] \<Rightarrow> (None, enter + of_nat (length ss), [])
      | s # rest \<Rightarrow> (Some s, enter + of_nat (Suc (length (takeWhile (\<lambda>s. \<not> alive s) ss))), rest))"
proof (induction alive enter ss rule: wq_dequeue_loop.induct)
  case (2 alive enter s ss)
  then show ?case
    by (cases "dropWhile (\<lambda>s. \<not> alive s) ss") (simp_all add: ac_simps)
qed simp

lemma dropWhile_lengths:
  "dropWhile P ss = s # rest \<Longrightarrow> length ss = Suc (length (takeWhile P ss)) + length rest"
  using arg_cong [OF takeWhile_dropWhile_id, of length P ss] by simp

lemma wq_step_wf:
  assumes "wq_wf n w" "n + enters [op] < 2 ^ 64"
  shows "wq_wf (n + enters [op]) (wq_step op w)"
proof (cases op)
  case (Enter s)
  then have "unat (wq_mWaitTicket w + 1) = unat (wq_mWaitTicket w) + 1"
    using assms by (intro unat_succ) (simp add: wq_wf_def enters_def)
  then show ?thesis using assms Enter by (auto simp: wq_wf_def wq_EnterWaitQueue_def enters_def)
next
  case (Dequeue alive)
  let ?ss = "wq_mEnterWaitQueue w" and ?e = "wq_mEnterTicket w"
  have b: "unat ?e + length ?ss < 2 ^ 64" using assms by (simp add: wq_wf_def)
  have add: "unat (?e + of_nat k) = unat ?e + k" if "k \<le> length ?ss" for k
    using that b by (simp add: unat_plus_if' unsigned_of_nat take_bit_nat_eq_self)
  show ?thesis
  proof (cases "dropWhile (\<lambda>s. \<not> alive s) ?ss")
    case Nil
    then show ?thesis using assms(1) Dequeue add [of "length ?ss"]
      by (simp add: wq_wf_def wq_DequeueWaitQueue_def wq_dequeue_loop_spec enters_def)
  next
    case (Cons s rest)
    note len = dropWhile_lengths [OF Cons]
    have "unat (?e + of_nat (Suc (length (takeWhile (\<lambda>s. \<not> alive s) ?ss))))
        = unat ?e + Suc (length (takeWhile (\<lambda>s. \<not> alive s) ?ss))"
      using len by (intro add) simp
    then show ?thesis using assms(1) Dequeue Cons len
      by (simp add: wq_wf_def wq_DequeueWaitQueue_def wq_dequeue_loop_spec enters_def del: of_nat_Suc)
  qed
qed

lemma wq_run_wf:
  "wq_wf n w \<Longrightarrow> n + enters ops < 2 ^ 64 \<Longrightarrow> wq_wf (n + enters ops) (wq_run ops w)"
proof (induction ops arbitrary: n w)
  case (Cons op ops)
  have "enters (op # ops) = enters [op] + enters ops" by (simp add: enters_def)
  then show ?case using Cons.IH [OF wq_step_wf [OF Cons.prems(1), of op]] Cons.prems(2)
    by (simp add: wq_run_def add.assoc)
qed (simp add: wq_run_def enters_def)

lemma wq_new_wf: "wq_wf 0 (wq_new n)"
  by (simp add: wq_wf_def wq_new_def)

text \<open>After any history with fewer than 2^64 entries the queue never holds more than its maximum, and
  GetWaitCount of the ticket handed to the client at position \<open>i\<close> of the queue is \<open>i\<close>: the number of
  clients before it. The next client to enter gets the ticket whose wait count is the queue length.\<close>

theorem wait_count_is_the_position:
  fixes ops :: "'s wait_op list" and maxWaitSize :: int
  defines "w \<equiv> wq_run ops (wq_new maxWaitSize)"
  assumes "enters ops < 2 ^ 64" "i \<le> length (wq_mEnterWaitQueue w)"
  shows "int (length (wq_mEnterWaitQueue w)) \<le> max 0 maxWaitSize \<and>
    unat (wq_GetWaitCount w (wq_mEnterTicket w + of_nat i)) = i \<and>
    wq_mWaitTicket w = wq_mEnterTicket w + of_nat (length (wq_mEnterWaitQueue w))"
proof -
  have wf: "wq_wf (enters ops) w" using wq_run_wf [OF wq_new_wf, of ops maxWaitSize] assms(2) by (simp add: w_def)
  have max: "wq_mMaxWaitSize w = maxWaitSize"
  proof -
    have "wq_mMaxWaitSize (wq_run ops v) = wq_mMaxWaitSize v" for v :: "'s WaitQueueManager"
    proof (induction ops arbitrary: v)
      case (Cons op ops)
      have "wq_mMaxWaitSize (wq_step op v) = wq_mMaxWaitSize v"
        by (cases op) (auto simp: wq_EnterWaitQueue_def wq_DequeueWaitQueue_def split: prod.split)
      then show ?case using Cons.IH [of "wq_step op v"] by (simp add: wq_run_def)
    qed (simp add: wq_run_def)
    then show ?thesis by (simp add: w_def wq_new_def)
  qed
  let ?e = "wq_mEnterTicket w" and ?n = "length (wq_mEnterWaitQueue w)"
  have b: "unat (wq_mWaitTicket w) = unat ?e + ?n" using wf by (simp add: wq_wf_def)
  have small: "unat ?e + ?n < 2 ^ 64" using b unsigned_less [of "wq_mWaitTicket w", where ?'a = nat] by simp
  have add: "unat (?e + of_nat k) = unat ?e + k" if "k \<le> ?n" for k
    using that small by (simp add: unat_plus_if' unsigned_of_nat take_bit_nat_eq_self)
  have "unat (of_nat i :: uint64) = i"
    using assms(3) small by (simp add: unsigned_of_nat take_bit_nat_eq_self)
  then have "unat (wq_GetWaitCount w (?e + of_nat i)) = i"
    using add [OF assms(3)] by (auto simp: wq_GetWaitCount_def word_less_nat_alt)
  moreover have "wq_mWaitTicket w = ?e + of_nat ?n"
    by (rule word_unat_eq_iff [THEN iffD2]) (simp only: b add [OF order_refl])
  ultimately show ?thesis using wf max by (simp add: wq_wf_def)
qed

lemma wait_count_is_the_position_witness:
  "unat (wq_GetWaitCount (wq_run [Enter (1::nat), Enter 2, Enter 3, Dequeue (\<lambda>s. s \<noteq> 1)] (wq_new 5))
     (wq_mEnterTicket (wq_run [Enter (1::nat), Enter 2, Enter 3, Dequeue (\<lambda>s. s \<noteq> 1)] (wq_new 5)) + of_nat 1)) = 1"
  using wait_count_is_the_position [of "[Enter (1::nat), Enter 2, Enter 3, Dequeue (\<lambda>s. s \<noteq> 1)]" 1 5]
  by (simp add: enters_def wq_run_def wq_new_def wq_EnterWaitQueue_def wq_DequeueWaitQueue_def)

text \<open>DequeueWaitQueue returns the first waiting session that is still alive and drops exactly the expired
  references before it; it returns nothing, and empties the queue, exactly when none is alive.\<close>

theorem dequeue_returns_first_alive:
  "(case wq_DequeueWaitQueue alive w of
      (None, w') \<Rightarrow> wq_mEnterWaitQueue w' = [] \<and> (\<forall>s \<in> set (wq_mEnterWaitQueue w). \<not> alive s)
    | (Some s, w') \<Rightarrow> alive s \<and> (\<exists>expired. wq_mEnterWaitQueue w = expired @ s # wq_mEnterWaitQueue w' \<and>
         (\<forall>x \<in> set expired. \<not> alive x)))"
proof -
  let ?ss = "wq_mEnterWaitQueue w"
  show ?thesis
  proof (cases "dropWhile (\<lambda>s. \<not> alive s) ?ss")
    case Nil
    then have "\<forall>s \<in> set ?ss. \<not> alive s" by (simp add: dropWhile_eq_Nil_conv)
    then show ?thesis using Nil by (simp add: wq_DequeueWaitQueue_def wq_dequeue_loop_spec)
  next
    case (Cons s rest)
    have "?ss = takeWhile (\<lambda>s. \<not> alive s) ?ss @ s # rest"
      using takeWhile_dropWhile_id [of "\<lambda>s. \<not> alive s" ?ss] Cons by simp
    moreover have "\<forall>x \<in> set (takeWhile (\<lambda>s. \<not> alive s) ?ss). \<not> alive x" by (auto dest: set_takeWhileD)
    moreover have "alive s" using Cons hd_dropWhile [of "\<lambda>s. \<not> alive s" ?ss] by auto
    moreover have "wq_DequeueWaitQueue alive w = (Some s, w\<lparr>wq_mEnterTicket :=
        wq_mEnterTicket w + of_nat (Suc (length (takeWhile (\<lambda>s. \<not> alive s) ?ss))), wq_mEnterWaitQueue := rest\<rparr>)"
      using Cons by (simp add: wq_DequeueWaitQueue_def wq_dequeue_loop_spec)
    ultimately show ?thesis by auto
  qed
qed

lemma dequeue_returns_first_alive_witness:
  "\<exists>s w'. wq_DequeueWaitQueue (\<lambda>s. s \<noteq> 1) (wq_run [Enter (1::nat), Enter 2] (wq_new 5)) = (Some s, w') \<and> s \<noteq> 1"
  using dequeue_returns_first_alive [where alive = "\<lambda>s. s \<noteq> 1" and w = "wq_run [Enter (1::nat), Enter 2] (wq_new 5)"]
  by (simp add: wq_run_def wq_new_def wq_EnterWaitQueue_def wq_DequeueWaitQueue_def)

end
