(* ===== verification/Sessions.thy ===== *)
theory Sessions
  imports Receive_Buffer Lock_Free_Queue Packets
begin

text \<open>
  One Session and the objects it owns: Connector, Disconnector, Receiver and Sender (Session,
  Connector, Disconnector, Receiver, Sender: .h and .cpp). The owner pointer of each of the four is
  null or the session itself, so it is a flag. Winsock is a parameter: an \<open>io_env\<close> says how the
  calls made during one handler return. The callbacks, the requests handed to Winsock and the text that
  a program's callbacks print are recorded in order in \<open>ss_events\<close>. An access through a null pointer, to a freed queue node or
  outside of the receive buffer is a fault value.
\<close>

subsection \<open>Environment, events and faults\<close>

datatype io_result = IoCompleted | IoPending | IoFailed int

record io_env =
  io_setReuseAddress :: bool
  io_bindAnyAddress :: bool
  io_connectEx :: io_result
  io_disconnectEx :: io_result
  io_wsaRecv :: io_result
  io_wsaSend :: io_result

datatype session_event =
    OnConnected | OnEnterWaitQueue uint64 | OnDisconnecting eDisconnectReason | OnDisconnected
  | OnSend int | OnError int
  | PostConnect | PostDisconnect | PostReceive "(int \<times> int) list" | PostSend "byte list list"
  | ReapScheduled | Print string

datatype fault = NullOwner | NullService | NullSession | QueueNode node_error | OutOfBounds

definition obind :: "('e, 'a) outcome \<Rightarrow> ('a \<Rightarrow> ('e, 'b) outcome) \<Rightarrow> ('e, 'b) outcome" where
  "obind m f = (case m of None \<Rightarrow> None | Some (Inl e) \<Rightarrow> Some (Inl e) | Some (Inr x) \<Rightarrow> f x)"

definition ok :: "'a \<Rightarrow> ('e, 'a) outcome" where
  "ok x = Some (Inr x)"

definition queue_call :: "(node_error, 'a) outcome \<Rightarrow> (fault, 'a) outcome" where
  "queue_call m = map_option (map_sum QueueNode id) m"

lemma obind_simps [simp]:
  "obind (ok x) f = f x" "obind (Some (Inl e)) f = Some (Inl e)" "obind None f = None"
  by (simp_all add: obind_def ok_def)

lemma queue_call_simps [simp]:
  "queue_call (Some (Inr x)) = ok x" "queue_call (Some (Inl e)) = Some (Inl (QueueNode e))"
  by (simp_all add: queue_call_def ok_def)

lemma ok_simps [simp]:
  "ok x = ok y \<longleftrightarrow> x = y" "ok x \<noteq> Some (Inl e)" "Some (Inl e) \<noteq> ok x"
  "ok x = Some (Inr y) \<longleftrightarrow> x = y" "ok x \<noteq> None" "None \<noteq> ok x"
  by (auto simp: ok_def)

lemma obind_mono [partial_function_mono]:
  assumes "mono_option B" "\<And>y. mono_option (\<lambda>f. C y f)"
  shows "mono_option (\<lambda>f. obind (B f) (\<lambda>y. C y f))"
proof -
  have "mono_option (\<lambda>f. Option.bind (B f) (\<lambda>m. case m of Inl e \<Rightarrow> Some (Inl e) | Inr x \<Rightarrow> C x f))"
  proof (intro bind_mono assms(1))
    show "mono_option (\<lambda>f. case m of Inl e \<Rightarrow> Some (Inl e) | Inr x \<Rightarrow> C x f)" for m
      by (cases m) (simp_all add: assms(2) option.const_mono)
  qed
  moreover have "obind (B f) (\<lambda>y. C y f) =
      Option.bind (B f) (\<lambda>m. case m of Inl e \<Rightarrow> Some (Inl e) | Inr x \<Rightarrow> C x f)" for f
    by (auto simp: obind_def split: option.split sum.split)
  ultimately show ?thesis by simp
qed

subsection \<open>The objects\<close>

record Connector =
  cn_mpOwner :: bool
  cn_mpService :: bool
  cn_eventOwner :: bool

record Disconnector =
  dc_mpOwner :: bool
  dc_eventOwner :: bool

record Receiver =
  rc_mpOwner :: bool
  rc_eventOwner :: bool
  rc_mNetReceiveBuffer :: NetReceiveBuffer

record Sender =
  sn_mpOwner :: bool
  sn_eventOwner :: bool
  sn_pending :: "NetSendBuffer list"
  sn_mbSendRegistered :: bool
  sn_mSendQueue :: "NetSendBuffer LockFreeQueue"

record Session =
  ss_mpService :: bool
  ss_socketValid :: bool
  ss_mSessionState :: eSessionState
  ss_mConnector :: Connector
  ss_mDisconnector :: Disconnector
  ss_mReceiver :: Receiver
  ss_mSender :: Sender
  ss_events :: "session_event list"

definition cn_new :: Connector where
  [simp]: "cn_new = \<lparr>cn_mpOwner = False, cn_mpService = False, cn_eventOwner = False\<rparr>"

definition dc_new :: Disconnector where
  [simp]: "dc_new = \<lparr>dc_mpOwner = False, dc_eventOwner = False\<rparr>"

definition rc_new :: "byte list \<Rightarrow> Receiver" where
  [simp]: "rc_new mem = \<lparr>rc_mpOwner = False, rc_eventOwner = False, rc_mNetReceiveBuffer = rb_new rb_DEFAULT_BUFFER_SIZE mem\<rparr>"

definition sn_new :: "NetSendBuffer \<Rightarrow> Sender" where
  [simp]: "sn_new dflt = \<lparr>sn_mpOwner = False, sn_eventOwner = False, sn_pending = [],
     sn_mbSendRegistered = False, sn_mSendQueue = lq_new dflt lq_DEFAULT_MAX_COUNT\<rparr>"

definition ss_new :: "byte list \<Rightarrow> NetSendBuffer \<Rightarrow> Session" where
  "ss_new mem dflt =
     \<lparr>ss_mpService = False, ss_socketValid = True, ss_mSessionState = Disconnected,
      ss_mConnector = cn_new, ss_mDisconnector = dc_new, ss_mReceiver = rc_new mem, ss_mSender = sn_new dflt,
      ss_events = []\<rparr>"

definition emit :: "session_event \<Rightarrow> Session \<Rightarrow> Session" where
  "emit e s = s\<lparr>ss_events := ss_events s @ [e]\<rparr>"

definition ss_IsDisconnected :: "Session \<Rightarrow> bool" where
  "ss_IsDisconnected s \<longleftrightarrow> IsDisconnected (ss_mSessionState s)"

subsection \<open>Disconnector and Session::Disconnect\<close>

definition dc_SetOwner :: "Session \<Rightarrow> Session" where
  "dc_SetOwner s = s\<lparr>ss_mDisconnector := \<lparr>dc_mpOwner = True, dc_eventOwner = True\<rparr>\<rparr>"

definition dc_Clear :: "Session \<Rightarrow> Session" where
  "dc_Clear s = s\<lparr>ss_mDisconnector := \<lparr>dc_mpOwner = False, dc_eventOwner = False\<rparr>\<rparr>"

definition dc_destroy :: "Session \<Rightarrow> Session" where
  "dc_destroy s = dc_Clear s"

definition dc_Register :: "io_env \<Rightarrow> Session \<Rightarrow> Session" where
  "dc_Register env s =
     (if \<not> dc_mpOwner (ss_mDisconnector s) then dc_Clear s
      else case io_disconnectEx env of
             IoFailed code \<Rightarrow> dc_Clear (emit (OnError code) s)
           | _ \<Rightarrow> emit PostDisconnect s)"

definition dc_Process :: "Session \<Rightarrow> Session" where
  "dc_Process s = dc_Clear s"

definition ss_registerDisconnect :: "io_env \<Rightarrow> Session \<Rightarrow> Session" where
  [simp]: "ss_registerDisconnect env s = dc_Register env s"

definition ss_Disconnect :: "io_env \<Rightarrow> eDisconnectReason \<Rightarrow> Session \<Rightarrow> Session" where
  "ss_Disconnect env reason s =
     (let (won, st) = setSessionDisconnected (ss_mSessionState s);
          s1 = s\<lparr>ss_mSessionState := st\<rparr> in
      if \<not> won then s1 else ss_registerDisconnect env (emit (OnDisconnecting reason) s1))"

subsection \<open>Connector\<close>

definition cn_SetOwner :: "Session \<Rightarrow> Session" where
  "cn_SetOwner s = s\<lparr>ss_mConnector := ss_mConnector s\<lparr>cn_mpOwner := True, cn_eventOwner := True\<rparr>\<rparr>"

definition cn_SetService :: "Session \<Rightarrow> Session" where
  "cn_SetService s = s\<lparr>ss_mConnector := ss_mConnector s\<lparr>cn_mpService := True\<rparr>\<rparr>"

definition cn_Clear :: "Session \<Rightarrow> Session" where
  "cn_Clear s = s\<lparr>ss_mConnector := \<lparr>cn_mpOwner = False, cn_mpService = False, cn_eventOwner = False\<rparr>\<rparr>"

definition cn_destroy :: "Session \<Rightarrow> Session" where
  "cn_destroy s = cn_Clear s"

definition cn_Register :: "io_env \<Rightarrow> bool \<Rightarrow> Session \<Rightarrow> bool \<times> Session" where
  "cn_Register env isClient s =
     (if \<not> cn_mpOwner (ss_mConnector s) \<or> \<not> ss_IsDisconnected s then (False, cn_Clear s)
      else if \<not> cn_mpService (ss_mConnector s) \<or> \<not> isClient then (False, cn_Clear s)
      else if \<not> io_setReuseAddress env then (False, cn_Clear s)
      else if \<not> io_bindAnyAddress env then (False, cn_Clear s)
      else case io_connectEx env of
             IoFailed code \<Rightarrow> (False, cn_Clear (ss_Disconnect env SocketError (emit (OnError code) s)))
           | _ \<Rightarrow> (True, emit PostConnect s))"

definition cn_Process :: "Session \<Rightarrow> Session" where
  "cn_Process s = cn_Clear s"

subsection \<open>Receiver\<close>

definition rc_MAX_RECEIVE_WSABUF_SIZE :: int where "rc_MAX_RECEIVE_WSABUF_SIZE = 2"

definition rc_SetOwner :: "Session \<Rightarrow> Session" where
  "rc_SetOwner s = s\<lparr>ss_mReceiver := ss_mReceiver s\<lparr>rc_mpOwner := True, rc_eventOwner := True\<rparr>\<rparr>"

definition rc_buffer :: "Session \<Rightarrow> NetReceiveBuffer" where
  "rc_buffer s = rc_mNetReceiveBuffer (ss_mReceiver s)"

definition rc_set_buffer :: "NetReceiveBuffer \<Rightarrow> Session \<Rightarrow> Session" where
  "rc_set_buffer b s = s\<lparr>ss_mReceiver := ss_mReceiver s\<lparr>rc_mNetReceiveBuffer := b\<rparr>\<rparr>"

definition rc_GetWritePtr :: "Session \<Rightarrow> int" where
  "rc_GetWritePtr s = rb_GetWritePtr (rc_buffer s)"

definition rc_Clear :: "Session \<Rightarrow> Session" where
  "rc_Clear s = s\<lparr>ss_mReceiver :=
     \<lparr>rc_mpOwner = False, rc_eventOwner = False, rc_mNetReceiveBuffer = rb_Clear (rc_buffer s)\<rparr>\<rparr>"

definition rc_destroy :: "Session \<Rightarrow> Session" where
  "rc_destroy s = rc_Clear s"

definition rc_wsabufs :: "NetReceiveBuffer \<Rightarrow> (int \<times> int) list" where
  "rc_wsabufs b =
     (let freeSize = rb_GetFreeSize b; linearSize = rb_GetLinearWriteSize b;
          remainSize = freeSize - linearSize in
      (rb_GetWritePtr b, linearSize) # (if remainSize \<noteq> 0 then [(rb_GetBufferPtr b, remainSize)] else []))"

definition rc_Register :: "io_env \<Rightarrow> Session \<Rightarrow> Session" where
  "rc_Register env s =
     (if \<not> rc_mpOwner (ss_mReceiver s) \<or> ss_IsDisconnected s then rc_Clear s
      else if rb_GetFreeSize (rc_buffer s) = 0 then rc_Clear (ss_Disconnect env Kicked s)
      else case io_wsaRecv env of
             IoFailed code \<Rightarrow> rc_Clear (ss_Disconnect env SocketError (emit (OnError code) s))
           | _ \<Rightarrow> emit (PostReceive (rc_wsabufs (rc_buffer s))) s)"

text \<open>
  \<open>onReceive\<close> is the virtual \<open>OnReceive\<close>: from the bytes at the pointer, the length passed and the
  session to the processed length and the session; \<open>None\<close> when it reads outside of the buffer.
\<close>

definition rc_Process :: "io_env \<Rightarrow> (byte list \<Rightarrow> int \<Rightarrow> Session \<Rightarrow> (int \<times> Session) option) \<Rightarrow> uint32 \<Rightarrow> Session
    \<Rightarrow> (fault, Session) outcome" where
  "rc_Process env onReceive numOfBytes s =
     (if \<not> rc_mpOwner (ss_mReceiver s) \<or> ss_IsDisconnected s then ok (rc_Clear s)
      else if numOfBytes = 0 then ok (rc_Clear (ss_Disconnect env Kicked s))
      else
        let s1 = rc_set_buffer (rb_MoveWritePos (rc_buffer s) (sint numOfBytes)) s;
            dataSize = rb_GetUseSize (rc_buffer s1) in
        case onReceive (drop (nat (rb_GetReadPtr (rc_buffer s1))) (rb_mpBuffer (rc_buffer s1)))
               (sint numOfBytes) s1 of
          None \<Rightarrow> Some (Inl OutOfBounds)
        | Some (processLen, s2) \<Rightarrow>
            if processLen < 0 \<or> processLen > dataSize then ok (rc_Clear (ss_Disconnect env Kicked s2))
            else ok (rc_Register env (rc_set_buffer (rb_MoveReadPos (rc_buffer s2) processLen) s2)))"

subsection \<open>Sender\<close>

definition sn_MAX_SEND_WSABUF_SIZE :: nat where "sn_MAX_SEND_WSABUF_SIZE = 64"

definition sn_SetOwner :: "Session \<Rightarrow> Session" where
  "sn_SetOwner s = s\<lparr>ss_mSender := ss_mSender s\<lparr>sn_mpOwner := True, sn_eventOwner := True\<rparr>\<rparr>"

definition sn_queue :: "Session \<Rightarrow> NetSendBuffer LockFreeQueue" where
  "sn_queue s = sn_mSendQueue (ss_mSender s)"

definition sn_Clear :: "Session \<Rightarrow> (fault, Session) outcome" where
  "sn_Clear s =
     obind (queue_call (lq_Clear (sn_queue s))) (\<lambda>q.
     ok (s\<lparr>ss_mSender := \<lparr>sn_mpOwner = False, sn_eventOwner = False, sn_pending = [],
          sn_mbSendRegistered = False, sn_mSendQueue = q\<rparr>\<rparr>))"

text \<open>After the body of the destructor the members are destroyed, the queue among them.\<close>

definition sn_destroy :: "Session \<Rightarrow> (fault, unit) outcome" where
  "sn_destroy s =
     obind (sn_Clear s) (\<lambda>s'. obind (queue_call (lq_destroy (sn_queue s'))) (\<lambda>q. ok ()))"

text \<open>So every sender that is destroyed frees the nodes of its queue twice.\<close>

lemma sender_destructor_frees_twice:
  assumes "lq_wf (sn_queue s)"
  shows "sn_destroy s = Some (Inl (QueueNode BadNode))"
  using Clear_rest [OF assms] Clear_again [OF assms]
  by (simp add: sn_destroy_def sn_Clear_def sn_queue_def lq_destroy_def)

text \<open>
  The loop of \<open>Register\<close> takes up to 64 buffers from the queue, keeps them in the event's pending
  list and points the WSABUFs at their bytes.
\<close>

partial_function (option) sn_Register :: "io_env \<Rightarrow> Session \<Rightarrow> (fault, Session) outcome" where
  "sn_Register env s =
     (if \<not> sn_mpOwner (ss_mSender s) \<or> ss_IsDisconnected s then sn_Clear s
      else if sn_mbSendRegistered (ss_mSender s) then ok s
      else
        obind (queue_call (drain_upto lq_TryDequeue sn_MAX_SEND_WSABUF_SIZE (sn_queue s))) (\<lambda>r.
          (case r of (bufs, q) \<Rightarrow>
            (if bufs = [] then
               (let s1 = s\<lparr>ss_mSender := ss_mSender s\<lparr>sn_mbSendRegistered := False, sn_mSendQueue := q\<rparr>\<rparr> in
                if \<not> lq_IsEmpty q then sn_Register env s1 else ok s1)
             else
               (let s1 = s\<lparr>ss_mSender := ss_mSender s\<lparr>sn_mbSendRegistered := True, sn_mSendQueue := q,
                       sn_pending := sn_pending (ss_mSender s) @ bufs, sn_eventOwner := True\<rparr>\<rparr> in
                case io_wsaSend env of
                  IoFailed code \<Rightarrow> sn_Clear (ss_Disconnect env SocketError (emit (OnError code) s1))
                | _ \<Rightarrow> ok (emit (PostSend (map sb_wsabuf bufs)) s1))))))"

text \<open>
  On a full queue \<open>Send\<close> clears itself, which resets the owner, and then disconnects through the
  owner it has just reset.
\<close>

definition sn_Send :: "io_env \<Rightarrow> NetSendBuffer \<Rightarrow> Session \<Rightarrow> (fault, Session) outcome" where
  "sn_Send env pSendBuffer s =
     (if \<not> sn_mpOwner (ss_mSender s) \<or> ss_IsDisconnected s then sn_Clear s
      else
        obind (queue_call (lq_TryEnqueue (sn_queue s) pSendBuffer)) (\<lambda>r.
          (case r of (enqueued, q) \<Rightarrow>
            (let s1 = s\<lparr>ss_mSender := ss_mSender s\<lparr>sn_mSendQueue := q\<rparr>\<rparr> in
             if \<not> enqueued then
               obind (sn_Clear s1) (\<lambda>s2.
                 if \<not> sn_mpOwner (ss_mSender s2) then Some (Inl NullOwner)
                 else ok (ss_Disconnect env ServiceError s2))
             else sn_Register env s1))))"

definition sn_Process :: "io_env \<Rightarrow> uint32 \<Rightarrow> Session \<Rightarrow> (fault, Session) outcome" where
  "sn_Process env numOfBytes s =
     (let s1 = s\<lparr>ss_mSender := ss_mSender s\<lparr>sn_pending := []\<rparr>\<rparr> in
      if \<not> sn_mpOwner (ss_mSender s1) \<or> ss_IsDisconnected s1 then sn_Clear s1
      else if numOfBytes = 0 then sn_Clear (ss_Disconnect env Kicked s1)
      else
        let s2 = emit (OnSend (sint numOfBytes)) s1;
            s3 = s2\<lparr>ss_mSender := ss_mSender s2\<lparr>sn_mbSendRegistered := False\<rparr>\<rparr> in
        if \<not> lq_IsEmpty (sn_queue s3) then sn_Register env s3 else ok s3)"

subsection \<open>The session\<close>

definition ss_SetSessionInGame :: "Session \<Rightarrow> bool \<times> Session" where
  "ss_SetSessionInGame s =
     (let (b, st) = SetSessionInGame (ss_mSessionState s) in (b, s\<lparr>ss_mSessionState := st\<rparr>))"

definition ss_setService :: "Session \<Rightarrow> Session" where
  "ss_setService s = s\<lparr>ss_mpService := True\<rparr>"

definition ss_setSessionEvent :: "Session \<Rightarrow> Session" where
  "ss_setSessionEvent s = sn_SetOwner (rc_SetOwner (dc_SetOwner (cn_SetOwner (cn_SetService s))))"

definition ss_registerConnect :: "io_env \<Rightarrow> bool \<Rightarrow> Session \<Rightarrow> bool \<times> Session" where
  [simp]: "ss_registerConnect env isClient s = cn_Register env isClient s"

definition ss_Connect :: "io_env \<Rightarrow> bool \<Rightarrow> Session \<Rightarrow> bool \<times> Session" where
  "ss_Connect env isClient s = ss_registerConnect env isClient s"

definition ss_Send :: "io_env \<Rightarrow> NetSendBuffer \<Rightarrow> Session \<Rightarrow> (fault, Session) outcome" where
  "ss_Send env pSendBuffer s = sn_Send env pSendBuffer s"

definition ss_registerSend :: "io_env \<Rightarrow> Session \<Rightarrow> (fault, Session) outcome" where
  [simp]: "ss_registerSend env s = sn_Register env s"

definition ss_registerReceive :: "io_env \<Rightarrow> Session \<Rightarrow> Session" where
  "ss_registerReceive env s = rc_Register env s"

definition ss_processSend :: "io_env \<Rightarrow> uint32 \<Rightarrow> Session \<Rightarrow> (fault, Session) outcome" where
  [simp]: "ss_processSend env numOfBytes s = sn_Process env numOfBytes s"

definition ss_processReceive :: "io_env \<Rightarrow> (byte list \<Rightarrow> int \<Rightarrow> Session \<Rightarrow> (int \<times> Session) option) \<Rightarrow> uint32 \<Rightarrow> Session
    \<Rightarrow> (fault, Session) outcome" where
  [simp]: "ss_processReceive env onReceive numOfBytes s = rc_Process env onReceive numOfBytes s"

definition ss_GetReceiveBufferPtr :: "Session \<Rightarrow> int" where
  "ss_GetReceiveBufferPtr s = rc_GetWritePtr s"

text \<open>Whether the service pointer that \<open>GetService\<close> returns is not null.\<close>

definition ss_GetService :: "Session \<Rightarrow> bool" where
  [simp]: "ss_GetService s = ss_mpService s"

definition ss_registerReap :: "Session \<Rightarrow> (fault, Session) outcome" where
  "ss_registerReap s = (if \<not> ss_GetService s then Some (Inl NullService) else ok (emit ReapScheduled s))"

definition ss_Clear :: "Session \<Rightarrow> (fault, Session) outcome" where
  "ss_Clear s =
     sn_Clear (rc_Clear (dc_Clear (cn_Clear (s\<lparr>ss_mpService := False, ss_socketValid := False\<rparr>))))"

lemmas session_defs = emit_def ss_IsDisconnected_def IsDisconnected_def dc_SetOwner_def dc_Clear_def
  dc_Process_def cn_SetOwner_def cn_SetService_def cn_Clear_def cn_Process_def rc_SetOwner_def
  rc_buffer_def rc_set_buffer_def rc_Clear_def sn_SetOwner_def sn_queue_def

end
