(* ===== verification/Session_Send.thy ===== *)
theory Session_Send
  imports Sessions
begin

text \<open>
  The send path of a session: at most one send outstanding, batches of at most 64 buffers, every
  buffer once and in order; and what its error paths do. The queue's part is the FIFO contract
  that LockFreeQueue was shown to meet (the interpretation \<open>lq\<close>).
\<close>

subsection \<open>Sends and completions\<close>

datatype send_op = SendCall NetSendBuffer | SendDone uint32

text \<open>A completion arrives for an outstanding send only.\<close>

fun send_step :: "io_env \<Rightarrow> send_op \<Rightarrow> Session \<Rightarrow> (fault, Session) outcome" where
  "send_step env (SendCall b) s = ss_Send env b s"
| "send_step env (SendDone n) s =
     (if sn_mbSendRegistered (ss_mSender s) then sn_Process env n s else ok s)"

fun send_run :: "io_env \<Rightarrow> send_op list \<Rightarrow> Session \<Rightarrow> (fault, Session) outcome" where
  "send_run env [] s = ok s"
| "send_run env (op # ops) s = obind (send_step env op s) (send_run env ops)"

fun sent :: "send_op list \<Rightarrow> NetSendBuffer list" where
  "sent [] = []"
| "sent (SendCall b # ops) = b # sent ops"
| "sent (SendDone n # ops) = sent ops"

fun batches :: "session_event list \<Rightarrow> byte list list list" where
  "batches [] = []"
| "batches (PostSend bs # es) = bs # batches es"
| "batches (_ # es) = batches es"

fun completions :: "session_event list \<Rightarrow> nat" where
  "completions [] = 0"
| "completions (OnSend n # es) = Suc (completions es)"
| "completions (_ # es) = completions es"

lemma batches_append [simp]: "batches (es @ fs) = batches es @ batches fs"
  by (induction es rule: batches.induct) auto

lemma completions_append [simp]: "completions (es @ fs) = completions es + completions fs"
  by (induction es rule: completions.induct) auto

definition sends_ok :: "io_env \<Rightarrow> bool" where
  "sends_ok env \<longleftrightarrow> (\<forall>code. io_wsaSend env \<noteq> IoFailed code)"

text \<open>The state between two steps, with \<open>bufs\<close> all the buffers given to \<open>Send\<close> so far.\<close>

definition send_inv :: "NetSendBuffer list \<Rightarrow> Session \<Rightarrow> bool" where
  "send_inv bufs s \<longleftrightarrow>
     sn_mpOwner (ss_mSender s) \<and> \<not> ss_IsDisconnected s \<and> lq_wf (sn_queue s) \<and>
     lq_mMaxCount (sn_queue s) = lq_DEFAULT_MAX_COUNT \<and>
     concat (batches (ss_events s)) @ map sb_wsabuf (lq_abs (sn_queue s)) = map sb_wsabuf bufs \<and>
     (\<forall>bs \<in> set (batches (ss_events s)). bs \<noteq> [] \<and> length bs \<le> 64) \<and>
     length (batches (ss_events s)) =
       completions (ss_events s) + (if sn_mbSendRegistered (ss_mSender s) then 1 else 0) \<and>
     (\<not> sn_mbSendRegistered (ss_mSender s) \<longrightarrow> lq_abs (sn_queue s) = [])"

lemma send_invD:
  assumes "send_inv bufs s"
  shows "sn_mpOwner (ss_mSender s)" "\<not> ss_IsDisconnected s" "lq_wf (sn_queue s)"
    "lq_mMaxCount (sn_queue s) = lq_DEFAULT_MAX_COUNT"
    "concat (batches (ss_events s)) @ map sb_wsabuf (lq_abs (sn_queue s)) = map sb_wsabuf bufs"
    "\<forall>bs \<in> set (batches (ss_events s)). bs \<noteq> [] \<and> length bs \<le> 64"
    "length (batches (ss_events s)) =
       completions (ss_events s) + (if sn_mbSendRegistered (ss_mSender s) then 1 else 0)"
    "\<not> sn_mbSendRegistered (ss_mSender s) \<Longrightarrow> lq_abs (sn_queue s) = []"
  using assms by (simp_all add: send_inv_def)

lemma lq_count_abs: "lq_wf q \<Longrightarrow> lq_mCount q = int (length (lq_abs q))"
  by (auto simp: lq_wf_def length_lq_abs)

lemma lq_IsEmpty_abs: "lq_wf q \<Longrightarrow> lq_IsEmpty q \<longleftrightarrow> lq_abs q = []"
  by (simp add: lq_IsEmpty_def lq_count_abs)

lemma Register_idle_empty:
  assumes "sn_mpOwner (ss_mSender s)" "\<not> ss_IsDisconnected s" "\<not> sn_mbSendRegistered (ss_mSender s)"
    "lq_wf (sn_queue s)" "lq_abs (sn_queue s) = []"
  shows "sn_Register env s = ok s"
proof -
  have "drain_upto lq_TryDequeue sn_MAX_SEND_WSABUF_SIZE (sn_queue s) = Some (Inr ([], sn_queue s))"
    using lq.deq_empty [OF assms(4,5)] by (simp add: sn_MAX_SEND_WSABUF_SIZE_def numeral_eq_Suc)
  moreover have "s\<lparr>ss_mSender := ss_mSender s\<lparr>sn_mbSendRegistered := False, sn_mSendQueue := sn_queue s\<rparr>\<rparr> = s"
    using assms(3) by (simp add: sn_queue_def)
  ultimately show ?thesis
    using assms by (subst sn_Register.simps) (simp add: lq_IsEmpty_abs Let_def)
qed

lemma Register_idle_posts:
  assumes "sn_mpOwner (ss_mSender s)" "\<not> ss_IsDisconnected s" "\<not> sn_mbSendRegistered (ss_mSender s)"
    "lq_wf (sn_queue s)" "lq_abs (sn_queue s) \<noteq> []" "sends_ok env"
  shows "\<exists>s'. sn_Register env s = ok s' \<and> sn_mpOwner (ss_mSender s') \<and> \<not> ss_IsDisconnected s' \<and>
    sn_mbSendRegistered (ss_mSender s') \<and> lq_wf (sn_queue s') \<and>
    lq_mMaxCount (sn_queue s') = lq_mMaxCount (sn_queue s) \<and>
    lq_abs (sn_queue s') = drop 64 (lq_abs (sn_queue s)) \<and>
    ss_events s' = ss_events s @ [PostSend (map sb_wsabuf (take 64 (lq_abs (sn_queue s))))]"
proof -
  let ?xs = "lq_abs (sn_queue s)"
  obtain q where q: "drain_upto lq_TryDequeue 64 (sn_queue s) = Some (Inr (take 64 ?xs, q))"
    "lq_wf q" "lq_abs q = drop 64 ?xs" "lq_mMaxCount q = lq_mMaxCount (sn_queue s)"
    using lq.drain [OF assms(4)] by blast
  have ne: "take 64 ?xs \<noteq> []" using assms(5) by simp
  let ?s = "emit (PostSend (map sb_wsabuf (take 64 ?xs)))
    (s\<lparr>ss_mSender := ss_mSender s\<lparr>sn_mbSendRegistered := True, sn_mSendQueue := q,
      sn_pending := sn_pending (ss_mSender s) @ take 64 ?xs, sn_eventOwner := True\<rparr>\<rparr>)"
  have "sn_Register env s = ok ?s"
  proof (cases "io_wsaSend env")
    case (IoFailed code)
    then show ?thesis using assms(6) by (simp add: sends_ok_def)
  qed (use assms(1-3) ne in \<open>subst sn_Register.simps, simp add: sn_MAX_SEND_WSABUF_SIZE_def q(1) Let_def\<close>)+
  then show ?thesis using q assms(1,2) by (intro exI [of _ ?s]) (simp add: session_defs)
qed

text \<open>An idle session with something in its queue posts; both \<open>Send\<close> and \<open>Process\<close> end here.\<close>

lemma Register_inv:
  assumes idle: "sn_mpOwner (ss_mSender s)" "\<not> ss_IsDisconnected s" "\<not> sn_mbSendRegistered (ss_mSender s)"
    "lq_wf (sn_queue s)" "lq_mMaxCount (sn_queue s) = lq_DEFAULT_MAX_COUNT" "sends_ok env"
    and hist: "concat (batches (ss_events s)) @ map sb_wsabuf (lq_abs (sn_queue s)) = map sb_wsabuf bufs"
    "\<forall>bs \<in> set (batches (ss_events s)). bs \<noteq> [] \<and> length bs \<le> 64"
    "length (batches (ss_events s)) = completions (ss_events s)"
  shows "\<exists>s'. sn_Register env s = ok s' \<and> send_inv bufs s'"
proof (cases "lq_abs (sn_queue s) = []")
  case True
  then show ?thesis using Register_idle_empty [OF idle(1-4)] assms by (auto simp: send_inv_def)
next
  case False
  obtain s' where s': "sn_Register env s = ok s'" "sn_mpOwner (ss_mSender s')" "\<not> ss_IsDisconnected s'"
    "sn_mbSendRegistered (ss_mSender s')" "lq_wf (sn_queue s')"
    "lq_mMaxCount (sn_queue s') = lq_mMaxCount (sn_queue s)"
    "lq_abs (sn_queue s') = drop 64 (lq_abs (sn_queue s))"
    "ss_events s' = ss_events s @ [PostSend (map sb_wsabuf (take 64 (lq_abs (sn_queue s))))]"
    using Register_idle_posts [OF idle(1-4) False idle(6)] by blast
  have "map sb_wsabuf (take 64 xs) @ map sb_wsabuf (drop 64 xs) = map sb_wsabuf xs" for xs
    by (metis append_take_drop_id map_append)
  then have "send_inv bufs s'" using s' idle(5) hist False by (simp add: send_inv_def)
  then show ?thesis using s'(1) by blast
qed

lemma Send_inv:
  assumes inv: "send_inv bufs s" and room: "length bufs < 65535" and env: "sends_ok env"
  shows "\<exists>s'. ss_Send env b s = ok s' \<and> send_inv (bufs @ [b]) s'"
proof -
  note i = send_invD [OF inv]
  have "length (concat (batches (ss_events s)) @ map sb_wsabuf (lq_abs (sn_queue s))) = length bufs"
    unfolding i(5) by simp
  then have "int (length (lq_abs (sn_queue s))) < lq_mMaxCount (sn_queue s)"
    using room by (simp add: i(4) lq_DEFAULT_MAX_COUNT_def)
  then obtain q where q: "lq_TryEnqueue (sn_queue s) b = Some (Inr (True, q))" "lq_wf q"
    "lq_abs q = lq_abs (sn_queue s) @ [b]" "lq_mMaxCount q = lq_mMaxCount (sn_queue s)"
    using lq.enq_room [OF i(3)] by blast
  let ?s = "s\<lparr>ss_mSender := ss_mSender s\<lparr>sn_mSendQueue := q\<rparr>\<rparr>"
  have send: "ss_Send env b s = sn_Register env ?s"
    using i(1,2) q(1) by (simp add: ss_Send_def sn_Send_def Let_def)
  have hist: "concat (batches (ss_events s)) @ map sb_wsabuf (lq_abs q) = map sb_wsabuf (bufs @ [b])"
    using i(5) q(3) by simp
  show ?thesis
  proof (cases "sn_mbSendRegistered (ss_mSender s)")
    case True
    then have "sn_Register env ?s = ok ?s" using i(1,2)
      by (subst sn_Register.simps) (simp add: ss_IsDisconnected_def)
    moreover have "send_inv (bufs @ [b]) ?s"
      using i q hist True by (simp add: send_inv_def sn_queue_def ss_IsDisconnected_def)
    ultimately show ?thesis using send by simp
  next
    case False
    then show ?thesis unfolding send
      using i q hist env by (intro Register_inv) (simp_all add: sn_queue_def ss_IsDisconnected_def)
  qed
qed

lemma Process_inv:
  assumes inv: "send_inv bufs s" and reg: "sn_mbSendRegistered (ss_mSender s)" and n: "n \<noteq> 0"
    and env: "sends_ok env"
  shows "\<exists>s'. sn_Process env n s = ok s' \<and> send_inv bufs s'"
proof -
  note i = send_invD [OF inv]
  let ?s = "emit (OnSend (sint n)) s\<lparr>ss_mSender := ss_mSender s\<lparr>sn_pending := [], sn_mbSendRegistered := False\<rparr>\<rparr>"
  have q: "sn_queue ?s = sn_queue s" by (simp add: sn_queue_def emit_def)
  have "\<exists>s'. sn_Register env ?s = ok s' \<and> send_inv bufs s'"
    using i reg env by (intro Register_inv) (simp_all add: q, simp_all add: session_defs)
  moreover have "sn_Process env n s = (if lq_IsEmpty (sn_queue s) then ok ?s else sn_Register env ?s)"
    using i(1,2) n by (simp add: sn_Process_def Let_def session_defs)
  moreover have "send_inv bufs ?s" if "lq_IsEmpty (sn_queue s)"
    using that i reg by (simp add: send_inv_def q lq_IsEmpty_abs) (simp add: session_defs)
  ultimately show ?thesis by auto
qed

lemma send_run_inv:
  assumes "sends_ok env" "send_inv bufs s" "length bufs + length (sent ops) \<le> 65535"
    "\<forall>n. SendDone n \<in> set ops \<longrightarrow> n \<noteq> 0"
  shows "\<exists>s'. send_run env ops s = ok s' \<and> send_inv (bufs @ sent ops) s'"
  using assms(2-4)
proof (induction ops arbitrary: bufs s)
  case (Cons op ops)
  show ?case
  proof (cases op)
    case (SendCall b)
    then obtain s1 where s1: "ss_Send env b s = ok s1" "send_inv (bufs @ [b]) s1"
      using Send_inv [OF Cons.prems(1) _ assms(1), of b] Cons.prems(2) by auto
    then show ?thesis using Cons.IH [OF s1(2)] Cons.prems SendCall by simp
  next
    case (SendDone n)
    then obtain s1 where "send_step env op s = ok s1" "send_inv bufs s1"
      using Process_inv [OF Cons.prems(1) _ _ assms(1), of n] Cons.prems by (cases "sn_mbSendRegistered (ss_mSender s)") auto
    then show ?thesis using Cons.IH [of bufs s1] Cons.prems SendDone by simp
  qed
qed simp

text \<open>C13: On a connected session whose sends do not fail, any history of up to 65535 Send calls and of their
  completions hands the buffers to WSASend in order and once each, in batches of 1 to 64; there is never
  more than one send outstanding, and when none is outstanding nothing is left in the queue.\<close>

theorem sends_go_out_in_order:
  assumes "ss_mSessionState s = Connected" "sn_mpOwner (ss_mSender s)" "\<not> sn_mbSendRegistered (ss_mSender s)"
    "sn_queue s = lq_new dflt lq_DEFAULT_MAX_COUNT" "ss_events s = []"
    and env: "sends_ok env" and "length (sent ops) \<le> 65535" and "\<forall>n. SendDone n \<in> set ops \<longrightarrow> n \<noteq> 0"
  shows "\<exists>s'. send_run env ops s = ok s' \<and>
    concat (batches (ss_events s')) @ map sb_wsabuf (lq_abs (sn_queue s')) = map sb_wsabuf (sent ops) \<and>
    (\<forall>bs \<in> set (batches (ss_events s')). bs \<noteq> [] \<and> length bs \<le> 64) \<and>
    length (batches (ss_events s')) \<le> completions (ss_events s') + 1 \<and>
    (length (batches (ss_events s')) = completions (ss_events s') \<longrightarrow> lq_abs (sn_queue s') = [])"
proof -
  have "send_inv [] s"
    using assms(1-5) by (simp add: send_inv_def ss_IsDisconnected_def IsDisconnected_def lq_new_wf lq_new_abs)
      (simp add: lq_new_def)
  then obtain s' where s': "send_run env ops s = ok s'" "send_inv (sent ops) s'"
    using send_run_inv [OF env, of "[]" s ops] assms(7,8) by auto
  note i = send_invD [OF s'(2)]
  show ?thesis using s'(1) i(5-8) by (intro exI [of _ s']) auto
qed

lemma sends_go_out_in_order_witness:
  "\<exists>s'. send_run (io_env.make True True IoPending IoPending IoPending IoPending)
      [SendCall (sb_new 0 []), SendCall (sb_new 0 []), SendDone 1, SendCall (sb_new 0 [])]
      ((ss_new [] (sb_new 0 []))\<lparr>ss_mSessionState := Connected,
        ss_mSender := ss_mSender (sn_SetOwner (ss_new [] (sb_new 0 [])))\<rparr>) = ok s' \<and>
    length (batches (ss_events s')) \<le> completions (ss_events s') + 1"
proof -
  let ?s = "(ss_new [] (sb_new 0 []))\<lparr>ss_mSessionState := Connected,
        ss_mSender := ss_mSender (sn_SetOwner (ss_new [] (sb_new 0 [])))\<rparr>"
  note d = ss_new_def sn_SetOwner_def sn_queue_def sends_ok_def io_env.defs
  show ?thesis
    using sends_go_out_in_order [of ?s "sb_new 0 []" "io_env.make True True IoPending IoPending IoPending IoPending"
        "[SendCall (sb_new 0 []), SendCall (sb_new 0 []), SendDone 1, SendCall (sb_new 0 [])]"]
    by (auto simp: d)
qed

subsection \<open>The error paths\<close>

lemma Clear_sender:
  assumes "lq_wf (sn_queue s)"
  shows "sn_Clear s = ok (s\<lparr>ss_mSender := \<lparr>sn_mpOwner = False, sn_eventOwner = False, sn_pending = [],
     sn_mbSendRegistered = False, sn_mSendQueue = sn_queue s\<lparr>lq_heap := Map.empty\<rparr>\<rparr>\<rparr>)"
  using Clear_rest [OF assms] by (simp add: sn_Clear_def)

text \<open>Send on a full queue dereferences a null owner: it clears the sender, which resets the owner, before it
  disconnects through it. The intended disconnect with \<open>ServiceError\<close> cannot happen.\<close>

theorem send_on_full_queue_dereferences_null:
  assumes "sn_mpOwner (ss_mSender s)" "\<not> ss_IsDisconnected s" "lq_wf (sn_queue s)"
    "lq_MaxCount (sn_queue s) \<le> lq_Count (sn_queue s)"
  shows "ss_Send env b s = Some (Inl NullOwner)"
proof -
  have "lq_TryEnqueue (sn_queue s) b = Some (Inr (False, sn_queue s))"
    using assms(4) by (simp add: lq_TryEnqueue_def lq_MaxCount_def lq_Count_def)
  moreover have "s\<lparr>ss_mSender := ss_mSender s\<lparr>sn_mSendQueue := sn_queue s\<rparr>\<rparr> = s"
    by (simp add: sn_queue_def)
  ultimately show ?thesis
    using assms(1-3) Clear_sender [OF assms(3)] by (simp add: ss_Send_def sn_Send_def Let_def)
qed

lemma send_on_full_queue_dereferences_null_witness:
  "ss_Send (io_env.make True True IoPending IoPending IoPending IoPending) (sb_new 0 [])
     ((ss_new [] (sb_new 0 []))\<lparr>ss_mSessionState := Connected,
      ss_mSender := \<lparr>sn_mpOwner = True, sn_eventOwner = True, sn_pending = [], sn_mbSendRegistered = False,
        sn_mSendQueue = lq_new (sb_new 0 []) 0\<rparr>\<rparr>) = Some (Inl NullOwner)"
  by (rule send_on_full_queue_dereferences_null)
    (simp_all add: sn_queue_def lq_new_wf ss_IsDisconnected_def IsDisconnected_def,
     simp_all add: lq_new_def lq_MaxCount_def lq_Count_def)

text \<open>Once the sender of a session has been cleared (by a send or a completion after the disconnect, by the end
  of the disconnect, or by the destructor) the next Clear, send or destruction walks the freed queue
  nodes again.\<close>

theorem sender_cleared_twice_uses_freed_nodes:
  assumes "lq_wf (sn_queue s)"
  shows "\<exists>s'. sn_Clear s = ok s' \<and> sn_Clear s' = Some (Inl (QueueNode BadNode)) \<and>
    ss_Send env b s' = Some (Inl (QueueNode BadNode)) \<and> ss_Clear s' = Some (Inl (QueueNode BadNode)) \<and>
    lq_destroy (sn_queue s') = Some (Inl BadNode)"
proof -
  obtain s' where s': "sn_Clear s = ok s'" "sn_queue s' = sn_queue s\<lparr>lq_heap := Map.empty\<rparr>" "\<not> sn_mpOwner (ss_mSender s')"
    using Clear_sender [OF assms] by (auto simp: sn_queue_def)
  have again: "sn_Clear t = Some (Inl (QueueNode BadNode))" if "sn_queue t = sn_queue s'" for t
    using Clear_again [OF assms] by (simp add: sn_Clear_def that s'(2))
  moreover have "ss_Send env b s' = Some (Inl (QueueNode BadNode))"
    using s'(3) again by (simp add: ss_Send_def sn_Send_def)
  moreover have "ss_Clear s' = Some (Inl (QueueNode BadNode))"
    unfolding ss_Clear_def by (rule again) (simp add: session_defs)
  moreover have "lq_destroy (sn_queue s') = Some (Inl BadNode)"
    unfolding lq_destroy_def s'(2) by (rule Clear_again [OF assms])
  ultimately show ?thesis using s'(1) by blast
qed

lemma sender_cleared_twice_uses_freed_nodes_witness:
  "\<exists>s'. sn_Clear (ss_new [] (sb_new 0 [])) = ok s' \<and> ss_Clear s' = Some (Inl (QueueNode BadNode))"
proof -
  have "lq_wf (sn_queue (ss_new [] (sb_new 0 [])))" by (simp add: ss_new_def sn_queue_def lq_new_wf)
  from sender_cleared_twice_uses_freed_nodes [OF this] show ?thesis by blast
qed

end
