(* ===== verification/Session_Receive.thy ===== *)
theory Session_Receive
  imports Sessions Packet_Handlers
begin

text \<open>
  The receive path of a session: a completion moves the write position over the bytes Winsock put
  into the posted WSABUFs (\<open>rb_fill\<close>), gives the bytes at the read pointer to the packet session
  and posts the next receive. The lemmas show when the bytes received reach the packet layer, and the
  two ways in which they do not.
\<close>

definition recv_bytes :: "io_env \<Rightarrow> (Session \<Rightarrow> Session) \<Rightarrow> (byte list \<Rightarrow> int \<Rightarrow> Session \<Rightarrow> Session)
    \<Rightarrow> byte list \<Rightarrow> Session \<Rightarrow> (fault, Session) outcome" where
  "recv_bytes env onActivity onPacket bytes s =
     rc_Process env (ps_OnReceive onActivity onPacket) (of_nat (length bytes))
       (rc_set_buffer (rb_fill (rc_buffer s) bytes) s)"

definition receiving :: "Session \<Rightarrow> bool" where
  "receiving s \<longleftrightarrow> rc_mpOwner (ss_mReceiver s) \<and> \<not> ss_IsDisconnected s \<and> rb_wf (rc_buffer s) \<and>
     rb_mMaxBufferSize (rc_buffer s) = rb_DEFAULT_BUFFER_SIZE"

definition receives_ok :: "io_env \<Rightarrow> bool" where
  "receives_ok env \<longleftrightarrow> (\<forall>code. io_wsaRecv env \<noteq> IoFailed code)"

lemma sint_length:
  "n < 65536 \<Longrightarrow> sint (of_nat n :: uint32) = int n"
  by (simp add: signed_of_nat signed_take_bit_int_eq_self)

lemma of_nat_uint32_nonzero: "0 < n \<Longrightarrow> n < 65536 \<Longrightarrow> (of_nat n :: uint32) \<noteq> 0"
  using sint_length [of n] by auto

lemma rc_buffer_set [simp]: "rc_buffer (rc_set_buffer b s) = b"
  by (simp add: rc_buffer_def rc_set_buffer_def)

lemma rc_set_buffer_twice [simp]: "rc_set_buffer b (rc_set_buffer c s) = rc_set_buffer b s"
  by (simp add: rc_set_buffer_def)

lemma rc_owner_set [simp]: "rc_mpOwner (ss_mReceiver (rc_set_buffer b s)) = rc_mpOwner (ss_mReceiver s)"
  "ss_IsDisconnected (rc_set_buffer b s) = ss_IsDisconnected s"
  by (simp_all add: rc_set_buffer_def ss_IsDisconnected_def)

text \<open>The buffer after the bytes are in: what OnReceive is given a pointer into.\<close>

definition rb_received :: "NetReceiveBuffer \<Rightarrow> byte list \<Rightarrow> NetReceiveBuffer" where
  "rb_received b bytes = rb_MoveWritePos (rb_fill b bytes) (int (length bytes))"

lemma rb_received_ReadPos: "rb_mReadPos (rb_received b bytes) = rb_mReadPos b"
  by (simp add: rb_received_def rb_MoveWritePos_def rb_fill_def Let_def)

lemma recv_bytes_unfold:
  assumes s: "receiving s" and n: "bytes \<noteq> []" "int (length bytes) \<le> rb_GetFreeSize (rc_buffer s)"
  shows "recv_bytes env onA onP bytes s =
    (let b = rb_received (rc_buffer s) bytes; s1 = rc_set_buffer b s in
     case ps_OnReceive onA onP (drop (nat (rb_mReadPos b)) (rb_mpBuffer b)) (int (length bytes)) s1 of
       None \<Rightarrow> Some (Inl OutOfBounds)
     | Some (processLen, s2) \<Rightarrow>
         if processLen < 0 \<or> processLen > rb_GetUseSize b then ok (rc_Clear (ss_Disconnect env Kicked s2))
         else ok (rc_Register env (rc_set_buffer (rb_MoveReadPos (rc_buffer s2) processLen) s2)))"
proof -
  have small: "length bytes < 65536" "0 < length bytes"
    using n rb_free_bounds [of "rc_buffer s"] s by (auto simp: receiving_def rb_DEFAULT_BUFFER_SIZE_def)
  show ?thesis
    using s of_nat_uint32_nonzero [OF small(2,1)]
    by (simp add: recv_bytes_def rc_Process_def receiving_def sint_length [OF small(1)] rb_received_def
        rb_GetReadPtr_def Let_def split: option.split)
qed

lemma rb_received_correct:
  assumes "rb_wf b" "int (length bytes) \<le> rb_GetFreeSize b"
  shows "rb_wf (rb_received b bytes)" "rb_abs (rb_received b bytes) = rb_abs b @ bytes"
    "rb_mMaxBufferSize (rb_received b bytes) = rb_mMaxBufferSize b"
  using rb_fill_correct [OF assms] by (simp_all add: rb_received_def)

text \<open>While the unread bytes do not wrap they are what the read pointer points at.\<close>

lemma read_pointer_bytes:
  assumes wf: "rb_wf b" and "rb_mReadPos b + int (length (rb_abs b)) \<le> rb_mMaxBufferSize b"
  shows "take (length (rb_abs b)) (drop (nat (rb_mReadPos b)) (rb_mpBuffer b)) = rb_abs b"
    "length (rb_abs b) \<le> length (drop (nat (rb_mReadPos b)) (rb_mpBuffer b))"
proof -
  show "take (length (rb_abs b)) (drop (nat (rb_mReadPos b)) (rb_mpBuffer b)) = rb_abs b"
    using rb_linear_run [OF wf, of "int (length (rb_abs b))"] assms(2) length_rb_abs [OF wf]
    by (simp add: rb_abs_def)
  show "length (rb_abs b) \<le> length (drop (nat (rb_mReadPos b)) (rb_mpBuffer b))"
    using assms(2) rb_wfD [OF wf] by simp
qed

subsection \<open>Bytes received into an empty buffer\<close>

lemma on_receive_empty_buffer:
  assumes s: "receiving s" and n: "bytes \<noteq> []" "int (length bytes) \<le> rb_GetFreeSize (rc_buffer s)"
    and empty: "rb_abs (rc_buffer s) = []"
    and linear: "rb_mReadPos (rc_buffer s) + int (length bytes) \<le> rb_DEFAULT_BUFFER_SIZE"
    and own: "reads_own_packet onP" and f: "frames bytes = (fs, rest, bad)"
  defines "b \<equiv> rb_received (rc_buffer s) bytes"
  shows "ps_OnReceive onA onP (drop (nat (rb_mReadPos b)) (rb_mpBuffer b)) (int (length bytes)) (rc_set_buffer b s) =
    Some (if bad then - 1 else int (length bytes) - int (length rest), frame_effects onA onP fs (rc_set_buffer b s))"
proof -
  have wf: "rb_wf (rc_buffer s)" and max: "rb_mMaxBufferSize (rc_buffer s) = rb_DEFAULT_BUFFER_SIZE"
    using s by (simp_all add: receiving_def)
  have b: "rb_wf b" "rb_abs b = bytes" "rb_mMaxBufferSize b = rb_DEFAULT_BUFFER_SIZE"
    "rb_mReadPos b = rb_mReadPos (rc_buffer s)"
    using rb_received_correct [OF wf n(2)] empty max by (simp_all add: b_def rb_received_ReadPos)
  have "rb_mReadPos b + int (length (rb_abs b)) \<le> rb_mMaxBufferSize b" using b linear by simp
  note p = read_pointer_bytes [OF b(1) this, unfolded b(2)]
  show ?thesis
    using OnReceive_frames [OF own, of "int (length bytes)" "drop (nat (rb_mReadPos b)) (rb_mpBuffer b)" fs rest bad onA]
      p f by simp
qed

lemma recv_into_empty_buffer:
  assumes s: "receiving s" and n: "bytes \<noteq> []" "int (length bytes) \<le> rb_GetFreeSize (rc_buffer s)"
    and empty: "rb_abs (rc_buffer s) = []"
    and linear: "rb_mReadPos (rc_buffer s) + int (length bytes) \<le> rb_DEFAULT_BUFFER_SIZE"
    and own: "reads_own_packet onPacket" and f: "frames bytes = (fs, rest, bad)"
    and quiet: "\<forall>s. rc_buffer (frame_effects onActivity onPacket fs s) = rc_buffer s"
  shows "\<exists>b. recv_bytes env onActivity onPacket bytes s =
      (let s2 = rc_set_buffer b (frame_effects onActivity onPacket fs (rc_set_buffer (rb_received (rc_buffer s) bytes) s))
       in ok (if bad then rc_Clear (ss_Disconnect env Kicked s2) else rc_Register env s2)) \<and>
    rb_wf b \<and> rb_abs b = (if bad then bytes else rest) \<and> rb_mMaxBufferSize b = rb_DEFAULT_BUFFER_SIZE"
proof -
  define b where "b = rb_received (rc_buffer s) bytes"
  have wf: "rb_wf (rc_buffer s)" using s by (simp add: receiving_def)
  have b: "rb_wf b" "rb_abs b = bytes" "rb_mMaxBufferSize b = rb_DEFAULT_BUFFER_SIZE"
    using rb_received_correct [OF wf n(2)] empty s by (simp_all add: b_def receiving_def)
  let ?s2 = "frame_effects onActivity onPacket fs (rc_set_buffer b s)"
  have buf: "rc_buffer ?s2 = b" using quiet by simp
  have same: "rc_set_buffer b ?s2 = ?s2" using buf by (auto simp: rc_set_buffer_def rc_buffer_def)
  note step = recv_bytes_unfold [OF s n, of env onActivity onPacket, folded b_def, unfolded Let_def,
      unfolded b_def on_receive_empty_buffer [OF s n empty linear own f], folded b_def]
  have use: "rb_GetUseSize b = int (length bytes)" using length_rb_abs [OF b(1)] b(2) by simp
  show ?thesis
  proof (cases bad)
    case True
    then have "recv_bytes env onActivity onPacket bytes s = ok (rc_Clear (ss_Disconnect env Kicked ?s2))"
      unfolding step by simp
    then show ?thesis using True same b by (intro exI [of _ b]) (simp add: b_def)
  next
    case False
    let ?n = "int (length bytes) - int (length rest)"
    have le: "length rest \<le> length bytes" by (rule frames_rest_le [OF f])
    have bytes: "concat fs @ rest = bytes" by (rule frames_concat [OF f])
    then have "drop (nat ?n) bytes = rest" by (simp flip: bytes)
    then have "rb_wf (rb_MoveReadPos b ?n) \<and> rb_abs (rb_MoveReadPos b ?n) = rest"
      using le b use by (auto intro: rb_Move_wf simp: rb_MoveReadPos_abs)
    moreover have "rb_mMaxBufferSize (rb_MoveReadPos b ?n) = rb_DEFAULT_BUFFER_SIZE" using b(3) by (simp add: rb_MoveReadPos_def)
    moreover have "recv_bytes env onActivity onPacket bytes s =
        ok (rc_Register env (rc_set_buffer (rb_MoveReadPos b ?n) ?s2))"
      unfolding step using False le use buf by simp
    ultimately show ?thesis using False
      by (intro exI [of _ "rb_MoveReadPos b ?n"]) (simp add: b_def)
  qed
qed

text \<open>C35: When the receive buffer holds no unread bytes and the new bytes do not run past its end, a completion
  delivers exactly the complete packets among them, in order, leaves the rest unread in the buffer and
  posts the next receive for all the free space; if their framing is bad it kicks the session instead.\<close>

theorem receive_into_empty_buffer_delivers:
  assumes s: "receiving s" and n: "bytes \<noteq> []" "int (length bytes) \<le> rb_GetFreeSize (rc_buffer s)"
    and empty: "rb_abs (rc_buffer s) = []"
    and linear: "rb_mReadPos (rc_buffer s) + int (length bytes) \<le> rb_DEFAULT_BUFFER_SIZE"
    and own: "reads_own_packet onPacket" and f: "frames bytes = (fs, rest, bad)"
    and quiet: "\<forall>s. rc_buffer (frame_effects onActivity onPacket fs s) = rc_buffer s"
  shows "\<exists>b. recv_bytes env onActivity onPacket bytes s =
      (let s2 = rc_set_buffer b (frame_effects onActivity onPacket fs (rc_set_buffer (rb_received (rc_buffer s) bytes) s))
       in ok (if bad then rc_Clear (ss_Disconnect env Kicked s2) else rc_Register env s2)) \<and>
    rb_wf b \<and> rb_abs b = (if bad then bytes else rest)"
  using recv_into_empty_buffer [OF assms] by blast

definition demo_session :: "int \<Rightarrow> Session" where
  "demo_session pos = (ss_new [] (sb_new 0 []))\<lparr>ss_mSessionState := Connected,
     ss_mReceiver := \<lparr>rc_mpOwner = True, rc_eventOwner = True, rc_mNetReceiveBuffer =
       \<lparr>rb_mMaxBufferSize = rb_DEFAULT_BUFFER_SIZE, rb_mReadPos = pos, rb_mWritePos = pos,
        rb_mpBuffer = replicate 65536 0\<rparr>\<rparr>\<rparr>"

definition demo_env :: io_env where
  "demo_env = io_env.make True True IoPending IoPending IoPending IoPending"

lemma demo_receiving:
  assumes "0 \<le> pos" "pos < 65535"
  shows "receiving (demo_session pos)" "rb_abs (rc_buffer (demo_session pos)) = []"
    "rb_GetFreeSize (rc_buffer (demo_session pos)) = 65534" "rb_mReadPos (rc_buffer (demo_session pos)) = pos"
proof -
  show "receiving (demo_session pos)"
    using assms unfolding receiving_def demo_session_def
    by (simp add: rb_wf_def session_defs rb_DEFAULT_BUFFER_SIZE_def)
qed (simp_all add: demo_session_def rc_buffer_def rb_abs_def access_simps rb_DEFAULT_BUFFER_SIZE_def)

lemma receive_into_empty_buffer_delivers_witness:
  "\<exists>b. recv_bytes demo_env (emit OnConnected) (\<lambda>p n. emit (OnError n)) (packet_bytes 1 [7, 8] @ [5]) (demo_session 0) =
     ok (rc_Register demo_env (rc_set_buffer b (emit (OnError 8) (emit OnConnected
       (rc_set_buffer (rb_received (rc_buffer (demo_session 0)) (packet_bytes 1 [7, 8] @ [5])) (demo_session 0)))))) \<and>
     rb_abs b = [5]"
proof -
  note d = demo_receiving [of 0, simplified]
  have f: "frames (packet_bytes 1 [7, 8] @ [5]) = ([packet_bytes 1 [7, 8]], [5], False)"
    by (rule frames_packet) (simp_all add: packet_fits_def frames_None ph_read_def SIZEOF_HEADER_def)
  have q: "\<forall>s. rc_buffer (frame_effects (emit OnConnected) (\<lambda>p n. emit (OnError n)) [packet_bytes 1 [7, 8]] s) = rc_buffer s"
    by (simp add: frame_effects_def emit_def rc_buffer_def)
  have own: "reads_own_packet (\<lambda>p n. emit (OnError n))" by (simp add: reads_own_packet_def)
  from receive_into_empty_buffer_delivers [OF d(1) _ _ d(2) _ own f q, of demo_env]
  show ?thesis by (auto simp: d frame_effects_def rb_DEFAULT_BUFFER_SIZE_def Let_def)
qed

subsection \<open>A packet that arrives in two pieces\<close>

lemma frames_proper_prefix:
  assumes "packet_fits body" "k < 6 + length body"
  shows "frames (take k (packet_bytes pid body)) = ([], take k (packet_bytes pid body), False)"
proof (cases "k < 6")
  case True
  then show ?thesis by (intro frames_None) (simp add: ph_read_def SIZEOF_HEADER_def)
next
  case False
  let ?h = "\<lparr>ph_size = of_nat (6 + length body), ph_id = pid\<rparr> :: PacketHeader"
  have "ph_read (packet_bytes pid body) = Some ?h" using ph_read_bytes by (simp add: packet_bytes_def)
  then have h: "ph_read (take k (packet_bytes pid body)) = Some ?h" using ph_read_take False by simp
  have "unat (ph_size ?h) = 6 + length body" using packet_size_fits [OF assms(1)] by simp
  then show ?thesis using assms(2) by (intro frames_partial [OF h]) simp_all
qed

lemma recv_nothing_framed:
  assumes s: "receiving s" and n: "bytes \<noteq> []" "int (length bytes) < rb_GetFreeSize (rc_buffer s)"
    and linear: "rb_mReadPos (rc_buffer s) + int (length (rb_abs (rc_buffer s) @ bytes)) \<le> rb_DEFAULT_BUFFER_SIZE"
    and own: "reads_own_packet onP" and env: "receives_ok env"
    and f: "frames (take (length bytes) (rb_abs (rc_buffer s) @ bytes)) = ([], r, False)"
  defines "b \<equiv> rb_received (rc_buffer s) bytes"
  shows "recv_bytes env onA onP bytes s = ok (emit (PostReceive (rc_wsabufs b)) (rc_set_buffer b s))"
    "receiving (emit (PostReceive (rc_wsabufs b)) (rc_set_buffer b s))"
    "rb_abs b = rb_abs (rc_buffer s) @ bytes" "rb_mReadPos b = rb_mReadPos (rc_buffer s)"
    "rb_GetFreeSize b = rb_GetFreeSize (rc_buffer s) - int (length bytes)"
proof -
  have wf: "rb_wf (rc_buffer s)" and max: "rb_mMaxBufferSize (rc_buffer s) = rb_DEFAULT_BUFFER_SIZE"
    using s by (simp_all add: receiving_def)
  have n': "int (length bytes) \<le> rb_GetFreeSize (rc_buffer s)" using n by simp
  have b: "rb_wf b" "rb_abs b = rb_abs (rc_buffer s) @ bytes" "rb_mMaxBufferSize b = rb_DEFAULT_BUFFER_SIZE"
    "rb_mReadPos b = rb_mReadPos (rc_buffer s)"
    using rb_received_correct [OF wf n'] max by (simp_all add: b_def rb_received_ReadPos)
  show "rb_abs b = rb_abs (rc_buffer s) @ bytes" "rb_mReadPos b = rb_mReadPos (rc_buffer s)" by (rule b)+
  have use: "rb_GetUseSize b = int (length (rb_abs b))" "rb_GetUseSize (rc_buffer s) = int (length (rb_abs (rc_buffer s)))"
    using length_rb_abs b(1) wf by simp_all
  then show free: "rb_GetFreeSize b = rb_GetFreeSize (rc_buffer s) - int (length bytes)"
    unfolding rb_free_use using b(2,3) max by simp
  let ?p = "drop (nat (rb_mReadPos b)) (rb_mpBuffer b)"
  have "rb_mReadPos b + int (length (rb_abs b)) \<le> rb_mMaxBufferSize b" using b linear by simp
  note p = read_pointer_bytes [OF b(1) this]
  have "length bytes \<le> length (rb_abs b)" using b(2) by simp
  then have "take (length bytes) ?p = take (length bytes) (take (length (rb_abs b)) ?p)"
    by (simp only: take_take min_absorb1)
  then have f': "frames (take (nat (int (length bytes))) ?p) = ([], r, False)"
    unfolding p(1) using f b(2) by simp
  have "take (length bytes) (rb_abs b) = r" using frames_concat [OF f] b(2) by simp
  then have r: "length r = length bytes" using b(2) by auto
  have "int (length bytes) \<le> int (length ?p)" using p(2) b(2) by simp
  note onr = OnReceive_frames [OF own _ this f', of onA "rc_set_buffer b s"]
  have "rb_MoveReadPos b 0 = b" using rb_wfD [OF b(1)] by (simp add: rb_MoveReadPos_def smod_nonneg)
  moreover have "rc_Register env (rc_set_buffer b s) = emit (PostReceive (rc_wsabufs b)) (rc_set_buffer b s)"
    using s env free n(2) by (auto simp: rc_Register_def receiving_def receives_ok_def split: io_result.split)
  ultimately show "recv_bytes env onA onP bytes s = ok (emit (PostReceive (rc_wsabufs b)) (rc_set_buffer b s))"
    unfolding recv_bytes_unfold [OF s n(1) n', folded b_def] Let_def
    using onr r use by (simp add: frame_effects_def)
  show "receiving (emit (PostReceive (rc_wsabufs b)) (rc_set_buffer b s))"
    using s b by (simp add: receiving_def emit_def rc_buffer_def rc_set_buffer_def ss_IsDisconnected_def)
qed

text \<open>C36: A packet that arrives in two pieces is not delivered: Process passes OnReceive the number of bytes of the
  last completion instead of all the unread bytes, so after the second piece the whole packet is in the
  buffer, no activity and no packet has been reported, and the session waits for more.\<close>

theorem split_packet_is_not_delivered:
  assumes s: "receiving s" and empty: "rb_abs (rc_buffer s) = []" and fits: "packet_fits body"
    and room: "int (6 + length body) < rb_GetFreeSize (rc_buffer s)"
    and linear: "rb_mReadPos (rc_buffer s) + int (6 + length body) \<le> rb_DEFAULT_BUFFER_SIZE"
    and own: "reads_own_packet onPacket" and env: "receives_ok env"
    and pieces: "packet_bytes pid body = xs @ ys" "xs \<noteq> []" "ys \<noteq> []"
  shows "\<exists>b ws1 ws2. obind (recv_bytes env onActivity onPacket xs s) (recv_bytes env onActivity onPacket ys) =
      ok (emit (PostReceive ws2) (emit (PostReceive ws1) (rc_set_buffer b s))) \<and>
    rb_abs b = packet_bytes pid body"
proof -
  have len: "length xs + length ys = 6 + length body"
    using arg_cong [OF pieces(1), of length] by simp
  have lt: "length xs < 6 + length body" "length ys < 6 + length body"
    using len pieces(2,3) by (auto simp flip: length_greater_0_conv)
  have f1: "frames (take (length xs) (rb_abs (rc_buffer s) @ xs)) = ([], xs, False)"
    using frames_proper_prefix [OF fits lt(1), of pid] empty pieces(1) by simp
  have lin1: "rb_mReadPos (rc_buffer s) + int (length (rb_abs (rc_buffer s) @ xs)) \<le> rb_DEFAULT_BUFFER_SIZE"
    and room1: "int (length xs) < rb_GetFreeSize (rc_buffer s)"
    using empty linear room lt(1) by simp_all
  note one = recv_nothing_framed [OF s pieces(2) room1 lin1 own env f1]
  define b1 where "b1 = rb_received (rc_buffer s) xs"
  define s1 where "s1 = emit (PostReceive (rc_wsabufs b1)) (rc_set_buffer b1 s)"
  note one = one [folded b1_def, folded s1_def]
  have buf1: "rc_buffer s1 = b1" by (simp add: s1_def emit_def rc_buffer_def rc_set_buffer_def)
  have abs1: "rb_abs (rc_buffer s1) = xs" using one(3) empty buf1 by simp
  have f2: "frames (take (length ys) (rb_abs (rc_buffer s1) @ ys)) = ([], take (length ys) (xs @ ys), False)"
    using frames_proper_prefix [OF fits lt(2), of pid] abs1 pieces(1) by simp
  have lin2: "rb_mReadPos (rc_buffer s1) + int (length (rb_abs (rc_buffer s1) @ ys)) \<le> rb_DEFAULT_BUFFER_SIZE"
    and room2: "int (length ys) < rb_GetFreeSize (rc_buffer s1)"
    using linear room len one(4,5) abs1 unfolding buf1 by simp_all
  note two = recv_nothing_framed [OF one(2) pieces(3) room2 lin2 own env f2]
  have comm: "rc_set_buffer b s1 = emit (PostReceive (rc_wsabufs b1)) (rc_set_buffer b s)" for b
    by (simp add: s1_def rc_set_buffer_def emit_def)
  show ?thesis
    using one(1) [of onActivity] two(1) [of onActivity] two(3) abs1 pieces(1) unfolding comm
    by (intro exI [of _ "rb_received (rc_buffer s1) ys"] exI [of _ "rc_wsabufs b1"]
        exI [of _ "rc_wsabufs (rb_received (rc_buffer s1) ys)"]) simp
qed

lemma split_packet_is_not_delivered_witness:
  "\<exists>b ws1 ws2. obind (recv_bytes demo_env (emit OnConnected) (\<lambda>p n. emit (OnError n)) (take 4 (packet_bytes 1 [7, 8])) (demo_session 0))
      (recv_bytes demo_env (emit OnConnected) (\<lambda>p n. emit (OnError n)) (drop 4 (packet_bytes 1 [7, 8]))) =
    ok (emit (PostReceive ws2) (emit (PostReceive ws1) (rc_set_buffer b (demo_session 0))))"
proof -
  note d = demo_receiving [of 0, simplified]
  have "\<exists>b ws1 ws2. obind (recv_bytes demo_env (emit OnConnected) (\<lambda>p n. emit (OnError n)) (take 4 (packet_bytes 1 [7, 8])) (demo_session 0))
      (recv_bytes demo_env (emit OnConnected) (\<lambda>p n. emit (OnError n)) (drop 4 (packet_bytes 1 [7, 8]))) =
    ok (emit (PostReceive ws2) (emit (PostReceive ws1) (rc_set_buffer b (demo_session 0)))) \<and>
    rb_abs b = packet_bytes 1 [7, 8]"
    by (rule split_packet_is_not_delivered [OF d(1,2)])
      (simp_all add: d packet_fits_def reads_own_packet_def receives_ok_def demo_env_def io_env.defs
        rb_DEFAULT_BUFFER_SIZE_def, simp_all add: packet_bytes_def ph_bytes_def)
  then show ?thesis by blast
qed

subsection \<open>Bytes that run past the end of the buffer\<close>

text \<open>C37: OnReceive is given the read pointer and a length, not the two runs of the ring. When fewer than 6 bytes
  of the allocation are left at the read position, receiving 6 bytes or more makes it read the packet
  header outside of the allocation.\<close>

theorem header_read_past_the_buffer_end:
  assumes s: "receiving s" and n: "6 \<le> length bytes" "int (length bytes) \<le> rb_GetFreeSize (rc_buffer s)"
    and edge: "rb_DEFAULT_BUFFER_SIZE + 1 < rb_mReadPos (rc_buffer s) + 6"
  shows "recv_bytes env onActivity onPacket bytes s = Some (Inl OutOfBounds)"
proof -
  let ?b = "rb_received (rc_buffer s) bytes"
  have wf: "rb_wf (rc_buffer s)" and max: "rb_mMaxBufferSize (rc_buffer s) = rb_DEFAULT_BUFFER_SIZE"
    using s by (simp_all add: receiving_def)
  have b: "rb_wf ?b" "rb_mMaxBufferSize ?b = rb_DEFAULT_BUFFER_SIZE" "rb_mReadPos ?b = rb_mReadPos (rc_buffer s)"
    using rb_received_correct [OF wf n(2)] max by (simp_all add: rb_received_ReadPos)
  let ?p = "drop (nat (rb_mReadPos ?b)) (rb_mpBuffer ?b)"
  have "int (length ?p) < 6" using rb_wfD [OF b(1)] b edge by simp
  then have "ph_read ?p = None" by (simp add: ph_read_def SIZEOF_HEADER_def)
  then have "ps_OnReceive onActivity onPacket ?p (int (length bytes)) t = None" for t
    using n(1) by (simp add: ps_OnReceive_def ps_loop.simps SIZEOF_HEADER_def)
  moreover have "bytes \<noteq> []" using n(1) by auto
  ultimately show ?thesis by (simp add: recv_bytes_unfold [OF s _ n(2)] Let_def)
qed

lemma header_read_past_the_buffer_end_witness:
  "recv_bytes demo_env id (\<lambda>p n s. s) (packet_bytes 1 []) (demo_session 65532) = Some (Inl OutOfBounds)"
  by (rule header_read_past_the_buffer_end) (simp_all add: demo_receiving rb_DEFAULT_BUFFER_SIZE_def)

end
