(* ===== verification/Session_Manager.thy ===== *)
theory Session_Manager
  imports Engine_Prelude
begin

text \<open>
  SessionManager (SessionManager.h, SessionManager.cpp): the set of sessions and the count of the
  places taken. Every operation runs under \<open>mLock\<close>, so it is one step; the threads that remove a
  session and admit a waiting one do so in several of these steps, which \<open>place_step\<close> interleaves.
\<close>

subsection \<open>State and operations\<close>

record 's SessionManager =
  sm_mMaxSessionCount :: int
  sm_mCurrentSessionCount :: int
  sm_mSessions :: "'s set"

definition sm_new :: "int \<Rightarrow> 's SessionManager" where
  "sm_new maxSessionCount =
     \<lparr>sm_mMaxSessionCount = maxSessionCount, sm_mCurrentSessionCount = 0, sm_mSessions = {}\<rparr>"

definition sm_AddSession :: "'s \<Rightarrow> 's SessionManager \<Rightarrow> bool \<times> 's SessionManager" where
  "sm_AddSession pSession m =
     (if sm_mCurrentSessionCount m \<ge> sm_mMaxSessionCount m then (False, m)
      else if pSession \<notin> sm_mSessions m then
        (True, m\<lparr>sm_mSessions := insert pSession (sm_mSessions m),
                 sm_mCurrentSessionCount := sm_mCurrentSessionCount m + 1\<rparr>)
      else (False, m))"

definition sm_AddWaitingSession :: "'s \<Rightarrow> 's SessionManager \<Rightarrow> bool \<times> 's SessionManager" where
  "sm_AddWaitingSession pSession m =
     (pSession \<notin> sm_mSessions m, m\<lparr>sm_mSessions := insert pSession (sm_mSessions m)\<rparr>)"

definition sm_RemoveSession :: "'s \<Rightarrow> bool \<Rightarrow> 's SessionManager \<Rightarrow> 's SessionManager" where
  "sm_RemoveSession pSession bKeepWaitingSession m =
     (if pSession \<in> sm_mSessions m then
        m\<lparr>sm_mSessions := sm_mSessions m - {pSession},
          sm_mCurrentSessionCount :=
            (if \<not> bKeepWaitingSession then sm_mCurrentSessionCount m - 1 else sm_mCurrentSessionCount m)\<rparr>
      else m)"

definition sm_ReleaseKeepTicket :: "'s SessionManager \<Rightarrow> 's SessionManager" where
  "sm_ReleaseKeepTicket m = m\<lparr>sm_mCurrentSessionCount := sm_mCurrentSessionCount m - 1\<rparr>"

definition sm_GetMaxSessionCount :: "'s SessionManager \<Rightarrow> int" where
  "sm_GetMaxSessionCount m = sm_mMaxSessionCount m"

definition sm_GetCurrentSessionCount :: "'s SessionManager \<Rightarrow> int" where
  "sm_GetCurrentSessionCount m = sm_mCurrentSessionCount m"

lemmas sm_defs = sm_AddSession_def sm_AddWaitingSession_def sm_RemoveSession_def
  sm_ReleaseKeepTicket_def sm_GetMaxSessionCount_def sm_GetCurrentSessionCount_def

subsection \<open>Places kept for waiting sessions\<close>

text \<open>
  \<open>kept\<close> is the number of threads between \<open>RemoveSession(..., true)\<close> and the end of
  \<open>admitWaitingSession\<close>: each holds the place of the session it has removed.
\<close>

inductive place_step :: "'s SessionManager \<times> nat \<Rightarrow> 's SessionManager \<times> nat \<Rightarrow> bool" where
  add: "place_step (m, kept) (snd (sm_AddSession s m), kept)"
| remove: "place_step (m, kept) (sm_RemoveSession s False m, kept)"
| remove_keep: "s \<in> sm_mSessions m \<Longrightarrow> place_step (m, kept) (sm_RemoveSession s True m, Suc kept)"
| admit: "sm_AddWaitingSession s m = (True, m') \<Longrightarrow> place_step (m, Suc kept) (m', kept)"
| admit_fails: "sm_AddWaitingSession s m = (False, m') \<Longrightarrow> place_step (m, Suc kept) (sm_ReleaseKeepTicket m', kept)"
| release: "place_step (m, Suc kept) (sm_ReleaseKeepTicket m, kept)"

inductive_cases place_stepE: "place_step (m, kept) c"

definition places_ok :: "'s SessionManager \<times> nat \<Rightarrow> bool" where
  "places_ok c \<longleftrightarrow> finite (sm_mSessions (fst c)) \<and>
     sm_mCurrentSessionCount (fst c) = int (card (sm_mSessions (fst c)) + snd c) \<and>
     sm_mCurrentSessionCount (fst c) \<le> max 0 (sm_mMaxSessionCount (fst c))"

lemma card_has_pred: "finite A \<Longrightarrow> s \<in> A \<Longrightarrow> \<exists>n. card A = Suc n"
  using card.remove [of A s] by blast

lemma places_step_ok: "place_step c c' \<Longrightarrow> places_ok c \<Longrightarrow> places_ok c'"
proof (induction rule: place_step.induct)
  case (add m kept s)
  then show ?case by (auto simp: places_ok_def sm_defs)
next
  case (remove m kept s)
  show ?case
  proof (cases "s \<in> sm_mSessions m")
    case True
    moreover have "finite (sm_mSessions m)" using remove by (simp add: places_ok_def)
    ultimately obtain n where "card (sm_mSessions m) = Suc n" using card_has_pred by metis
    then show ?thesis using remove True by (auto simp: places_ok_def sm_defs)
  qed (use remove in \<open>simp add: sm_defs\<close>)
next
  case (remove_keep s m kept)
  then have "finite (sm_mSessions m)" by (simp add: places_ok_def)
  then obtain n where "card (sm_mSessions m) = Suc n" using card_has_pred remove_keep(1) by metis
  then show ?case using remove_keep by (auto simp: places_ok_def sm_defs)
next
  case (admit s m m' kept)
  then show ?case by (auto simp: places_ok_def sm_defs)
next
  case (admit_fails s m m' kept)
  then show ?case by (auto simp: places_ok_def sm_defs insert_absorb)
next
  case (release m kept)
  then show ?case by (auto simp: places_ok_def sm_defs)
qed

lemma place_step_max: "place_step c c' \<Longrightarrow> sm_mMaxSessionCount (fst c') = sm_mMaxSessionCount (fst c)"
  by (induction rule: place_step.induct) (auto simp: sm_defs)



end
