(* ===== verification/Services.thy ===== *)
theory Services
  imports Sessions Session_Manager Wait_Queue
begin

text \<open>
  Service, ServerService and ClientService (Service.h, Service.cpp), the parts of Session that call
  the service (Session.cpp), SessionReaper (SessionReaper.h, SessionReaper.cpp) and the IOCP
  dispatch (IocpCore.cpp, IocpEvent.h). A service owns its sessions here: \<open>sv_sessions\<close> maps the
  index of a session to the session, \<open>sv_count\<close> is the number of sessions created so far. A handler
  runs to its end before the next one starts; the callbacks only leave their event.
\<close>

subsection \<open>The service\<close>

datatype eServiceType = ServerType | ClientType

record Service =
  sv_mServiceType :: eServiceType
  sv_mMaxSessionCount :: int
  sv_mSessionManager :: "nat SessionManager"
  sv_hasReaper :: bool
  sv_mWaitQueueManager :: "nat WaitQueueManager option"
  sv_sessions :: "nat \<Rightarrow> Session"
  sv_count :: nat

definition sv_new :: "eServiceType \<Rightarrow> nat SessionManager \<Rightarrow> bool \<Rightarrow> nat WaitQueueManager option \<Rightarrow> (nat \<Rightarrow> Session) \<Rightarrow> Service" where
  "sv_new serviceType sm hasReaper wq factory =
     \<lparr>sv_mServiceType = serviceType, sv_mMaxSessionCount = sm_GetMaxSessionCount sm,
      sv_mSessionManager = sm, sv_hasReaper = hasReaper, sv_mWaitQueueManager = wq,
      sv_sessions = factory, sv_count = 0\<rparr>"

definition cs_new :: "nat SessionManager \<Rightarrow> (nat \<Rightarrow> Session) \<Rightarrow> Service" where
  [simp]: "cs_new sm factory = sv_new ClientType sm False None factory"

definition svs_new :: "nat SessionManager \<Rightarrow> bool \<Rightarrow> nat WaitQueueManager option \<Rightarrow> (nat \<Rightarrow> Session) \<Rightarrow> Service" where
  [simp]: "svs_new sm hasReaper wq factory = sv_new ServerType sm hasReaper wq factory"

text \<open>Closing a service is not implemented.\<close>

definition sv_CloseService :: "Service \<Rightarrow> Service" where "sv_CloseService v = v"

definition cs_CloseService :: "Service \<Rightarrow> Service" where "cs_CloseService v = v"

definition svs_CloseService :: "Service \<Rightarrow> Service" where "svs_CloseService v = v"

definition sv_upd :: "nat \<Rightarrow> (Session \<Rightarrow> Session) \<Rightarrow> Service \<Rightarrow> Service" where
  "sv_upd i f v = v\<lparr>sv_sessions := (sv_sessions v)(i := f (sv_sessions v i))\<rparr>"

text \<open>
  \<open>CreateSession\<close>: the factory's next session is at index \<open>sv_count\<close>; \<open>registered\<close> is what
  \<open>IocpCore::Register\<close> returns for it.
\<close>

definition sv_CreateSession :: "bool \<Rightarrow> Service \<Rightarrow> (fault, nat option \<times> Service) outcome" where
  "sv_CreateSession registered v =
     (let i = sv_count v;
          v1 = sv_upd i (\<lambda>s. ss_setSessionEvent (ss_setService s)) (v\<lparr>sv_count := i + 1\<rparr>) in
      if \<not> registered then
        obind (ss_Clear (sv_sessions v1 i)) (\<lambda>s. ok (None, sv_upd i (\<lambda>_. s) v1))
      else ok (Some i, v1))"

definition sv_EnterWaitQueue :: "nat \<Rightarrow> Service \<Rightarrow> uint64 option \<times> Service" where
  "sv_EnterWaitQueue i v =
     (case sv_mWaitQueueManager v of
        None \<Rightarrow> (None, v)
      | Some w \<Rightarrow> (case wq_EnterWaitQueue w i of (t, w') \<Rightarrow> (t, v\<lparr>sv_mWaitQueueManager := Some w'\<rparr>)))"

definition sv_DequeueWaitQueue :: "(nat \<Rightarrow> bool) \<Rightarrow> Service \<Rightarrow> nat option \<times> Service" where
  "sv_DequeueWaitQueue alive v =
     (case sv_mWaitQueueManager v of
        None \<Rightarrow> (None, v)
      | Some w \<Rightarrow> (case wq_DequeueWaitQueue alive w of (r, w') \<Rightarrow> (r, v\<lparr>sv_mWaitQueueManager := Some w'\<rparr>)))"

definition sv_sm :: "(nat SessionManager \<Rightarrow> nat SessionManager) \<Rightarrow> Service \<Rightarrow> Service" where
  "sv_sm f v = v\<lparr>sv_mSessionManager := f (sv_mSessionManager v)\<rparr>"

text \<open>A state transition of session \<open>i\<close>, with its result.\<close>

definition sv_cas :: "nat \<Rightarrow> (eSessionState \<Rightarrow> bool \<times> eSessionState) \<Rightarrow> Service \<Rightarrow> bool \<times> Service" where
  "sv_cas i t v =
     (case t (ss_mSessionState (sv_sessions v i)) of
        (b, st) \<Rightarrow> (b, sv_upd i (\<lambda>s. s\<lparr>ss_mSessionState := st\<rparr>) v))"

definition sv_admitWaitingSession :: "io_env \<Rightarrow> (nat \<Rightarrow> bool) \<Rightarrow> Service \<Rightarrow> Service" where
  "sv_admitWaitingSession env alive v =
     (case sv_DequeueWaitQueue alive v of
        (None, v1) \<Rightarrow> sv_sm sm_ReleaseKeepTicket v1
      | (Some j, v1) \<Rightarrow>
          (case sm_AddWaitingSession j (sv_mSessionManager v1) of
             (added, m) \<Rightarrow>
               (let v2 = v1\<lparr>sv_mSessionManager := m\<rparr> in
                if added then
                  (case sv_cas j setWaitingToConnected v2 of
                     (True, v3) \<Rightarrow> sv_upd j (emit OnConnected) v3
                   | (False, v3) \<Rightarrow>
                       sv_upd j (ss_Disconnect env StateError) (sv_sm (sm_RemoveSession j False) v3))
                else sv_upd j (ss_Disconnect env StateError) (sv_sm sm_ReleaseKeepTicket v2))))"

definition sv_RemoveSession :: "io_env \<Rightarrow> (nat \<Rightarrow> bool) \<Rightarrow> nat \<Rightarrow> Service \<Rightarrow> Service" where
  "sv_RemoveSession env alive i v =
     sv_admitWaitingSession env alive (sv_sm (sm_RemoveSession i True) v)"

definition sv_AddSession :: "io_env \<Rightarrow> (nat \<Rightarrow> bool) \<Rightarrow> nat \<Rightarrow> Service \<Rightarrow> bool \<times> Service" where
  "sv_AddSession env alive i v =
     (case sm_AddSession i (sv_mSessionManager v) of
        (True, m) \<Rightarrow>
          (let v1 = v\<lparr>sv_mSessionManager := m\<rparr>;
               (c1, v2) = sv_cas i setSessionConnected v1;
               (c2, v3) = (if c1 then (True, v2) else sv_cas i setWaitingToConnected v2) in
           if c2 then (True, sv_upd i (emit OnConnected) v3)
           else (False, sv_upd i (ss_Disconnect env StateError) (sv_RemoveSession env alive i v3)))
      | (False, m) \<Rightarrow>
          (let v1 = v\<lparr>sv_mSessionManager := m\<rparr> in
           case sv_mWaitQueueManager v1 of
             None \<Rightarrow> (False, v1)
           | Some w \<Rightarrow>
               (case wq_EnterWaitQueue w i of
                  (None, w') \<Rightarrow> (False, v1\<lparr>sv_mWaitQueueManager := Some w'\<rparr>)
                | (Some myTicket, w') \<Rightarrow>
                    (case sv_cas i setSessionWaiting (v1\<lparr>sv_mWaitQueueManager := Some w'\<rparr>) of
                       (True, v2) \<Rightarrow> (True, sv_upd i (emit (OnEnterWaitQueue myTicket)) v2)
                     | (False, v2) \<Rightarrow> (False, sv_upd i (ss_Disconnect env StateError) v2)))))"

definition sv_GetWaitCount :: "uint64 \<Rightarrow> Service \<Rightarrow> uint64 option" where
  "sv_GetWaitCount myTicket v = map_option (\<lambda>w. wq_GetWaitCount w myTicket) (sv_mWaitQueueManager v)"

definition sv_GetCurrentSessionCount :: "Service \<Rightarrow> int" where
  "sv_GetCurrentSessionCount v = sm_GetCurrentSessionCount (sv_mSessionManager v)"

definition sv_GetMaxSessionCount :: "Service \<Rightarrow> int" where
  "sv_GetMaxSessionCount v = sv_mMaxSessionCount v"

definition sv_GetServiceType :: "Service \<Rightarrow> eServiceType" where
  [simp]: "sv_GetServiceType v = sv_mServiceType v"

definition sv_RegisterSessionReap :: "nat \<Rightarrow> Service \<Rightarrow> Service" where
  "sv_RegisterSessionReap i v = (if \<not> sv_hasReaper v then v else sv_upd i (emit ReapScheduled) v)"

subsection \<open>The session's side\<close>

definition sv_outcome :: "nat \<Rightarrow> Service \<Rightarrow> (fault, Session) outcome \<Rightarrow> (fault, Service) outcome" where
  "sv_outcome i v m = obind m (\<lambda>s. ok (sv_upd i (\<lambda>_. s) v))"

definition ss_processConnect :: "io_env \<Rightarrow> (nat \<Rightarrow> bool) \<Rightarrow> nat \<Rightarrow> Service \<Rightarrow> (fault, Service) outcome" where
  "ss_processConnect env alive i v =
     (let v1 = sv_upd i (\<lambda>s. sn_SetOwner (rc_SetOwner (cn_Process s))) v in
      if \<not> ss_GetService (sv_sessions v1 i) then Some (Inl NullService)
      else case sv_AddSession env alive i v1 of
             (True, v2) \<Rightarrow>
               if \<not> ss_mpService (sv_sessions v2 i) then Some (Inl NullService)
               else ok (sv_upd i (ss_registerReceive env) (sv_RegisterSessionReap i v2))
           | (False, v2) \<Rightarrow> ok (sv_upd i (ss_Disconnect env ServerFull) v2))"

definition ss_processDisconnect :: "io_env \<Rightarrow> (nat \<Rightarrow> bool) \<Rightarrow> nat \<Rightarrow> Service \<Rightarrow> (fault, Service) outcome" where
  "ss_processDisconnect env alive i v =
     (let v1 = sv_upd i (\<lambda>s. emit OnDisconnected (dc_Process s)) v in
      if \<not> ss_GetService (sv_sessions v1 i) then Some (Inl NullService)
      else let v2 = sv_RemoveSession env alive i v1 in
           sv_outcome i v2 (ss_Clear (sv_sessions v2 i)))"

text \<open>
  \<open>Session::Dispatch\<close>. An accept event belongs to the listener: the session only logs it.
\<close>

definition ss_Dispatch :: "io_env \<Rightarrow> (nat \<Rightarrow> bool) \<Rightarrow> (byte list \<Rightarrow> int \<Rightarrow> Session \<Rightarrow> (int \<times> Session) option)
    \<Rightarrow> nat \<Rightarrow> eIocpEventType \<Rightarrow> uint32 \<Rightarrow> Service \<Rightarrow> (fault, Service) outcome" where
  "ss_Dispatch env alive onReceive i eventType numOfBytes v =
     (case eventType of
        ConnectEvent \<Rightarrow> ss_processConnect env alive i v
      | DisconnectEvent \<Rightarrow> ss_processDisconnect env alive i v
      | SendEvent \<Rightarrow> sv_outcome i v (ss_processSend env numOfBytes (sv_sessions v i))
      | ReceiveEvent \<Rightarrow> sv_outcome i v (ss_processReceive env onReceive numOfBytes (sv_sessions v i))
      | AcceptEvent \<Rightarrow> ok v)"

text \<open>Whether the event of a session has an owner; a session has no accept event.\<close>

fun ss_eventOwner :: "eIocpEventType \<Rightarrow> Session \<Rightarrow> bool" where
  "ss_eventOwner ConnectEvent s = cn_eventOwner (ss_mConnector s)"
| "ss_eventOwner DisconnectEvent s = dc_eventOwner (ss_mDisconnector s)"
| "ss_eventOwner SendEvent s = sn_eventOwner (ss_mSender s)"
| "ss_eventOwner ReceiveEvent s = rc_eventOwner (ss_mReceiver s)"
| "ss_eventOwner AcceptEvent s = False"

text \<open>
  \<open>IocpCore::Dispatch\<close>: \<open>gqcsRet\<close>, \<open>errorCode\<close> and the event come from the port. A failed operation that has
  an OVERLAPPED is reported to the error handle and then dispatched like a successful one, if the event
  still has its owner.
\<close>

definition WAIT_TIMEOUT :: int where "WAIT_TIMEOUT = 258"

definition iocp_Dispatch :: "(nat \<times> eIocpEventType) option \<Rightarrow> bool \<Rightarrow> int \<Rightarrow> io_env \<Rightarrow> (nat \<Rightarrow> bool)
    \<Rightarrow> (byte list \<Rightarrow> int \<Rightarrow> Session \<Rightarrow> (int \<times> Session) option) \<Rightarrow> uint32 \<Rightarrow> Service
    \<Rightarrow> int list \<times> (fault, Service) outcome" where
  "iocp_Dispatch pIocpEvent gqcsRet errorCode env alive onReceive numOfBytes v =
     ((if \<not> gqcsRet \<and> errorCode \<noteq> WAIT_TIMEOUT then [errorCode] else []),
      (case pIocpEvent of
         None \<Rightarrow> ok v
       | Some (i, eventType) \<Rightarrow>
           if ss_eventOwner eventType (sv_sessions v i) then ss_Dispatch env alive onReceive i eventType numOfBytes v
           else ok v))"

subsection \<open>SessionReaper\<close>

record SessionReaper = sr_mTimeoutMs :: int

definition sr_DEFAULT_TIME_OUT :: int where "sr_DEFAULT_TIME_OUT = 60000"

definition sr_new :: "int \<Rightarrow> SessionReaper" where
  "sr_new timeoutMs = \<lparr>sr_mTimeoutMs = timeoutMs\<rparr>"

definition sr_GetTimeoutMs :: "SessionReaper \<Rightarrow> int" where
  "sr_GetTimeoutMs r = sr_mTimeoutMs r"

text \<open>\<open>clock\<close> is \<open>steady_clock\<close> in nanoseconds; \<open>duration_cast\<close> truncates.\<close>

definition sr_getNowTimeMs :: "int \<Rightarrow> int" where
  "sr_getNowTimeMs clock = clock sdiv 1000000"

definition sr_isExpired :: "int \<Rightarrow> int \<Rightarrow> SessionReaper \<Rightarrow> bool" where
  "sr_isExpired now lastActivityMs r \<longleftrightarrow> now - lastActivityMs > sr_mTimeoutMs r"

text \<open>\<open>pSessionWeak\<close> is the session's index and whether the weak reference can still be locked.\<close>

definition sr_ReapSession :: "io_env \<Rightarrow> int \<Rightarrow> bool \<Rightarrow> nat \<Rightarrow> int \<Rightarrow> SessionReaper \<Rightarrow> Service \<Rightarrow> (fault, Service) outcome" where
  "sr_ReapSession env now alive i lastActivityMs r v =
     (if \<not> alive then ok v
      else if sr_isExpired now lastActivityMs r then ok (sv_upd i (ss_Disconnect env Timeout) v)
      else if \<not> ss_GetService (sv_sessions v i) then Some (Inl NullService)
      else ok (sv_RegisterSessionReap i v))"

subsection \<open>Starting a service\<close>

text \<open>
  \<open>ClientService::Start\<close>: the loop over \<open>sessionCount\<close> sessions. The environments of the successive
  iterations are a list; a failed \<open>CreateSession\<close> is dereferenced.
\<close>

fun cs_start_loop :: "(bool \<times> io_env) list \<Rightarrow> Service \<Rightarrow> (fault, bool \<times> Service) outcome" where
  "cs_start_loop [] v = ok (True, v)"
| "cs_start_loop ((registered, env) # envs) v =
     obind (sv_CreateSession registered v) (\<lambda>(p, v1).
       case p of
         None \<Rightarrow> Some (Inl NullSession)
       | Some i \<Rightarrow>
           (case ss_Connect env (sv_GetServiceType v1 = ClientType) (sv_sessions v1 i) of
              (connected, s) \<Rightarrow>
                (let v2 = sv_upd i (\<lambda>_. s) v1 in
                 if \<not> connected then ok (False, v2) else cs_start_loop envs v2)))"

definition cs_Start :: "(bool \<times> io_env) list \<Rightarrow> Service \<Rightarrow> (fault, bool \<times> Service) outcome" where
  "cs_Start envs v = cs_start_loop (take (nat (sv_GetMaxSessionCount v)) envs) v"

end
