(* ===== verification/Service_Safety.thy ===== *)
theory Service_Safety
  imports Services
begin

text \<open>
  What a server keeps true over any sequence of its handlers: the places taken are the sessions in
  the manager, every connected session is in it, and a session that was sent to the wait queue is
  never connected. Sends and receives change a session only through \<open>Disconnect\<close>, which may be
  called at any time, so they add no step of their own.
\<close>

subsection \<open>The steps\<close>

fun posts :: "session_event list \<Rightarrow> nat" where
  "posts [] = 0"
| "posts (PostDisconnect # es) = Suc (posts es)"
| "posts (_ # es) = posts es"

fun dones :: "session_event list \<Rightarrow> nat" where
  "dones [] = 0"
| "dones (OnDisconnected # es) = Suc (dones es)"
| "dones (_ # es) = dones es"

fun entered :: "session_event list \<Rightarrow> bool" where
  "entered [] \<longleftrightarrow> False"
| "entered (OnEnterWaitQueue t # es) \<longleftrightarrow> True"
| "entered (_ # es) \<longleftrightarrow> entered es"

lemma event_counts_append [simp]:
  "posts (es @ fs) = posts es + posts fs" "dones (es @ fs) = dones es + dones fs"
  "entered (es @ fs) \<longleftrightarrow> entered es \<or> entered fs"
  by (induction es rule: posts.induct, auto)

definition disconnect_pending :: "Session \<Rightarrow> bool" where
  "disconnect_pending s \<longleftrightarrow> dones (ss_events s) < posts (ss_events s)"

inductive sv_step :: "Service \<Rightarrow> Service \<Rightarrow> bool" where
  create: "sv_CreateSession registered v = ok (p, v') \<Longrightarrow> sv_step v v'"
| connect: "i < sv_count v \<Longrightarrow> cn_mpOwner (ss_mConnector (sv_sessions v i)) \<Longrightarrow>
    ss_processConnect env alive i v = ok v' \<Longrightarrow> sv_step v v'"
| in_game: "i < sv_count v \<Longrightarrow> sv_cas i SetSessionInGame v = (b, v') \<Longrightarrow> sv_step v v'"
| disconnect: "i < sv_count v \<Longrightarrow> sv_step v (sv_upd i (ss_Disconnect env reason) v)"
| disconnected: "disconnect_pending (sv_sessions v i) \<Longrightarrow> ss_processDisconnect env alive i v = ok v' \<Longrightarrow>
    sv_step v v'"
| reap: "i < sv_count v \<Longrightarrow> sr_ReapSession env now a i lastActivityMs r v = ok v' \<Longrightarrow> sv_step v v'"

subsection \<open>The invariant\<close>

definition sess_ok :: "nat set \<Rightarrow> nat set \<Rightarrow> nat \<Rightarrow> nat \<Rightarrow> Session \<Rightarrow> bool" where
  "sess_ok S Q n i s \<longleftrightarrow>
     ss_mSessionState s \<noteq> Waiting \<and>
     (ss_mSessionState s \<noteq> Disconnected \<longrightarrow> i \<in> S \<and> \<not> disconnect_pending s) \<and>
     (disconnect_pending s \<longrightarrow> i \<in> S) \<and> posts (ss_events s) \<le> dones (ss_events s) + 1 \<and>
     (cn_mpOwner (ss_mConnector s) \<longrightarrow> i \<notin> S \<and> \<not> entered (ss_events s) \<and> OnConnected \<notin> set (ss_events s)) \<and>
     (i \<in> Q \<longrightarrow> entered (ss_events s)) \<and>
     (entered (ss_events s) \<longrightarrow> OnConnected \<notin> set (ss_events s) \<and> i \<notin> S) \<and>
     (n \<le> i \<longrightarrow> ss_events s = [] \<and> i \<notin> S)"

definition waiters :: "Service \<Rightarrow> nat set" where
  "waiters v = (case sv_mWaitQueueManager v of None \<Rightarrow> {} | Some w \<Rightarrow> set (wq_mEnterWaitQueue w))"

definition members :: "Service \<Rightarrow> nat set" where
  "members v = sm_mSessions (sv_mSessionManager v)"

definition sessions_ok :: "Service \<Rightarrow> bool" where
  "sessions_ok v \<longleftrightarrow> (\<forall>i. sess_ok (members v) (waiters v) (sv_count v) i (sv_sessions v i))"

definition count_ok :: "nat \<Rightarrow> Service \<Rightarrow> bool" where
  "count_ok kept v \<longleftrightarrow> places_ok (sv_mSessionManager v, kept)"

definition sv_inv :: "Service \<Rightarrow> bool" where
  "sv_inv v \<longleftrightarrow> sessions_ok v \<and> count_ok 0 v"

lemma sess_okD:
  assumes "sess_ok S Q n i s"
  shows "ss_mSessionState s \<noteq> Waiting" "ss_mSessionState s \<noteq> Disconnected \<Longrightarrow> i \<in> S"
    "ss_mSessionState s \<noteq> Disconnected \<Longrightarrow> \<not> disconnect_pending s"
    "disconnect_pending s \<Longrightarrow> i \<in> S" "posts (ss_events s) \<le> dones (ss_events s) + 1"
    "cn_mpOwner (ss_mConnector s) \<Longrightarrow> i \<notin> S \<and> \<not> entered (ss_events s) \<and> OnConnected \<notin> set (ss_events s)"
    "i \<in> Q \<Longrightarrow> entered (ss_events s)"
    "entered (ss_events s) \<Longrightarrow> OnConnected \<notin> set (ss_events s) \<and> i \<notin> S"
    "n \<le> i \<Longrightarrow> ss_events s = [] \<and> i \<notin> S"
  using assms by (simp_all add: sess_ok_def)

text \<open>Only the state, the events and the connector's owner matter.\<close>

lemma sess_ok_cong:
  "ss_mSessionState s = ss_mSessionState t \<Longrightarrow> ss_events s = ss_events t \<Longrightarrow>
   cn_mpOwner (ss_mConnector s) \<longleftrightarrow> cn_mpOwner (ss_mConnector t) \<Longrightarrow>
   sess_ok S Q n i s \<longleftrightarrow> sess_ok S Q n i t"
  by (simp add: sess_ok_def disconnect_pending_def)

text \<open>Events that the invariant does not look at.\<close>

definition quiet_event :: "session_event \<Rightarrow> bool" where
  "quiet_event e \<longleftrightarrow> e \<noteq> PostDisconnect \<and> e \<noteq> OnDisconnected \<and> e \<noteq> OnConnected \<and> (\<forall>t. e \<noteq> OnEnterWaitQueue t)"

lemma quiet_counts: "quiet_event e \<Longrightarrow> posts [e] = 0 \<and> dones [e] = 0 \<and> \<not> entered [e]"
  by (cases e) (auto simp: quiet_event_def)

lemma emit_quiet_ok: "quiet_event e \<Longrightarrow> i < n \<Longrightarrow> sess_ok S Q n i s \<Longrightarrow> sess_ok S Q n i (emit e s)"
  using quiet_counts [of e] by (auto simp: sess_ok_def emit_def disconnect_pending_def quiet_event_def)

lemma Disconnect_shape:
  assumes "ss_mSessionState s \<noteq> Disconnected"
  shows "\<exists>es. ss_events (ss_Disconnect env reason s) = ss_events s @ OnDisconnecting reason # es \<and>
      (es = [] \<or> es = [PostDisconnect] \<or> (\<exists>c. es = [OnError c])) \<and>
    ss_mSessionState (ss_Disconnect env reason s) = Disconnected \<and>
    ss_mConnector (ss_Disconnect env reason s) = ss_mConnector s"
  using assms
  by (cases "io_disconnectEx env")
    (simp_all add: ss_Disconnect_def setSessionDisconnected_def dc_Register_def dc_Clear_def emit_def Let_def)

lemma Disconnect_ok:
  assumes "i < n" "sess_ok S Q n i s"
  shows "sess_ok S Q n i (ss_Disconnect env reason s)"
proof (cases "ss_mSessionState s = Disconnected")
  case True
  then show ?thesis using assms(2)
    by (simp add: ss_Disconnect_def setSessionDisconnected_def sess_ok_def disconnect_pending_def)
next
  case False
  note k = sess_okD [OF assms(2)]
  have "i \<in> S" "\<not> entered (ss_events s)" "\<not> cn_mpOwner (ss_mConnector s)" "posts (ss_events s) \<le> dones (ss_events s)"
    using k False by (auto simp: disconnect_pending_def)
  then show ?thesis using assms(1) k(5,7) Disconnect_shape [OF False, of env reason]
    by (auto simp: sess_ok_def disconnect_pending_def)
qed

lemma rc_Register_ok:
  assumes "i < n" "sess_ok S Q n i s"
  shows "sess_ok S Q n i (rc_Register env s)"
proof -
  have clear: "sess_ok S Q n i (rc_Clear t)" if "sess_ok S Q n i t" for t
    using that by (subst sess_ok_cong [of _ t]) (simp_all add: rc_Clear_def)
  have quiet: "quiet_event (OnError c)" "quiet_event (PostReceive ws)" for c ws
    by (simp_all add: quiet_event_def)
  show ?thesis
    unfolding rc_Register_def using assms quiet
    by (auto intro!: clear Disconnect_ok emit_quiet_ok split: io_result.split)
qed

subsection \<open>Changes of one session\<close>

lemma members_upd [simp]: "members (sv_upd i f v) = members v" "waiters (sv_upd i f v) = waiters v"
  "sv_count (sv_upd i f v) = sv_count v" "sv_mSessionManager (sv_upd i f v) = sv_mSessionManager v"
  "sv_mWaitQueueManager (sv_upd i f v) = sv_mWaitQueueManager v" "sv_mMaxSessionCount (sv_upd i f v) = sv_mMaxSessionCount v"
  by (simp_all add: sv_upd_def members_def waiters_def)

lemma sv_sessions_upd [simp]: "sv_sessions (sv_upd i f v) j = (if j = i then f (sv_sessions v i) else sv_sessions v j)"
  by (simp add: sv_upd_def)

lemma same_state: "ss_mSessionState s = st \<Longrightarrow> s\<lparr>ss_mSessionState := st\<rparr> = s"
  by (cases s) simp

lemma sv_upd_same: "f (sv_sessions v i) = sv_sessions v i \<Longrightarrow> sv_upd i f v = v"
  by (simp add: sv_upd_def fun_upd_idem)

lemma Disconnect_same: "ss_mSessionState s = Disconnected \<Longrightarrow> ss_Disconnect env reason s = s"
  by (simp add: ss_Disconnect_def setSessionDisconnected_def same_state)

lemma sv_sm_simps [simp]: "sv_sessions (sv_sm f v) = sv_sessions v" "sv_count (sv_sm f v) = sv_count v"
  "waiters (sv_sm f v) = waiters v" "sv_mSessionManager (sv_sm f v) = f (sv_mSessionManager v)"
  "members (sv_sm f v) = sm_mSessions (f (sv_mSessionManager v))"
  by (simp_all add: sv_sm_def waiters_def members_def)

definition sv_cfg :: "Service \<Rightarrow> int \<times> int" where
  "sv_cfg v = (sv_mMaxSessionCount v, sm_mMaxSessionCount (sv_mSessionManager v))"

lemma sv_cfg_upd [simp]: "sv_cfg (sv_upd i f v) = sv_cfg v"
  by (simp add: sv_cfg_def)

lemma sessions_ok_upd:
  "sessions_ok v \<Longrightarrow> sess_ok (members v) (waiters v) (sv_count v) i (f (sv_sessions v i)) \<Longrightarrow> sessions_ok (sv_upd i f v)"
  by (auto simp: sessions_ok_def)

lemma inv_upd:
  "sv_inv v \<Longrightarrow> sess_ok (members v) (waiters v) (sv_count v) i (f (sv_sessions v i)) \<Longrightarrow> sv_inv (sv_upd i f v)"
  by (auto simp: sv_inv_def count_ok_def intro: sessions_ok_upd)

lemma inv_session: "sv_inv v \<Longrightarrow> sess_ok (members v) (waiters v) (sv_count v) i (sv_sessions v i)"
  by (simp add: sv_inv_def sessions_ok_def)

subsection \<open>Admission never admits\<close>

lemma dequeued_waiter:
  assumes "sv_DequeueWaitQueue alive v = (Some j, v1)"
  shows "j \<in> waiters v"
proof -
  have "wq_dequeue_loop alive e ss = (Some j, e', ss') \<Longrightarrow> j \<in> set ss" for e ss e' ss'
    by (induction alive e ss rule: wq_dequeue_loop.induct) (auto split: if_splits)
  then show ?thesis using assms
    by (fastforce simp: sv_DequeueWaitQueue_def wq_DequeueWaitQueue_def waiters_def split: option.splits prod.splits)
qed

lemma dequeue_shrinks:
  assumes "sv_DequeueWaitQueue alive v = (r, v1)"
  shows "waiters v1 \<subseteq> waiters v" "sv_sessions v1 = sv_sessions v" "sv_mSessionManager v1 = sv_mSessionManager v"
    "sv_count v1 = sv_count v" "sv_mMaxSessionCount v1 = sv_mMaxSessionCount v"
proof -
  have "wq_dequeue_loop alive e ss = (r', e', ss') \<Longrightarrow> set ss' \<subseteq> set ss" for e ss r' e' ss'
    by (induction alive e ss rule: wq_dequeue_loop.induct) (auto split: if_splits)
  then show "waiters v1 \<subseteq> waiters v" using assms
    by (fastforce simp: sv_DequeueWaitQueue_def wq_DequeueWaitQueue_def waiters_def split: option.splits prod.splits)
qed (use assms in \<open>auto simp: sv_DequeueWaitQueue_def split: option.splits prod.splits\<close>)

lemma admit_is_release:
  assumes "\<forall>j \<in> waiters v. j \<notin> members v \<and> ss_mSessionState (sv_sessions v j) = Disconnected"
  shows "sv_admitWaitingSession env alive v = sv_sm sm_ReleaseKeepTicket (snd (sv_DequeueWaitQueue alive v))"
proof (cases "sv_DequeueWaitQueue alive v")
  case (Pair r v1)
  note d = dequeue_shrinks [OF Pair]
  show ?thesis
  proof (cases r)
    case (Some j)
    have j: "j \<notin> sm_mSessions (sv_mSessionManager v1)" "ss_mSessionState (sv_sessions v1 j) = Disconnected"
      using assms dequeued_waiter [of alive v j v1] Pair Some d by (auto simp: members_def)
    have upd: "sv_upd j (\<lambda>s. s\<lparr>ss_mSessionState := Disconnected\<rparr>) w = w" "sv_upd j (ss_Disconnect env StateError) w = w"
      if "ss_mSessionState (sv_sessions w j) = Disconnected" for w
      using that by (auto intro!: sv_upd_same simp: same_state Disconnect_same)
    obtain m where m: "sm_AddWaitingSession j (sv_mSessionManager v1) = (True, m)"
      "sm_RemoveSession j False m = sm_ReleaseKeepTicket (sv_mSessionManager v1)"
      using j(1) by (simp add: sm_defs)
    have cas: "sv_cas j setWaitingToConnected (v1\<lparr>sv_mSessionManager := m\<rparr>) = (False, v1\<lparr>sv_mSessionManager := m\<rparr>)"
      using j(2) upd(1) [of "v1\<lparr>sv_mSessionManager := m\<rparr>"] by (simp add: sv_cas_def setWaitingToConnected_def cas_state_def)
    have "sv_sm (sm_RemoveSession j False) (v1\<lparr>sv_mSessionManager := m\<rparr>) = sv_sm sm_ReleaseKeepTicket v1"
      using m(2) by (simp add: sv_sm_def)
    then show ?thesis
      using Pair Some cas upd(2) [of "sv_sm sm_ReleaseKeepTicket v1"] j(2)
      by (simp add: sv_admitWaitingSession_def m(1) Let_def)
  qed (use Pair in \<open>simp add: sv_admitWaitingSession_def\<close>)
qed

lemma dequeue_ok:
  assumes "sessions_ok v"
  shows "sessions_ok (snd (sv_DequeueWaitQueue alive v))"
proof (cases "sv_DequeueWaitQueue alive v")
  case (Pair r v1)
  note d = dequeue_shrinks [OF Pair]
  have "members v1 = members v" using d(3) by (simp add: members_def)
  then show ?thesis using assms d Pair by (auto simp: sessions_ok_def sess_ok_def)
qed

lemma waiters_idle:
  assumes "sessions_ok v" "j \<in> waiters v"
  shows "j \<notin> members v \<and> ss_mSessionState (sv_sessions v j) = Disconnected \<and> j < sv_count v"
proof -
  have j: "sess_ok (members v) (waiters v) (sv_count v) j (sv_sessions v j)" using assms(1) by (simp add: sessions_ok_def)
  note k = sess_okD [OF j]
  have e: "entered (ss_events (sv_sessions v j))" by (rule k(7) [OF assms(2)])
  then have "j < sv_count v" using k(9) by (cases "j < sv_count v") auto
  then show ?thesis using e k(2,8) by auto
qed

text \<open>Removing a member and admitting: the count goes down by one and no session changes.\<close>

lemma RemoveSession_ok:
  assumes v: "sessions_ok v" "count_ok 0 v" and i: "i \<in> members v" "ss_mSessionState (sv_sessions v i) = Disconnected"
    "\<not> disconnect_pending (sv_sessions v i)"
  shows "sv_inv (sv_RemoveSession env alive i v)"
    "sv_sessions (sv_RemoveSession env alive i v) = sv_sessions v"
    "members (sv_RemoveSession env alive i v) = members v - {i}"
    "sv_count (sv_RemoveSession env alive i v) = sv_count v"
    "sv_cfg (sv_RemoveSession env alive i v) = sv_cfg v"
proof -
  let ?v = "sv_sm (sm_RemoveSession i True) v"
  have mem: "members ?v = members v - {i}" "waiters ?v = waiters v" "sv_sessions ?v = sv_sessions v" "sv_count ?v = sv_count v"
    using i(1) by (simp_all add: sm_defs) (simp_all add: members_def)
  have iQ: "i \<notin> waiters v" using waiters_idle [OF v(1)] i(1) by blast
  have ok: "sessions_ok ?v"
    unfolding sessions_ok_def mem
  proof
    fix j
    have "sess_ok (members v) (waiters v) (sv_count v) j (sv_sessions v j)" using v(1) by (simp add: sessions_ok_def)
    then show "sess_ok (members v - {i}) (waiters v) (sv_count v) j (sv_sessions v j)"
      using i iQ by (cases "j = i") (auto simp: sess_ok_def)
  qed
  have eq: "sv_RemoveSession env alive i v = sv_sm sm_ReleaseKeepTicket (snd (sv_DequeueWaitQueue alive ?v))"
    unfolding sv_RemoveSession_def using waiters_idle [OF ok] by (intro admit_is_release) blast
  obtain r w where w: "sv_DequeueWaitQueue alive ?v = (r, w)" by fastforce
  note d = dequeue_shrinks [OF w]
  have "places_ok (sv_mSessionManager ?v, 1)"
    using places_step_ok [OF place_step.remove_keep, of i "sv_mSessionManager v" 0] v(2) i(1)
    by (simp add: count_ok_def) (simp add: members_def)
  then have "places_ok (sm_ReleaseKeepTicket (sv_mSessionManager w), 0)"
    using places_step_ok [OF place_step.release, of "sv_mSessionManager w" 0] d(3) by simp
  moreover have "sessions_ok (sv_sm sm_ReleaseKeepTicket w)"
    using dequeue_ok [OF ok, of alive] w by (simp add: sessions_ok_def sm_defs) (simp add: members_def)
  ultimately show "sv_inv (sv_RemoveSession env alive i v)"
    by (simp add: eq w sv_inv_def count_ok_def)
  show "sv_sessions (sv_RemoveSession env alive i v) = sv_sessions v" "sv_count (sv_RemoveSession env alive i v) = sv_count v"
    using d mem by (simp_all add: eq w)
  show "members (sv_RemoveSession env alive i v) = members v - {i}"
    using d(3) mem(1) by (simp add: eq w sm_defs)
  show "sv_cfg (sv_RemoveSession env alive i v) = sv_cfg v"
    using d(3,5) by (simp add: eq w sv_cfg_def sm_defs) (simp add: sv_sm_def)
qed

subsection \<open>Every step keeps the invariant\<close>

definition newcomer :: "nat \<Rightarrow> Service \<Rightarrow> bool" where
  "newcomer i v \<longleftrightarrow> i < sv_count v \<and> i \<notin> members v \<and> \<not> cn_mpOwner (ss_mConnector (sv_sessions v i)) \<and>
     \<not> entered (ss_events (sv_sessions v i)) \<and> OnConnected \<notin> set (ss_events (sv_sessions v i))"

lemma newcomer_idle:
  assumes "sv_inv v" "newcomer i v"
  shows "ss_mSessionState (sv_sessions v i) = Disconnected" "\<not> disconnect_pending (sv_sessions v i)" "i \<notin> waiters v"
  using sess_okD(2,4,7) [OF inv_session [OF assms(1)], of i] assms(2) by (auto simp: newcomer_def)

lemma AddSession_member:
  assumes inv: "sv_inv v" and new: "newcomer i v"
    and added: "sm_AddSession i (sv_mSessionManager v) = (True, m)"
  defines "v' \<equiv> sv_upd i (emit OnConnected) (sv_upd i (\<lambda>s. s\<lparr>ss_mSessionState := Connected\<rparr>) (v\<lparr>sv_mSessionManager := m\<rparr>))"
  shows "sv_AddSession env alive i v = (True, v')" "sv_inv v'"
proof -
  note idle = newcomer_idle [OF inv new]
  have m: "sm_mSessions m = insert i (members v)"
    using added by (auto simp: sm_defs members_def split: if_splits)
  show "sv_AddSession env alive i v = (True, v')"
    using added idle(1) by (simp add: sv_AddSession_def sv_cas_def setSessionConnected_def cas_state_def v'_def Let_def)
  have "places_ok (m, 0)"
    using places_step_ok [OF place_step.add, of "sv_mSessionManager v" 0 i] inv added by (simp add: sv_inv_def count_ok_def)
  moreover have "sess_ok (insert i (members v)) (waiters v) (sv_count v) j (sv_sessions v' j)" for j
    using inv_session [OF inv, of j] new idle
    by (auto simp: v'_def sess_ok_def newcomer_def emit_def disconnect_pending_def)
  moreover have "members v' = insert i (members v)" "waiters v' = waiters v" "sv_count v' = sv_count v"
    "sv_mSessionManager v' = m"
    using m by (simp_all add: v'_def) (simp_all add: members_def waiters_def)
  ultimately show "sv_inv v'" by (simp add: sv_inv_def sessions_ok_def count_ok_def)
qed

lemma AddSession_waits:
  assumes inv: "sv_inv v" and new: "newcomer i v"
    and full: "sm_AddSession i (sv_mSessionManager v) = (False, m)" and w: "sv_mWaitQueueManager v = Some w"
    and t: "wq_EnterWaitQueue w i = (Some t, w')"
  defines "v' \<equiv> sv_upd i (emit (OnEnterWaitQueue t)) (v\<lparr>sv_mWaitQueueManager := Some w'\<rparr>)"
  shows "sv_AddSession env alive i v = (True, v')" "sv_inv v'"
proof -
  note idle = newcomer_idle [OF inv new]
  have m: "m = sv_mSessionManager v" using full by (auto simp: sm_defs split: if_splits)
  have w': "set (wq_mEnterWaitQueue w') = insert i (waiters v)"
    using t w by (auto simp: wq_EnterWaitQueue_def waiters_def split: if_splits)
  have "sv_cas i setSessionWaiting (v\<lparr>sv_mWaitQueueManager := Some w'\<rparr>) = (True, v\<lparr>sv_mWaitQueueManager := Some w'\<rparr>)"
    using idle(1) by (simp add: sv_cas_def setSessionWaiting_def cas_state_def sv_upd_same same_state)
  then show "sv_AddSession env alive i v = (True, v')"
    using full w t by (simp add: sv_AddSession_def v'_def m Let_def)
  have "sess_ok (members v) (insert i (waiters v)) (sv_count v) j (sv_sessions v' j)" for j
    using inv_session [OF inv, of j] new idle
    by (auto simp: v'_def sess_ok_def newcomer_def emit_def disconnect_pending_def)
  moreover have "members v' = members v" "waiters v' = insert i (waiters v)" "sv_count v' = sv_count v"
    "sv_mSessionManager v' = sv_mSessionManager v"
    using w' by (simp_all add: v'_def) (simp_all add: members_def waiters_def)
  ultimately show "sv_inv v'" using inv by (simp add: sv_inv_def sessions_ok_def count_ok_def)
qed

lemma AddSession_refused:
  assumes full: "sm_AddSession i (sv_mSessionManager v) = (False, m)"
    and none: "\<forall>w. sv_mWaitQueueManager v = Some w \<longrightarrow> fst (wq_EnterWaitQueue w i) = None"
  shows "sv_AddSession env alive i v = (False, v)"
proof -
  have "m = sv_mSessionManager v" using full by (auto simp: sm_defs split: if_splits)
  moreover have "wq_EnterWaitQueue w i = (None, w)" if "sv_mWaitQueueManager v = Some w" for w
    using none that by (simp add: wq_EnterWaitQueue_def split: if_splits)
  ultimately show ?thesis using full
    by (cases "sv_mWaitQueueManager v") (simp_all add: sv_AddSession_def Let_def)
qed

lemma AddSession_inv:
  assumes inv: "sv_inv v" and new: "newcomer i v" and add: "sv_AddSession env alive i v = (b, v')"
  shows "sv_inv v'" "sv_count v' = sv_count v" "\<not> b \<Longrightarrow> v' = v" "sv_cfg v' = sv_cfg v"
    "members v \<subseteq> members v'" "\<And>j. j \<noteq> i \<Longrightarrow> sv_sessions v' j = sv_sessions v j"
    "members v' \<subseteq> insert i (members v)"
proof -
  obtain added m where a: "sm_AddSession i (sv_mSessionManager v) = (added, m)" by fastforce
  have cfg: "sm_mMaxSessionCount m = sm_mMaxSessionCount (sv_mSessionManager v)" "members v \<subseteq> sm_mSessions m"
    "sm_mSessions m \<subseteq> insert i (members v)"
    using a by (auto simp: sm_defs members_def split: if_splits)
  have "sv_inv v' \<and> sv_count v' = sv_count v \<and> (\<not> b \<longrightarrow> v' = v) \<and> sv_cfg v' = sv_cfg v \<and>
    members v \<subseteq> members v' \<and> (\<forall>j. j \<noteq> i \<longrightarrow> sv_sessions v' j = sv_sessions v j) \<and> members v' \<subseteq> insert i (members v)"
  proof (cases added)
    case True
    then show ?thesis using AddSession_member [OF inv new] a add cfg by (auto simp: sv_upd_def sv_cfg_def members_def)
  next
    case False
    show ?thesis
    proof (cases "\<forall>w. sv_mWaitQueueManager v = Some w \<longrightarrow> fst (wq_EnterWaitQueue w i) = None")
      case True
      then show ?thesis using AddSession_refused a False add inv by auto
    next
      case waits: False
      then obtain w t w' where "sv_mWaitQueueManager v = Some w" "wq_EnterWaitQueue w i = (Some t, w')"
        by (auto simp: prod_eq_iff)
      then show ?thesis using AddSession_waits [OF inv new] a False add by (auto simp: sv_upd_def sv_cfg_def members_def)
    qed
  qed
  then show "sv_inv v'" "sv_count v' = sv_count v" "\<not> b \<Longrightarrow> v' = v" "sv_cfg v' = sv_cfg v" "members v \<subseteq> members v'"
    "\<And>j. j \<noteq> i \<Longrightarrow> sv_sessions v' j = sv_sessions v j" "members v' \<subseteq> insert i (members v)" by auto
qed

lemma RegisterSessionReap_inv: "sv_inv v \<Longrightarrow> i < sv_count v \<Longrightarrow> sv_inv (sv_RegisterSessionReap i v)"
  unfolding sv_RegisterSessionReap_def
  by (auto intro!: inv_upd emit_quiet_ok inv_session simp: quiet_event_def)

lemma processConnect_inv:
  assumes inv: "sv_inv v" and i: "i < sv_count v" and fresh: "cn_mpOwner (ss_mConnector (sv_sessions v i))"
    and run: "ss_processConnect env alive i v = ok v'"
  shows "sv_inv v'" "sv_cfg v' = sv_cfg v" "members v \<subseteq> members v'" "sv_count v' = sv_count v"
    "\<And>j. j \<noteq> i \<Longrightarrow> sv_sessions v' j = sv_sessions v j" "members v' \<subseteq> insert i (members v)"
proof -
  define v1 where "v1 = sv_upd i (\<lambda>s. sn_SetOwner (rc_SetOwner (cn_Process s))) v"
  note k = sess_okD(6) [OF inv_session [OF inv] fresh]
  have same: "ss_events (sn_SetOwner (rc_SetOwner (cn_Process s))) = ss_events s"
    "ss_mSessionState (sn_SetOwner (rc_SetOwner (cn_Process s))) = ss_mSessionState s"
    "\<not> cn_mpOwner (ss_mConnector (sn_SetOwner (rc_SetOwner (cn_Process s))))" for s
    by (simp_all add: session_defs)
  have inv1: "sv_inv v1"
    unfolding v1_def using inv_session [OF inv, of i] k same
    by (intro inv_upd [OF inv]) (simp add: sess_ok_def disconnect_pending_def)
  have new: "newcomer i v1" using i k same by (simp add: newcomer_def v1_def)
  obtain b v2 where add: "sv_AddSession env alive i v1 = (b, v2)" by fastforce
  note a = AddSession_inv [OF inv1 new add]
  have i2: "i < sv_count v2" using a(2) i by (simp add: v1_def)
  have mem: "members v \<subseteq> members v2" "members v2 \<subseteq> insert i (members v)" using a(5,7) by (simp_all add: v1_def)
  have others: "sv_sessions v2 j = sv_sessions v j" if "j \<noteq> i" for j using a(6) that by (simp add: v1_def)
  have cnt: "sv_count v2 = sv_count v" using a(2) by (simp add: v1_def)
  have "sv_inv v' \<and> sv_cfg v' = sv_cfg v \<and> members v \<subseteq> members v' \<and> sv_count v' = sv_count v \<and>
    (\<forall>j. j \<noteq> i \<longrightarrow> sv_sessions v' j = sv_sessions v j) \<and> members v' \<subseteq> insert i (members v)"
  proof (cases b)
    case True
    then have "v' = sv_upd i (ss_registerReceive env) (sv_RegisterSessionReap i v2)"
      using run add unfolding ss_processConnect_def v1_def [symmetric] Let_def by (auto split: if_splits)
    moreover have "sv_inv (sv_upd i (ss_registerReceive env) (sv_RegisterSessionReap i v2))"
    proof -
      have w: "sv_inv (sv_RegisterSessionReap i v2)" by (rule RegisterSessionReap_inv [OF a(1) i2])
      have "i < sv_count (sv_RegisterSessionReap i v2)" using i2 by (simp add: sv_RegisterSessionReap_def)
      from rc_Register_ok [OF this inv_session [OF w]] show ?thesis
        by (intro inv_upd [OF w]) (simp add: ss_registerReceive_def)
    qed
    moreover have "sv_cfg (sv_RegisterSessionReap i v2) = sv_cfg v" "members (sv_RegisterSessionReap i v2) = members v2"
      using a(4) by (simp_all add: sv_RegisterSessionReap_def v1_def)
    moreover have "sv_count (sv_RegisterSessionReap i v2) = sv_count v"
      "\<And>j. j \<noteq> i \<Longrightarrow> sv_sessions (sv_RegisterSessionReap i v2) j = sv_sessions v j"
      using cnt others by (simp_all add: sv_RegisterSessionReap_def)
    ultimately show ?thesis using mem by auto
  next
    case False
    then have "v' = sv_upd i (ss_Disconnect env ServerFull) v2"
      using run add unfolding ss_processConnect_def v1_def [symmetric] Let_def by (auto split: if_splits)
    then show ?thesis using a(1,4) i2 mem cnt others by (auto simp: v1_def intro!: inv_upd Disconnect_ok inv_session)
  qed
  then show "sv_inv v'" "sv_cfg v' = sv_cfg v" "members v \<subseteq> members v'" "sv_count v' = sv_count v"
    "\<And>j. j \<noteq> i \<Longrightarrow> sv_sessions v' j = sv_sessions v j" "members v' \<subseteq> insert i (members v)" by auto
qed

lemma ss_Clear_same:
  assumes "ss_Clear s = ok s'"
  shows "ss_events s' = ss_events s" "ss_mSessionState s' = ss_mSessionState s" "\<not> cn_mpOwner (ss_mConnector s')"
proof -
  obtain q where "s' = (rc_Clear (dc_Clear (cn_Clear (s\<lparr>ss_mpService := False, ss_socketValid := False\<rparr>))))
      \<lparr>ss_mSender := \<lparr>sn_mpOwner = False, sn_eventOwner = False, sn_pending = [], sn_mbSendRegistered = False, sn_mSendQueue = q\<rparr>\<rparr>"
    using assms by (auto simp: ss_Clear_def sn_Clear_def obind_def split: option.splits sum.splits)
  then show "ss_events s' = ss_events s" "ss_mSessionState s' = ss_mSessionState s" "\<not> cn_mpOwner (ss_mConnector s')"
    by (simp_all add: session_defs)
qed

lemma processDisconnect_inv:
  assumes inv: "sv_inv v" and pend: "disconnect_pending (sv_sessions v i)"
    and run: "ss_processDisconnect env alive i v = ok v'"
  shows "sv_inv v'" "sv_cfg v' = sv_cfg v" "members v' = members v - {i}"
    "\<And>j. j \<noteq> i \<Longrightarrow> sv_sessions v' j = sv_sessions v j" "sv_count v' = sv_count v"
proof -
  define v1 where "v1 = sv_upd i (\<lambda>s. emit OnDisconnected (dc_Process s)) v"
  note k = sess_okD [OF inv_session [OF inv, of i]]
  have st: "ss_mSessionState (sv_sessions v i) = Disconnected" using k(3) pend by blast
  have i: "i \<in> members v" by (rule k(4) [OF pend])
  have i_lt: "i < sv_count v" using k(9) pend by (cases "i < sv_count v") (auto simp: disconnect_pending_def)
  have ev: "ss_events (sv_sessions v1 i) = ss_events (sv_sessions v i) @ [OnDisconnected]"
    "ss_mSessionState (sv_sessions v1 i) = Disconnected" "ss_mConnector (sv_sessions v1 i) = ss_mConnector (sv_sessions v i)"
    using st by (simp_all add: v1_def session_defs)
  have inv1: "sv_inv v1"
    unfolding v1_def
  proof (rule inv_upd [OF inv])
    show "sess_ok (members v) (waiters v) (sv_count v) i (emit OnDisconnected (dc_Process (sv_sessions v i)))"
      using inv_session [OF inv, of i] st i i_lt
      by (auto simp: sess_ok_def emit_def dc_Process_def dc_Clear_def disconnect_pending_def)
  qed
  have np: "\<not> disconnect_pending (sv_sessions v1 i)" using k(5) ev(1) by (simp add: disconnect_pending_def)
  have "i \<in> members v1" using i by (simp add: v1_def)
  note r = RemoveSession_ok [of v1 i env alive, OF _ _ this ev(2) np]
  have ok1: "sessions_ok v1" "count_ok 0 v1" using inv1 by (simp_all add: sv_inv_def)
  let ?v2 = "sv_RemoveSession env alive i v1"
  obtain s' where s': "ss_Clear (sv_sessions ?v2 i) = ok s'" "v' = sv_upd i (\<lambda>_. s') ?v2"
    using run unfolding ss_processDisconnect_def v1_def [symmetric] Let_def sv_outcome_def
    by (auto simp: obind_def ok_def split: if_splits option.splits sum.splits)
  have "sess_ok (members ?v2) (waiters ?v2) (sv_count ?v2) i s'"
    using inv_session [OF r(1) [OF ok1], of i] ss_Clear_same [OF s'(1)] by (auto simp: sess_ok_def disconnect_pending_def)
  then show "sv_inv v'" unfolding s'(2) by (intro inv_upd [OF r(1) [OF ok1]])
  show "sv_cfg v' = sv_cfg v" "members v' = members v - {i}" "\<And>j. j \<noteq> i \<Longrightarrow> sv_sessions v' j = sv_sessions v j"
    "sv_count v' = sv_count v"
    using r(2,3,4,5) [OF ok1] unfolding s'(2) by (simp_all add: v1_def)
qed

lemma CreateSession_inv:
  assumes inv: "sv_inv v" and run: "sv_CreateSession registered v = ok (p, v')"
  shows "sv_inv v'" "sv_cfg v' = sv_cfg v" "members v' = members v"
    "\<And>j. j \<noteq> sv_count v \<Longrightarrow> sv_sessions v' j = sv_sessions v j" "sv_count v' = sv_count v + 1"
proof -
  let ?i = "sv_count v"
  let ?v1 = "sv_upd ?i (\<lambda>s. ss_setSessionEvent (ss_setService s)) (v\<lparr>sv_count := ?i + 1\<rparr>)"
  note k = sess_okD [OF inv_session [OF inv, of ?i]]
  have idle: "ss_events (sv_sessions v ?i) = []" "?i \<notin> members v" "ss_mSessionState (sv_sessions v ?i) = Disconnected"
    "?i \<notin> waiters v" using k(2,7,9) by auto
  have same: "ss_events (ss_setSessionEvent (ss_setService s)) = ss_events s"
    "ss_mSessionState (ss_setSessionEvent (ss_setService s)) = ss_mSessionState s" for s
    by (simp_all add: ss_setSessionEvent_def ss_setService_def session_defs)
  have mem: "members ?v1 = members v" "waiters ?v1 = waiters v" "sv_count ?v1 = ?i + 1" "sv_mSessionManager ?v1 = sv_mSessionManager v"
    by simp_all (simp_all add: members_def waiters_def)
  have "sess_ok (members v) (waiters v) (?i + 1) j (sv_sessions ?v1 j)" for j
    using inv_session [OF inv, of j] idle same by (cases "j = ?i") (auto simp: sess_ok_def disconnect_pending_def)
  then have inv1: "sv_inv ?v1" using inv mem by (simp add: sv_inv_def sessions_ok_def count_ok_def)
  have cfg1: "sv_cfg ?v1 = sv_cfg v" by (simp add: sv_cfg_def)
  have "sv_inv v' \<and> sv_cfg v' = sv_cfg v \<and> members v' = members v \<and> (\<forall>j. j \<noteq> ?i \<longrightarrow> sv_sessions v' j = sv_sessions v j) \<and>
    sv_count v' = ?i + 1"
  proof (cases registered)
    case True
    then have "v' = ?v1" using run by (simp add: sv_CreateSession_def Let_def)
    then show ?thesis using inv1 mem cfg1 by simp
  next
    case False
    then obtain s' where s': "ss_Clear (sv_sessions ?v1 ?i) = ok s'" "v' = sv_upd ?i (\<lambda>_. s') ?v1"
      using run by (auto simp: sv_CreateSession_def Let_def obind_def ok_def split: option.splits sum.splits)
    have "sess_ok (members ?v1) (waiters ?v1) (sv_count ?v1) ?i s'"
      using inv_session [OF inv1, of ?i] ss_Clear_same [OF s'(1)] by (auto simp: sess_ok_def disconnect_pending_def)
    then have "sv_inv v'" unfolding s'(2) by (intro inv_upd [OF inv1])
    then show ?thesis using s'(2) mem cfg1 by simp
  qed
  then show "sv_inv v'" "sv_cfg v' = sv_cfg v" "members v' = members v" "\<And>j. j \<noteq> ?i \<Longrightarrow> sv_sessions v' j = sv_sessions v j"
    "sv_count v' = ?i + 1" by auto
qed

lemma in_game_upd:
  assumes "sv_cas i SetSessionInGame v = (b, v')"
  shows "v' = sv_upd i (\<lambda>s. s\<lparr>ss_mSessionState := snd (SetSessionInGame (ss_mSessionState s))\<rparr>) v"
  using assms by (auto simp: sv_cas_def sv_upd_def split: prod.splits)

lemma reap_cases:
  assumes "sr_ReapSession env now a i lastMs r v = ok v'"
  shows "v' = v \<or> v' = sv_upd i (ss_Disconnect env Timeout) v \<or> v' = sv_RegisterSessionReap i v"
  using assms by (auto simp: sr_ReapSession_def split: if_splits)

lemma sv_step_inv: "sv_step v v' \<Longrightarrow> sv_inv v \<Longrightarrow> sv_inv v' \<and> sv_cfg v' = sv_cfg v"
proof (induction rule: sv_step.induct)
  case (create registered v p v')
  then show ?case by (blast intro: CreateSession_inv)
next
  case (connect i v env alive v')
  then show ?case by (blast intro: processConnect_inv)
next
  case (in_game i v b v')
  have "sess_ok S Q n i (s\<lparr>ss_mSessionState := snd (SetSessionInGame (ss_mSessionState s))\<rparr>)"
    if "sess_ok S Q n i s" for S Q n s
    using that by (auto simp: sess_ok_def SetSessionInGame_def cas_state_def disconnect_pending_def)
  then show ?case using in_game(3) inv_session [OF in_game(3), of i] in_game_upd [OF in_game(2)] by (auto intro!: inv_upd)
next
  case (disconnect i v env reason)
  then show ?case by (auto intro!: inv_upd Disconnect_ok inv_session)
next
  case (disconnected v i env alive v')
  then show ?case by (blast intro: processDisconnect_inv)
next
  case (reap i v env now a last r v')
  have "sv_cfg (sv_RegisterSessionReap i v) = sv_cfg v" by (simp add: sv_RegisterSessionReap_def)
  then show ?case using reap reap_cases [OF reap(2)]
    by (auto intro!: inv_upd Disconnect_ok inv_session RegisterSessionReap_inv)
qed

text \<open>A member that is Disconnected with no disconnect under way: no step can take it out.\<close>

definition lost :: "nat \<Rightarrow> Service \<Rightarrow> bool" where
  "lost i v \<longleftrightarrow> sv_inv v \<and> i \<in> members v \<and> i < sv_count v \<and>
     ss_mSessionState (sv_sessions v i) = Disconnected \<and> \<not> disconnect_pending (sv_sessions v i)"

lemma lost_upd:
  assumes "lost i v" "sv_inv (sv_upd j f v)"
    and "j = i \<Longrightarrow> ss_mSessionState (f (sv_sessions v i)) = Disconnected \<and> \<not> disconnect_pending (f (sv_sessions v i))"
  shows "lost i (sv_upd j f v)"
  using assms by (auto simp: lost_def)

lemma sv_step_lost: "sv_step v v' \<Longrightarrow> lost k v \<Longrightarrow> lost k v'"
proof (induction rule: sv_step.induct)
  case (create registered v p v')
  then have "sv_inv v" "k \<noteq> sv_count v" by (auto simp: lost_def)
  then show ?case using CreateSession_inv [OF _ create(1)] create(2) by (auto simp: lost_def)
next
  case (connect i v env alive v')
  then have inv: "sv_inv v" by (simp add: lost_def)
  have "k \<noteq> i" using sess_okD(6) [OF inv_session [OF inv] connect(2)] connect(4) by (auto simp: lost_def)
  then show ?case using processConnect_inv [OF inv connect(1-3)] connect(4) by (auto simp: lost_def)
next
  case (in_game i v b v')
  have "sv_inv v'" using sv_step_inv [OF sv_step.in_game [OF in_game(1,2)]] in_game(3) by (simp add: lost_def)
  then show ?case unfolding in_game_upd [OF in_game(2)] using in_game(3)
    by (intro lost_upd) (auto simp: lost_def SetSessionInGame_def cas_state_def disconnect_pending_def)
next
  case (disconnect i v env reason)
  have "sv_inv (sv_upd i (ss_Disconnect env reason) v)"
    using sv_step_inv [OF sv_step.disconnect [OF disconnect(1)]] disconnect(2) by (auto simp: lost_def)
  then show ?case using disconnect(2) by (intro lost_upd) (auto simp: lost_def Disconnect_same)
next
  case (disconnected v i env alive v')
  then have "sv_inv v" "k \<noteq> i" by (auto simp: lost_def)
  then show ?case using processDisconnect_inv [OF _ disconnected(1,2)] disconnected(3) by (auto simp: lost_def)
next
  case (reap i v env now a lastMs r v')
  have "sv_inv v'" using sv_step_inv [OF sv_step.reap [OF reap(1,2)]] reap(3) by (simp add: lost_def)
  then show ?case using reap_cases [OF reap(2)] reap(3)
    by (auto simp: sv_RegisterSessionReap_def lost_def Disconnect_same emit_def disconnect_pending_def
        intro!: lost_upd split: if_splits)
qed

definition fresh_sessions :: "(nat \<Rightarrow> Session) \<Rightarrow> bool" where
  "fresh_sessions factory \<longleftrightarrow> (\<forall>i. \<exists>mem dflt. factory i = ss_new mem dflt)"

definition sv_start :: "int \<Rightarrow> int option \<Rightarrow> bool \<Rightarrow> (nat \<Rightarrow> Session) \<Rightarrow> Service" where
  "sv_start maxSessions maxWait hasReaper factory =
     sv_new ServerType (sm_new maxSessions) hasReaper (map_option wq_new maxWait) factory"

lemma sv_start_inv: "fresh_sessions factory \<Longrightarrow> sv_inv (sv_start n w r factory)"
proof -
  assume f: "fresh_sessions factory"
  have "ss_events (factory i) = [] \<and> ss_mSessionState (factory i) = Disconnected \<and> \<not> cn_mpOwner (ss_mConnector (factory i))" for i
    using f [unfolded fresh_sessions_def, rule_format, of i] by (auto simp: ss_new_def)
  then show ?thesis
    by (auto simp: sv_inv_def sessions_ok_def count_ok_def places_ok_def sv_start_def sv_new_def sm_new_def members_def
        waiters_def wq_new_def sess_ok_def disconnect_pending_def split: option.split)
qed

lemma sv_steps_inv:
  assumes "sv_step\<^sup>*\<^sup>* v v'" "sv_inv v"
  shows "sv_inv v' \<and> sv_cfg v' = sv_cfg v"
  using assms by (induction rule: rtranclp_induct) (auto dest: sv_step_inv)

text \<open>A concrete server, for the instances: one session is created and its connect completes.\<close>

definition demo_env :: io_env where
  "demo_env = \<lparr>io_setReuseAddress = True, io_bindAnyAddress = True, io_connectEx = IoPending,
     io_disconnectEx = IoFailed 10057, io_wsaRecv = IoPending, io_wsaSend = IoPending\<rparr>"

definition demo_session :: Session where
  "demo_session = ss_new [] (sb_new 0 [])"

definition demo_created :: "int \<Rightarrow> Service" where
  "demo_created n = sv_upd 0 (\<lambda>s. ss_setSessionEvent (ss_setService s))
     ((sv_start n (Some 1) False (\<lambda>_. demo_session))\<lparr>sv_count := 1\<rparr>)"

lemma demo_fresh: "fresh_sessions (\<lambda>_. demo_session)"
  by (auto simp: fresh_sessions_def demo_session_def)

lemma demo_create: "sv_step (sv_start n (Some 1) False (\<lambda>_. demo_session)) (demo_created n)"
  by (rule sv_step.create [of True _ "Some 0"])
    (simp add: sv_CreateSession_def demo_created_def sv_start_def sv_new_def)

lemmas demo_defs = demo_created_def demo_session_def demo_env_def ss_new_def ss_setSessionEvent_def ss_setService_def
  session_defs sv_start_def sv_new_def sm_new_def sm_defs wq_new_def

lemma demo_connect:
  assumes "ss_processConnect demo_env (\<lambda>_. True) 0 (demo_created n) = ok v"
  shows "sv_step\<^sup>*\<^sup>* (sv_start n (Some 1) False (\<lambda>_. demo_session)) v"
proof -
  have "sv_step (demo_created n) v"
    by (rule sv_step.connect [OF _ _ assms]) (simp_all add: demo_defs)
  with demo_create [of n] show ?thesis by (meson converse_rtranclp_into_rtranclp rtranclp.rtrancl_refl)
qed

lemma demo_waits:
  "\<exists>v. ss_processConnect demo_env (\<lambda>_. True) 0 (demo_created 0) = ok v \<and>
     OnEnterWaitQueue 0 \<in> set (ss_events (sv_sessions v 0))"
  by (simp add: demo_defs ss_processConnect_def sv_AddSession_def wq_EnterWaitQueue_def sv_cas_def setSessionWaiting_def
      cas_state_def Let_def sv_RegisterSessionReap_def ss_registerReceive_def rc_Register_def sv_upd_def)

lemma demo_connects:
  "\<exists>v. ss_processConnect demo_env (\<lambda>_. True) 0 (demo_created 1) = ok v \<and>
     ss_mSessionState (sv_sessions v 0) = Connected \<and> 0 < sv_count v"
  by (simp add: demo_defs ss_processConnect_def sv_AddSession_def sv_cas_def setSessionConnected_def
      cas_state_def Let_def sv_RegisterSessionReap_def ss_registerReceive_def rc_Register_def sv_upd_def
      rb_new_def rb_GetFreeSize_def rb_GetUseSize_def rb_DEFAULT_BUFFER_SIZE_def)

subsection \<open>Properties of the server\<close>

text \<open>C15: Over any sequence of connects, disconnects, state changes, reaps and their completions the current session
  count of a server is the number of sessions in its manager and at most the maximum, every session that
  is Connected or InGame is one of them, and none is ever Waiting.\<close>

theorem server_counts_its_sessions:
  assumes "sv_step\<^sup>*\<^sup>* (sv_start maxSessions maxWait hasReaper factory) v" "fresh_sessions factory"
  shows "sv_GetCurrentSessionCount v = int (card (sm_mSessions (sv_mSessionManager v))) \<and>
    sv_GetCurrentSessionCount v \<le> max 0 maxSessions \<and>
    (\<forall>i. ss_mSessionState (sv_sessions v i) \<noteq> Disconnected \<longrightarrow>
       i \<in> sm_mSessions (sv_mSessionManager v) \<and> \<not> IsWaiting (ss_mSessionState (sv_sessions v i)))"
proof -
  have inv: "sv_inv v" "sv_cfg v = (maxSessions, maxSessions)"
    using sv_steps_inv [OF assms(1) sv_start_inv [OF assms(2)]]
    by (simp_all add: sv_cfg_def sv_start_def sv_new_def sm_new_def sm_defs)
  then have "places_ok (sv_mSessionManager v, 0)" "sm_mMaxSessionCount (sv_mSessionManager v) = maxSessions"
    by (simp_all add: sv_inv_def count_ok_def sv_cfg_def)
  moreover have "i \<in> sm_mSessions (sv_mSessionManager v) \<and> \<not> IsWaiting (ss_mSessionState (sv_sessions v i))"
    if "ss_mSessionState (sv_sessions v i) \<noteq> Disconnected" for i
    using sess_okD(1,2) [OF inv_session [OF inv(1)], of i] that by (auto simp: members_def IsWaiting_def)
  ultimately show ?thesis by (auto simp: places_ok_def sv_GetCurrentSessionCount_def sm_defs)
qed

lemma server_counts_its_sessions_witness:
  "\<exists>v. ss_mSessionState (sv_sessions v 0) = Connected \<and> 0 \<in> sm_mSessions (sv_mSessionManager v) \<and>
     sv_GetCurrentSessionCount v \<le> 1"
proof -
  obtain v where v: "ss_processConnect demo_env (\<lambda>_. True) 0 (demo_created 1) = ok v"
    "ss_mSessionState (sv_sessions v 0) = Connected" using demo_connects by auto
  show ?thesis
    using server_counts_its_sessions [OF demo_connect [OF v(1)] demo_fresh] v(2) by (intro exI [of _ v]) auto
qed

text \<open>C16: A client that has been sent to the wait queue is never let in: its session stays Disconnected, is never in
  the session manager and never gets OnConnected, whatever places become free.\<close>

theorem queued_client_is_never_connected:
  assumes "sv_step\<^sup>*\<^sup>* (sv_start maxSessions maxWait hasReaper factory) v" "fresh_sessions factory"
    and "OnEnterWaitQueue t \<in> set (ss_events (sv_sessions v i))"
  shows "OnConnected \<notin> set (ss_events (sv_sessions v i)) \<and> i \<notin> sm_mSessions (sv_mSessionManager v) \<and>
    ss_mSessionState (sv_sessions v i) = Disconnected"
proof -
  have inv: "sv_inv v" using sv_steps_inv [OF assms(1) sv_start_inv [OF assms(2)]] by simp
  have "entered es" if "OnEnterWaitQueue t \<in> set es" for es
    using that by (induction es rule: entered.induct) auto
  then show ?thesis
    using sess_okD(2,8) [OF inv_session [OF inv], of i] assms(3) by (auto simp: members_def)
qed

lemma queued_client_is_never_connected_witness:
  "\<exists>v. sv_step\<^sup>*\<^sup>* (sv_start 0 (Some 1) False (\<lambda>_. demo_session)) v \<and>
     OnEnterWaitQueue 0 \<in> set (ss_events (sv_sessions v 0)) \<and> ss_mSessionState (sv_sessions v 0) = Disconnected"
proof -
  obtain v where v: "ss_processConnect demo_env (\<lambda>_. True) 0 (demo_created 0) = ok v"
    "OnEnterWaitQueue 0 \<in> set (ss_events (sv_sessions v 0))" using demo_waits by auto
  show ?thesis
    using queued_client_is_never_connected [OF demo_connect [OF v(1)] demo_fresh v(2)] demo_connect [OF v(1)] v(2)
    by (intro exI [of _ v]) simp
qed

text \<open>When DisconnectEx fails at once for a connected session, its place is lost for good: the session is
  Disconnected but stays in the session manager, and counted, through every later sequence of steps.\<close>

theorem failed_disconnect_leaks_the_place:
  assumes start: "sv_step\<^sup>*\<^sup>* (sv_start maxSessions maxWait hasReaper factory) v" "fresh_sessions factory"
    and i: "i < sv_count v" "ss_mSessionState (sv_sessions v i) \<noteq> Disconnected"
    and fails: "io_disconnectEx env = IoFailed code"
    and later: "sv_step\<^sup>*\<^sup>* (sv_upd i (ss_Disconnect env reason) v) v'"
  shows "i \<in> sm_mSessions (sv_mSessionManager v') \<and> ss_mSessionState (sv_sessions v' i) = Disconnected"
proof -
  let ?v = "sv_upd i (ss_Disconnect env reason) v"
  have inv: "sv_inv v" using sv_steps_inv [OF start(1) sv_start_inv [OF start(2)]] by simp
  note k = sess_okD [OF inv_session [OF inv, of i]]
  have "posts (ss_events (ss_Disconnect env reason (sv_sessions v i))) = posts (ss_events (sv_sessions v i))"
    "dones (ss_events (ss_Disconnect env reason (sv_sessions v i))) = dones (ss_events (sv_sessions v i))"
    using i(2) fails by (simp_all add: ss_Disconnect_def setSessionDisconnected_def dc_Register_def dc_Clear_def emit_def Let_def)
  then have P: "lost i ?v"
    using i k(2,3) inv Disconnect_shape [OF i(2), of env reason]
    by (auto simp: lost_def disconnect_pending_def intro!: inv_upd Disconnect_ok inv_session)
  have "lost i v'"
    using later
    by (induction rule: rtranclp_induct) (auto intro: sv_step_lost P)
  then show ?thesis by (simp add: lost_def members_def)
qed

lemma failed_disconnect_leaks_the_place_witness:
  "\<exists>v. 0 \<in> sm_mSessions (sv_mSessionManager (sv_upd 0 (ss_Disconnect demo_env Kicked) v)) \<and>
     ss_mSessionState (sv_sessions v 0) = Connected \<and>
     ss_mSessionState (sv_sessions (sv_upd 0 (ss_Disconnect demo_env Kicked) v) 0) = Disconnected"
proof -
  obtain v where v: "ss_processConnect demo_env (\<lambda>_. True) 0 (demo_created 1) = ok v"
    "ss_mSessionState (sv_sessions v 0) = Connected" "0 < sv_count v" using demo_connects by auto
  have "io_disconnectEx demo_env = IoFailed 10057" by (simp add: demo_env_def)
  note l = failed_disconnect_leaks_the_place [OF demo_connect [OF v(1)] demo_fresh v(3) _ this rtranclp.rtrancl_refl, of Kicked]
  show ?thesis using l v(2) by (intro exI [of _ v]) simp
qed

end
