(* ===== verification/Concurrent_Runs.thy ===== *)
theory Concurrent_Runs
  imports Engine_Prelude
begin

text \<open>
  What the lock-free containers share: chains of nodes through next fields, the number of threads
  that are in a phase of their operation, sums over the threads, and the acceptance of a sequence of calls, effects and
  returns by a specification.
\<close>

subsection \<open>Paths through the next fields\<close>

fun path :: "(nat \<Rightarrow> nat option) \<Rightarrow> nat option \<Rightarrow> nat list \<Rightarrow> bool" where
  "path nxt p [] \<longleftrightarrow> p = None"
| "path nxt p (n # ns) \<longleftrightarrow> p = Some n \<and> path nxt (nxt n) ns"

lemma path_upd [simp]: "n \<notin> set ns \<Longrightarrow> path (nxt(n := x)) p ns \<longleftrightarrow> path nxt p ns"
  by (induction ns arbitrary: p) auto

lemma path_None [simp]: "path nxt None ns \<longleftrightarrow> ns = []"
  by (cases ns) auto

lemma path_Some: "path nxt (Some n) ns \<longleftrightarrow> (\<exists>ms. ns = n # ms \<and> path nxt (nxt n) ms)"
  by (cases ns) auto

subsection \<open>Counting the threads in a phase\<close>

text \<open>A thread is idle (\<open>None\<close>) or has a program counter.\<close>

definition threads_in :: "('p option \<Rightarrow> bool) \<Rightarrow> (nat \<Rightarrow> 'p option) \<Rightarrow> nat" where
  "threads_in P L = card {t. P (L t)}"

definition finite_loops :: "(nat \<Rightarrow> 'p option) \<Rightarrow> bool" where
  "finite_loops L \<longleftrightarrow> finite {t. L t \<noteq> None}"

lemma threads_in_upd:
  assumes "finite_loops L" "\<not> P None"
  shows "threads_in P (L(t := x)) + of_bool (P (L t)) = threads_in P L + of_bool (P x)"
proof -
  let ?R = "{u. u \<noteq> t \<and> P (L u)}"
  have "{u. P (L u)} \<subseteq> {u. L u \<noteq> None}" using assms(2) by (metis (mono_tags, lifting) mem_Collect_eq subsetI)
  then have fin: "finite {u. P (L u)}" using assms(1) by (auto simp: finite_loops_def intro: finite_subset)
  then have finR: "finite ?R" by (rule finite_subset [rotated]) auto
  have "{u. P ((L(t := x)) u)} = (if P x then insert t ?R else ?R)" by auto
  moreover have "{u. P (L u)} = (if P (L t) then insert t ?R else ?R)" by auto
  ultimately show ?thesis using finR by (simp add: threads_in_def)
qed

lemma threads_in_none [simp]: "\<not> P None \<Longrightarrow> threads_in P (\<lambda>_. None) = 0"
  by (simp add: threads_in_def)

lemma finite_loops_upd [simp]: "finite_loops L \<Longrightarrow> finite_loops (L(t := x))"
proof -
  assume "finite_loops L"
  moreover have "{u. (L(t := x)) u \<noteq> None} \<subseteq> insert t {u. L u \<noteq> None}" by auto
  ultimately show ?thesis unfolding finite_loops_def by (meson finite.insertI finite_subset)
qed

lemma threads_in_pos:
  assumes "finite_loops L" "\<not> P None" "P (L t)"
  shows "0 < threads_in P L"
  using threads_in_upd [where P = P and L = L and t = t and x = None, OF assms(1,2)] assms(2,3) by simp

subsection \<open>Summing over the threads\<close>

definition gathered :: "('p option \<Rightarrow> 'm) \<Rightarrow> (nat \<Rightarrow> 'p option) \<Rightarrow> 'm::comm_monoid_add" where
  "gathered f L = (\<Sum>t | L t \<noteq> None. f (L t))"

lemma gathered_upd:
  assumes "finite_loops L" "f None = 0"
  shows "gathered f (L(t := x)) + f (L t) = gathered f L + f x"
proof -
  let ?R = "{u. L u \<noteq> None} - {t}"
  have fin: "finite {u. L u \<noteq> None}" using assms(1) by (simp add: finite_loops_def)
  have rest: "(\<Sum>u \<in> ?R. f ((L(t := x)) u)) = (\<Sum>u \<in> ?R. f (L u))" by (rule sum.cong) auto
  have split: "(\<Sum>u | M u \<noteq> None. f (M u)) = f (M t) + (\<Sum>u \<in> {u. M u \<noteq> None} - {t}. f (M u))"
    if "finite {u. M u \<noteq> None}" for M
  proof (cases "M t = None")
    case True
    then show ?thesis using assms(2) by (simp add: Diff_triv)
  qed (use that in \<open>simp add: sum.remove\<close>)
  have "{u. (L(t := x)) u \<noteq> None} - {t} = ?R" by auto
  moreover have "finite {u. (L(t := x)) u \<noteq> None}"
    using finite_loops_upd [OF assms(1)] by (simp add: finite_loops_def)
  ultimately show ?thesis
    unfolding gathered_def using split [of L] split [of "L(t := x)"] fin rest by (simp add: ac_simps)
qed

lemma gathered_none [simp]: "gathered f (\<lambda>_. None) = 0"
  by (simp add: gathered_def)

subsection \<open>Sequences that a specification accepts\<close>

fun accepts :: "('s \<Rightarrow> 'b \<Rightarrow> 's option) \<Rightarrow> 's \<Rightarrow> 'b list \<Rightarrow> 's option" where
  "accepts f s [] = Some s"
| "accepts f s (b # bs) = (case f s b of None \<Rightarrow> None | Some s' \<Rightarrow> accepts f s' bs)"

lemma accepts_append [simp]:
  "accepts f s (bs @ cs) = (case accepts f s bs of None \<Rightarrow> None | Some s' \<Rightarrow> accepts f s' cs)"
  by (induction f s bs rule: accepts.induct) (auto split: option.splits)

definition acts_of :: "nat \<Rightarrow> (nat \<times> 'b) list \<Rightarrow> 'b list" where
  "acts_of t acts = map snd (filter (\<lambda>(u, a). u = t) acts)"

lemma acts_of_simps [simp]:
  "acts_of t [] = []" "acts_of t (acts @ bs) = acts_of t acts @ acts_of t bs"
  "acts_of t (map (Pair u) as) = (if u = t then as else [])"
  by (auto simp: acts_of_def filter_map comp_def)

end
