(* ===== verification/Concurrent_Queue.thy ===== *)
theory Concurrent_Queue
  imports Lock_Free_Queue Concurrent_Runs
begin

text \<open>
  LockFreeQueue (LockFreeQueue.h), run by any number of threads: \<open>cq_TryEnqueue_step\<close>,
  \<open>cq_moveTail_step\<close> and \<open>cq_TryDequeue_step\<close> execute the next access to shared memory of a thread
  that is inside of the operation. Memory is sequentially consistent here, the signed tags do not
  reach \<open>2 ^ 63\<close>, and the two halves of a \<open>Node16\<close> are read one after the other, as the code reads
  them. The ObjectAllocator is a parameter: it hands out a node that is not live, and the memory of a
  node that is not live may change at any time.
\<close>

subsection \<open>State and program counters\<close>

record 'a ConcurrentQueue =
  cq_mMaxCount :: int
  cq_mCount :: int
  cq_mHead :: Node16
  cq_mTail :: Node16
  cq_next :: "nat \<Rightarrow> nat option"
  cq_data :: "nat \<Rightarrow> 'a"
  cq_live :: "nat set"
  cq_zero :: 'a

text \<open>The constructor with its dummy node \<open>n\<close>; \<open>dflt\<close> is the value-initialised \<open>T\<close>.\<close>

definition cq_new :: "'a \<Rightarrow> int \<Rightarrow> nat \<Rightarrow> (nat \<Rightarrow> nat option) \<Rightarrow> (nat \<Rightarrow> 'a) \<Rightarrow> 'a ConcurrentQueue" where
  "cq_new dflt maxCount n nxt dat =
     \<lparr>cq_mMaxCount = maxCount, cq_mCount = 0,
      cq_mHead = \<lparr>n16_pNode = Some n, n16_count = 0\<rparr>, cq_mTail = \<lparr>n16_pNode = Some n, n16_count = 0\<rparr>,
      cq_next = nxt(n := None), cq_data = dat(n := dflt), cq_live = {n}, cq_zero = dflt\<rparr>"

definition cq_Count :: "'a ConcurrentQueue \<Rightarrow> int" where
  "cq_Count s = cq_mCount s"

text \<open>
  Where \<open>moveTail\<close> was called: after a successful link, after a failed attempt to link a node, or in
  \<open>TryDequeue\<close>, whose local variables are \<open>expected\<close>, \<open>desired\<close> and what has been written to
  \<open>outData\<close>.
\<close>

datatype 'a cq_caller = AfterLink | AfterRetry nat | AfterEqual Node16 Node16 "'a option"

datatype 'a cq_pc =
    EnqCheck 'a | EnqNew 'a | EnqData nat 'a | EnqNull nat | EnqTail nat | EnqNext nat "nat option"
  | EnqRef nat "nat option" | EnqCas nat nat | EnqAdd
  | MoveCount "'a cq_caller" | MoveNode int "'a cq_caller" | MoveNext Node16 "'a cq_caller"
  | MoveCas Node16 Node16 "'a cq_caller"
  | DeqSub | DeqUndo
  | DeqHead Node16 Node16 "'a option" | DeqTail "nat option" Node16 Node16 "'a option"
  | DeqCount Node16 Node16 "'a option" | DeqNode Node16 Node16 "'a option"
  | DeqNext Node16 Node16 "'a option" | DeqData Node16 Node16 "'a option"
  | DeqCas Node16 Node16 "'a option" | DeqDelete "nat option" "'a option"

datatype 'a cq_ret = EnqRet bool | DeqRet bool "'a option"

datatype 'a cq_next = CqGoto "'a cq_pc" | CqReturn "'a cq_ret" | CqFault

definition node16_zero :: Node16 where
  "node16_zero = \<lparr>n16_pNode = None, n16_count = 0\<rparr>"

subsection \<open>The steps of the operations\<close>

text \<open>\<open>weak\<close> is a failure of the weak compare-exchange without a reason.\<close>

fun cq_TryEnqueue_step :: "bool \<Rightarrow> nat \<Rightarrow> 'a cq_pc \<Rightarrow> 'a ConcurrentQueue \<Rightarrow> 'a cq_next \<times> 'a ConcurrentQueue" where
  "cq_TryEnqueue_step weak fresh (EnqCheck d) s =
     (if cq_mMaxCount s \<le> cq_mCount s then CqReturn (EnqRet False) else CqGoto (EnqNew d), s)"
| "cq_TryEnqueue_step weak fresh (EnqNew d) s =
     (CqGoto (EnqData fresh d),
      s\<lparr>cq_next := (cq_next s)(fresh := None), cq_data := (cq_data s)(fresh := cq_zero s),
        cq_live := insert fresh (cq_live s)\<rparr>)"
| "cq_TryEnqueue_step weak fresh (EnqData n d) s =
     (CqGoto (EnqNull n), s\<lparr>cq_data := (cq_data s)(n := d)\<rparr>)"
| "cq_TryEnqueue_step weak fresh (EnqNull n) s =
     (CqGoto (EnqTail n), s\<lparr>cq_next := (cq_next s)(n := None)\<rparr>)"
| "cq_TryEnqueue_step weak fresh (EnqTail n) s = (CqGoto (EnqNext n (n16_pNode (cq_mTail s))), s)"
| "cq_TryEnqueue_step weak fresh (EnqNext n t) s =
     (case t of None \<Rightarrow> CqFault | Some a \<Rightarrow> CqGoto (EnqRef n (cq_next s a)), s)"
| "cq_TryEnqueue_step weak fresh (EnqRef n pExpected) s =
     (case n16_pNode (cq_mTail s) of None \<Rightarrow> CqFault
      | Some a \<Rightarrow> if pExpected = None then CqGoto (EnqCas n a) else CqGoto (MoveCount (AfterRetry n)), s)"
| "cq_TryEnqueue_step weak fresh (EnqCas n a) s =
     (if \<not> weak \<and> cq_next s a = None
      then (CqGoto (MoveCount AfterLink), s\<lparr>cq_next := (cq_next s)(a := Some n)\<rparr>)
      else (CqGoto (MoveCount (AfterRetry n)), s))"
| "cq_TryEnqueue_step weak fresh EnqAdd s =
     (CqReturn (EnqRet True), s\<lparr>cq_mCount := cq_mCount s + 1\<rparr>)"
| "cq_TryEnqueue_step weak fresh pc s = (CqGoto pc, s)"

fun cq_return_to :: "'a cq_caller \<Rightarrow> 'a cq_pc" where
  "cq_return_to AfterLink = EnqAdd"
| "cq_return_to (AfterRetry n) = EnqTail n"
| "cq_return_to (AfterEqual e d out) = DeqCas e d out"

fun cq_moveTail_step :: "bool \<Rightarrow> 'a cq_pc \<Rightarrow> 'a ConcurrentQueue \<Rightarrow> 'a cq_next \<times> 'a ConcurrentQueue" where
  "cq_moveTail_step weak (MoveCount k) s = (CqGoto (MoveNode (n16_count (cq_mTail s)) k), s)"
| "cq_moveTail_step weak (MoveNode c k) s =
     (CqGoto (MoveNext \<lparr>n16_pNode = n16_pNode (cq_mTail s), n16_count = c\<rparr> k), s)"
| "cq_moveTail_step weak (MoveNext e k) s =
     (case n16_pNode e of None \<Rightarrow> CqFault
      | Some a \<Rightarrow>
          (case cq_next s a of
             None \<Rightarrow> CqGoto (cq_return_to k)
           | Some b \<Rightarrow> CqGoto (MoveCas e \<lparr>n16_pNode = Some b, n16_count = n16_count e + 1\<rparr> k)), s)"
| "cq_moveTail_step weak (MoveCas e d k) s =
     (CqGoto (cq_return_to k), if \<not> weak \<and> cq_mTail s = e then s\<lparr>cq_mTail := d\<rparr> else s)"
| "cq_moveTail_step weak pc s = (CqGoto pc, s)"

text \<open>
  A \<open>continue\<close> of the \<open>do ... while\<close> goes to the compare-exchange of its condition, with the local
  variables as they are; a failed compare-exchange stores the value it found in \<open>expected\<close>.
\<close>

fun cq_TryDequeue_step :: "bool \<Rightarrow> 'a cq_pc \<Rightarrow> 'a ConcurrentQueue \<Rightarrow> 'a cq_next \<times> 'a ConcurrentQueue" where
  "cq_TryDequeue_step weak DeqSub s =
     (CqGoto (if cq_mCount s \<le> 0 then DeqUndo else DeqHead node16_zero node16_zero None),
      s\<lparr>cq_mCount := cq_mCount s - 1\<rparr>)"
| "cq_TryDequeue_step weak DeqUndo s = (CqReturn (DeqRet False None), s\<lparr>cq_mCount := cq_mCount s + 1\<rparr>)"
| "cq_TryDequeue_step weak (DeqHead e d out) s = (CqGoto (DeqTail (n16_pNode (cq_mHead s)) e d out), s)"
| "cq_TryDequeue_step weak (DeqTail h e d out) s =
     (CqGoto (if h = n16_pNode (cq_mTail s) then MoveCount (AfterEqual e d out) else DeqCount e d out), s)"
| "cq_TryDequeue_step weak (DeqCount e d out) s =
     (CqGoto (DeqNode (e\<lparr>n16_count := n16_count (cq_mHead s)\<rparr>) d out), s)"
| "cq_TryDequeue_step weak (DeqNode e d out) s =
     (let e' = e\<lparr>n16_pNode := n16_pNode (cq_mHead s)\<rparr> in
      CqGoto (if n16_pNode e' = None then DeqCas e' d out else DeqNext e' d out), s)"
| "cq_TryDequeue_step weak (DeqNext e d out) s =
     (case n16_pNode e of None \<Rightarrow> CqFault
      | Some a \<Rightarrow>
          (let d' = \<lparr>n16_pNode = cq_next s a, n16_count = n16_count e + 1\<rparr> in
           CqGoto (if n16_pNode d' = None then DeqCas e d' out else DeqData e d' out)), s)"
| "cq_TryDequeue_step weak (DeqData e d out) s =
     (case n16_pNode d of None \<Rightarrow> CqFault | Some b \<Rightarrow> CqGoto (DeqCas e d (Some (cq_data s b))), s)"
| "cq_TryDequeue_step weak (DeqCas e d out) s =
     (if \<not> weak \<and> cq_mHead s = e then (CqGoto (DeqDelete (n16_pNode e) out), s\<lparr>cq_mHead := d\<rparr>)
      else (CqGoto (DeqHead (cq_mHead s) d out), s))"
| "cq_TryDequeue_step weak (DeqDelete p out) s =
     (CqReturn (DeqRet True out), case p of None \<Rightarrow> s | Some n \<Rightarrow> s\<lparr>cq_live := cq_live s - {n}\<rparr>)"
| "cq_TryDequeue_step weak pc s = (CqGoto pc, s)"

fun in_enqueue :: "'a cq_pc \<Rightarrow> bool" where
  "in_enqueue (EnqCheck d) = True" | "in_enqueue (EnqNew d) = True" | "in_enqueue (EnqData n d) = True"
| "in_enqueue (EnqNull n) = True" | "in_enqueue (EnqTail n) = True" | "in_enqueue (EnqNext n t) = True"
| "in_enqueue (EnqRef n p) = True" | "in_enqueue (EnqCas n a) = True" | "in_enqueue EnqAdd = True"
| "in_enqueue pc = False"

fun in_moveTail :: "'a cq_pc \<Rightarrow> bool" where
  "in_moveTail (MoveCount k) = True" | "in_moveTail (MoveNode c k) = True"
| "in_moveTail (MoveNext e k) = True" | "in_moveTail (MoveCas e d k) = True"
| "in_moveTail pc = False"

definition cq_thread_step :: "bool \<Rightarrow> nat \<Rightarrow> 'a cq_pc \<Rightarrow> 'a ConcurrentQueue \<Rightarrow> 'a cq_next \<times> 'a ConcurrentQueue" where
  "cq_thread_step weak fresh pc s =
     (if in_enqueue pc then cq_TryEnqueue_step weak fresh pc s
      else if in_moveTail pc then cq_moveTail_step weak pc s
      else cq_TryDequeue_step weak pc s)"

text \<open>The destructor: \<open>Clear\<close> from the head along the next pointers; \<open>Inl n\<close> when it reaches a dead node.\<close>

partial_function (option) cq_clear_loop :: "nat option \<Rightarrow> 'a ConcurrentQueue \<Rightarrow> (nat + 'a ConcurrentQueue) option" where
  "cq_clear_loop p s =
     (case p of
        None \<Rightarrow> Some (Inr s)
      | Some n \<Rightarrow>
          if n \<notin> cq_live s then Some (Inl n)
          else cq_clear_loop (cq_next s n) (s\<lparr>cq_live := cq_live s - {n}\<rparr>))"

definition cq_destroy :: "'a ConcurrentQueue \<Rightarrow> (nat + 'a ConcurrentQueue) option" where
  "cq_destroy s = cq_clear_loop (n16_pNode (cq_mHead s)) s"

subsection \<open>Runs of many threads\<close>

text \<open>An enqueue takes effect when it links its node, a dequeue when it swings the head.\<close>

datatype 'a cq_act = CallEnq 'a | CallDeq | LinEnq 'a | LinDeq "'a option" | CqRet "'a cq_ret"

fun cq_lin :: "'a cq_pc \<Rightarrow> 'a cq_pc \<Rightarrow> 'a ConcurrentQueue \<Rightarrow> 'a cq_act list" where
  "cq_lin (EnqCas n a) (MoveCount AfterLink) s = [LinEnq (cq_data s n)]"
| "cq_lin (DeqCas e d out) (DeqDelete p out') s = [LinDeq out]"
| "cq_lin pc pc' s = []"

type_synonym 'a cq_system = "'a ConcurrentQueue \<times> (nat \<Rightarrow> 'a cq_pc option)"

text \<open>
  The node whose next pointer a thread is about to compare and exchange; the compare-exchange of
  \<open>moveTail\<close>. In a \<open>careful\<close> run, the memory of such a node is neither handed out again nor
  overwritten while the thread is there, and the compare-exchange of \<open>moveTail\<close> does not fail without a
  reason.
\<close>

fun aims :: "'a cq_pc option \<Rightarrow> nat option" where
  "aims (Some (EnqCas n a)) = Some a"
| "aims pc = None"

definition aimed :: "(nat \<Rightarrow> 'a cq_pc option) \<Rightarrow> nat \<Rightarrow> bool" where
  "aimed pcs n \<longleftrightarrow> (\<exists>t. aims (pcs t) = Some n)"

inductive cq_step :: "bool \<Rightarrow> 'a cq_system \<Rightarrow> (nat \<times> 'a cq_act list) \<Rightarrow> 'a cq_system \<Rightarrow> bool" for careful where
  call_enq: "pcs t = None \<Longrightarrow> cq_step careful (s, pcs) (t, [CallEnq d]) (s, pcs(t := Some (EnqCheck d)))"
| call_deq: "pcs t = None \<Longrightarrow> cq_step careful (s, pcs) (t, [CallDeq]) (s, pcs(t := Some DeqSub))"
| run: "pcs t = Some pc \<Longrightarrow> n \<notin> cq_live s \<Longrightarrow> careful \<longrightarrow> \<not> aimed pcs n \<and> \<not> (weak \<and> in_moveTail pc) \<Longrightarrow>
    cq_thread_step weak n pc s = (CqGoto pc', s') \<Longrightarrow>
    cq_step careful (s, pcs) (t, cq_lin pc pc' s) (s', pcs(t := Some pc'))"
| ret: "pcs t = Some pc \<Longrightarrow> n \<notin> cq_live s \<Longrightarrow> cq_thread_step weak n pc s = (CqReturn r, s') \<Longrightarrow>
    cq_step careful (s, pcs) (t, [CqRet r]) (s', pcs(t := None))"
| reuse: "n \<notin> cq_live s \<Longrightarrow> careful \<longrightarrow> \<not> aimed pcs n \<Longrightarrow>
    cq_step careful (s, pcs) (t, []) (s\<lparr>cq_next := (cq_next s)(n := x), cq_data := (cq_data s)(n := d)\<rparr>, pcs)"

inductive cq_run :: "bool \<Rightarrow> 'a cq_system \<Rightarrow> (nat \<times> 'a cq_act) list \<Rightarrow> 'a cq_system \<Rightarrow> bool" for careful where
  start: "cq_run careful c [] c"
| snoc: "cq_run careful c acts c' \<Longrightarrow> cq_step careful c' (t, as) c'' \<Longrightarrow>
    cq_run careful c (acts @ map (Pair t) as) c''"

subsection \<open>The specification: a linearizable queue\<close>

fun fifo_after :: "'a list \<Rightarrow> 'a cq_act \<Rightarrow> 'a list option" where
  "fifo_after q (LinEnq d) = Some (q @ [d])"
| "fifo_after q (LinDeq v) = (case q of [] \<Rightarrow> None | x # xs \<Rightarrow> if v = Some x then Some xs else None)"
| "fifo_after q a = Some q"

datatype 'a cq_phase = QIdle | Enqueuing 'a | HasEnqueued | Dequeuing | HasDequeued "'a option"

fun cq_phase_after :: "'a cq_phase \<Rightarrow> 'a cq_act \<Rightarrow> 'a cq_phase option" where
  "cq_phase_after QIdle (CallEnq d) = Some (Enqueuing d)"
| "cq_phase_after QIdle CallDeq = Some Dequeuing"
| "cq_phase_after (Enqueuing d) (LinEnq d') = (if d = d' then Some HasEnqueued else None)"
| "cq_phase_after (Enqueuing d) (CqRet (EnqRet False)) = Some QIdle"
| "cq_phase_after HasEnqueued (CqRet (EnqRet True)) = Some QIdle"
| "cq_phase_after Dequeuing (LinDeq v) = Some (HasDequeued v)"
| "cq_phase_after Dequeuing (CqRet (DeqRet False v)) = Some QIdle"
| "cq_phase_after (HasDequeued v) (CqRet (DeqRet True w)) = (if v = w then Some QIdle else None)"
| "cq_phase_after ph a = None"

definition linearizable_queue :: "(nat \<times> 'a cq_act) list \<Rightarrow> bool" where
  "linearizable_queue acts \<longleftrightarrow>
     accepts fifo_after [] (map snd acts) \<noteq> None \<and> (\<forall>t. accepts cq_phase_after QIdle (acts_of t acts) \<noteq> None)"

end
