(* ===== verification/Concurrent_Sender.thy ===== *)
theory Concurrent_Sender
  imports Concurrent_Runs "HOL-Library.Multiset" "HOL-Library.Sublist"
begin

text \<open>
  Sender (Sender.cpp), run by any number of threads: \<open>Send\<close> in the threads of the game logic, \<open>Process\<close> in
  the worker that takes the completion. One step for each access to what the threads share: the owner, the
  state of the session, the flag \<open>mbSendRegistered\<close> and the queue. The queue is the list of its linked
  elements with \<open>mCount\<close> beside it, which \<open>TryEnqueue\<close> counts up after it has linked and \<open>TryDequeue\<close>
  counts down before it looks for a node, as in Concurrent_Queue. Buffers are not null, and the callbacks
  \<open>OnSend\<close> and \<open>OnError\<close> do not use the sender.
\<close>

subsection \<open>State and program counters\<close>

record 'b shared_sender =
  csn_mpOwner :: bool
  csn_disconnected :: bool
  csn_mbSendRegistered :: bool
  csn_mSendPendingBuffer :: "'b list"
  csn_links :: "'b list"
  csn_mCount :: int
  csn_mMaxCount :: int
  csn_freed :: bool
  csn_called :: "'b list"
  csn_linked :: "'b list"
  csn_sent :: "'b list list"
  csn_outstanding :: nat

text \<open>
  The last four are history: the arguments of all calls of Send, what has been linked, the batches given to
  WSASend, and the sends whose completion has not been taken yet.
\<close>

definition csn_new :: "int \<Rightarrow> 'b shared_sender" where
  "csn_new maxCount =
     \<lparr>csn_mpOwner = True, csn_disconnected = False, csn_mbSendRegistered = False, csn_mSendPendingBuffer = [],
      csn_links = [], csn_mCount = 0, csn_mMaxCount = maxCount, csn_freed = False,
      csn_called = [], csn_linked = [], csn_sent = [], csn_outstanding = 0\<rparr>"

text \<open>What follows a check of the owner, and a Clear.\<close>

datatype 'b csn_check = ToEnqueue 'b | ToExchange | ToProcess nat

datatype 'b csn_clear = ToReturn | ToDisconnect 'b

datatype 'b csn_pc =
    CheckOwner "'b csn_check" | CheckOpen "'b csn_check"
  | QueueCheck 'b | QueueLink 'b | QueueAdd
  | Exchange | QueueSub "'b list" | QueueUndo "'b list" | QueueTake "'b list"
  | LowerFlag | LookAgain | Post "'b list" | PostFailed "'b list"
  | Completed nat | Bytes nat | LowerFlagAndLook
  | ClearOwner "'b csn_clear" | ClearPending "'b csn_clear" | ClearFlag "'b csn_clear" | ClearQueue "'b csn_clear"
  | AfterClear

datatype 'b csn_next = SndGoto "'b csn_pc" | SndReturn | SndFault

definition csn_MAX_SEND_WSABUF_SIZE :: nat where "csn_MAX_SEND_WSABUF_SIZE = 64"

subsection \<open>The steps of the operations\<close>

text \<open>The condition \<open>mpOwner == nullptr || mpOwner->IsDisconnected()\<close> reads the owner twice.\<close>

fun csn_check_step :: "'b csn_pc \<Rightarrow> 'b shared_sender \<Rightarrow> 'b csn_next" where
  "csn_check_step (CheckOwner k) s = SndGoto (if csn_mpOwner s then CheckOpen k else ClearOwner ToReturn)"
| "csn_check_step (CheckOpen k) s =
     (if \<not> csn_mpOwner s then SndFault
      else if csn_disconnected s then SndGoto (ClearOwner ToReturn)
      else SndGoto (case k of ToEnqueue x \<Rightarrow> QueueCheck x | ToExchange \<Rightarrow> Exchange | ToProcess n \<Rightarrow> Bytes n))"
| "csn_check_step pc s = SndGoto pc"

text \<open>Send after the check; a link to a queue that Clear has freed is a fault.\<close>

fun csn_Send_step :: "'b csn_pc \<Rightarrow> 'b shared_sender \<Rightarrow> 'b csn_next \<times> 'b shared_sender" where
  "csn_Send_step (QueueCheck x) s =
     (SndGoto (if csn_mMaxCount s \<le> csn_mCount s then ClearOwner (ToDisconnect x) else QueueLink x), s)"
| "csn_Send_step (QueueLink x) s =
     (if csn_freed s then (SndFault, s)
      else (SndGoto QueueAdd, s\<lparr>csn_links := csn_links s @ [x], csn_linked := csn_linked s @ [x]\<rparr>))"
| "csn_Send_step QueueAdd s = (SndGoto (CheckOwner ToExchange), s\<lparr>csn_mCount := csn_mCount s + 1\<rparr>)"
| "csn_Send_step AfterClear s =
     (if csn_mpOwner s then (SndReturn, s\<lparr>csn_disconnected := True\<rparr>) else (SndFault, s))"
| "csn_Send_step pc s = (SndGoto pc, s)"

text \<open>
  Register after the check. The list is \<open>wsabufs\<close> so far, and \<open>accepted\<close> is the answer of WSASend (true, or
  false with \<open>WSA_IO_PENDING\<close>). A dequeue that has been counted waits until it finds a node.
\<close>

definition dequeue_next :: "'b list \<Rightarrow> 'b csn_next" where
  "dequeue_next bs = SndGoto (if length bs < csn_MAX_SEND_WSABUF_SIZE then QueueSub bs else Post bs)"

fun csn_Register_step :: "bool \<Rightarrow> 'b csn_pc \<Rightarrow> 'b shared_sender \<Rightarrow> 'b csn_next \<times> 'b shared_sender" where
  "csn_Register_step accepted Exchange s =
     (if csn_mbSendRegistered s then SndReturn else dequeue_next [], s\<lparr>csn_mbSendRegistered := True\<rparr>)"
| "csn_Register_step accepted (QueueSub bs) s =
     (SndGoto (if csn_mCount s \<le> 0 then QueueUndo bs else QueueTake bs), s\<lparr>csn_mCount := csn_mCount s - 1\<rparr>)"
| "csn_Register_step accepted (QueueUndo bs) s =
     (SndGoto (if bs = [] then LowerFlag else Post bs), s\<lparr>csn_mCount := csn_mCount s + 1\<rparr>)"
| "csn_Register_step accepted (QueueTake bs) s =
     (if csn_freed s then (SndFault, s)
      else (case csn_links s of
              [] \<Rightarrow> (SndGoto (QueueTake bs), s)
            | x # xs \<Rightarrow> (dequeue_next (bs @ [x]),
                s\<lparr>csn_links := xs, csn_mSendPendingBuffer := csn_mSendPendingBuffer s @ [x]\<rparr>)))"
| "csn_Register_step accepted LowerFlag s = (SndGoto LookAgain, s\<lparr>csn_mbSendRegistered := False\<rparr>)"
| "csn_Register_step accepted LookAgain s = (if csn_mCount s = 0 then SndReturn else SndGoto (CheckOwner ToExchange), s)"
| "csn_Register_step accepted (Post bs) s =
     (if \<not> csn_mpOwner s then (SndFault, s)
      else if accepted then (SndReturn, s\<lparr>csn_sent := csn_sent s @ [bs], csn_outstanding := csn_outstanding s + 1\<rparr>)
      else (SndGoto (PostFailed bs), s))"
| "csn_Register_step accepted (PostFailed bs) s =
     (if \<not> csn_mpOwner s then (SndFault, s) else (SndGoto (ClearOwner ToReturn), s\<lparr>csn_disconnected := True\<rparr>))"
| "csn_Register_step accepted pc s = (SndGoto pc, s)"

text \<open>Process; its last lines are those of \<open>LowerFlag\<close> and \<open>LookAgain\<close>.\<close>

fun csn_Process_step :: "'b csn_pc \<Rightarrow> 'b shared_sender \<Rightarrow> 'b csn_next \<times> 'b shared_sender" where
  "csn_Process_step (Completed n) s = (SndGoto (CheckOwner (ToProcess n)), s\<lparr>csn_mSendPendingBuffer := []\<rparr>)"
| "csn_Process_step (Bytes n) s =
     (if \<not> csn_mpOwner s then (SndFault, s)
      else if n = 0 then (SndGoto (ClearOwner ToReturn), s\<lparr>csn_disconnected := True\<rparr>)
      else (SndGoto LowerFlagAndLook, s))"
| "csn_Process_step LowerFlagAndLook s = (SndGoto LookAgain, s\<lparr>csn_mbSendRegistered := False\<rparr>)"
| "csn_Process_step pc s = (SndGoto pc, s)"

text \<open>Clear frees the nodes of the queue and leaves its members; a second time it frees them again.\<close>

fun csn_Clear_step :: "'b csn_pc \<Rightarrow> 'b shared_sender \<Rightarrow> 'b csn_next \<times> 'b shared_sender" where
  "csn_Clear_step (ClearOwner k) s = (SndGoto (ClearPending k), s\<lparr>csn_mpOwner := False\<rparr>)"
| "csn_Clear_step (ClearPending k) s = (SndGoto (ClearFlag k), s\<lparr>csn_mSendPendingBuffer := []\<rparr>)"
| "csn_Clear_step (ClearFlag k) s = (SndGoto (ClearQueue k), s\<lparr>csn_mbSendRegistered := False\<rparr>)"
| "csn_Clear_step (ClearQueue k) s =
     (if csn_freed s then (SndFault, s)
      else (case k of ToReturn \<Rightarrow> SndReturn | ToDisconnect x \<Rightarrow> SndGoto AfterClear, s\<lparr>csn_freed := True\<rparr>))"
| "csn_Clear_step pc s = (SndGoto pc, s)"

definition csn_thread_step :: "bool \<Rightarrow> 'b csn_pc \<Rightarrow> 'b shared_sender \<Rightarrow> 'b csn_next \<times> 'b shared_sender" where
  "csn_thread_step accepted pc s =
     (case pc of
        CheckOwner k \<Rightarrow> (csn_check_step pc s, s) | CheckOpen k \<Rightarrow> (csn_check_step pc s, s)
      | QueueCheck x \<Rightarrow> csn_Send_step pc s | QueueLink x \<Rightarrow> csn_Send_step pc s | QueueAdd \<Rightarrow> csn_Send_step pc s
      | AfterClear \<Rightarrow> csn_Send_step pc s
      | Completed n \<Rightarrow> csn_Process_step pc s | Bytes n \<Rightarrow> csn_Process_step pc s | LowerFlagAndLook \<Rightarrow> csn_Process_step pc s
      | ClearOwner k \<Rightarrow> csn_Clear_step pc s | ClearPending k \<Rightarrow> csn_Clear_step pc s
      | ClearFlag k \<Rightarrow> csn_Clear_step pc s | ClearQueue k \<Rightarrow> csn_Clear_step pc s
      | _ \<Rightarrow> csn_Register_step accepted pc s)"

subsection \<open>Runs of many threads\<close>

type_synonym 'b csn_system = "'b shared_sender \<times> (nat \<Rightarrow> 'b csn_pc option)"

fun csn_goto :: "'b csn_next \<Rightarrow> 'b csn_pc option" where
  "csn_goto (SndGoto pc) = Some pc"
| "csn_goto r = None"

inductive csn_step :: "'b csn_system \<Rightarrow> 'b csn_system \<Rightarrow> bool" where
  call: "pcs t = None \<Longrightarrow>
    csn_step (s, pcs) (s\<lparr>csn_called := csn_called s @ [x]\<rparr>, pcs(t := Some (CheckOwner (ToEnqueue x))))"
| complete: "pcs t = None \<Longrightarrow> csn_outstanding s = Suc k \<Longrightarrow>
    csn_step (s, pcs) (s\<lparr>csn_outstanding := k\<rparr>, pcs(t := Some (Completed n)))"
| disconnect: "csn_step (s, pcs) (s\<lparr>csn_disconnected := True\<rparr>, pcs)"
| run: "pcs t = Some pc \<Longrightarrow> csn_thread_step accepted pc s = (r, s') \<Longrightarrow> r \<noteq> SndFault \<Longrightarrow>
    csn_step (s, pcs) (s', pcs(t := csn_goto r))"

definition is_open :: "'b shared_sender \<Rightarrow> bool" where
  "is_open s \<longleftrightarrow> csn_mpOwner s \<and> \<not> csn_disconnected s"

subsection \<open>The invariant\<close>

text \<open>The flag is held by a thread or by the send that is outstanding.\<close>

fun holding :: "'b csn_pc option \<Rightarrow> bool" where
  "holding (Some (QueueSub bs)) = True" | "holding (Some (QueueUndo bs)) = True" | "holding (Some (QueueTake bs)) = True"
| "holding (Some LowerFlag) = True" | "holding (Some (Post bs)) = True" | "holding (Some (PostFailed bs)) = True"
| "holding (Some (Completed n)) = True" | "holding (Some (CheckOwner (ToProcess n))) = True"
| "holding (Some (CheckOpen (ToProcess n))) = True" | "holding (Some (Bytes n)) = True" | "holding (Some LowerFlagAndLook) = True"
| "holding pc = False"

fun adding :: "'b csn_pc option \<Rightarrow> bool" where
  "adding (Some QueueAdd) = True" | "adding pc = False"

fun subtracted :: "'b csn_pc option \<Rightarrow> bool" where
  "subtracted (Some (QueueUndo bs)) = True" | "subtracted (Some (QueueTake bs)) = True" | "subtracted pc = False"

fun unlinked :: "'b \<Rightarrow> 'b csn_pc option \<Rightarrow> bool" where
  "unlinked x (Some (CheckOwner (ToEnqueue y))) \<longleftrightarrow> x = y" | "unlinked x (Some (CheckOpen (ToEnqueue y))) \<longleftrightarrow> x = y"
| "unlinked x (Some (QueueCheck y)) \<longleftrightarrow> x = y" | "unlinked x (Some (QueueLink y)) \<longleftrightarrow> x = y"
| "unlinked x (Some (ClearOwner (ToDisconnect y))) \<longleftrightarrow> x = y" | "unlinked x pc \<longleftrightarrow> False"

text \<open>A thread that will still try to take the flag.\<close>

fun will_look :: "'b csn_pc option \<Rightarrow> bool" where
  "will_look (Some QueueAdd) = True" | "will_look (Some (CheckOwner ToExchange)) = True"
| "will_look (Some (CheckOpen ToExchange)) = True" | "will_look (Some Exchange) = True" | "will_look (Some LookAgain) = True"
| "will_look pc = False"

text \<open>What a thread knows at its program counter while the session is open.\<close>

definition in_order :: "'b list \<Rightarrow> 'b shared_sender \<Rightarrow> bool" where
  "in_order bs s \<longleftrightarrow> concat (csn_sent s) @ bs @ csn_links s = csn_linked s"

definition in_batch :: "'b list \<Rightarrow> 'b shared_sender \<Rightarrow> bool" where
  "in_batch bs s \<longleftrightarrow> in_order bs s \<and> csn_mSendPendingBuffer s = bs"

fun knows :: "'b shared_sender \<Rightarrow> 'b csn_pc option \<Rightarrow> bool" where
  "knows s (Some (QueueSub bs)) \<longleftrightarrow> in_batch bs s \<and> length bs < 64"
| "knows s (Some (QueueUndo bs)) \<longleftrightarrow> in_batch bs s \<and> length bs < 64"
| "knows s (Some (QueueTake bs)) \<longleftrightarrow> in_batch bs s \<and> length bs < 64 \<and> csn_links s \<noteq> []"
| "knows s (Some LowerFlag) \<longleftrightarrow> in_batch [] s"
| "knows s (Some (Post bs)) \<longleftrightarrow> in_batch bs s \<and> bs \<noteq> [] \<and> length bs \<le> 64"
| "knows s (Some (PostFailed bs)) \<longleftrightarrow> in_batch bs s"
| "knows s (Some (Completed n)) \<longleftrightarrow> in_order [] s"
| "knows s (Some (CheckOwner (ToProcess n))) \<longleftrightarrow> in_batch [] s" | "knows s (Some (CheckOpen (ToProcess n))) \<longleftrightarrow> in_batch [] s"
| "knows s (Some (Bytes n)) \<longleftrightarrow> in_batch [] s" | "knows s (Some LowerFlagAndLook) \<longleftrightarrow> in_batch [] s"
| "knows s (Some (ClearPending k)) \<longleftrightarrow> False" | "knows s (Some (ClearFlag k)) \<longleftrightarrow> False"
| "knows s (Some (ClearQueue k)) \<longleftrightarrow> False" | "knows s (Some AfterClear) \<longleftrightarrow> False"
| "knows s pc \<longleftrightarrow> True"

definition csn_inv :: "'b shared_sender \<Rightarrow> (nat \<Rightarrow> 'b csn_pc option) \<Rightarrow> bool" where
  "csn_inv s pcs \<longleftrightarrow>
     \<not> csn_freed s \<and>
     threads_in holding pcs + csn_outstanding s = of_bool (csn_mbSendRegistered s) \<and>
     csn_mCount s + int (threads_in adding pcs) + int (threads_in subtracted pcs) = int (length (csn_links s)) \<and>
     (\<forall>x. count_list (csn_called s) x = count_list (csn_linked s) x + threads_in (unlinked x) pcs) \<and>
     (\<forall>b \<in> set (csn_sent s). b \<noteq> [] \<and> length b \<le> 64) \<and>
     (\<forall>t. knows s (pcs t)) \<and>
     (threads_in holding pcs = 0 \<longrightarrow>
        (if csn_outstanding s = 0 then in_batch [] s
         else in_order [] s \<and> csn_sent s \<noteq> [] \<and> csn_mSendPendingBuffer s = last (csn_sent s))) \<and>
     (csn_links s \<noteq> [] \<longrightarrow> csn_mbSendRegistered s \<or> (\<exists>t. will_look (pcs t)))"

lemma csn_invD:
  assumes "csn_inv s pcs"
  shows "\<not> csn_freed s" "threads_in holding pcs + csn_outstanding s = of_bool (csn_mbSendRegistered s)"
    "csn_mCount s + int (threads_in adding pcs) + int (threads_in subtracted pcs) = int (length (csn_links s))"
    "count_list (csn_called s) x = count_list (csn_linked s) x + threads_in (unlinked x) pcs"
    "b \<in> set (csn_sent s) \<Longrightarrow> b \<noteq> [] \<and> length b \<le> 64" "knows s (pcs t)"
    "threads_in holding pcs = 0 \<Longrightarrow> csn_outstanding s = 0 \<Longrightarrow> in_batch [] s"
    "threads_in holding pcs = 0 \<Longrightarrow> csn_outstanding s \<noteq> 0 \<Longrightarrow>
       in_order [] s \<and> csn_sent s \<noteq> [] \<and> csn_mSendPendingBuffer s = last (csn_sent s)"
    "csn_links s \<noteq> [] \<Longrightarrow> csn_mbSendRegistered s \<or> (\<exists>t. will_look (pcs t))"
  using assms unfolding csn_inv_def by auto

lemma not_idle [simp]: "\<not> holding None" "\<not> adding None" "\<not> subtracted None" "\<not> unlinked x None" "\<not> will_look None" "knows s None"
  by simp_all

lemma knows_frame:
  assumes "csn_sent s' = csn_sent s" "csn_mSendPendingBuffer s' = csn_mSendPendingBuffer s" "csn_links s' = csn_links s"
    "csn_linked s' = csn_linked s"
  shows "knows s' pc = knows s pc"
  by (rule knows.cases [of "(s, pc)"]) (simp_all add: assms in_batch_def in_order_def)

lemma knows_after_link:
  assumes "knows s pc"
  shows "knows (s\<lparr>csn_links := csn_links s @ [x], csn_linked := csn_linked s @ [x]\<rparr>) pc"
  using assms
  by (cases "(s, pc)" rule: knows.cases) (auto simp: in_batch_def in_order_def)

lemma knows_not_holding: "\<not> holding pc \<Longrightarrow> knows s pc \<Longrightarrow> knows s' pc"
  by (cases "(s, pc)" rule: knows.cases) auto

lemma one_holder:
  assumes "csn_inv s pcs" "finite_loops pcs" "holding (pcs t)" "u \<noteq> t"
  shows "\<not> holding (pcs u)"
proof
  assume u: "holding (pcs u)"
  have "threads_in holding (pcs(t := None)) + 1 = threads_in holding pcs"
    using threads_in_upd [where P = holding and L = pcs and t = t and x = None, OF assms(2)] assms(3) by simp
  moreover have "0 < threads_in holding (pcs(t := None))"
    by (rule threads_in_pos [where t = u]) (use assms(2,4) u in simp_all)
  ultimately show False using csn_invD(2) [OF assms(1)] by (cases "csn_mbSendRegistered s") auto
qed

lemma subtracted_holds: "subtracted pc \<Longrightarrow> holding pc"
  by (cases pc rule: subtracted.cases) auto

lemma subtracted_le:
  assumes "finite_loops pcs"
  shows "threads_in subtracted pcs \<le> threads_in holding pcs"
  unfolding threads_in_def
proof (rule card_mono)
  have "{t. holding (pcs t)} \<subseteq> {t. pcs t \<noteq> None}" by (metis (mono_tags, lifting) mem_Collect_eq not_idle(1) subsetI)
  then show "finite {t. holding (pcs t)}" using assms finite_subset unfolding finite_loops_def by blast
  show "{t. subtracted (pcs t)} \<subseteq> {t. holding (pcs t)}" using subtracted_holds by auto
qed

lemma holder_flag:
  assumes "csn_inv s pcs" "finite_loops pcs" "holding (pcs t)"
  shows "csn_mbSendRegistered s" "csn_outstanding s = 0"
proof -
  have "1 \<le> threads_in holding pcs" using threads_in_pos [where t = t and P = holding, OF assms(2) _ assms(3)] by simp
  then show "csn_mbSendRegistered s" "csn_outstanding s = 0"
    using csn_invD(2) [OF assms(1)] by (cases "csn_mbSendRegistered s"; simp)+
qed

text \<open>The thread that looked at the count and saw none leaves nobody stranded.\<close>

lemma look_sees_all:
  assumes inv: "csn_inv s pcs" and fin: "finite_loops pcs" and n: "csn_mCount s = 0" "csn_links s \<noteq> []" "\<not> csn_mbSendRegistered s"
    and t: "\<not> adding (pcs t)"
  shows "\<exists>u. u \<noteq> t \<and> will_look (pcs u)"
proof -
  have "threads_in subtracted pcs = 0" using subtracted_le [OF fin] csn_invD(2) [OF inv] n(3) by simp
  then have "0 < threads_in adding pcs" using csn_invD(3) [OF inv] n(1,2) by auto
  then obtain u where "adding (pcs u)" unfolding threads_in_def by (metis (mono_tags) Collect_empty_eq card.empty less_irrefl)
  then have "pcs u = Some QueueAdd" by (cases "pcs u" rule: adding.cases) auto
  then have "u \<noteq> t \<and> will_look (pcs u)" using t by auto
  then show ?thesis by blast
qed

text \<open>What one step of thread \<open>t\<close> has to keep.\<close>

lemma csn_inv_step:
  assumes inv: "csn_inv s pcs" and fin: "finite_loops pcs"
    and freed: "\<not> csn_freed s'"
    and hold: "of_bool (holding p) + csn_outstanding s' + of_bool (csn_mbSendRegistered s) =
      of_bool (holding (pcs t)) + csn_outstanding s + (of_bool (csn_mbSendRegistered s') :: nat)"
    and cnt: "csn_mCount s' + of_bool (adding p) + of_bool (subtracted p) + int (length (csn_links s)) =
      csn_mCount s + of_bool (adding (pcs t)) + of_bool (subtracted (pcs t)) + int (length (csn_links s'))"
    and called: "\<And>x. count_list (csn_called s') x + count_list (csn_linked s) x + of_bool (unlinked x (pcs t)) =
      count_list (csn_called s) x + count_list (csn_linked s') x + of_bool (unlinked x p)"
    and sent: "\<forall>b \<in> set (csn_sent s'). b \<noteq> [] \<and> length b \<le> 64"
    and knows: "knows s' p" "\<And>u. u \<noteq> t \<Longrightarrow> knows s' (pcs u)"
    and rest: "threads_in holding (pcs(t := p)) = 0 \<Longrightarrow>
       (if csn_outstanding s' = 0 then in_batch [] s'
        else in_order [] s' \<and> csn_sent s' \<noteq> [] \<and> csn_mSendPendingBuffer s' = last (csn_sent s'))"
    and look: "csn_links s' \<noteq> [] \<Longrightarrow> csn_mbSendRegistered s' \<or> will_look p \<or> (\<exists>u. u \<noteq> t \<and> will_look (pcs u))"
  shows "csn_inv s' (pcs(t := p))"
proof -
  note upd = threads_in_upd [OF fin, of _ t p]
  have "threads_in holding (pcs(t := p)) + csn_outstanding s' = of_bool (csn_mbSendRegistered s')"
    using upd [of holding] hold csn_invD(2) [OF inv] by simp
  moreover have "csn_mCount s' + int (threads_in adding (pcs(t := p))) + int (threads_in subtracted (pcs(t := p))) = int (length (csn_links s'))"
    using upd [of adding] upd [of subtracted] cnt csn_invD(3) [OF inv]
    by (simp del: of_nat_add add: of_bool_def split: if_splits)
  moreover have "count_list (csn_called s') x = count_list (csn_linked s') x + threads_in (unlinked x) (pcs(t := p))" for x
    using upd [of "unlinked x"] called [of x] csn_invD(4) [OF inv, of x] by simp
  moreover have "knows s' ((pcs(t := p)) u)" for u using knows by simp
  moreover have "csn_mbSendRegistered s' \<or> (\<exists>u. will_look ((pcs(t := p)) u))" if "csn_links s' \<noteq> []"
    using look [OF that] by (metis fun_upd_apply)
  ultimately show ?thesis using freed sent rest unfolding csn_inv_def by blast
qed

text \<open>Steps that leave the queue, the flag and the batches alone, in a thread that does not hold the flag.\<close>

lemma csn_inv_pass:
  assumes inv: "csn_inv s pcs" and fin: "finite_loops pcs"
    and p: "\<not> holding p" "\<not> holding (pcs t)" "adding p = adding (pcs t)" "\<And>x. unlinked x p = unlinked x (pcs t)" "knows s p"
    and look: "csn_links s \<noteq> [] \<Longrightarrow> will_look (pcs t) \<Longrightarrow>
      will_look p \<or> csn_mbSendRegistered s \<or> (\<exists>u. u \<noteq> t \<and> will_look (pcs u))"
  shows "csn_inv s (pcs(t := p))"
proof (rule csn_inv_step [OF inv fin])
  show "threads_in holding (pcs(t := p)) = 0 \<Longrightarrow>
       (if csn_outstanding s = 0 then in_batch [] s
        else in_order [] s \<and> csn_sent s \<noteq> [] \<and> csn_mSendPendingBuffer s = last (csn_sent s))"
    using threads_in_upd [OF fin, of holding t p] p(1,2) csn_invD(7,8) [OF inv] by auto
  show "csn_links s \<noteq> [] \<Longrightarrow> csn_mbSendRegistered s \<or> will_look p \<or> (\<exists>u. u \<noteq> t \<and> will_look (pcs u))"
    using csn_invD(9) [OF inv] look by metis
  have "subtracted p = False" "subtracted (pcs t) = False" using p(1,2) subtracted_holds by auto
  then show "csn_mCount s + of_bool (adding p) + of_bool (subtracted p) + int (length (csn_links s)) =
      csn_mCount s + of_bool (adding (pcs t)) + of_bool (subtracted (pcs t)) + int (length (csn_links s))" using p(3) by simp
qed (use p csn_invD(1,5,6) [OF inv] in auto)

text \<open>Steps of the thread that holds the flag: what the other threads know does not depend on the state.\<close>

lemma csn_inv_held:
  assumes inv: "csn_inv s pcs" and fin: "finite_loops pcs" and t: "holding (pcs t)" "\<And>x. \<not> unlinked x p" "\<And>x. \<not> unlinked x (pcs t)"
    and freed: "csn_freed s' = csn_freed s" and same: "csn_called s' = csn_called s" "csn_linked s' = csn_linked s"
    and hold: "of_bool (holding p) + csn_outstanding s' = (of_bool (csn_mbSendRegistered s') :: nat)"
    and cnt: "csn_mCount s' + of_bool (adding p) + of_bool (subtracted p) + int (length (csn_links s)) =
      csn_mCount s + of_bool (subtracted (pcs t)) + int (length (csn_links s'))"
    and sent: "\<forall>b \<in> set (csn_sent s'). b \<noteq> [] \<and> length b \<le> 64" and knows: "knows s' p"
    and rest: "\<not> holding p \<Longrightarrow>
       (if csn_outstanding s' = 0 then in_batch [] s'
        else in_order [] s' \<and> csn_sent s' \<noteq> [] \<and> csn_mSendPendingBuffer s' = last (csn_sent s'))"
    and look: "csn_mbSendRegistered s' \<or> will_look p"
  shows "csn_inv s' (pcs(t := p))"
proof (rule csn_inv_step [OF inv fin])
  note flag = holder_flag [OF inv fin t(1)]
  then show "of_bool (holding p) + csn_outstanding s' + of_bool (csn_mbSendRegistered s) =
      of_bool (holding (pcs t)) + csn_outstanding s + (of_bool (csn_mbSendRegistered s') :: nat)" using hold t(1) by simp
  have "\<not> adding (pcs t)" using t(1) by (cases "pcs t" rule: adding.cases) auto
  then show "csn_mCount s' + of_bool (adding p) + of_bool (subtracted p) + int (length (csn_links s)) =
      csn_mCount s + of_bool (adding (pcs t)) + of_bool (subtracted (pcs t)) + int (length (csn_links s'))" using cnt by simp
  show "knows s' (pcs u)" if "u \<noteq> t" for u
    using knows_not_holding [OF one_holder [OF inv fin t(1) that] csn_invD(6) [OF inv]] .
  show "if csn_outstanding s' = 0 then in_batch [] s'
      else in_order [] s' \<and> csn_sent s' \<noteq> [] \<and> csn_mSendPendingBuffer s' = last (csn_sent s')"
    if "threads_in holding (pcs(t := p)) = 0"
  proof (rule rest)
    have "threads_in holding pcs = 1" using csn_invD(2) [OF inv] flag by simp
    then show "\<not> holding p" using threads_in_upd [OF fin, of holding t p] t(1) that by auto
  qed
qed (use same sent knows look freed t csn_invD(1) [OF inv] in auto)

lemma csn_check_inv:
  assumes inv: "csn_inv s pcs" and fin: "finite_loops pcs" and pc: "pcs t = Some pc"
    and step: "csn_thread_step accepted pc s = (r, s')" "r \<noteq> SndFault" and open': "is_open s" "is_open s'"
    and at: "(\<exists>k. pc = CheckOwner k) \<or> (\<exists>k. pc = CheckOpen k)"
  shows "csn_inv s' (pcs(t := csn_goto r))"
proof -
  note knows = csn_invD(6) [OF inv, of t, unfolded pc] and flag = holder_flag [OF inv fin, of t, unfolded pc]
  note held = csn_inv_held [OF inv fin, where t = t, unfolded pc] and pass = csn_inv_pass [OF inv fin, where t = t, unfolded pc]
  note d = csn_thread_step_def is_open_def dequeue_next_def csn_MAX_SEND_WSABUF_SIZE_def
  have sent: "\<forall>b \<in> set (csn_sent s). b \<noteq> [] \<and> length b \<le> 64" using csn_invD(5) [OF inv] by blast
  from at show ?thesis
  proof (elim disjE exE)
    fix k assume CheckOwner: "pc = CheckOwner k"
    then have r: "r = SndGoto (CheckOpen k)" "s' = s" using step open' by (auto simp: d)
    show ?thesis
    proof (cases k)
      case (ToProcess n)
      then show ?thesis using CheckOwner knows sent flag unfolding r by (intro held) auto
    qed (use CheckOwner r in \<open>auto intro!: pass\<close>)
  next
    fix k assume CheckOpen: "pc = CheckOpen k"
    then have r: "r = SndGoto (case k of ToEnqueue x \<Rightarrow> QueueCheck x | ToExchange \<Rightarrow> Exchange | ToProcess n \<Rightarrow> Bytes n)" "s' = s"
      using step open' by (auto simp: d)
    show ?thesis
    proof (cases k)
      case (ToProcess n)
      then show ?thesis using CheckOpen knows sent flag unfolding r by (intro held) auto
    qed (use CheckOpen r in \<open>auto intro!: pass\<close>)
  qed
qed

lemma csn_Send_inv:
  assumes inv: "csn_inv s pcs" and fin: "finite_loops pcs" and pc: "pcs t = Some pc"
    and step: "csn_thread_step accepted pc s = (r, s')" "r \<noteq> SndFault" and open': "is_open s" "is_open s'"
    and at: "(\<exists>x. pc = QueueCheck x) \<or> (\<exists>x. pc = QueueLink x) \<or> pc = QueueAdd"
  shows "csn_inv s' (pcs(t := csn_goto r))"
proof -
  note knows = csn_invD(6) [OF inv, of t, unfolded pc] and flag = holder_flag [OF inv fin, of t, unfolded pc]
  note held = csn_inv_held [OF inv fin, where t = t, unfolded pc] and pass = csn_inv_pass [OF inv fin, where t = t, unfolded pc]
  note d = csn_thread_step_def is_open_def dequeue_next_def csn_MAX_SEND_WSABUF_SIZE_def
  have sent: "\<forall>b \<in> set (csn_sent s). b \<noteq> [] \<and> length b \<le> 64" using csn_invD(5) [OF inv] by blast
  from at show ?thesis
  proof (elim disjE exE)
    fix x assume QueueCheck: "pc = QueueCheck x"
    then have r: "r = SndGoto (ClearOwner (ToDisconnect x)) \<or> r = SndGoto (QueueLink x)" "s' = s" using step by (auto simp: d split: if_splits)
    then show ?thesis using QueueCheck by (auto intro!: pass)
  next
    fix x assume QueueLink: "pc = QueueLink x"
    then have r: "r = SndGoto QueueAdd" "s' = s\<lparr>csn_links := csn_links s @ [x], csn_linked := csn_linked s @ [x]\<rparr>"
      using step csn_invD(1) [OF inv] by (auto simp: d)
    have "in_order bs s \<Longrightarrow> in_order bs s'" for bs by (auto simp: r in_order_def simp flip: append_assoc)
    moreover have "threads_in holding (pcs(t := csn_goto r)) = threads_in holding pcs"
      using threads_in_upd [OF fin, of holding t "csn_goto r"] pc QueueLink r by simp
    ultimately show ?thesis using sent pc QueueLink csn_invD(1) [OF inv] csn_invD(7,8) [OF inv] knows_after_link [OF csn_invD(6) [OF inv]]
      by (intro csn_inv_step [OF inv fin]) (auto simp: r in_batch_def)
  next
    assume QueueAdd: "pc = QueueAdd"
    then have r: "r = SndGoto (CheckOwner ToExchange)" "s' = s\<lparr>csn_mCount := csn_mCount s + 1\<rparr>"
      using step by (auto simp: d)
    have "threads_in holding (pcs(t := csn_goto r)) = threads_in holding pcs"
      using threads_in_upd [OF fin, of holding t "csn_goto r"] pc QueueAdd r by simp
    then show ?thesis using sent pc QueueAdd csn_invD(1) [OF inv] csn_invD(7,8) [OF inv] knows_frame [of s' s] csn_invD(6) [OF inv]
      by (intro csn_inv_step [OF inv fin]) (auto simp: r in_batch_def in_order_def)
  qed
qed

lemma csn_take_inv:
  assumes inv: "csn_inv s pcs" and fin: "finite_loops pcs" and pc: "pcs t = Some pc"
    and step: "csn_thread_step accepted pc s = (r, s')" "r \<noteq> SndFault" and open': "is_open s" "is_open s'"
    and at: "pc = Exchange \<or> (\<exists>bs. pc = QueueSub bs) \<or> (\<exists>bs. pc = QueueUndo bs) \<or> (\<exists>bs. pc = QueueTake bs)"
  shows "csn_inv s' (pcs(t := csn_goto r))"
proof -
  note knows = csn_invD(6) [OF inv, of t, unfolded pc] and flag = holder_flag [OF inv fin, of t, unfolded pc]
  note held = csn_inv_held [OF inv fin, where t = t, unfolded pc] and pass = csn_inv_pass [OF inv fin, where t = t, unfolded pc]
  note d = csn_thread_step_def is_open_def dequeue_next_def csn_MAX_SEND_WSABUF_SIZE_def
  have sent: "\<forall>b \<in> set (csn_sent s). b \<noteq> [] \<and> length b \<le> 64" using csn_invD(5) [OF inv] by blast
  from at show ?thesis
  proof (elim disjE exE)
    assume Exchange: "pc = Exchange"
    show ?thesis
    proof (cases "csn_mbSendRegistered s")
      case True
      then have r: "r = SndReturn" "s' = s" using step Exchange by (auto simp: d)
      then show ?thesis using Exchange True by (auto intro!: pass)
    next
      case False
      then have r: "r = SndGoto (QueueSub [])" "s' = s\<lparr>csn_mbSendRegistered := True\<rparr>" using step Exchange by (auto simp: d)
      have "in_batch [] s" using csn_invD(2,7) [OF inv] False by simp
      then have "in_batch [] s'" by (simp add: r in_batch_def in_order_def)
      moreover have "0 < threads_in holding (pcs(t := csn_goto r))" by (rule threads_in_pos [where t = t]) (use fin r in simp_all)
      ultimately show ?thesis using sent pc Exchange False csn_invD(1) [OF inv] knows_frame [of s' s] csn_invD(6) [OF inv]
        by (intro csn_inv_step [OF inv fin]) (auto simp: r)
    qed
  next
    fix bs assume QueueSub: "pc = QueueSub bs"
    then have r: "r = SndGoto (if csn_mCount s \<le> 0 then QueueUndo bs else QueueTake bs)" "s' = s\<lparr>csn_mCount := csn_mCount s - 1\<rparr>"
      using step by (auto simp: d)
    have "csn_links s \<noteq> []" if "0 < csn_mCount s" using csn_invD(3) [OF inv] that by auto
    then show ?thesis using QueueSub knows sent flag unfolding r by (intro held) (auto simp: in_batch_def in_order_def split: if_splits)
  next
    fix bs assume QueueUndo: "pc = QueueUndo bs"
    then have r: "r = SndGoto (if bs = [] then LowerFlag else Post bs)" "s' = s\<lparr>csn_mCount := csn_mCount s + 1\<rparr>"
      using step by (auto simp: d)
    show ?thesis using QueueUndo knows sent flag unfolding r by (intro held) (auto simp: in_batch_def in_order_def split: if_splits)
  next
    fix bs assume QueueTake: "pc = QueueTake bs"
    then obtain x xs where x: "csn_links s = x # xs" using knows by (cases "csn_links s") auto
    then have r: "r = SndGoto (if Suc (length bs) < 64 then QueueSub (bs @ [x]) else Post (bs @ [x]))"
        "s' = s\<lparr>csn_links := xs, csn_mSendPendingBuffer := csn_mSendPendingBuffer s @ [x]\<rparr>"
      using step QueueTake csn_invD(1) [OF inv] by (auto simp: d)
    show ?thesis using QueueTake knows sent flag x unfolding r by (intro held) (auto simp: in_batch_def in_order_def split: if_splits)
  qed
qed

lemma csn_post_inv:
  assumes inv: "csn_inv s pcs" and fin: "finite_loops pcs" and pc: "pcs t = Some pc"
    and step: "csn_thread_step accepted pc s = (r, s')" "r \<noteq> SndFault" and open': "is_open s" "is_open s'"
    and at: "pc = LowerFlag \<or> pc = LookAgain \<or> (\<exists>bs. pc = Post bs)"
  shows "csn_inv s' (pcs(t := csn_goto r))"
proof -
  note knows = csn_invD(6) [OF inv, of t, unfolded pc] and flag = holder_flag [OF inv fin, of t, unfolded pc]
  note held = csn_inv_held [OF inv fin, where t = t, unfolded pc] and pass = csn_inv_pass [OF inv fin, where t = t, unfolded pc]
  note d = csn_thread_step_def is_open_def dequeue_next_def csn_MAX_SEND_WSABUF_SIZE_def
  have sent: "\<forall>b \<in> set (csn_sent s). b \<noteq> [] \<and> length b \<le> 64" using csn_invD(5) [OF inv] by blast
  from at show ?thesis
  proof (elim disjE exE)
    assume LowerFlag: "pc = LowerFlag"
    then have r: "r = SndGoto LookAgain" "s' = s\<lparr>csn_mbSendRegistered := False\<rparr>" using step by (auto simp: d)
    show ?thesis using LowerFlag knows sent flag unfolding r by (intro held) (auto simp: in_batch_def in_order_def)
  next
    assume LookAgain: "pc = LookAgain"
    then have r: "r = (if csn_mCount s = 0 then SndReturn else SndGoto (CheckOwner ToExchange))" "s' = s"
      using step by (auto simp: d)
    have "csn_mbSendRegistered s \<or> (\<exists>u. u \<noteq> t \<and> will_look (pcs u))" if "csn_mCount s = 0" "csn_links s \<noteq> []"
      using look_sees_all [OF inv fin that, of t] pc LookAgain by auto
    then show ?thesis using LookAgain unfolding r by (auto intro!: pass)
  next
    fix bs assume Post: "pc = Post bs"
    show ?thesis
    proof (cases accepted)
      case True
      then have r: "r = SndReturn" "s' = s\<lparr>csn_sent := csn_sent s @ [bs], csn_outstanding := csn_outstanding s + 1\<rparr>"
        using Post step open' by (auto simp: d)
      show ?thesis using Post knows sent flag unfolding r by (intro held) (auto simp: in_batch_def in_order_def)
    next
      case False
      then have r: "r = SndGoto (PostFailed bs)" "s' = s" using Post step open' by (auto simp: d)
      show ?thesis using Post knows sent flag unfolding r by (intro held) auto
    qed
  qed
qed

lemma csn_Process_inv:
  assumes inv: "csn_inv s pcs" and fin: "finite_loops pcs" and pc: "pcs t = Some pc"
    and step: "csn_thread_step accepted pc s = (r, s')" "r \<noteq> SndFault" and open': "is_open s" "is_open s'"
    and at: "(\<exists>n. pc = Completed n) \<or> (\<exists>n. pc = Bytes n) \<or> pc = LowerFlagAndLook"
  shows "csn_inv s' (pcs(t := csn_goto r))"
proof -
  note knows = csn_invD(6) [OF inv, of t, unfolded pc] and flag = holder_flag [OF inv fin, of t, unfolded pc]
  note held = csn_inv_held [OF inv fin, where t = t, unfolded pc] and pass = csn_inv_pass [OF inv fin, where t = t, unfolded pc]
  note d = csn_thread_step_def is_open_def dequeue_next_def csn_MAX_SEND_WSABUF_SIZE_def
  have sent: "\<forall>b \<in> set (csn_sent s). b \<noteq> [] \<and> length b \<le> 64" using csn_invD(5) [OF inv] by blast
  from at show ?thesis
  proof (elim disjE exE)
    fix n assume Completed: "pc = Completed n"
    then have r: "r = SndGoto (CheckOwner (ToProcess n))" "s' = s\<lparr>csn_mSendPendingBuffer := []\<rparr>"
      using step by (auto simp: d)
    show ?thesis using Completed knows sent flag unfolding r by (intro held) (auto simp: in_batch_def in_order_def)
  next
    fix n assume Bytes: "pc = Bytes n"
    then have r: "r = SndGoto LowerFlagAndLook" "s' = s" using step open' by (auto simp: d split: if_splits)
    show ?thesis using Bytes knows sent flag unfolding r by (intro held) auto
  next
    assume LowerFlagAndLook: "pc = LowerFlagAndLook"
    then have r: "r = SndGoto LookAgain" "s' = s\<lparr>csn_mbSendRegistered := False\<rparr>" using step by (auto simp: d)
    show ?thesis using LowerFlagAndLook knows sent flag unfolding r by (intro held) (auto simp: in_batch_def in_order_def)
  qed
qed

lemma csn_run_inv:
  assumes inv: "csn_inv s pcs" and fin: "finite_loops pcs" and pc: "pcs t = Some pc"
    and step: "csn_thread_step accepted pc s = (r, s')" "r \<noteq> SndFault" and open': "is_open s" "is_open s'"
  shows "csn_inv s' (pcs(t := csn_goto r))"
proof -
  note knows = csn_invD(6) [OF inv, of t, unfolded pc]
  have "pc \<noteq> AfterClear" "\<forall>k. pc \<noteq> ClearPending k \<and> pc \<noteq> ClearFlag k \<and> pc \<noteq> ClearQueue k" using knows by auto
  moreover have "\<forall>k bs. pc \<noteq> ClearOwner k \<and> pc \<noteq> PostFailed bs"
    using step open' by (auto simp: csn_thread_step_def is_open_def split: if_splits)
  ultimately show ?thesis
    using csn_check_inv [OF assms] csn_Send_inv [OF assms] csn_take_inv [OF assms] csn_post_inv [OF assms] csn_Process_inv [OF assms]
    by (cases pc) blast+
qed

lemma is_open_back: "csn_step c c' \<Longrightarrow> is_open (fst c') \<Longrightarrow> is_open (fst c)"
proof (induction rule: csn_step.induct)
  case (run pcs t pc accepted s r s')
  then show ?case
    by (cases pc) (auto simp: csn_thread_step_def is_open_def dequeue_next_def split: if_splits list.splits csn_clear.splits)
qed (auto simp: is_open_def)

lemma csn_step_inv:
  "csn_step c c' \<Longrightarrow> is_open (fst c') \<Longrightarrow> is_open (fst c) \<Longrightarrow> finite_loops (snd c) \<and> csn_inv (fst c) (snd c) \<Longrightarrow>
   finite_loops (snd c') \<and> csn_inv (fst c') (snd c')"
proof (induction rule: csn_step.induct)
  case (call pcs t s x)
  then have inv: "csn_inv s pcs" and fin: "finite_loops pcs" by auto
  have "threads_in holding (pcs(t := Some (CheckOwner (ToEnqueue x)))) = threads_in holding pcs"
    using threads_in_upd [OF fin, of holding t "Some (CheckOwner (ToEnqueue x))"] call(1) by simp
  moreover have "csn_links s \<noteq> [] \<Longrightarrow> csn_mbSendRegistered s \<or> (\<exists>u. u \<noteq> t \<and> will_look (pcs u))"
    using csn_invD(9) [OF inv] call(1) by (metis not_idle(5))
  ultimately have "csn_inv (s\<lparr>csn_called := csn_called s @ [x]\<rparr>) (pcs(t := Some (CheckOwner (ToEnqueue x))))"
    using call(1) csn_invD(1,5) [OF inv] csn_invD(7,8) [OF inv] csn_invD(6) [OF inv]
    by (intro csn_inv_step [OF inv fin])
      (auto simp: in_batch_def in_order_def intro: knows_frame [THEN iffD2])
  then show ?case using fin finite_loops_upd [OF fin, of t] unfolding fst_conv snd_conv by blast
next
  case (complete pcs t s k n)
  then have inv: "csn_inv s pcs" and fin: "finite_loops pcs" by auto
  have none: "threads_in holding pcs = 0" using csn_invD(2) [OF inv] complete(2) by (cases "csn_mbSendRegistered s") auto
  moreover have "csn_links s \<noteq> [] \<Longrightarrow> csn_mbSendRegistered s \<or> (\<exists>u. u \<noteq> t \<and> will_look (pcs u))"
    using csn_invD(9) [OF inv] complete(1) by (metis not_idle(5))
  moreover have "0 < threads_in holding (pcs(t := Some (Completed n)))" by (rule threads_in_pos [where t = t]) (use fin in simp_all)
  ultimately have "csn_inv (s\<lparr>csn_outstanding := k\<rparr>) (pcs(t := Some (Completed n)))"
    using complete(1,2) csn_invD(1,5) [OF inv] csn_invD(8) [OF inv none] csn_invD(6) [OF inv]
    by (intro csn_inv_step [OF inv fin]) (auto simp: in_order_def intro: knows_frame [THEN iffD2])
  then show ?case using fin finite_loops_upd [OF fin, of t] unfolding fst_conv snd_conv by blast
next
  case (run pcs t pc accepted s r s')
  then show ?case using csn_run_inv [of s pcs t pc accepted r s'] finite_loops_upd [of pcs t] unfolding fst_conv snd_conv by blast
qed (simp add: is_open_def)

lemma csn_new_inv: "csn_inv (csn_new maxCount) (\<lambda>_. None)"
  by (simp add: csn_inv_def csn_new_def in_batch_def in_order_def)

lemma csn_steps_inv:
  assumes "csn_step\<^sup>*\<^sup>* (csn_new maxCount, \<lambda>_. None) c" "is_open (fst c)"
  shows "finite_loops (snd c) \<and> csn_inv (fst c) (snd c)"
  using assms
proof (induction rule: rtranclp_induct)
  case base
  then show ?case using csn_new_inv by (simp add: finite_loops_def)
next
  case (step c d)
  then show ?case using csn_step_inv [OF step.hyps(2)] is_open_back by blast
qed

lemma open_step_ok:
  assumes "csn_inv s pcs" "is_open s" "pcs t = Some pc"
  shows "fst (csn_thread_step accepted pc s) \<noteq> SndFault"
  using csn_invD(6) [OF assms(1), of t, unfolded assms(3)] csn_invD(1) [OF assms(1)] assms(2)
  by (cases pc) (auto simp: csn_thread_step_def is_open_def dequeue_next_def split: list.split)


subsection \<open>One thread alone, and a disconnect in between\<close>

text \<open>At most \<open>n\<close> steps of one thread, with sends accepted.\<close>

fun csn_solo :: "nat \<Rightarrow> 'b csn_pc \<Rightarrow> 'b shared_sender \<Rightarrow> 'b csn_next \<times> 'b shared_sender" where
  "csn_solo 0 pc s = (SndGoto pc, s)"
| "csn_solo (Suc n) pc s =
     (case csn_thread_step True pc s of (r, s') \<Rightarrow> (case csn_goto r of None \<Rightarrow> (r, s') | Some pc' \<Rightarrow> csn_solo n pc' s'))"

lemma solo_run:
  "csn_solo n pc s = (r, s') \<Longrightarrow> r \<noteq> SndFault \<Longrightarrow> pcs u = Some pc \<Longrightarrow> csn_step\<^sup>*\<^sup>* (s, pcs) (s', pcs(u := csn_goto r))"
proof (induction n arbitrary: pc s pcs)
  case 0
  then have "r = SndGoto pc" "s' = s" "pcs(u := csn_goto r) = pcs" by (auto simp: fun_upd_idem)
  then show ?case by simp
next
  case (Suc n)
  obtain r1 s1 where step: "csn_thread_step True pc s = (r1, s1)" by fastforce
  note one = csn_step.run [of pcs u pc True s r1 s1, OF Suc.prems(3) step]
  show ?case
  proof (cases r1)
    case (SndGoto pc')
    have "csn_step (s, pcs) (s1, pcs(u := Some pc'))"
      using one SndGoto by simp
    moreover have "csn_step\<^sup>*\<^sup>* (s1, pcs(u := Some pc')) (s', pcs(u := Some pc', u := csn_goto r))"
      by (rule Suc.IH) (use Suc.prems step SndGoto in auto)
    ultimately show ?thesis unfolding fun_upd_upd by (rule converse_rtranclp_into_rtranclp)
  next
    case SndReturn
    then have "r = SndReturn" "s' = s1" using Suc.prems(1) step by auto
    then have "csn_step (s, pcs) (s', pcs(u := csn_goto r))" using one SndReturn by simp
    then show ?thesis by (rule r_into_rtranclp)
  qed (use Suc.prems(1,2) step in auto)
qed

lemmas csn_eval = csn_thread_step_def dequeue_next_def csn_MAX_SEND_WSABUF_SIZE_def csn_new_def

text \<open>C39: A send that has passed its checks is not safe against a disconnect: when the session is disconnected before it
  links its buffer and another thread sends too, that thread's Clear frees the queue and the first one
  writes to a freed node.\<close>

theorem send_races_with_disconnect:
  assumes "pcs t = Some (QueueLink x)" "pcs u = None" "csn_mpOwner s" "\<not> csn_freed s"
  shows "\<exists>s' pcs'. csn_step\<^sup>*\<^sup>* (s, pcs) (s', pcs') \<and> pcs' t = Some (QueueLink x) \<and>
    (\<forall>accepted. fst (csn_thread_step accepted (QueueLink x) s') = SndFault)"
proof -
  let ?s = "s\<lparr>csn_disconnected := True, csn_called := csn_called s @ [x]\<rparr>" and ?pcs = "pcs(u := Some (CheckOwner (ToEnqueue x)))"
  obtain s' where s': "csn_solo 6 (CheckOwner (ToEnqueue x)) ?s = (SndReturn, s')" "csn_freed s'"
    using assms(3,4) by (simp add: csn_eval eval_nat_numeral)
  have "csn_step (s, pcs) (s\<lparr>csn_disconnected := True\<rparr>, pcs)" by (rule csn_step.disconnect)
  moreover have "csn_step (s\<lparr>csn_disconnected := True\<rparr>, pcs) (?s, ?pcs)"
    using csn_step.call [of pcs u "s\<lparr>csn_disconnected := True\<rparr>" x] assms(2) by simp
  moreover have "csn_step\<^sup>*\<^sup>* (?s, ?pcs) (s', ?pcs(u := None))" using solo_run [OF s'(1), of ?pcs u] by simp
  ultimately have "csn_step\<^sup>*\<^sup>* (s, pcs) (s', ?pcs(u := None))" by (meson converse_rtranclp_into_rtranclp)
  moreover have "(?pcs(u := None)) t = Some (QueueLink x)" using assms(1,2) by auto
  ultimately show ?thesis using s'(2) by (intro exI [of _ s'] exI [of _ "?pcs(u := None)"]) (simp add: csn_eval)
qed

lemma demo_send:
  "\<exists>s. csn_step\<^sup>*\<^sup>* (csn_new 10, \<lambda>_. None) (s, \<lambda>_. None) \<and> csn_mpOwner s \<and> \<not> csn_disconnected s \<and> csn_outstanding s = 0 \<and>
     csn_called s = [7 :: nat] \<and> csn_sent s = [[7]]"
proof -
  let ?s0 = "(csn_new 10)\<lparr>csn_called := [7 :: nat]\<rparr>" and ?at = "\<lambda>pc u. if u = (0 :: nat) then Some pc else None"
  obtain s1 where s1: "csn_solo 13 (CheckOwner (ToEnqueue 7)) ?s0 = (SndReturn, s1)" "csn_outstanding s1 = 1" "csn_sent s1 = [[7]]"
    "csn_mpOwner s1" "\<not> csn_disconnected s1" "csn_called s1 = [7]" "csn_mCount s1 = 0"
    by (simp add: csn_eval eval_nat_numeral)
  obtain s2 where s2: "csn_solo 6 (Completed 1) (s1\<lparr>csn_outstanding := 0\<rparr>) = (SndReturn, s2)" "csn_outstanding s2 = 0" "csn_sent s2 = [[7]]"
    "csn_mpOwner s2" "\<not> csn_disconnected s2" "csn_called s2 = [7]"
    using s1(2-7) by (simp add: csn_eval eval_nat_numeral)
  have none: "(\<lambda>_. None)(0 := Some pc, 0 := None) = (\<lambda>_. None)" for pc :: "nat csn_pc" by auto
  have "csn_step (csn_new 10, \<lambda>_. None) (?s0, (\<lambda>_. None)(0 := Some (CheckOwner (ToEnqueue 7))))"
    using csn_step.call [of "\<lambda>_. None" 0 "csn_new 10" "7 :: nat"] by (simp add: csn_new_def)
  moreover have "csn_step\<^sup>*\<^sup>* (?s0, (\<lambda>_. None)(0 := Some (CheckOwner (ToEnqueue 7)))) (s1, \<lambda>_. None)"
    using solo_run [OF s1(1), of "(\<lambda>_. None)(0 := Some (CheckOwner (ToEnqueue 7)))" 0] by (simp add: none del: fun_upd_upd)
  moreover have "csn_step (s1, \<lambda>_. None) (s1\<lparr>csn_outstanding := 0\<rparr>, (\<lambda>_. None)(0 := Some (Completed 1)))"
    by (rule csn_step.complete) (use s1(2) in simp_all)
  moreover have "csn_step\<^sup>*\<^sup>* (s1\<lparr>csn_outstanding := 0\<rparr>, (\<lambda>_. None)(0 := Some (Completed 1))) (s2, \<lambda>_. None)"
    using solo_run [OF s2(1), of "(\<lambda>_. None)(0 := Some (Completed 1))" 0] by (simp add: none del: fun_upd_upd)
  ultimately have "csn_step\<^sup>*\<^sup>* (csn_new 10, \<lambda>_. None) (s2, \<lambda>_. None)" by (meson converse_rtranclp_into_rtranclp rtranclp_trans)
  then show ?thesis using s2 by blast
qed


lemma send_races_with_disconnect_witness:
  "\<exists>s' pcs'. csn_step\<^sup>*\<^sup>* (csn_new 10, (\<lambda>_. None)(0 := Some (QueueLink (7 :: nat)))) (s', pcs') \<and> pcs' 0 = Some (QueueLink 7) \<and>
     fst (csn_thread_step True (QueueLink 7) s') = SndFault"
  using send_races_with_disconnect [of "(\<lambda>_. None)(0 := Some (QueueLink (7 :: nat)))" 0 7 1 "csn_new 10"] by (auto simp: csn_new_def)

end
