(* ===== verification/Queue_Invariant.thy ===== *)
theory Queue_Invariant
  imports Concurrent_Queue
begin

text \<open>
  The invariant of LockFreeQueue under any interleaving of careful steps: what the list of nodes
  from the head looks like, how the count relates to it, and what the local variables of a thread are
  worth. A view that a thread has read is exact as long as the tag it came with is the current one.
\<close>

subsection \<open>Phases of a thread\<close>

fun caller :: "'a cq_pc option \<Rightarrow> 'a cq_caller option" where
  "caller (Some (MoveCount k)) = Some k"
| "caller (Some (MoveNode c k)) = Some k"
| "caller (Some (MoveNext e k)) = Some k"
| "caller (Some (MoveCas e d k)) = Some k"
| "caller pc = None"

text \<open>The node that an enqueue has not linked yet, and the one that a dequeue has unlinked.\<close>

fun pending :: "'a cq_pc option \<Rightarrow> nat option" where
  "pending (Some (EnqData n d)) = Some n"
| "pending (Some (EnqNull n)) = Some n"
| "pending (Some (EnqTail n)) = Some n"
| "pending (Some (EnqNext n t)) = Some n"
| "pending (Some (EnqRef n p)) = Some n"
| "pending (Some (EnqCas n a)) = Some n"
| "pending pc = (case caller pc of Some (AfterRetry n) \<Rightarrow> Some n | _ \<Rightarrow> None)"

fun removed :: "'a cq_pc option \<Rightarrow> nat option" where
  "removed (Some (DeqDelete p out)) = p"
| "removed pc = None"

definition kept :: "'a cq_pc option \<Rightarrow> nat option" where
  "kept pc = (case pending pc of None \<Rightarrow> removed pc | Some n \<Rightarrow> Some n)"

text \<open>Linked but not counted; counted out but not removed; counted out by mistake.\<close>

fun uncounted :: "'a cq_pc option \<Rightarrow> bool" where
  "uncounted (Some EnqAdd) = True"
| "uncounted pc = (caller pc = Some AfterLink)"

fun reserved :: "'a cq_pc option \<Rightarrow> bool" where
  "reserved (Some (DeqHead e d out)) = True"
| "reserved (Some (DeqTail h e d out)) = True"
| "reserved (Some (DeqCount e d out)) = True"
| "reserved (Some (DeqNode e d out)) = True"
| "reserved (Some (DeqNext e d out)) = True"
| "reserved (Some (DeqData e d out)) = True"
| "reserved (Some (DeqCas e d out)) = True"
| "reserved pc = (case caller pc of Some (AfterEqual e d out) \<Rightarrow> True | _ \<Rightarrow> False)"

fun undoing :: "'a cq_pc option \<Rightarrow> bool" where
  "undoing (Some DeqUndo) = True"
| "undoing pc = False"

lemma phases_of_idle [simp]: "\<not> uncounted None" "\<not> reserved None" "\<not> undoing None" "kept None = None"
  by (simp_all add: kept_def)

subsection \<open>The list, its nodes and the count\<close>

definition lagging :: "'a ConcurrentQueue \<Rightarrow> nat list \<Rightarrow> bool" where
  "lagging s ns \<longleftrightarrow> n16_pNode (cq_mTail s) \<noteq> Some (last ns)"

text \<open>The tail is the last node or the one before it.\<close>

definition shape_ok :: "'a ConcurrentQueue \<Rightarrow> nat list \<Rightarrow> bool" where
  "shape_ok s ns \<longleftrightarrow> ns \<noteq> [] \<and> path (cq_next s) (n16_pNode (cq_mHead s)) ns \<and> distinct ns \<and> set ns \<subseteq> cq_live s \<and>
     (lagging s ns \<longrightarrow> (\<exists>ms a b. ns = ms @ [a, b] \<and> n16_pNode (cq_mTail s) = Some a))"

definition kept_ok :: "'a ConcurrentQueue \<Rightarrow> (nat \<Rightarrow> 'a cq_pc option) \<Rightarrow> nat list \<Rightarrow> bool" where
  "kept_ok s pcs ns \<longleftrightarrow>
     (\<forall>t n. kept (pcs t) = Some n \<longrightarrow> n \<in> cq_live s \<and> n \<notin> set ns) \<and>
     (\<forall>t u n. kept (pcs t) = Some n \<longrightarrow> kept (pcs u) = Some n \<longrightarrow> t = u)"

lemma kept_okI:
  "(\<And>t n. kept (pcs t) = Some n \<Longrightarrow> n \<in> cq_live s \<and> n \<notin> set ns) \<Longrightarrow>
   (\<And>t u n. kept (pcs t) = Some n \<Longrightarrow> kept (pcs u) = Some n \<Longrightarrow> t = u) \<Longrightarrow> kept_ok s pcs ns"
  unfolding kept_ok_def by blast

definition tally_ok :: "'a ConcurrentQueue \<Rightarrow> (nat \<Rightarrow> 'a cq_pc option) \<Rightarrow> nat list \<Rightarrow> bool" where
  "tally_ok s pcs ns \<longleftrightarrow> finite_loops pcs \<and>
     int (length ns) = 1 + cq_mCount s + int (threads_in uncounted pcs) + int (threads_in reserved pcs)
       + int (threads_in undoing pcs) \<and>
     0 \<le> cq_mCount s + int (threads_in undoing pcs)"

text \<open>A thread that has linked a node and whose \<open>moveTail\<close> will still swing the tail.\<close>

fun moving :: "'a ConcurrentQueue \<Rightarrow> 'a cq_pc option \<Rightarrow> bool" where
  "moving s (Some (MoveCount k)) \<longleftrightarrow> k = AfterLink"
| "moving s (Some (MoveNode c k)) \<longleftrightarrow> k = AfterLink \<and> c = n16_count (cq_mTail s)"
| "moving s (Some (MoveNext e k)) \<longleftrightarrow> k = AfterLink \<and> n16_count e = n16_count (cq_mTail s)"
| "moving s (Some (MoveCas e d k)) \<longleftrightarrow> k = AfterLink \<and> n16_count e = n16_count (cq_mTail s)"
| "moving s pc \<longleftrightarrow> False"

subsection \<open>What a thread knows\<close>

definition fresh_tag :: "Node16 \<Rightarrow> Node16 \<Rightarrow> bool" where
  "fresh_tag e cur \<longleftrightarrow> n16_count e \<le> n16_count cur \<and> (n16_count e = n16_count cur \<longrightarrow> e = cur)"

definition stale :: "'a ConcurrentQueue \<Rightarrow> Node16 \<Rightarrow> bool" where
  "stale s e \<longleftrightarrow> n16_pNode e = None \<or> n16_count e < n16_count (cq_mHead s)"

definition next_is :: "'a ConcurrentQueue \<Rightarrow> Node16 \<Rightarrow> Node16 \<Rightarrow> bool" where
  "next_is s e d \<longleftrightarrow> n16_count d = n16_count e + 1 \<and>
     (\<exists>a b. n16_pNode e = Some a \<and> n16_pNode d = Some b \<and> cq_next s a = Some b)"

fun caller_ok :: "'a ConcurrentQueue \<Rightarrow> 'a cq_caller \<Rightarrow> bool" where
  "caller_ok s AfterLink \<longleftrightarrow> True"
| "caller_ok s (AfterRetry n) \<longleftrightarrow> True"
| "caller_ok s (AfterEqual e d out) \<longleftrightarrow> stale s e"

fun knows :: "'a ConcurrentQueue \<Rightarrow> 'a cq_pc option \<Rightarrow> bool" where
  "knows s (Some (EnqNext n t)) \<longleftrightarrow> t \<noteq> None"
| "knows s (Some (EnqCas n a)) \<longleftrightarrow> (cq_next s a = None \<longrightarrow> n16_pNode (cq_mTail s) = Some a)"
| "knows s (Some (MoveCount k)) \<longleftrightarrow> caller_ok s k"
| "knows s (Some (MoveNode c k)) \<longleftrightarrow> caller_ok s k \<and> c \<le> n16_count (cq_mTail s)"
| "knows s (Some (MoveNext e k)) \<longleftrightarrow> caller_ok s k \<and> n16_pNode e \<noteq> None \<and> fresh_tag e (cq_mTail s)"
| "knows s (Some (MoveCas e d k)) \<longleftrightarrow> caller_ok s k \<and> fresh_tag e (cq_mTail s) \<and> (e = cq_mTail s \<longrightarrow> next_is s e d)"
| "knows s (Some (DeqHead e d out)) \<longleftrightarrow> n16_pNode e = None \<or> n16_count e \<le> n16_count (cq_mHead s)"
| "knows s (Some (DeqTail h e d out)) \<longleftrightarrow> n16_pNode e = None \<or>
     n16_count e \<le> n16_count (cq_mHead s) \<and> (n16_count e = n16_count (cq_mHead s) \<longrightarrow> h = n16_pNode (cq_mHead s))"
| "knows s (Some (DeqNode e d out)) \<longleftrightarrow> n16_count e \<le> n16_count (cq_mHead s)"
| "knows s (Some (DeqNext e d out)) \<longleftrightarrow> n16_pNode e \<noteq> None \<and> fresh_tag e (cq_mHead s)"
| "knows s (Some (DeqData e d out)) \<longleftrightarrow> n16_pNode d \<noteq> None \<and> fresh_tag e (cq_mHead s) \<and>
     (e = cq_mHead s \<longrightarrow> next_is s e d)"
| "knows s (Some (DeqCas e d out)) \<longleftrightarrow> stale s e \<or>
     e = cq_mHead s \<and> next_is s e d \<and> out = map_option (cq_data s) (n16_pNode d)"
| "knows s (Some (DeqDelete p out)) \<longleftrightarrow> p \<noteq> None \<and> out \<noteq> None"
| "knows s pc \<longleftrightarrow> True"

definition cq_inv :: "'a cq_system \<Rightarrow> nat list \<Rightarrow> bool" where
  "cq_inv c ns \<longleftrightarrow> (case c of (s, pcs) \<Rightarrow>
     shape_ok s ns \<and> kept_ok s pcs ns \<and> tally_ok s pcs ns \<and> (\<forall>t. knows s (pcs t)) \<and>
     (\<forall>t n. pending (pcs t) = Some n \<longrightarrow> cq_next s n = None) \<and>
     (lagging s ns \<longrightarrow> (\<exists>t. moving s (pcs t))))"

lemma cq_invD:
  assumes "cq_inv (s, pcs) ns"
  shows "shape_ok s ns" "kept_ok s pcs ns" "tally_ok s pcs ns" "knows s (pcs t)"
    "pending (pcs t) = Some n \<Longrightarrow> cq_next s n = None" "lagging s ns \<Longrightarrow> \<exists>t. moving s (pcs t)"
  using assms by (simp_all add: cq_inv_def)

subsection \<open>Facts about the list\<close>

lemma path_last: "path nxt p ns \<Longrightarrow> ns \<noteq> [] \<Longrightarrow> nxt (last ns) = None"
  by (induction ns arbitrary: p) auto

lemma path_inner: "path nxt p (ms @ a # b # r) \<Longrightarrow> nxt a = Some b"
  by (induction ms arbitrary: p) auto

lemma path_end: "path nxt p ns \<Longrightarrow> a \<in> set ns \<Longrightarrow> nxt a = None \<Longrightarrow> a = last ns"
  by (induction ns arbitrary: p) auto

lemma path_snoc:
  "path nxt p ns \<Longrightarrow> ns \<noteq> [] \<Longrightarrow> distinct ns \<Longrightarrow> n \<notin> set ns \<Longrightarrow> nxt n = None \<Longrightarrow>
   path (nxt(last ns := Some n)) p (ns @ [n])"
  by (induction ns arbitrary: p) auto

lemma shapeD:
  assumes "shape_ok s ns"
  shows "ns \<noteq> []" "path (cq_next s) (n16_pNode (cq_mHead s)) ns" "distinct ns" "set ns \<subseteq> cq_live s"
    "n16_pNode (cq_mHead s) = Some (hd ns)" "cq_next s (last ns) = None"
    "\<exists>a. n16_pNode (cq_mTail s) = Some a \<and> a \<in> set ns \<and> (lagging s ns \<longleftrightarrow> cq_next s a \<noteq> None)"
proof -
  show ns: "ns \<noteq> []" "path (cq_next s) (n16_pNode (cq_mHead s)) ns" "distinct ns" "set ns \<subseteq> cq_live s"
    using assms by (simp_all add: shape_ok_def)
  then show "n16_pNode (cq_mHead s) = Some (hd ns)" by (cases ns) auto
  show l: "cq_next s (last ns) = None" by (rule path_last [OF ns(2,1)])
  show "\<exists>a. n16_pNode (cq_mTail s) = Some a \<and> a \<in> set ns \<and> (lagging s ns \<longleftrightarrow> cq_next s a \<noteq> None)"
  proof (cases "lagging s ns")
    case True
    then obtain ms a b where e: "ns = ms @ [a, b]" "n16_pNode (cq_mTail s) = Some a"
      using assms by (auto simp: shape_ok_def)
    then show ?thesis using path_inner [of "cq_next s" _ ms a b "[]"] ns(2) True by simp
  next
    case False
    then show ?thesis using ns(1) l by (auto simp: lagging_def)
  qed
qed

lemma head_next:
  assumes "shape_ok s ns" "n16_pNode (cq_mHead s) = Some a" "cq_next s a = Some b"
  shows "\<exists>r. ns = a # b # r"
  using shapeD(1,2) [OF assms(1)] assms(2,3) by (cases ns) (auto simp: path_Some)

lemma tail_next:
  assumes "shape_ok s ns" "n16_pNode (cq_mTail s) = Some a" "cq_next s a = Some b"
  shows "\<exists>ms. ns = ms @ [a, b]"
proof -
  have "lagging s ns" using shapeD(7) [OF assms(1)] assms(2,3) by auto
  then obtain ms c d where e: "ns = ms @ [c, d]" "n16_pNode (cq_mTail s) = Some c"
    using assms(1) by (auto simp: shape_ok_def)
  then show ?thesis using path_inner [of "cq_next s" _ ms c d "[]"] shapeD(2) [OF assms(1)] assms(2,3) by auto
qed

subsection \<open>What the other threads know survives a step\<close>

lemmas knows_defs = fresh_tag_def stale_def next_is_def

lemma caller_ok_head:
  "caller_ok s k \<Longrightarrow> n16_count (cq_mHead s) \<le> n16_count (cq_mHead s') \<Longrightarrow> caller_ok s' k"
  by (cases k) (auto simp: stale_def)

lemma knows_write:
  assumes "shape_ok s ns" "knows s pc" "n \<notin> set ns" "aims pc \<noteq> Some n"
  shows "knows (s\<lparr>cq_next := (cq_next s)(n := x), cq_data := (cq_data s)(n := d), cq_live := L\<rparr>) pc"
proof -
  let ?s = "s\<lparr>cq_next := (cq_next s)(n := x), cq_data := (cq_data s)(n := d), cq_live := L\<rparr>"
  have k: "caller_ok ?s k \<longleftrightarrow> caller_ok s k" for k by (cases k) (simp_all add: stale_def)
  have tail: "next_is ?s e d' \<longleftrightarrow> next_is s e d'" if "e = cq_mTail s" for e d'
    using that shapeD(7) [OF assms(1)] assms(3) by (auto simp: next_is_def)
  have head: "next_is ?s e d' \<longleftrightarrow> next_is s e d'" if "e = cq_mHead s" for e d'
    using that shapeD(1,5) [OF assms(1)] assms(3) by (auto simp: next_is_def)
  have dat: "map_option ((cq_data s)(n := d)) (n16_pNode d') = map_option (cq_data s) (n16_pNode d')"
    if "e = cq_mHead s" "next_is s e d'" for e d'
    using that head_next [OF assms(1)] assms(3) by (fastforce simp: next_is_def)
  have st: "stale ?s e \<longleftrightarrow> stale s e" for e by (simp add: stale_def)
  show ?thesis using assms(2,4)
    by (cases "(s, pc)" rule: knows.cases) (auto simp: k tail head dat st)
qed

lemma knows_link:
  assumes "knows s pc" "cq_next s a = None"
  shows "knows (s\<lparr>cq_next := (cq_next s)(a := Some n)\<rparr>) pc"
proof -
  let ?s = "s\<lparr>cq_next := (cq_next s)(a := Some n)\<rparr>"
  have k: "caller_ok ?s k \<longleftrightarrow> caller_ok s k" for k by (cases k) (simp_all add: stale_def)
  have n: "next_is s e d \<Longrightarrow> next_is ?s e d" for e d using assms(2) by (auto simp: next_is_def)
  have st: "stale ?s e \<longleftrightarrow> stale s e" for e by (simp add: stale_def)
  show ?thesis using assms(1) by (cases "(s, pc)" rule: knows.cases) (auto simp: k st dest: n split: if_splits)
qed

lemma knows_tail:
  assumes "knows s pc" "next_is s (cq_mTail s) d"
  shows "knows (s\<lparr>cq_mTail := d\<rparr>) pc"
proof -
  let ?s = "s\<lparr>cq_mTail := d\<rparr>"
  have k: "caller_ok ?s k \<longleftrightarrow> caller_ok s k" for k by (cases k) (simp_all add: stale_def)
  have n: "next_is ?s e d' \<longleftrightarrow> next_is s e d'" for e d' by (simp add: next_is_def)
  have st: "stale ?s e \<longleftrightarrow> stale s e" for e by (simp add: stale_def)
  have f: "fresh_tag e (cq_mTail s) \<Longrightarrow> fresh_tag e d \<and> e \<noteq> d" for e
    using assms(2) by (auto simp: fresh_tag_def next_is_def)
  show ?thesis using assms by (cases "(s, pc)" rule: knows.cases) (auto simp: k n st dest: f simp: next_is_def)
qed

lemma knows_head:
  assumes "knows s pc" "next_is s (cq_mHead s) d"
  shows "knows (s\<lparr>cq_mHead := d\<rparr>) pc"
proof -
  let ?s = "s\<lparr>cq_mHead := d\<rparr>"
  have c: "n16_count d = n16_count (cq_mHead s) + 1" using assms(2) by (simp add: next_is_def)
  have k: "caller_ok s k \<Longrightarrow> caller_ok ?s k" for k by (erule caller_ok_head) (simp add: c)
  have n: "next_is ?s e d' \<longleftrightarrow> next_is s e d'" for e d' by (simp add: next_is_def)
  have st: "stale s e \<Longrightarrow> stale ?s e" "e = cq_mHead s \<Longrightarrow> stale ?s e" for e by (auto simp: stale_def c)
  have f: "fresh_tag e (cq_mHead s) \<Longrightarrow> fresh_tag e d \<and> e \<noteq> d" for e
    using c by (auto simp: fresh_tag_def)
  show ?thesis using assms(1)
    by (cases "(s, pc)" rule: knows.cases) (auto simp: n c st(2) [OF refl] dest: k f st(1))
qed

lemma knows_count [simp]:
  "knows (s\<lparr>cq_mCount := m\<rparr>) pc \<longleftrightarrow> knows s pc" "knows (s\<lparr>cq_live := L\<rparr>) pc \<longleftrightarrow> knows s pc"
proof -
  have "caller_ok (s\<lparr>cq_mCount := m\<rparr>) k \<longleftrightarrow> caller_ok s k" "caller_ok (s\<lparr>cq_live := L\<rparr>) k \<longleftrightarrow> caller_ok s k" for k
    by (cases k; simp add: stale_def)+
  then show "knows (s\<lparr>cq_mCount := m\<rparr>) pc \<longleftrightarrow> knows s pc" "knows (s\<lparr>cq_live := L\<rparr>) pc \<longleftrightarrow> knows s pc"
    by (cases "(s, pc)" rule: knows.cases; simp add: stale_def next_is_def)+
qed

lemma moving_same_tail: "cq_mTail s' = cq_mTail s \<Longrightarrow> moving s' pc \<longleftrightarrow> moving s pc"
  by (cases "(s, pc)" rule: moving.cases) simp_all

subsection \<open>The count\<close>

lemma tally_ok_upd:
  assumes "tally_ok s pcs ns"
    and "int (length ns') - int (length ns) = cq_mCount s' - cq_mCount s
      + (of_bool (uncounted x) - of_bool (uncounted (pcs t))) + (of_bool (reserved x) - of_bool (reserved (pcs t)))
      + (of_bool (undoing x) - of_bool (undoing (pcs t)))"
    and "cq_mCount s + of_bool (undoing (pcs t)) \<le> cq_mCount s' + of_bool (undoing x) \<or> 0 \<le> cq_mCount s'"
  shows "tally_ok s' (pcs(t := x)) ns'"
proof -
  have fin: "finite_loops pcs" using assms(1) by (simp add: tally_ok_def)
  note upd = threads_in_upd [OF fin, of _ t x, THEN arg_cong [of _ _ int], unfolded of_nat_add of_nat_of_bool]
  have eq: "int (threads_in uncounted (pcs(t := x))) = int (threads_in uncounted pcs) + of_bool (uncounted x) - of_bool (uncounted (pcs t))"
    "int (threads_in reserved (pcs(t := x))) = int (threads_in reserved pcs) + of_bool (reserved x) - of_bool (reserved (pcs t))"
    "int (threads_in undoing (pcs(t := x))) = int (threads_in undoing pcs) + of_bool (undoing x) - of_bool (undoing (pcs t))"
    using upd [of uncounted] upd [of reserved] upd [of undoing] by simp_all
  note old = assms(1) [unfolded tally_ok_def]
  have "int (length ns') = 1 + cq_mCount s' + int (threads_in uncounted (pcs(t := x)))
      + int (threads_in reserved (pcs(t := x))) + int (threads_in undoing (pcs(t := x)))"
    unfolding eq using old assms(2) by linarith
  moreover have "0 \<le> cq_mCount s' + int (threads_in undoing (pcs(t := x)))"
    using assms(3)
  proof
    assume "cq_mCount s + of_bool (undoing (pcs t)) \<le> cq_mCount s' + of_bool (undoing x)"
    then show ?thesis unfolding eq using old by linarith
  qed simp
  ultimately show ?thesis using fin by (simp add: tally_ok_def)
qed

lemma two_nodes:
  assumes "cq_inv (s, pcs) ns" "reserved (pcs t)"
  shows "n16_pNode (cq_mHead s) \<noteq> n16_pNode (cq_mTail s)" "\<exists>a b r. ns = a # b # r"
proof -
  note k = cq_invD [OF assms(1)]
  have fin: "finite_loops pcs" using k(3) by (simp add: tally_ok_def)
  have r: "0 < threads_in reserved pcs" by (rule threads_in_pos [OF fin, of _ t]) (use assms(2) in simp_all)
  have u: "0 < threads_in uncounted pcs" if lag: "lagging s ns"
  proof -
    obtain u where u: "moving s (pcs u)" using k(6) lag by blast
    have "uncounted (pcs u)" using u by (cases "(s, pcs u)" rule: moving.cases) auto
    then show ?thesis by (intro threads_in_pos [OF fin, of _ u]) simp_all
  qed
  have len: "2 \<le> length ns" "lagging s ns \<Longrightarrow> 3 \<le> length ns" using k(3) r u by (auto simp: tally_ok_def)
  then show two: "\<exists>a b r. ns = a # b # r" by (cases ns; cases "tl ns") auto
  show "n16_pNode (cq_mHead s) \<noteq> n16_pNode (cq_mTail s)"
  proof (cases "lagging s ns")
    case True
    then obtain ms a b where e: "ns = ms @ [a, b]" "n16_pNode (cq_mTail s) = Some a"
      using k(1) by (auto simp: shape_ok_def)
    have "ms \<noteq> []" using len(2) [OF True] e by auto
    then show ?thesis using e shapeD(3,5) [OF k(1)] by (cases ms) auto
  next
    case False
    obtain a b r where ns: "ns = a # b # r" using two by blast
    have "last ns \<in> set (b # r)" unfolding ns by (metis last.simps last_in_set list.distinct(1))
    then have "hd ns \<noteq> last ns" using shapeD(3) [OF k(1)] ns by auto
    then show ?thesis using False shapeD(5) [OF k(1)] by (auto simp: lagging_def)
  qed
qed

lemma reserved_head:
  assumes "cq_inv (s, pcs) ns" "reserved (pcs t)" "n16_pNode (cq_mHead s) = Some a"
  shows "n16_pNode (cq_mTail s) \<noteq> Some a" "cq_next s a \<noteq> None"
proof -
  obtain b c r where "n16_pNode (cq_mHead s) \<noteq> n16_pNode (cq_mTail s)" "ns = b # c # r"
    using two_nodes [OF assms(1,2)] by metis
  then show "n16_pNode (cq_mTail s) \<noteq> Some a" "cq_next s a \<noteq> None"
    using shapeD(2) [OF cq_invD(1) [OF assms(1)]] assms(3) by auto
qed

subsection \<open>Every step keeps the invariant\<close>

fun cq_phase_of :: "(nat \<Rightarrow> 'a) \<Rightarrow> 'a cq_pc option \<Rightarrow> 'a cq_phase" where
  "cq_phase_of dat None = QIdle"
| "cq_phase_of dat (Some (EnqCheck d)) = Enqueuing d"
| "cq_phase_of dat (Some (EnqNew d)) = Enqueuing d"
| "cq_phase_of dat (Some (EnqData n d)) = Enqueuing d"
| "cq_phase_of dat (Some (DeqDelete p out)) = HasDequeued out"
| "cq_phase_of dat pc = (case pending pc of Some n \<Rightarrow> Enqueuing (dat n)
     | None \<Rightarrow> if uncounted pc then HasEnqueued else Dequeuing)"

lemma cq_phase_of_cong:
  "(\<And>n. kept pc = Some n \<Longrightarrow> dat' n = dat n) \<Longrightarrow> cq_phase_of dat' pc = cq_phase_of dat pc"
  by (cases "(dat, pc)" rule: cq_phase_of.cases) (auto simp: kept_def split: option.splits cq_caller.splits)

definition contents :: "'a ConcurrentQueue \<Rightarrow> nat list \<Rightarrow> 'a list" where
  "contents s ns = map (cq_data s) (tl ns)"

definition all_accounted :: "'a cq_system \<Rightarrow> nat list \<Rightarrow> bool" where
  "all_accounted c ns \<longleftrightarrow> cq_live (fst c) \<subseteq> set ns \<union> {n. \<exists>t. kept (snd c t) = Some n}"

lemma accountedD:
  assumes "all_accounted (s, pcs) ns" "m \<in> cq_live s" "kept (pcs t) \<noteq> Some m"
  shows "m \<in> set ns \<or> (\<exists>u. u \<noteq> t \<and> kept (pcs u) = Some m)"
proof -
  have "m \<in> set ns \<or> (\<exists>u. kept (pcs u) = Some m)" using assms(1,2) by (auto simp: all_accounted_def)
  then show ?thesis using assms(3) by metis
qed

definition cq_ok :: "'a cq_system \<Rightarrow> nat list \<Rightarrow> nat \<Rightarrow> 'a cq_act list \<Rightarrow> 'a cq_system \<Rightarrow> nat list \<Rightarrow> bool" where
  "cq_ok c ns t as c' ns' \<longleftrightarrow> cq_inv c' ns' \<and> (all_accounted c ns \<longrightarrow> all_accounted c' ns') \<and>
     accepts fifo_after (contents (fst c) ns) as = Some (contents (fst c') ns') \<and>
     accepts cq_phase_after (cq_phase_of (cq_data (fst c)) (snd c t)) as = Some (cq_phase_of (cq_data (fst c')) (snd c' t)) \<and>
     (\<forall>u. u \<noteq> t \<longrightarrow> cq_phase_of (cq_data (fst c')) (snd c' u) = cq_phase_of (cq_data (fst c)) (snd c u))"

text \<open>Steps that touch no node and neither the head nor the tail.\<close>

lemma kept_ok_same:
  "kept_ok s pcs ns \<Longrightarrow> kept x = kept (pcs t) \<or> kept x = None \<Longrightarrow> kept_ok s (pcs(t := x)) ns"
proof -
  assume ok: "kept_ok s pcs ns" and x: "kept x = kept (pcs t) \<or> kept x = None"
  have "kept (pcs u) = Some n" if "kept ((pcs(t := x)) u) = Some n" for u n
    using x that by (auto split: if_splits)
  then show ?thesis using ok unfolding kept_ok_def by blast
qed

lemma kept_ok_live: "kept_ok s pcs ns \<Longrightarrow> cq_live s' = cq_live s \<Longrightarrow> kept_ok s' pcs ns"
  unfolding kept_ok_def by metis

lemma balance: "m = c + u - u' + r - r' + d - d' \<Longrightarrow> (0::int) = m - c + (u' - u) + (r' - r) + (d' - d)"
  by simp

lemma quiet:
  assumes inv: "cq_inv (s, pcs) ns" and kept: "kept x = kept (pcs t)" "pending x = pending (pcs t)"
    and cnt: "m = cq_mCount s + of_bool (uncounted (pcs t)) - of_bool (uncounted x) + of_bool (reserved (pcs t))
      - of_bool (reserved x) + of_bool (undoing (pcs t)) - of_bool (undoing x)"
      "cq_mCount s + of_bool (undoing (pcs t)) \<le> m + of_bool (undoing x) \<or> 0 \<le> m"
    and kn: "knows s x" and mv: "lagging s ns \<Longrightarrow> moving s (pcs t) \<Longrightarrow> moving s x"
    and acts: "accepts fifo_after (contents s ns) as = Some (contents s ns)"
      "accepts cq_phase_after (cq_phase_of (cq_data s) (pcs t)) as = Some (cq_phase_of (cq_data s) x)"
  shows "cq_ok (s, pcs) ns t as (s\<lparr>cq_mCount := m\<rparr>, pcs(t := x)) ns"
proof -
  let ?s = "s\<lparr>cq_mCount := m\<rparr>" and ?pcs = "pcs(t := x)"
  note k = cq_invD [OF inv]
  have "tally_ok ?s ?pcs ns"
  proof (rule tally_ok_upd [OF k(3)])
    have m: "cq_mCount ?s = m" by simp
    show "cq_mCount s + of_bool (undoing (pcs t)) \<le> cq_mCount ?s + of_bool (undoing x) \<or> 0 \<le> cq_mCount ?s"
      using cnt(2) unfolding m .
    show "int (length ns) - int (length ns) = cq_mCount ?s - cq_mCount s
        + (of_bool (uncounted x) - of_bool (uncounted (pcs t))) + (of_bool (reserved x) - of_bool (reserved (pcs t)))
        + (of_bool (undoing x) - of_bool (undoing (pcs t)))"
      unfolding m diff_self by (rule balance [OF cnt(1)])
  qed
  moreover have "kept_ok ?s ?pcs ns" 
    by (rule kept_ok_live [OF kept_ok_same [OF k(2)]]) (use kept in simp_all)
  moreover have "shape_ok ?s ns" using k(1) by (simp add: shape_ok_def lagging_def)
  moreover have "knows ?s (?pcs u)" for u using k(4) [of u] kn by simp
  moreover have "\<exists>u. moving ?s (?pcs u)" if lag: "lagging ?s ns"
  proof -
    have lag': "lagging s ns" using lag by (simp add: lagging_def)
    then obtain u where "moving s (pcs u)" using k(6) by blast
    then have "moving s (?pcs u)" using mv [OF lag'] by auto
    then have "moving ?s (?pcs u)" using moving_same_tail [of ?s s] by simp
    then show ?thesis by blast
  qed
  moreover have "cq_next ?s n = None" if "pending (?pcs u) = Some n" for u n
    using k(5) [of u] k(5) [of t] that kept(2) by (auto split: if_splits)
  ultimately have "cq_inv (?s, ?pcs) ns" by (simp add: cq_inv_def)
  moreover have "all_accounted (?s, ?pcs) ns" if "all_accounted (s, pcs) ns"
  proof -
    have "kept (?pcs u) = kept (pcs u)" for u using kept(1) by simp
    then show ?thesis using that by (simp add: all_accounted_def)
  qed
  ultimately show ?thesis using acts by (simp add: cq_ok_def contents_def)
qed

lemma quiet_same:
  assumes "cq_inv (s, pcs) ns" "kept x = kept (pcs t)" "pending x = pending (pcs t)"
    "uncounted x = uncounted (pcs t)" "reserved x = reserved (pcs t)" "undoing x = undoing (pcs t)"
    "knows s x" "lagging s ns \<Longrightarrow> moving s (pcs t) \<Longrightarrow> moving s x"
    "accepts fifo_after (contents s ns) as = Some (contents s ns)"
    "accepts cq_phase_after (cq_phase_of (cq_data s) (pcs t)) as = Some (cq_phase_of (cq_data s) x)"
  shows "cq_ok (s, pcs) ns t as (s, pcs(t := x)) ns"
proof -
  have "cq_ok (s, pcs) ns t as (s\<lparr>cq_mCount := cq_mCount s\<rparr>, pcs(t := x)) ns"
    by (rule quiet) (use assms in simp_all)
  then show ?thesis by simp
qed

text \<open>Steps on a node that is not on the list: allocation, initialisation, deletion, foreign writes.\<close>

lemma node_change:
  fixes s :: "'a ConcurrentQueue"
  assumes inv: "cq_inv (s, pcs) ns" and n: "n \<notin> set ns"
    and s': "s' = s\<lparr>cq_next := (cq_next s)(n := nx), cq_data := (cq_data s)(n := d), cq_live := L\<rparr>"
    and live: "set ns \<subseteq> L" "\<And>u m. u \<noteq> t \<Longrightarrow> kept (pcs u) = Some m \<Longrightarrow> m \<in> L"
    and other: "\<And>u. u \<noteq> t \<Longrightarrow> kept (pcs u) \<noteq> Some n"
    and x: "\<And>m. kept x = Some m \<Longrightarrow> m \<in> L \<and> m \<notin> set ns \<and> (\<forall>u. u \<noteq> t \<longrightarrow> kept (pcs u) \<noteq> Some m)"
      "\<And>m. pending x = Some m \<Longrightarrow> cq_next s' m = None"
    and cnt: "uncounted x = uncounted (pcs t)" "reserved x = reserved (pcs t)" "undoing x = undoing (pcs t)"
    and kn: "\<And>u. u \<noteq> t \<Longrightarrow> knows s' (pcs u)" "knows s' x" and mv: "moving s (pcs t) \<Longrightarrow> moving s x"
    and ph: "accepts fifo_after (contents s ns) as = Some (contents s ns)"
      "accepts cq_phase_after (cq_phase_of (cq_data s) (pcs t)) as = Some (cq_phase_of (cq_data s') x)"
    and acc: "all_accounted (s, pcs) ns \<Longrightarrow> all_accounted (s', pcs(t := x)) ns"
  shows "cq_ok (s, pcs) ns t as (s', pcs(t := x)) ns"
proof -
  let ?pcs = "pcs(t := x)"
  note k = cq_invD [OF inv]
  have same: "cq_mHead s' = cq_mHead s" "cq_mTail s' = cq_mTail s" "cq_mCount s' = cq_mCount s" "cq_live s' = L"
    "lagging s' ns = lagging s ns" by (simp_all add: s' lagging_def)
  have "tally_ok s' ?pcs ns" by (rule tally_ok_upd [OF k(3)]) (simp_all add: same cnt)
  moreover have "kept_ok s' ?pcs ns"
  proof -
    have "m \<in> L \<and> m \<notin> set ns \<and> (\<forall>v. kept (?pcs v) = Some m \<longrightarrow> u = v)" if "kept (?pcs u) = Some m" for u m
    proof (cases "u = t")
      case True
      then show ?thesis using x(1) [of m] that by auto
    next
      case False
      then have "kept (pcs u) = Some m" using that by simp
      then show ?thesis using k(2) live(2) [OF False] x(1) [of m] False unfolding kept_ok_def by (auto split: if_splits)
    qed
    then show ?thesis unfolding kept_ok_def same by blast
  qed
  moreover have "shape_ok s' ns" using k(1) live(1) n by (simp add: shape_ok_def same) (simp add: s')
  moreover have "knows s' (?pcs u)" for u using kn by simp
  moreover have "\<exists>u. moving s' (?pcs u)" if lag: "lagging s' ns"
  proof -
    obtain u where "moving s (pcs u)" using k(6) lag same(5) by blast
    then have "moving s' (?pcs u)" using mv moving_same_tail [OF same(2)] by auto
    then show ?thesis by blast
  qed
  moreover have "cq_next s' m = None" if p: "pending (?pcs u) = Some m" for u m
  proof (cases "u = t")
    case False
    then have "kept (pcs u) = Some m" "pending (pcs u) = Some m" using p by (simp_all add: kept_def)
    then show ?thesis using k(5) [of u m] other [OF False] by (auto simp: s')
  qed (use x(2) p in simp)
  ultimately have "cq_inv (s', ?pcs) ns" by (simp add: cq_inv_def)
  moreover have "contents s' ns = contents s ns"
    using n by (cases ns) (auto simp: contents_def s')
  moreover have "cq_phase_of (cq_data s') (pcs u) = cq_phase_of (cq_data s) (pcs u)" if "u \<noteq> t" for u
    by (rule cq_phase_of_cong) (use other [OF that] in \<open>auto simp: s'\<close>)
  ultimately show ?thesis using ph acc by (simp add: cq_ok_def)
qed

text \<open>The three compare-exchanges that succeed.\<close>

lemma link_ok:
  fixes s :: "'a ConcurrentQueue"
  assumes inv: "cq_inv (s, pcs) ns" and pc: "pcs t = Some (EnqCas n a)" and a: "cq_next s a = None"
  shows "cq_ok (s, pcs) ns t [LinEnq (cq_data s n)]
    (s\<lparr>cq_next := (cq_next s)(a := Some n)\<rparr>, pcs(t := Some (MoveCount AfterLink))) (ns @ [n])"
proof -
  let ?s = "s\<lparr>cq_next := (cq_next s)(a := Some n)\<rparr>" and ?pcs = "pcs(t := Some (MoveCount AfterLink))"
  note k = cq_invD [OF inv]
  note sh = shapeD [OF k(1)]
  have kept: "kept (pcs t) = Some n" "pending (pcs t) = Some n" using pc by (simp_all add: kept_def)
  have n: "n \<in> cq_live s" "n \<notin> set ns" "\<And>u. u \<noteq> t \<Longrightarrow> kept (pcs u) \<noteq> Some n"
    using k(2) kept(1) unfolding kept_ok_def by metis+
  have nx: "cq_next s n = None" by (rule k(5) [OF kept(2)])
  have tail: "n16_pNode (cq_mTail s) = Some a" using k(4) [of t] pc a by simp
  then have al: "a = last ns" "a \<in> set ns" using sh(7) path_end [OF sh(2) _ a] by auto
  obtain ms where ns: "ns = ms @ [a]" using al(1) sh(1) by (metis append_butlast_last_id)
  have "shape_ok ?s (ns @ [n])"
    unfolding shape_ok_def
  proof (intro conjI impI)
    show "path (cq_next ?s) (n16_pNode (cq_mHead ?s)) (ns @ [n])"
      using path_snoc [OF sh(2,1,3) n(2) nx] al(1) by simp
    show "\<exists>ms b c. ns @ [n] = ms @ [b, c] \<and> n16_pNode (cq_mTail ?s) = Some b" using ns tail by simp
  qed (use sh(3,4) n(1,2) in simp_all)
  moreover have "kept_ok ?s ?pcs (ns @ [n])"
  proof -
    have "m \<in> cq_live s \<and> m \<notin> set (ns @ [n]) \<and> (\<forall>v. kept (?pcs v) = Some m \<longrightarrow> u = v)"
      if m: "kept (?pcs u) = Some m" for u m
    proof -
      have u: "u \<noteq> t" "kept (pcs u) = Some m" using m by (auto simp: kept_def split: if_splits)
      have "v = u" if "kept (?pcs v) = Some m" for v
      proof -
        have "kept (pcs v) = Some m" using that by (auto simp: kept_def split: if_splits)
        then show ?thesis using k(2) u(2) unfolding kept_ok_def by blast
      qed
      then show ?thesis using k(2) u n(3) [OF u(1)] unfolding kept_ok_def by auto
    qed
    moreover have "cq_live ?s = cq_live s" by simp
    ultimately show ?thesis unfolding kept_ok_def by metis
  qed
  moreover have "tally_ok ?s ?pcs (ns @ [n])" by (rule tally_ok_upd [OF k(3)]) (use pc in simp_all)
  moreover have "knows ?s (?pcs u)" for u using knows_link [OF k(4) a] by auto
  moreover have "cq_next ?s m = None" if p: "pending (?pcs u) = Some m" for u m
  proof -
    have u: "u \<noteq> t" "pending (pcs u) = Some m" using p by (auto split: if_splits)
    then have "kept (pcs u) = Some m" by (simp add: kept_def)
    then have "m \<noteq> a" using k(2) al(2) unfolding kept_ok_def by blast
    then show ?thesis using k(5) [OF u(2)] by simp
  qed
  moreover have "\<exists>u. moving ?s (?pcs u)" by (rule exI [of _ t]) simp
  ultimately have "cq_inv (?s, ?pcs) (ns @ [n])" by (simp add: cq_inv_def)
  moreover have "all_accounted (?s, ?pcs) (ns @ [n])" if acc: "all_accounted (s, pcs) ns"
    unfolding all_accounted_def
  proof
    fix m assume "m \<in> cq_live (fst (?s, ?pcs))"
    then consider "m \<in> set (ns @ [n])" | u where "u \<noteq> t" "kept (pcs u) = Some m"
      using accountedD [OF acc, of m t] kept(1) by auto
    then show "m \<in> set (ns @ [n]) \<union> {m. \<exists>u. kept (snd (?s, ?pcs) u) = Some m}"
    proof cases
      case 2
      then have "kept (?pcs u) = Some m" by simp
      then show ?thesis by (auto simp del: fun_upd_apply)
    qed blast
  qed
  moreover have "contents ?s (ns @ [n]) = contents s ns @ [cq_data s n]"
    using sh(1) by (cases ns) (simp_all add: contents_def)
  ultimately show ?thesis using pc by (simp add: cq_ok_def contents_def)
qed

lemma swing_tail_ok:
  fixes s :: "'a ConcurrentQueue"
  assumes inv: "cq_inv (s, pcs) ns" and pc: "pcs t = Some (MoveCas (cq_mTail s) d k)"
  shows "cq_ok (s, pcs) ns t [] (s\<lparr>cq_mTail := d\<rparr>, pcs(t := Some (cq_return_to k))) ns"
proof -
  let ?s = "s\<lparr>cq_mTail := d\<rparr>" and ?x = "Some (cq_return_to k)"
  note i = cq_invD [OF inv]
  have nx: "next_is s (cq_mTail s) d" and ck: "caller_ok s k" using i(4) [of t] pc by simp_all
  obtain a b where ab: "n16_pNode (cq_mTail s) = Some a" "n16_pNode d = Some b" "cq_next s a = Some b"
    using nx by (auto simp: next_is_def)
  obtain ms where ns: "ns = ms @ [a, b]" using tail_next [OF i(1) ab(1,3)] by blast
  have lag: "\<not> lagging ?s ns" using ab(2) ns by (simp add: lagging_def)
  have same: "kept ?x = kept (pcs t)" "pending ?x = pending (pcs t)" "uncounted ?x = uncounted (pcs t)"
    "reserved ?x = reserved (pcs t)" "undoing ?x = undoing (pcs t)"
    using pc by (cases k; simp add: kept_def)+
  have "knows s ?x" using ck by (cases k) simp_all
  then have "knows ?s ((pcs(t := ?x)) u)" for u using knows_tail [OF _ nx] i(4) [of u] by simp
  moreover have "shape_ok ?s ns" using i(1) lag by (simp add: shape_ok_def)
  moreover have "tally_ok ?s (pcs(t := ?x)) ns" by (rule tally_ok_upd [OF i(3)]) (use same in simp_all)
  moreover have "kept_ok ?s (pcs(t := ?x)) ns"
    by (rule kept_ok_live [OF kept_ok_same [OF i(2)]]) (use same in simp_all)
  moreover have "cq_next s m = None" if "pending ((pcs(t := ?x)) u) = Some m" for u m
    using i(5) [of u m] i(5) [of t m] that same(2) by (auto split: if_splits)
  ultimately have "cq_inv (?s, pcs(t := ?x)) ns" using lag by (simp add: cq_inv_def)
  moreover have "kept ((pcs(t := ?x)) u) = kept (pcs u)" for u using same(1) by simp
  moreover have "cq_phase_of (cq_data s) ?x = cq_phase_of (cq_data s) (pcs t)" using pc by (cases k) simp_all
  ultimately show ?thesis by (simp add: cq_ok_def contents_def all_accounted_def)
qed

lemma swing_head_ok:
  fixes s :: "'a ConcurrentQueue"
  assumes inv: "cq_inv (s, pcs) ns" and pc: "pcs t = Some (DeqCas (cq_mHead s) d out)"
  shows "cq_ok (s, pcs) ns t [LinDeq out]
    (s\<lparr>cq_mHead := d\<rparr>, pcs(t := Some (DeqDelete (n16_pNode (cq_mHead s)) out))) (tl ns)"
proof -
  let ?s = "s\<lparr>cq_mHead := d\<rparr>" and ?pcs = "pcs(t := Some (DeqDelete (n16_pNode (cq_mHead s)) out))"
  note i = cq_invD [OF inv]
  note sh = shapeD [OF i(1)]
  have nx: "next_is s (cq_mHead s) d" "out = map_option (cq_data s) (n16_pNode d)"
    using i(4) [of t] pc sh(5) by (auto simp: stale_def)
  obtain a b where ab: "n16_pNode (cq_mHead s) = Some a" "n16_pNode d = Some b" "cq_next s a = Some b"
    using nx by (auto simp: next_is_def)
  obtain r where ns: "ns = a # b # r" using head_next [OF i(1) ab(1,3)] by blast
  have res: "reserved (pcs t)" using pc by simp
  have tail: "n16_pNode (cq_mTail s) \<noteq> Some a" using two_nodes(1) [OF inv res] ab(1) by simp
  have lag: "lagging ?s (tl ns) \<longleftrightarrow> lagging s ns" by (simp add: lagging_def ns)
  have "shape_ok ?s (tl ns)"
    unfolding shape_ok_def lag
  proof (intro conjI impI)
    assume "lagging s ns"
    then obtain ms c e where e: "ns = ms @ [c, e]" "n16_pNode (cq_mTail s) = Some c"
      using i(1) by (auto simp: shape_ok_def)
    then show "\<exists>ms c e. tl ns = ms @ [c, e] \<and> n16_pNode (cq_mTail ?s) = Some c"
      using tail ns by (cases ms) auto
  qed (use sh(2,3,4) ns ab in auto)
  moreover have "kept_ok ?s ?pcs (tl ns)"
  proof -
    have a: "a \<in> cq_live s" "a \<notin> set (tl ns)" "kept (pcs u) \<noteq> Some a" for u
      using sh(3,4) ns i(2) unfolding kept_ok_def by auto
    have old: "kept (pcs u) = Some m \<and> u \<noteq> t \<or> m = a \<and> u = t" if "kept (?pcs u) = Some m" for u m
      using that ab(1) by (auto simp: kept_def split: if_splits)
    have "m \<in> cq_live s \<and> m \<notin> set (tl ns)" if "kept (?pcs u) = Some m" for u m
      using old [OF that] a i(2) ns unfolding kept_ok_def by auto
    moreover have "u = v" if "kept (?pcs u) = Some m" "kept (?pcs v) = Some m" for u v m
      using old [OF that(1)] old [OF that(2)] a(3) i(2) unfolding kept_ok_def by blast
    ultimately show ?thesis by (intro kept_okI) (simp_all del: fun_upd_apply)
  qed
  moreover have "tally_ok ?s ?pcs (tl ns)" by (rule tally_ok_upd [OF i(3)]) (use pc ns in simp_all)
  moreover have "knows ?s (?pcs u)" for u using knows_head [OF i(4) nx(1)] ab nx(2) by auto
  moreover have "cq_next s m = None" if "pending (?pcs u) = Some m" for u m
    using i(5) [of u m] that by (auto split: if_splits)
  moreover have "\<exists>u. moving ?s (?pcs u)" if lg: "lagging s ns"
  proof -
    obtain u where "moving s (pcs u)" using i(6) [OF lg] by blast
    then have "moving ?s (?pcs u)" using moving_same_tail [of ?s s] pc by auto
    then show ?thesis by blast
  qed
  ultimately have "cq_inv (?s, ?pcs) (tl ns)" using lag by (simp add: cq_inv_def)
  moreover have "all_accounted (?s, ?pcs) (tl ns)" if acc: "all_accounted (s, pcs) ns"
    unfolding all_accounted_def
  proof
    fix m assume "m \<in> cq_live (fst (?s, ?pcs))"
    then have "m \<in> set ns \<or> (\<exists>u. kept (pcs u) = Some m)" using acc by (auto simp: all_accounted_def)
    moreover have "kept (?pcs t) = Some a" "kept (pcs t) = None" using ab(1) pc by (simp_all add: kept_def)
    ultimately consider "m \<in> set (tl ns)" | u where "kept (?pcs u) = Some m"
      using ns by (metis fun_upd_other list.sel(3) option.distinct(1) set_ConsD)
    then show "m \<in> set (tl ns) \<union> {m. \<exists>u. kept (snd (?s, ?pcs) u) = Some m}"
      by cases (auto simp del: fun_upd_apply)
  qed
  ultimately show ?thesis using pc ns ab nx(2) by (simp add: cq_ok_def contents_def)
qed

text \<open>Any step of a thread; a null pointer is never dereferenced.\<close>

fun thread_ok :: "'a cq_system \<Rightarrow> nat list \<Rightarrow> nat \<Rightarrow> 'a cq_pc \<Rightarrow> 'a cq_next \<times> 'a ConcurrentQueue \<Rightarrow> bool" where
  "thread_ok (s, pcs) ns t pc (CqGoto pc', s') \<longleftrightarrow>
     (\<exists>ns'. cq_ok (s, pcs) ns t (cq_lin pc pc' s) (s', pcs(t := Some pc')) ns')"
| "thread_ok (s, pcs) ns t pc (CqReturn r, s') \<longleftrightarrow>
     (\<exists>ns'. cq_ok (s, pcs) ns t [CqRet r] (s', pcs(t := None)) ns')"
| "thread_ok (s, pcs) ns t pc (CqFault, s') \<longleftrightarrow> False"

lemma pending_not_aimed:
  assumes inv: "cq_inv (s, pcs) ns" and p: "pending (pcs t) = Some n"
  shows "aims (pcs u) \<noteq> Some n"
proof
  assume a: "aims (pcs u) = Some n"
  note k = cq_invD [OF inv]
  have "kept (pcs t) = Some n" using p by (simp add: kept_def)
  then have "n \<notin> set ns" using k(2) unfolding kept_ok_def by blast
  moreover have "n16_pNode (cq_mTail s) = Some n"
    using a k(4) [of u] k(5) [OF p] by (cases "pcs u" rule: aims.cases) auto
  ultimately show False using shapeD(7) [OF k(1)] by auto
qed

lemma node_alloc_ok:
  fixes s :: "'a ConcurrentQueue"
  assumes inv: "cq_inv (s, pcs) ns" and pc: "pcs t = Some (EnqNew d)" and n: "n \<notin> cq_live s" "\<not> aimed pcs n"
  shows "cq_ok (s, pcs) ns t [] (s\<lparr>cq_next := (cq_next s)(n := None), cq_data := (cq_data s)(n := cq_zero s),
      cq_live := insert n (cq_live s)\<rparr>, pcs(t := Some (EnqData n d))) ns"
proof -
  note k = cq_invD [OF inv]
  have kl: "kept (pcs u) = Some m \<Longrightarrow> m \<in> cq_live s" for u m using k(2) unfolding kept_ok_def by blast
  have ns: "n \<notin> set ns" using shapeD(4) [OF k(1)] n(1) by auto
  show ?thesis
  proof (rule node_change [OF inv ns refl])
    show "all_accounted (s\<lparr>cq_next := (cq_next s)(n := None), cq_data := (cq_data s)(n := cq_zero s),
      cq_live := insert n (cq_live s)\<rparr>, pcs(t := Some (EnqData n d))) ns" if acc: "all_accounted (s, pcs) ns"
    proof -
      have "kept (pcs t) = None" using pc by (simp add: kept_def)
      then have "m \<in> cq_live s \<Longrightarrow> m \<in> set ns \<or> (\<exists>u. u \<noteq> t \<and> kept (pcs u) = Some m)" for m
        using accountedD [OF acc, of m t] by simp
      then show ?thesis unfolding all_accounted_def by (auto simp: kept_def [of "Some (EnqData n d)"])
    qed
    show "knows (s\<lparr>cq_next := (cq_next s)(n := None), cq_data := (cq_data s)(n := cq_zero s),
      cq_live := insert n (cq_live s)\<rparr>) (pcs u)" for u
      by (rule knows_write [OF k(1,4) ns]) (use n(2) in \<open>auto simp: aimed_def\<close>)
    show "m \<in> insert n (cq_live s) \<and> m \<notin> set ns \<and> (\<forall>u. u \<noteq> t \<longrightarrow> kept (pcs u) \<noteq> Some m)"
      if "kept (Some (EnqData n d)) = Some m" for m
      using that ns kl n(1) by (auto simp: kept_def)
  qed (use pc shapeD(4) [OF k(1)] kl n(1) in \<open>auto simp: kept_def\<close>)
qed

lemma data_ok:
  fixes s :: "'a ConcurrentQueue"
  assumes inv: "cq_inv (s, pcs) ns" and pc: "pcs t = Some (EnqData n d)"
  shows "cq_ok (s, pcs) ns t [] (s\<lparr>cq_data := (cq_data s)(n := d)\<rparr>, pcs(t := Some (EnqNull n))) ns"
proof -
  note k = cq_invD [OF inv]
  have kept: "kept (pcs t) = Some n" "pending (pcs t) = Some n" using pc by (simp_all add: kept_def)
  have n: "n \<in> cq_live s" "n \<notin> set ns" "\<And>u. u \<noteq> t \<Longrightarrow> kept (pcs u) \<noteq> Some n"
    using k(2) kept(1) unfolding kept_ok_def by metis+
  have s': "s\<lparr>cq_data := (cq_data s)(n := d)\<rparr> =
    s\<lparr>cq_next := (cq_next s)(n := None), cq_data := (cq_data s)(n := d), cq_live := cq_live s\<rparr>"
    using k(5) [OF kept(2)] by (simp add: fun_upd_idem)
  show ?thesis
  proof (rule node_change [OF inv n(2) s'])
    show "knows (s\<lparr>cq_data := (cq_data s)(n := d)\<rparr>) (pcs u)" for u
      unfolding s' by (rule knows_write [OF k(1,4) n(2) pending_not_aimed [OF inv kept(2)]])
    show "m \<in> cq_live s" if "kept (pcs u) = Some m" for u m using that k(2) unfolding kept_ok_def by blast
    show "all_accounted (s\<lparr>cq_data := (cq_data s)(n := d)\<rparr>, pcs(t := Some (EnqNull n))) ns"
      if acc: "all_accounted (s, pcs) ns"
    proof -
      have "kept ((pcs(t := Some (EnqNull n))) u) = kept (pcs u)" for u using pc by (simp add: kept_def)
      then show ?thesis using acc by (simp add: all_accounted_def)
    qed
  qed (use pc n shapeD(4) [OF k(1)] k(5) [OF kept(2)] in \<open>auto simp: kept_def [of "Some (EnqNull n)"]\<close>)
qed

lemma node_delete_ok:
  fixes s :: "'a ConcurrentQueue"
  assumes inv: "cq_inv (s, pcs) ns" and pc: "pcs t = Some (DeqDelete (Some n) out)"
  shows "cq_ok (s, pcs) ns t [CqRet (DeqRet True out)] (s\<lparr>cq_live := cq_live s - {n}\<rparr>, pcs(t := None)) ns"
proof -
  note k = cq_invD [OF inv]
  have kept: "kept (pcs t) = Some n" using pc by (simp add: kept_def)
  have n: "n \<notin> set ns" "\<And>u. u \<noteq> t \<Longrightarrow> kept (pcs u) \<noteq> Some n"
    using k(2) kept unfolding kept_ok_def by metis+
  have s': "s\<lparr>cq_live := cq_live s - {n}\<rparr> =
    s\<lparr>cq_next := (cq_next s)(n := cq_next s n), cq_data := (cq_data s)(n := cq_data s n), cq_live := cq_live s - {n}\<rparr>"
    by simp
  show ?thesis
  proof (rule node_change [OF inv n(1) s'])
    show "m \<in> cq_live s - {n}" if "u \<noteq> t" "kept (pcs u) = Some m" for u m
      using that k(2) n(2) unfolding kept_ok_def by blast
    show "all_accounted (s\<lparr>cq_live := cq_live s - {n}\<rparr>, pcs(t := None)) ns" if acc: "all_accounted (s, pcs) ns"
    proof -
      have "m \<in> set ns \<or> (\<exists>u. u \<noteq> t \<and> kept (pcs u) = Some m)" if "m \<in> cq_live s - {n}" for m
        using accountedD [OF acc, of m t] that kept by auto
      then show ?thesis unfolding all_accounted_def by auto
    qed
  qed (use pc n shapeD(4) [OF k(1)] k(4) in auto)
qed

lemma quietI:
  assumes "cq_inv (s, pcs) ns" "pcs t = Some pc" "r = (CqGoto pc', s)" "cq_lin pc pc' s = []"
    "kept (Some pc') = kept (Some pc)" "pending (Some pc') = pending (Some pc)"
    "uncounted (Some pc') = uncounted (Some pc)" "reserved (Some pc') = reserved (Some pc)"
    "undoing (Some pc') = undoing (Some pc)"
    "knows s (Some pc')" "lagging s ns \<Longrightarrow> moving s (Some pc) \<Longrightarrow> moving s (Some pc')"
    "cq_phase_of (cq_data s) (Some pc') = cq_phase_of (cq_data s) (Some pc)"
  shows "thread_ok (s, pcs) ns t pc r"
proof -
  have "cq_ok (s, pcs) ns t [] (s, pcs(t := Some pc')) ns"
    by (rule quiet_same [OF assms(1)]) (use assms in simp_all)
  then show ?thesis using assms(3,4) by auto
qed

lemma enqueue_step_ok:
  assumes inv: "cq_inv (s, pcs) ns" and pc: "pcs t = Some pc" "in_enqueue pc"
    and n: "\<And>d. pc = EnqNew d \<Longrightarrow> n \<notin> cq_live s \<and> \<not> aimed pcs n"
  shows "thread_ok (s, pcs) ns t pc (cq_TryEnqueue_step weak n pc s)"
proof -
  note k = cq_invD [OF inv]
  obtain a where tail: "n16_pNode (cq_mTail s) = Some a" using shapeD(7) [OF k(1)] by auto
  have kn: "knows s (Some pc)" using k(4) [of t] pc(1) by simp
  note go = quietI [OF inv pc(1)]
  show ?thesis
  proof (cases pc)
    case (EnqCheck d)
    show ?thesis
    proof (cases "cq_mMaxCount s \<le> cq_mCount s")
      case True
      have "cq_ok (s, pcs) ns t [CqRet (EnqRet False)] (s, pcs(t := None)) ns"
        by (rule quiet_same [OF inv]) (use pc EnqCheck in \<open>simp_all add: kept_def\<close>)
      then show ?thesis using True EnqCheck by auto
    next
      case False
      then show ?thesis
        by (intro go [where pc' = "EnqNew d"]) (use EnqCheck in \<open>auto simp: kept_def\<close>)
    qed
  next
    case (EnqNew d)
    then show ?thesis using node_alloc_ok [OF inv, of t d n] pc n [OF EnqNew] by auto
  next
    case (EnqData m d)
    then show ?thesis using data_ok [OF inv, of t m d] pc by auto
  next
    case (EnqNull m)
    have "cq_next s m = None" using k(5) [of t m] pc EnqNull by simp
    then have "(cq_next s)(m := None) = cq_next s" by (simp add: fun_upd_idem)
    then show ?thesis by (intro go [where pc' = "EnqTail m"]) (use EnqNull in \<open>simp_all add: kept_def\<close>)
  next
    case (EnqTail m)
    show ?thesis
      by (rule go [where pc' = "EnqNext m (Some a)"]) (use EnqTail tail in \<open>simp_all add: kept_def\<close>)
  next
    case (EnqNext m p)
    then obtain b where "p = Some b" using kn by auto
    then show ?thesis
      by (intro go [where pc' = "EnqRef m (cq_next s b)"]) (use EnqNext in \<open>simp_all add: kept_def\<close>)
  next
    case (EnqRef m p)
    show ?thesis
      by (rule go [where pc' = "if p = None then EnqCas m a else MoveCount (AfterRetry m)"])
        (use EnqRef tail in \<open>simp_all add: kept_def\<close>)
  next
    case (EnqCas m b)
    show ?thesis
    proof (cases "\<not> weak \<and> cq_next s b = None")
      case True
      then show ?thesis using link_ok [OF inv, of t m b] EnqCas pc by auto
    next
      case False
      then show ?thesis
        by (intro go [where pc' = "MoveCount (AfterRetry m)"]) (use EnqCas in \<open>auto simp: kept_def\<close>)
    qed
  next
    case EnqAdd
    have "cq_ok (s, pcs) ns t [CqRet (EnqRet True)] (s\<lparr>cq_mCount := cq_mCount s + 1\<rparr>, pcs(t := None)) ns"
      by (rule quiet [OF inv]) (use pc EnqAdd in \<open>simp_all add: kept_def\<close>)
    then show ?thesis using EnqAdd by auto
  qed (use pc in simp_all)
qed

text \<open>A return of \<open>moveTail\<close> changes nothing about the phase of its caller.\<close>

lemma kept_move:
  "kept (Some (MoveCount c)) = (case c of AfterRetry n \<Rightarrow> Some n | _ \<Rightarrow> None)"
  "kept (Some (MoveNode m c)) = (case c of AfterRetry n \<Rightarrow> Some n | _ \<Rightarrow> None)"
  "kept (Some (MoveNext e c)) = (case c of AfterRetry n \<Rightarrow> Some n | _ \<Rightarrow> None)"
  "kept (Some (MoveCas e d c)) = (case c of AfterRetry n \<Rightarrow> Some n | _ \<Rightarrow> None)"
  "kept (Some (cq_return_to c)) = (case c of AfterRetry n \<Rightarrow> Some n | _ \<Rightarrow> None)"
  by (cases c; simp add: kept_def)+

lemma return_to_phase:
  "pending (Some (cq_return_to c)) = (case c of AfterRetry n \<Rightarrow> Some n | _ \<Rightarrow> None)"
  "uncounted (Some (cq_return_to c)) \<longleftrightarrow> c = AfterLink"
  "reserved (Some (cq_return_to c)) \<longleftrightarrow> (case c of AfterEqual e d out \<Rightarrow> True | _ \<Rightarrow> False)"
  "\<not> undoing (Some (cq_return_to c))"
  "cq_phase_of dat (Some (cq_return_to c)) = cq_phase_of dat (Some (MoveNext node16_zero c))"
  by (cases c; simp)+

lemma return_to_knows: "caller_ok s c \<Longrightarrow> knows s (Some (cq_return_to c))"
  by (cases c) simp_all

lemmas move_phases = kept_move return_to_phase return_to_knows

lemma moveTail_step_ok:
  assumes inv: "cq_inv (s, pcs) ns" and pc: "pcs t = Some pc" "in_moveTail pc" and strong: "\<not> weak"
  shows "thread_ok (s, pcs) ns t pc (cq_moveTail_step weak pc s)"
proof -
  note k = cq_invD [OF inv]
  obtain a where tail: "n16_pNode (cq_mTail s) = Some a" "a \<in> set ns" "lagging s ns \<longleftrightarrow> cq_next s a \<noteq> None"
    using shapeD(7) [OF k(1)] by auto
  have kn: "knows s (Some pc)" using k(4) [of t] pc(1) by simp
  note go = quietI [OF inv pc(1)]
  show ?thesis
  proof (cases pc)
    case (MoveCount c)
    show ?thesis
      by (rule go [where pc' = "MoveNode (n16_count (cq_mTail s)) c"]) (use kn MoveCount in \<open>simp_all add: move_phases\<close>)
  next
    case (MoveNode m c)
    show ?thesis
      by (rule go [where pc' = "MoveNext \<lparr>n16_pNode = Some a, n16_count = m\<rparr> c"])
        (use kn tail(1) MoveNode in \<open>auto simp: move_phases fresh_tag_def\<close>)
  next
    case (MoveNext e c)
    then obtain b where b: "n16_pNode e = Some b" using kn by auto
    have cur: "b = a" if "e = cq_mTail s" using that b tail(1) by simp
    show ?thesis
    proof (cases "cq_next s b")
      case None
      then have lag: "lagging s ns \<Longrightarrow> e \<noteq> cq_mTail s" using tail(3) cur by auto
      show ?thesis
        by (rule go [where pc' = "cq_return_to c"])
          (use kn MoveNext lag b None in \<open>auto simp: move_phases fresh_tag_def\<close>)
    next
      case (Some x)
      then show ?thesis
        by (intro go [where pc' = "MoveCas e \<lparr>n16_pNode = Some x, n16_count = n16_count e + 1\<rparr> c"])
          (use MoveNext kn b in \<open>auto simp: move_phases next_is_def\<close>)
    qed
  next
    case (MoveCas e d c)
    show ?thesis
    proof (cases "cq_mTail s = e")
      case True
      then show ?thesis using swing_tail_ok [OF inv, of t d c] pc MoveCas strong by auto
    next
      case False
      have c: "caller_ok s c" "n16_count e \<noteq> n16_count (cq_mTail s)" using kn MoveCas False by (auto simp: fresh_tag_def)
      show ?thesis
        by (rule go [where pc' = "cq_return_to c"])
          (use c MoveCas False in \<open>auto simp: move_phases\<close>)
    qed
  qed (use pc in simp_all)
qed

lemma dequeue_step_ok:
  assumes inv: "cq_inv (s, pcs) ns" and pc: "pcs t = Some pc" "\<not> in_enqueue pc" "\<not> in_moveTail pc"
  shows "thread_ok (s, pcs) ns t pc (cq_TryDequeue_step weak pc s)"
proof -
  note k = cq_invD [OF inv]
  have kn: "knows s (Some pc)" using k(4) [of t] pc(1) by simp
  note go = quietI [OF inv pc(1)]
  obtain h where head: "n16_pNode (cq_mHead s) = Some h" using shapeD(5) [OF k(1)] by auto
  have neq: "n16_pNode (cq_mTail s) \<noteq> Some h" "cq_next s h \<noteq> None" if "reserved (Some pc)"
    using reserved_head [OF inv, of t h] that pc(1) head by simp_all
  show ?thesis
  proof (cases pc)
    case DeqSub
    have "cq_ok (s, pcs) ns t [] (s\<lparr>cq_mCount := cq_mCount s - 1\<rparr>,
      pcs(t := Some (if cq_mCount s \<le> 0 then DeqUndo else DeqHead node16_zero node16_zero None))) ns"
      by (rule quiet [OF inv]) (use pc DeqSub in \<open>simp_all add: kept_def node16_zero_def\<close>)
    then show ?thesis using DeqSub by auto
  next
    case DeqUndo
    have "cq_ok (s, pcs) ns t [CqRet (DeqRet False None)] (s\<lparr>cq_mCount := cq_mCount s + 1\<rparr>, pcs(t := None)) ns"
      by (rule quiet [OF inv]) (use pc DeqUndo in \<open>simp_all add: kept_def\<close>)
    then show ?thesis using DeqUndo by auto
  next
    case (DeqHead e d out)
    show ?thesis
      by (rule go [where pc' = "DeqTail (n16_pNode (cq_mHead s)) e d out"]) (use kn DeqHead in \<open>auto simp: kept_def\<close>)
  next
    case (DeqTail p e d out)
    have "stale s e" if "p = n16_pNode (cq_mTail s)" using kn neq(1) head that DeqTail by (auto simp: stale_def)
    then show ?thesis
      by (intro go [where pc' = "if p = n16_pNode (cq_mTail s) then MoveCount (AfterEqual e d out) else DeqCount e d out"])
        (use DeqTail in \<open>auto simp: kept_def\<close>)
  next
    case (DeqCount e d out)
    show ?thesis
      by (rule go [where pc' = "DeqNode (e\<lparr>n16_count := n16_count (cq_mHead s)\<rparr>) d out"])
        (use DeqCount in \<open>auto simp: kept_def\<close>)
  next
    case (DeqNode e d out)
    show ?thesis
      by (rule go [where pc' = "DeqNext (e\<lparr>n16_pNode := Some h\<rparr>) d out"])
        (use kn head DeqNode in \<open>auto simp: kept_def fresh_tag_def\<close>)
  next
    case (DeqNext e d out)
    then obtain a where a: "n16_pNode e = Some a" using kn by auto
    let ?d = "\<lparr>n16_pNode = cq_next s a, n16_count = n16_count e + 1\<rparr>"
    have "stale s e" if none: "cq_next s a = None"
    proof -
      have "e \<noteq> cq_mHead s" using neq(2) none a head DeqNext by auto
      then show ?thesis using kn DeqNext by (auto simp: stale_def fresh_tag_def)
    qed
    then show ?thesis
      by (intro go [where pc' = "if cq_next s a = None then DeqCas e ?d out else DeqData e ?d out"])
        (use kn a DeqNext in \<open>auto simp: kept_def next_is_def Let_def\<close>)
  next
    case (DeqData e d out)
    then obtain b where b: "n16_pNode d = Some b" using kn by auto
    have "stale s e \<or> e = cq_mHead s \<and> next_is s e d" using kn DeqData by (auto simp: stale_def fresh_tag_def)
    then show ?thesis
      by (intro go [where pc' = "DeqCas e d (Some (cq_data s b))"]) (use b DeqData in \<open>auto simp: kept_def\<close>)
  next
    case (DeqCas e d out)
    show ?thesis
    proof (cases "\<not> weak \<and> cq_mHead s = e")
      case True
      then show ?thesis using swing_head_ok [OF inv, of t d out] pc DeqCas by auto
    next
      case False
      then show ?thesis
        by (intro go [where pc' = "DeqHead (cq_mHead s) d out"]) (use DeqCas in \<open>auto simp: kept_def\<close>)
    qed
  next
    case (DeqDelete p out)
    then obtain n where "p = Some n" using kn by auto
    then show ?thesis using node_delete_ok [OF inv, of t n out] pc DeqDelete by auto
  qed (use pc in simp_all)
qed

lemma thread_step_safe:
  assumes "cq_inv (s, pcs) ns" "pcs t = Some pc" "\<And>d. pc = EnqNew d \<Longrightarrow> n \<notin> cq_live s \<and> \<not> aimed pcs n"
    "\<not> (weak \<and> in_moveTail pc)"
  shows "thread_ok (s, pcs) ns t pc (cq_thread_step weak n pc s)"
  using assms enqueue_step_ok [OF assms(1,2)] moveTail_step_ok [OF assms(1,2)] dequeue_step_ok [OF assms(1,2)]
  by (auto simp: cq_thread_step_def)

lemma return_ok:
  assumes "cq_inv (s, pcs) ns" "pcs t = Some pc" "cq_thread_step weak n pc s = (CqReturn r, s')"
  shows "thread_ok (s, pcs) ns t pc (CqReturn r, s')"
proof -
  have "\<not> in_moveTail pc" "pc \<noteq> EnqNew d" for d
    using assms(3) by (cases pc; auto simp: cq_thread_step_def split: option.splits)+
  then show ?thesis using thread_step_safe [OF assms(1,2), of n weak] assms(3) by auto
qed

lemma foreign_write_ok:
  fixes s :: "'a ConcurrentQueue"
  assumes inv: "cq_inv (s, pcs) ns" and n: "n \<notin> cq_live s" "\<not> aimed pcs n"
  shows "cq_ok (s, pcs) ns t [] (s\<lparr>cq_next := (cq_next s)(n := x), cq_data := (cq_data s)(n := d)\<rparr>, pcs) ns"
proof -
  let ?s = "s\<lparr>cq_next := (cq_next s)(n := x), cq_data := (cq_data s)(n := d)\<rparr>"
  note k = cq_invD [OF inv]
  have ns: "n \<notin> set ns" using shapeD(4) [OF k(1)] n(1) by auto
  have kl: "kept (pcs u) = Some m \<Longrightarrow> m \<in> cq_live s \<and> m \<notin> set ns" for u m using k(2) unfolding kept_ok_def by blast
  have ku: "kept (pcs u) = Some m \<Longrightarrow> kept (pcs v) = Some m \<Longrightarrow> u = v" for u v m
    using k(2) unfolding kept_ok_def by blast
  have nk: "kept (pcs u) \<noteq> Some n" for u using kl [of u n] n(1) by auto
  have s': "?s = s\<lparr>cq_next := (cq_next s)(n := x), cq_data := (cq_data s)(n := d), cq_live := cq_live s\<rparr>" by simp
  have kn: "knows ?s (pcs u)" for u
    using knows_write [where x = x and d = d and L = "cq_live s", OF k(1,4) ns] n(2) by (auto simp: aimed_def)
  have "cq_ok (s, pcs) ns t [] (?s, pcs(t := pcs t)) ns"
  proof (rule node_change [OF inv ns s' shapeD(4) [OF k(1)]])
    show "m \<in> cq_live s \<and> m \<notin> set ns \<and> (\<forall>u. u \<noteq> t \<longrightarrow> kept (pcs u) \<noteq> Some m)" if "kept (pcs t) = Some m" for m
      using kl [OF that] ku [OF that] by metis
    show "cq_next ?s m = None" if p: "pending (pcs t) = Some m" for m
      using k(5) [OF p] nk [of t] p by (auto simp: kept_def)
    show "all_accounted (?s, pcs(t := pcs t)) ns" if "all_accounted (s, pcs) ns"
      using that by (simp add: all_accounted_def)
    show "accepts cq_phase_after (cq_phase_of (cq_data s) (pcs t)) [] = Some (cq_phase_of (cq_data ?s) (pcs t))"
    proof -
      have "cq_phase_of (cq_data ?s) (pcs t) = cq_phase_of (cq_data s) (pcs t)"
        by (rule cq_phase_of_cong) (use nk [of t] in auto)
      then show ?thesis by simp
    qed
  qed (use kl kn nk in simp_all)
  then show ?thesis by simp
qed

lemma call_ok:
  assumes inv: "cq_inv (s, pcs) ns" and t: "pcs t = None"
    and a: "a = CallEnq d \<and> pc = EnqCheck d \<or> a = CallDeq \<and> pc = DeqSub"
  shows "cq_ok (s, pcs) ns t [a] (s, pcs(t := Some pc)) ns"
  by (rule quiet_same [OF inv]) (use a t in \<open>auto simp: kept_def\<close>)

lemma cq_step_ok: "cq_step True c l c' \<Longrightarrow> cq_inv c ns \<Longrightarrow> \<exists>ns'. cq_ok c ns (fst l) (snd l) c' ns'"
proof (induction rule: cq_step.induct)
  case (call_enq pcs t s d)
  have "cq_ok (s, pcs) ns t [CallEnq d] (s, pcs(t := Some (EnqCheck d))) ns"
    by (rule call_ok [OF call_enq(2,1)]) simp
  then show ?case by auto
next
  case (call_deq pcs t s)
  have "cq_ok (s, pcs) ns t [CallDeq] (s, pcs(t := Some DeqSub)) ns"
    by (rule call_ok [OF call_deq(2,1)]) simp
  then show ?case by auto
next
  case (run pcs t pc n s weak pc' s')
  then show ?case using thread_step_safe [OF run(5,1), of n weak] by auto
next
  case (ret pcs t pc n s weak r s')
  then show ?case using return_ok [OF ret(4,1,3)] by auto
next
  case (reuse n s pcs t d x)
  have "cq_ok (s, pcs) ns t [] (s\<lparr>cq_next := (cq_next s)(n := x), cq_data := (cq_data s)(n := d)\<rparr>, pcs) ns"
    by (rule foreign_write_ok [OF reuse(3,1)]) (use reuse(2) in simp)
  then show ?case by auto
qed

lemma cq_new_inv: "cq_inv (cq_new dflt m n nxt dat, \<lambda>_. None) [n]"
  "all_accounted (cq_new dflt m n nxt dat, \<lambda>_. None) [n]"
  by (simp_all add: cq_inv_def cq_new_def shape_ok_def lagging_def kept_ok_def tally_ok_def finite_loops_def all_accounted_def)

lemma cq_run_ok:
  assumes "cq_run careful c acts c'" "careful" "cq_inv c [n]" "all_accounted c [n]" "\<forall>t. snd c t = None"
  shows "\<exists>ns. cq_inv c' ns \<and> all_accounted c' ns \<and>
    accepts fifo_after [] (map snd acts) = Some (contents (fst c') ns) \<and>
    (\<forall>t. accepts cq_phase_after QIdle (acts_of t acts) = Some (cq_phase_of (cq_data (fst c')) (snd c' t)))"
  using assms
proof (induction rule: cq_run.induct)
  case (start c)
  then show ?case by (intro exI [of _ "[n]"]) (simp add: contents_def)
next
  case (snoc c acts c' t as c'')
  then obtain ns where ns: "cq_inv c' ns" "all_accounted c' ns"
    "accepts fifo_after [] (map snd acts) = Some (contents (fst c') ns)"
    "\<And>u. accepts cq_phase_after QIdle (acts_of u acts) = Some (cq_phase_of (cq_data (fst c')) (snd c' u))" by blast
  obtain ns' where "cq_ok c' ns t as c'' ns'" using cq_step_ok [of c' "(t, as)" c''] snoc(2,4) ns(1) by auto
  then show ?case using ns by (intro exI [of _ ns']) (simp add: cq_ok_def comp_def)
qed

lemmas cq_run_facts = cq_run_ok [OF _ TrueI cq_new_inv, simplified]

end
