(* ===== verification/Queue_Threads.thy ===== *)
theory Queue_Threads
  imports Queue_Invariant
begin

text \<open>
  What the threads of LockFreeQueue can rely on, and the runs that break it: linearizability of
  careful runs, the destructor, the return of a thread that runs alone, and two runs that are not
  careful and lose an element and the head of the queue.
\<close>

subsection \<open>Schedules\<close>

text \<open>
  Three threads run a schedule: \<open>RunThread weak t n\<close> is a step of thread \<open>t\<close>, whose allocation is
  answered with node \<open>n\<close>.
\<close>

datatype 'a cq_sched = DoEnq nat 'a | DoDeq nat | RunThread bool nat nat

definition three_threads :: "'a cq_system \<Rightarrow> bool" where
  "three_threads c \<longleftrightarrow> (\<forall>t. 3 \<le> t \<longrightarrow> snd c t = None)"

fun cq_exec1 :: "bool \<Rightarrow> 'a cq_sched \<Rightarrow> 'a cq_system \<Rightarrow> ((nat \<times> 'a cq_act list) \<times> 'a cq_system) option" where
  "cq_exec1 careful (DoEnq t d) (s, pcs) =
     (if t < 3 \<and> pcs t = None then Some ((t, [CallEnq d]), (s, pcs(t := Some (EnqCheck d)))) else None)"
| "cq_exec1 careful (DoDeq t) (s, pcs) =
     (if t < 3 \<and> pcs t = None then Some ((t, [CallDeq]), (s, pcs(t := Some DeqSub))) else None)"
| "cq_exec1 careful (RunThread weak t n) (s, pcs) =
     (if 3 \<le> t \<or> n \<in> cq_live s \<or> careful \<and> (weak \<or> aims (pcs 0) = Some n \<or> aims (pcs 1) = Some n \<or> aims (pcs 2) = Some n)
      then None
      else case pcs t of None \<Rightarrow> None
      | Some pc \<Rightarrow>
          (case cq_thread_step weak n pc s of
             (CqGoto pc', s') \<Rightarrow> Some ((t, cq_lin pc pc' s), (s', pcs(t := Some pc')))
           | (CqReturn r, s') \<Rightarrow> Some ((t, [CqRet r]), (s', pcs(t := None)))
           | (CqFault, s') \<Rightarrow> None))"

fun cq_exec :: "bool \<Rightarrow> 'a cq_sched list \<Rightarrow> 'a cq_system \<Rightarrow> ((nat \<times> 'a cq_act) list \<times> 'a cq_system) option" where
  "cq_exec careful [] c = Some ([], c)"
| "cq_exec careful (x # xs) c =
     (case cq_exec1 careful x c of None \<Rightarrow> None
      | Some ((t, as), c') \<Rightarrow> map_option (\<lambda>(acts, c''). (map (Pair t) as @ acts, c'')) (cq_exec careful xs c'))"

lemma not_aimed_three:
  assumes "three_threads (s, pcs)" "aims (pcs 0) \<noteq> Some n" "aims (pcs 1) \<noteq> Some n" "aims (pcs 2) \<noteq> Some n"
  shows "\<not> aimed pcs n"
proof -
  have "aims (pcs u) \<noteq> Some n" for u
  proof -
    consider "u = 0" | "u = 1" | "u = 2" | "3 \<le> u" by linarith
    then show ?thesis using assms by cases (auto simp: three_threads_def)
  qed
  then show ?thesis by (simp add: aimed_def)
qed

lemma cq_exec1_step:
  "cq_exec1 careful x c = Some (l, c') \<Longrightarrow> three_threads c \<Longrightarrow> cq_step careful c l c' \<and> three_threads c'"
proof (cases "(careful, x, c)" rule: cq_exec1.cases)
  case (3 careful' weak t n s pcs)
  assume ex: "cq_exec1 careful x c = Some (l, c')" and th: "three_threads c"
  have g: "t < 3" "n \<notin> cq_live s" "careful \<longrightarrow> \<not> aimed pcs n \<and> \<not> weak"
    using ex 3 not_aimed_three [of s pcs n] th by (auto split: if_splits)
  obtain pc where pc: "pcs t = Some pc" using ex 3 by (cases "pcs t") (auto split: if_splits)
  show ?thesis
    using ex 3 g pc th
    by (auto simp: three_threads_def split: prod.splits cq_next.splits if_splits
        intro: cq_step.run [where n = n] cq_step.ret [where n = n])
qed (auto simp: three_threads_def split: if_splits intro: cq_step.intros)

lemma cq_run_trans: "cq_run careful c' bs c'' \<Longrightarrow> cq_run careful c as c' \<Longrightarrow> cq_run careful c (as @ bs) c''"
  by (induction rule: cq_run.induct) (auto dest: cq_run.snoc)

lemma cq_exec_run: "cq_exec careful xs c = Some (acts, c') \<Longrightarrow> three_threads c \<Longrightarrow> cq_run careful c acts c'"
proof (induction careful xs c arbitrary: acts rule: cq_exec.induct)
  case (1 careful c)
  then show ?case by (simp add: cq_run.start)
next
  case (2 careful x xs c)
  then obtain t as c1 bs where x: "cq_exec1 careful x c = Some ((t, as), c1)" "cq_exec careful xs c1 = Some (bs, c')"
    "acts = map (Pair t) as @ bs" by (auto split: option.splits prod.splits)
  note step = cq_exec1_step [OF x(1) 2(3)]
  have "cq_run careful c (map (Pair t) as) c1" using cq_run.snoc [OF cq_run.start conjunct1 [OF step]] by simp
  then show ?case using cq_run_trans [OF "2.IH" [OF x(1) refl refl x(2)]] x(3) step by simp
qed

definition queue_start :: "nat cq_system" where
  "queue_start = (cq_new 0 10 0 (\<lambda>_. None) (\<lambda>_. 0), \<lambda>_. None)"

lemma queue_start_threads [simp]: "three_threads queue_start"
  by (simp add: three_threads_def queue_start_def)

text \<open>Steps of a thread that allocates nothing; an enqueue that gets node \<open>n\<close>.\<close>

definition steps :: "nat \<Rightarrow> nat \<Rightarrow> nat cq_sched list" where
  "steps k t = replicate k (RunThread False t 9)"

definition enqueue :: "nat \<Rightarrow> nat \<Rightarrow> nat \<Rightarrow> nat \<Rightarrow> nat cq_sched list" where
  "enqueue t d n k = [DoEnq t d, RunThread False t n, RunThread False t n] @ steps k t"

subsection \<open>Runs that are not careful\<close>

text \<open>
  Thread 0 has found node 0 at the tail and is about to link its node to it. Thread 1 enqueues,
  dequeues and allocates node 0 again; thread 0 links to it before thread 1 has initialised its next
  pointer.
\<close>

definition recycled_sched :: "nat cq_sched list" where
  "recycled_sched =
     enqueue 0 5 1 5 @ enqueue 1 6 2 11 @ DoDeq 1 # steps 9 1 @
     enqueue 1 7 0 1 @ steps 5 0 @ steps 10 1 @ DoDeq 1 # steps 9 1 @ DoDeq 1 # steps 14 1"

lemmas queue_eval = queue_start_def cq_new_def steps_def enqueue_def cq_thread_step_def node16_zero_def

lemma recycled_exec:
  "\<exists>s. cq_exec False recycled_sched queue_start =
     Some ([(0, CallEnq 5), (1, CallEnq 6), (1, LinEnq 6), (1, CqRet (EnqRet True)),
    (1, CallDeq), (1, LinDeq (Some 6)), (1, CqRet (DeqRet True (Some 6))),
    (1, CallEnq 7), (0, LinEnq 5), (0, CqRet (EnqRet True)), (1, LinEnq 7),
    (1, CqRet (EnqRet True)), (1, CallDeq), (1, LinDeq (Some 7)),
    (1, CqRet (DeqRet True (Some 7))), (1, CallDeq), (1, LinDeq None),
    (1, CqRet (DeqRet True None))], (s, \<lambda>_. None)) \<and>
     n16_pNode (cq_mHead s) = None \<and> n16_pNode (cq_mTail s) = Some 0 \<and> cq_live s = {1}"
  by (simp add: recycled_sched_def queue_eval numeral_eq_Suc) auto


text \<open>The first compare-exchange of \<open>moveTail\<close> of an enqueue and of the following dequeue fail without a reason.\<close>

definition weak_sched :: "nat cq_sched list" where
  "weak_sched = enqueue 0 5 1 9 @ RunThread True 0 9 # steps 1 0 @ DoDeq 0 # steps 6 0 @ RunThread True 0 9 # steps 9 0"

lemma weak_exec:
  "\<exists>s. cq_exec False weak_sched queue_start =
     Some ([(0, CallEnq 5), (0, LinEnq 5), (0, CqRet (EnqRet True)), (0, CallDeq), (0, LinDeq None),
       (0, CqRet (DeqRet True None))], (s, \<lambda>_. None)) \<and> n16_pNode (cq_mHead s) = None"
  by (simp add: weak_sched_def queue_eval numeral_eq_Suc)

text \<open>moveTail ignores a failure of its weak compare-exchange. When it fails without a reason in an enqueue
  and again in the next dequeue, the dequeue finds head and tail equal twice: it returns true without having
  read the element, and the head of the queue is null.\<close>

theorem weak_failure_loses_the_head:
  "\<exists>acts s. cq_run False queue_start acts (s, \<lambda>_. None) \<and> acts_of 0 acts = map snd acts \<and>
     [a \<leftarrow> map snd acts. \<exists>r. a = CqRet r] = map CqRet [EnqRet True, DeqRet True None] \<and>
     n16_pNode (cq_mHead s) = None"
proof -
  obtain s where e: "cq_exec False weak_sched queue_start =
     Some ([(0, CallEnq 5), (0, LinEnq 5), (0, CqRet (EnqRet True)), (0, CallDeq), (0, LinDeq None),
       (0, CqRet (DeqRet True None))], (s, \<lambda>_. None))" "n16_pNode (cq_mHead s) = None"
    using weak_exec by blast
  show ?thesis using cq_exec_run [OF e(1) queue_start_threads] e(2)
    by (intro exI conjI) (assumption | simp add: acts_of_def)+
qed

subsection \<open>Careful runs\<close>

text \<open>Thread 0 enqueues 5, thread 1 dequeues; the node of the dummy is then used again.\<close>

definition careful_sched :: "nat cq_sched list" where
  "careful_sched = enqueue 0 5 1 11 @ DoDeq 1 # steps 9 1 @ enqueue 0 6 0 11"

lemma careful_exec:
  "\<exists>s. cq_exec True careful_sched queue_start =
     Some ([(0, CallEnq 5), (0, LinEnq 5), (0, CqRet (EnqRet True)), (1, CallDeq), (1, LinDeq (Some 5)),
       (1, CqRet (DeqRet True (Some 5))), (0, CallEnq 6), (0, LinEnq 6), (0, CqRet (EnqRet True))], (s, \<lambda>_. None)) \<and>
     cq_mCount s = 1"
  by (simp add: careful_sched_def queue_eval numeral_eq_Suc)



text \<open>The destructor walks the list; every node on it is live.\<close>

lemma clear_loop_path:
  "path (cq_next s) p ns \<Longrightarrow> distinct ns \<Longrightarrow> set ns \<subseteq> cq_live s \<Longrightarrow>
   cq_clear_loop p s = Some (Inr (s\<lparr>cq_live := cq_live s - set ns\<rparr>))"
proof (induction ns arbitrary: p s)
  case Nil
  then show ?case by (subst cq_clear_loop.simps) simp
next
  case (Cons n ns)
  let ?s = "s\<lparr>cq_live := cq_live s - {n}\<rparr>"
  have "cq_clear_loop (cq_next s n) ?s = Some (Inr (?s\<lparr>cq_live := cq_live ?s - set ns\<rparr>))"
    using Cons.prems by (intro Cons.IH) auto
  moreover have "cq_live s - {n} - set ns = cq_live s - insert n (set ns)" by auto
  ultimately show ?case using Cons.prems by (subst cq_clear_loop.simps) simp
qed

text \<open>Between the calls, Count is the number of elements, and the destructor frees every node.\<close>

theorem quiet_queue_is_counted_and_freed:
  assumes "cq_run True (cq_new dflt maxCount n nxt dat, \<lambda>_. None) acts (s, \<lambda>_. None)"
  shows "\<exists>q. accepts fifo_after [] (map snd acts) = Some q \<and> cq_Count s = int (length q) \<and>
    (\<exists>s'. cq_destroy s = Some (Inr s') \<and> cq_live s' = {})"
proof -
  obtain ns where ns: "cq_inv (s, \<lambda>_. None) ns" "all_accounted (s, \<lambda>_. None) ns"
    "accepts fifo_after [] (map snd acts) = Some (contents s ns)"
    using cq_run_facts [OF assms] by auto
  note k = cq_invD [OF ns(1)]
  note sh = shapeD [OF k(1)]
  have live: "cq_live s - set ns = {}" using ns(2) by (auto simp: all_accounted_def)
  have "cq_destroy s = Some (Inr (s\<lparr>cq_live := cq_live s - set ns\<rparr>))"
    unfolding cq_destroy_def by (rule clear_loop_path [OF sh(2,3,4)])
  moreover have "cq_Count s = int (length (contents s ns))"
    using k(3) sh(1) by (cases ns) (simp_all add: tally_ok_def cq_Count_def contents_def)
  ultimately show ?thesis using ns(3) live by (intro exI) auto
qed

lemma quiet_queue_is_counted_and_freed_witness:
  "\<exists>acts s s'. cq_run True queue_start acts (s, \<lambda>_. None) \<and> cq_Count s = 1 \<and>
     cq_destroy s = Some (Inr s') \<and> cq_live s' = {}"
proof -
  obtain s where e: "cq_exec True careful_sched queue_start =
     Some ([(0, CallEnq 5), (0, LinEnq 5), (0, CqRet (EnqRet True)), (1, CallDeq), (1, LinDeq (Some 5)),
       (1, CqRet (DeqRet True (Some 5))), (0, CallEnq 6), (0, LinEnq 6), (0, CqRet (EnqRet True))], (s, \<lambda>_. None))"
    "cq_mCount s = 1"
    using careful_exec by blast
  note run = cq_exec_run [OF e(1) queue_start_threads]
  from quiet_queue_is_counted_and_freed [OF run [unfolded queue_start_def]] run e(2) show ?thesis
    unfolding cq_Count_def by blast
qed

subsection \<open>A thread that runs alone returns\<close>

fun cq_solo :: "nat \<Rightarrow> nat \<Rightarrow> 'a cq_pc \<Rightarrow> 'a ConcurrentQueue \<Rightarrow> ('a cq_ret \<times> 'a ConcurrentQueue) option" where
  "cq_solo 0 n pc s = None"
| "cq_solo (Suc k) n pc s =
     (case cq_thread_step False n pc s of
        (CqGoto pc', s') \<Rightarrow> cq_solo k n pc' s'
      | (CqReturn r, s') \<Rightarrow> Some (r, s')
      | (CqFault, s') \<Rightarrow> None)"

text \<open>A bound on the number of steps that are left when no other thread moves.\<close>

definition behind :: "'a ConcurrentQueue \<Rightarrow> bool" where
  "behind s \<longleftrightarrow> (case n16_pNode (cq_mTail s) of None \<Rightarrow> False | Some a \<Rightarrow> cq_next s a \<noteq> None)"

fun after_move :: "bool \<Rightarrow> 'a cq_caller \<Rightarrow> nat" where
  "after_move b AfterLink = 1"
| "after_move b (AfterRetry n) = (if b then 16 else 9)"
| "after_move b (AfterEqual e d out) = 9"

fun steps_left :: "'a ConcurrentQueue \<Rightarrow> 'a cq_pc \<Rightarrow> nat" where
  "steps_left s (EnqCheck d) = 20"
| "steps_left s (EnqNew d) = 19"
| "steps_left s (EnqData n d) = 18"
| "steps_left s (EnqNull n) = 17"
| "steps_left s (EnqTail n) = (if behind s then 16 else 9)"
| "steps_left s (EnqNext n t) =
     (case t of None \<Rightarrow> 1 | Some a \<Rightarrow> if cq_next s a \<noteq> None then 15 else if behind s then 16 else 8)"
| "steps_left s (EnqRef n p) = (if p \<noteq> None then 14 else if behind s then 15 else 7)"
| "steps_left s (EnqCas n a) = (if cq_next s a = None then 6 else 14)"
| "steps_left s EnqAdd = 1"
| "steps_left s (MoveCount k) = 4 + after_move False k"
| "steps_left s (MoveNode c k) = 3 + after_move (behind s \<and> c \<noteq> n16_count (cq_mTail s)) k"
| "steps_left s (MoveNext e k) = 2 + after_move (behind s \<and> n16_count e \<noteq> n16_count (cq_mTail s)) k"
| "steps_left s (MoveCas e d k) = 1 + after_move (behind s \<and> n16_count e \<noteq> n16_count (cq_mTail s)) k"
| "steps_left s DeqSub = 9"
| "steps_left s DeqUndo = 1"
| "steps_left s (DeqHead e d out) = 8"
| "steps_left s (DeqTail h e d out) = (if h = n16_pNode (cq_mHead s) then 7 else 14)"
| "steps_left s (DeqCount e d out) = 6"
| "steps_left s (DeqNode e d out) = (if n16_count e = n16_count (cq_mHead s) then 5 else 12)"
| "steps_left s (DeqNext e d out) = (if n16_count e = n16_count (cq_mHead s) then 4 else 11)"
| "steps_left s (DeqData e d out) = (if n16_count e = n16_count (cq_mHead s) then 3 else 10)"
| "steps_left s (DeqCas e d out) = (if e = cq_mHead s then 2 else 9)"
| "steps_left s (DeqDelete p out) = 1"

lemma after_move_le: "after_move b k \<le> 16"
  by (cases "(b, k)" rule: after_move.cases) simp_all

lemma steps_left_bound: "steps_left s pc \<le> 20"
  by (cases "(s, pc)" rule: steps_left.cases) (simp_all add: le_trans [OF after_move_le] split: option.split)

lemma steps_left_pos: "0 < steps_left s pc"
  by (cases "(s, pc)" rule: steps_left.cases) (simp_all split: option.split)

lemma steps_left_return:
  "caller_ok s c \<Longrightarrow> n16_pNode (cq_mHead s) = Some h \<Longrightarrow> steps_left s (cq_return_to c) \<le> after_move (behind s) c"
  by (cases c) (auto simp: stale_def)

lemma enqueue_step_left:
  assumes inv: "cq_inv (s, pcs) ns" and pc: "pcs t = Some pc" "in_enqueue pc"
    and step: "cq_TryEnqueue_step False n pc s = (CqGoto pc', s')"
  shows "steps_left s' pc' < steps_left s pc"
proof -
  note k = cq_invD [OF inv]
  obtain a where tail: "n16_pNode (cq_mTail s) = Some a" "a \<in> set ns" using shapeD(7) [OF k(1)] by auto
  have kn: "knows s (Some pc)" using k(4) [of t] pc(1) by simp
  show ?thesis
    using pc(2) step kn tail
    by (cases pc) (auto simp: behind_def split: if_splits option.splits)
qed

lemma moveTail_step_left:
  assumes inv: "cq_inv (s, pcs) ns" and pc: "pcs t = Some pc" "in_moveTail pc"
    and step: "cq_moveTail_step False pc s = (CqGoto pc', s')"
  shows "steps_left s' pc' < steps_left s pc"
proof -
  note k = cq_invD [OF inv]
  obtain a where tail: "n16_pNode (cq_mTail s) = Some a" using shapeD(7) [OF k(1)] by auto
  obtain h where head: "n16_pNode (cq_mHead s) = Some h" using shapeD(5) [OF k(1)] by auto
  have kn: "knows s (Some pc)" using k(4) [of t] pc(1) by simp
  have behind: "behind s \<longleftrightarrow> cq_next s a \<noteq> None" by (simp add: behind_def tail)
  note ret = steps_left_return [OF _ head]
  show ?thesis
  proof (cases pc)
    case (MoveNext e c)
    then obtain b where b: "n16_pNode e = Some b" using kn by auto
    show ?thesis
    proof (cases "cq_next s b")
      case None
      have "behind s \<Longrightarrow> n16_count e \<noteq> n16_count (cq_mTail s)"
        using kn MoveNext b None tail behind by (auto simp: fresh_tag_def)
      then have b': "(behind s \<and> n16_count e \<noteq> n16_count (cq_mTail s)) = behind s" by blast
      have "steps_left s pc = 2 + after_move (behind s) c" unfolding MoveNext steps_left.simps b' ..
      then show ?thesis using step MoveNext b None kn ret [of c] by auto
    qed (use step MoveNext b in auto)
  next
    case (MoveCas e d c)
    show ?thesis
    proof (cases "cq_mTail s = e")
      case True
      have nx: "next_is s (cq_mTail s) d" and ck: "caller_ok s c" using kn True MoveCas by auto
      then obtain b where b: "n16_pNode d = Some b" "cq_next s a = Some b" using tail by (auto simp: next_is_def)
      obtain ms where "ns = ms @ [a, b]" using tail_next [OF k(1) tail b(2)] by blast
      then have "cq_next s b = None" using shapeD(6) [OF k(1)] by simp
      then have "\<not> behind (s\<lparr>cq_mTail := d\<rparr>)" by (simp add: behind_def b(1))
      moreover have "caller_ok (s\<lparr>cq_mTail := d\<rparr>) c" by (rule caller_ok_head [OF ck]) simp
      ultimately have "steps_left (s\<lparr>cq_mTail := d\<rparr>) (cq_return_to c) \<le> after_move False c"
        using steps_left_return [of "s\<lparr>cq_mTail := d\<rparr>" c h] head by simp
      then show ?thesis using step MoveCas True by auto
    next
      case False
      then have "n16_count e \<noteq> n16_count (cq_mTail s)" "caller_ok s c" using kn MoveCas by (auto simp: fresh_tag_def)
      then show ?thesis using step MoveCas False ret [of c] by auto
    qed
  qed (use step kn pc in auto)
qed

lemma dequeue_step_left:
  assumes inv: "cq_inv (s, pcs) ns" and pc: "pcs t = Some pc" "\<not> in_enqueue pc" "\<not> in_moveTail pc"
    and step: "cq_TryDequeue_step False pc s = (CqGoto pc', s')"
  shows "steps_left s' pc' < steps_left s pc"
proof -
  note k = cq_invD [OF inv]
  have kn: "knows s (Some pc)" using k(4) [of t] pc(1) by simp
  obtain h where head: "n16_pNode (cq_mHead s) = Some h" using shapeD(5) [OF k(1)] by auto
  have neq: "n16_pNode (cq_mTail s) \<noteq> Some h" "cq_next s h \<noteq> None" if "reserved (Some pc)"
    using reserved_head [OF inv, of t h] that pc(1) head by simp_all
  show ?thesis
  proof (cases pc)
    case (DeqTail p e d out)
    then show ?thesis using step head neq(1) by (auto split: if_splits)
  next
    case (DeqNext e d out)
    then obtain a where a: "n16_pNode e = Some a" using kn by auto
    have "e \<noteq> cq_mHead s" "n16_count e \<noteq> n16_count (cq_mHead s)" if "cq_next s a = None"
      using neq(2) that a head kn DeqNext by (auto simp: fresh_tag_def)
    then show ?thesis using step DeqNext a by (auto simp: Let_def split: if_splits)
  next
    case (DeqData e d out)
    then show ?thesis using step kn by (auto simp: fresh_tag_def split: option.splits)
  qed (use step head pc in \<open>auto split: if_splits option.splits\<close>)
qed

lemma thread_step_left:
  assumes "cq_inv (s, pcs) ns" "pcs t = Some pc" "cq_thread_step False n pc s = (CqGoto pc', s')"
  shows "steps_left s' pc' < steps_left s pc"
  using assms enqueue_step_left [OF assms(1,2)] moveTail_step_left [OF assms(1,2)] dequeue_step_left [OF assms(1,2)]
  by (auto simp: cq_thread_step_def split: if_splits)

fun before_alloc :: "'a cq_pc \<Rightarrow> bool" where
  "before_alloc (EnqCheck d) = True" | "before_alloc (EnqNew d) = True" | "before_alloc pc = False"

lemma before_alloc_step:
  assumes "cq_thread_step weak n pc s = (CqGoto pc', s')" "before_alloc pc'"
  shows "\<exists>d. pc = EnqCheck d \<and> pc' = EnqNew d \<and> s' = s"
proof -
  have "\<not> before_alloc (cq_return_to c)" for c :: "'a cq_caller" by (cases c) simp_all
  then show ?thesis
    using assms by (cases pc) (auto simp: cq_thread_step_def Let_def split: if_splits option.splits)
qed

lemma solo_returns:
  "cq_inv (s, pcs) ns \<Longrightarrow> pcs t = Some pc \<Longrightarrow> (before_alloc pc \<Longrightarrow> n \<notin> cq_live s \<and> \<not> aimed pcs n) \<Longrightarrow>
   steps_left s pc \<le> k \<Longrightarrow> \<exists>r s'. cq_solo k n pc s = Some (r, s')"
proof (induction k arbitrary: s pcs ns pc)
  case 0
  then show ?case using steps_left_pos [of s pc] by simp
next
  case (Suc k)
  have ok: "thread_ok (s, pcs) ns t pc (cq_thread_step False n pc s)"
    by (rule thread_step_safe) (use Suc.prems in auto)
  obtain x s' where x: "cq_thread_step False n pc s = (x, s')" by fastforce
  show ?case
  proof (cases x)
    case (CqGoto pc')
    then obtain ns' where inv: "cq_inv (s', pcs(t := Some pc')) ns'" using ok x by (auto simp: cq_ok_def)
    have less: "steps_left s' pc' \<le> k"
      using thread_step_left [OF Suc.prems(1,2), of n pc' s'] Suc.prems(3,4) x CqGoto by fastforce
    have free: "n \<notin> cq_live s' \<and> \<not> aimed (pcs(t := Some pc')) n" if alloc: "before_alloc pc'"
    proof -
      obtain d where "pc = EnqCheck d" "pc' = EnqNew d" "s' = s"
        using before_alloc_step [of False n pc s pc' s'] alloc x CqGoto by auto
      then show ?thesis using Suc.prems(2,3) by (auto simp: aimed_def)
    qed
    have "\<exists>r s''. cq_solo k n pc' s' = Some (r, s'')" by (rule Suc.IH [OF inv _ free less]) simp
    then show ?thesis using x CqGoto by simp
  next
    case CqFault
    then show ?thesis using ok x by simp
  qed (use x in auto)
qed


text \<open>Thread 0 has linked its node and not moved the tail; thread 1, alone, enqueues and returns.\<close>

lemma solo_exec:
  "\<exists>acts s. cq_exec True (enqueue 0 5 1 6 @ [DoEnq 1 6]) queue_start =
     Some (acts, (s, (\<lambda>_. None)(0 := Some (MoveCount AfterLink), 1 := Some (EnqCheck 6)))) \<and> cq_live s = {0, 1}"
  by (simp add: queue_eval numeral_eq_Suc) auto


end
