(* ===== verification/Tagged_Stack.thy ===== *)
theory Tagged_Stack
  imports Concurrent_Runs
begin

text \<open>
  The counted list with a tagged top that LockFreeStack (LockFreeStack.h) and ObjectPool
  (ObjectPool.h) share: a push swings the top pointer alone, a pop swings the pointer together with
  a counter that it increments, and a separate count reserves a node before a pop looks at the list.
  One step is one access to shared memory, so the steps of many threads interleave freely. Memory is
  sequentially consistent here and the signed counter does not reach \<open>2 ^ 63\<close>.
\<close>

subsection \<open>Memory and program counters\<close>

record tagged =
  ts_pNode :: "nat option"
  ts_count :: int
  ts_next :: "nat \<Rightarrow> nat option"
  ts_size :: int

datatype loop_pc =
    PushLoad nat | PushLink nat "nat option" | PushCas nat "nat option" | PushAdd
  | PopSub | PopUndo | PopCount | PopNode int | PopNext int "nat option" | PopCas int nat "nat option"

datatype loop_result = Continue loop_pc | Pushed | Popped nat | PopFailed | NullDeref

text \<open>
  The loop of a push of node \<open>n\<close>; \<open>spurious\<close> is a failure of the weak compare-exchange without a
  reason.
\<close>

fun push_step :: "bool \<Rightarrow> loop_pc \<Rightarrow> tagged \<Rightarrow> loop_result \<times> tagged" where
  "push_step spurious (PushLoad n) s = (Continue (PushLink n (ts_pNode s)), s)"
| "push_step spurious (PushLink n e) s = (Continue (PushCas n e), s\<lparr>ts_next := (ts_next s)(n := e)\<rparr>)"
| "push_step spurious (PushCas n e) s =
     (if \<not> spurious \<and> ts_pNode s = e then (Continue PushAdd, s\<lparr>ts_pNode := Some n\<rparr>)
      else (Continue (PushLoad n), s))"
| "push_step spurious PushAdd s = (Pushed, s\<lparr>ts_size := ts_size s + 1\<rparr>)"
| "push_step spurious pc s = (Continue pc, s)"

fun pop_step :: "bool \<Rightarrow> loop_pc \<Rightarrow> tagged \<Rightarrow> loop_result \<times> tagged" where
  "pop_step spurious PopSub s =
     (Continue (if ts_size s \<le> 0 then PopUndo else PopCount), s\<lparr>ts_size := ts_size s - 1\<rparr>)"
| "pop_step spurious PopUndo s = (PopFailed, s\<lparr>ts_size := ts_size s + 1\<rparr>)"
| "pop_step spurious PopCount s = (Continue (PopNode (ts_count s)), s)"
| "pop_step spurious (PopNode c) s = (Continue (PopNext c (ts_pNode s)), s)"
| "pop_step spurious (PopNext c p) s =
     (case p of None \<Rightarrow> (NullDeref, s) | Some n \<Rightarrow> (Continue (PopCas c n (ts_next s n)), s))"
| "pop_step spurious (PopCas c n x) s =
     (if \<not> spurious \<and> ts_count s = c \<and> ts_pNode s = Some n
      then (Popped n, s\<lparr>ts_pNode := x, ts_count := c + 1\<rparr>)
      else (Continue PopCount, s))"
| "pop_step spurious pc s = (Continue pc, s)"

fun pushing :: "loop_pc \<Rightarrow> bool" where
  "pushing (PushLoad n) = True" | "pushing (PushLink n e) = True" | "pushing (PushCas n e) = True"
| "pushing PushAdd = True" | "pushing pc = False"

definition loop_step :: "bool \<Rightarrow> loop_pc \<Rightarrow> tagged \<Rightarrow> loop_result \<times> tagged" where
  "loop_step spurious pc s = (if pushing pc then push_step spurious pc s else pop_step spurious pc s)"

lemma loop_step_simps [simp]:
  "loop_step b (PushLoad n) s = (Continue (PushLink n (ts_pNode s)), s)"
  "loop_step b (PushLink n e) s = (Continue (PushCas n e), s\<lparr>ts_next := (ts_next s)(n := e)\<rparr>)"
  "loop_step b (PushCas n e) s =
     (if \<not> b \<and> ts_pNode s = e then (Continue PushAdd, s\<lparr>ts_pNode := Some n\<rparr>) else (Continue (PushLoad n), s))"
  "loop_step b PushAdd s = (Pushed, s\<lparr>ts_size := ts_size s + 1\<rparr>)"
  "loop_step b PopSub s =
     (Continue (if ts_size s \<le> 0 then PopUndo else PopCount), s\<lparr>ts_size := ts_size s - 1\<rparr>)"
  "loop_step b PopUndo s = (PopFailed, s\<lparr>ts_size := ts_size s + 1\<rparr>)"
  "loop_step b PopCount s = (Continue (PopNode (ts_count s)), s)"
  "loop_step b (PopNode c) s = (Continue (PopNext c (ts_pNode s)), s)"
  "loop_step b (PopNext c p) s =
     (case p of None \<Rightarrow> (NullDeref, s) | Some n \<Rightarrow> (Continue (PopCas c n (ts_next s n)), s))"
  "loop_step b (PopCas c n x) s =
     (if \<not> b \<and> ts_count s = c \<and> ts_pNode s = Some n then (Popped n, s\<lparr>ts_pNode := x, ts_count := c + 1\<rparr>)
      else (Continue PopCount, s))"
  by (simp_all add: loop_step_def)

subsection \<open>Counting the threads in a phase\<close>

text \<open>The node a pusher has in flight; the pops that hold a reservation; the pending corrections of the count.\<close>

fun flight :: "loop_pc option \<Rightarrow> nat option" where
  "flight (Some (PushLoad n)) = Some n"
| "flight (Some (PushLink n e)) = Some n"
| "flight (Some (PushCas n e)) = Some n"
| "flight pc = None"

fun popping :: "loop_pc option \<Rightarrow> bool" where
  "popping (Some PopCount) = True"
| "popping (Some (PopNode c)) = True"
| "popping (Some (PopNext c p)) = True"
| "popping (Some (PopCas c n x)) = True"
| "popping pc = False"

fun owing :: "loop_pc option \<Rightarrow> bool" where
  "owing (Some PopUndo) = True"
| "owing (Some PushAdd) = True"
| "owing pc = False"

subsection \<open>The invariant\<close>

text \<open>
  \<open>ns\<close> are the nodes on the list, \<open>out\<close> the nodes that the client holds and \<open>live\<close> the allocated
  nodes; \<open>L\<close> gives the program counter of each thread that is inside of a push or a pop. The view of
  a pop is either still exact or its tag is out of date.
\<close>

fun view_ok :: "tagged \<Rightarrow> nat list \<Rightarrow> loop_pc option \<Rightarrow> bool" where
  "view_ok s ns (Some (PushCas n e)) \<longleftrightarrow> ts_next s n = e"
| "view_ok s ns (Some (PopNode c)) \<longleftrightarrow> c \<le> ts_count s"
| "view_ok s ns (Some (PopNext c p)) \<longleftrightarrow>
     c \<le> ts_count s \<and> (\<exists>n. p = Some n \<and> (c = ts_count s \<longrightarrow> n \<in> set ns))"
| "view_ok s ns (Some (PopCas c n x)) \<longleftrightarrow>
     c \<le> ts_count s \<and> (c = ts_count s \<longrightarrow> n \<in> set ns \<and> ts_next s n = x)"
| "view_ok s ns pc \<longleftrightarrow> True"

definition flights_distinct :: "(nat \<Rightarrow> loop_pc option) \<Rightarrow> bool" where
  "flights_distinct L \<longleftrightarrow> (\<forall>t u n. flight (L t) = Some n \<longrightarrow> flight (L u) = Some n \<longrightarrow> t = u)"

definition nodes_ok :: "(nat \<Rightarrow> loop_pc option) \<Rightarrow> nat set \<Rightarrow> nat set \<Rightarrow> nat list \<Rightarrow> bool" where
  "nodes_ok L out live ns \<longleftrightarrow>
     distinct ns \<and> set ns \<subseteq> live \<and> out \<subseteq> live \<and> set ns \<inter> out = {} \<and>
     (\<forall>t n. flight (L t) = Some n \<longrightarrow> n \<in> live \<and> n \<notin> set ns \<and> n \<notin> out) \<and>
     flights_distinct L"

definition size_ok :: "tagged \<Rightarrow> (nat \<Rightarrow> loop_pc option) \<Rightarrow> nat list \<Rightarrow> bool" where
  "size_ok s L ns \<longleftrightarrow> finite_loops L \<and>
     ts_size s = int (length ns) - int (threads_in popping L) - int (threads_in owing L) \<and>
     threads_in popping L \<le> length ns"

definition ts_inv :: "tagged \<Rightarrow> (nat \<Rightarrow> loop_pc option) \<Rightarrow> nat set \<Rightarrow> nat set \<Rightarrow> nat list \<Rightarrow> bool" where
  "ts_inv s L out live ns \<longleftrightarrow> path (ts_next s) (ts_pNode s) ns \<and> nodes_ok L out live ns \<and> size_ok s L ns \<and>
     (\<forall>t. view_ok s ns (L t))"

lemma ts_invD:
  assumes "ts_inv s L out live ns"
  shows "path (ts_next s) (ts_pNode s) ns" "nodes_ok L out live ns" "size_ok s L ns" "view_ok s ns (L t)"
  using assms by (simp_all add: ts_inv_def)

lemma nodes_ok_same_flight:
  "nodes_ok L out live ns \<Longrightarrow> flight x = flight (L t) \<or> flight x = None \<Longrightarrow> nodes_ok (L(t := x)) out live ns"
proof -
  assume ok: "nodes_ok L out live ns" and x: "flight x = flight (L t) \<or> flight x = None"
  have "flight (L u) = Some n" if "flight ((L(t := x)) u) = Some n" for u n
    using x that by (auto split: if_splits)
  then show ?thesis using ok unfolding nodes_ok_def flights_distinct_def by blast
qed

lemma nodes_ok_flightD:
  "nodes_ok L out live ns \<Longrightarrow> flight (L t) = Some n \<Longrightarrow> n \<in> live \<and> n \<notin> set ns \<and> n \<notin> out"
  unfolding nodes_ok_def by blast

lemma nodes_ok_other_flight:
  "nodes_ok L out live ns \<Longrightarrow> flight (L t) = Some n \<Longrightarrow> u \<noteq> t \<Longrightarrow> flight (L u) \<noteq> Some n"
  unfolding nodes_ok_def flights_distinct_def by blast

lemma nodes_ok_cons:
  "nodes_ok L out live ns \<Longrightarrow> n \<in> live \<Longrightarrow> n \<notin> set ns \<Longrightarrow> n \<notin> out \<Longrightarrow> \<forall>u. flight (L u) \<noteq> Some n \<Longrightarrow>
   nodes_ok L out live (n # ns)"
  by (auto simp: nodes_ok_def)

lemma nodes_ok_tail: "nodes_ok L out live (n # ns) \<Longrightarrow> nodes_ok L (insert n out) live ns"
  by (auto simp: nodes_ok_def)

lemma size_ok_upd:
  assumes "size_ok s L ns"
    and "ts_size s' - ts_size s = int (length ns') - int (length ns)
      - (of_bool (popping x) - of_bool (popping (L t))) - (of_bool (owing x) - of_bool (owing (L t)))"
    and "length ns + of_bool (popping x) \<le> length ns' + of_bool (popping (L t)) \<or> 0 < ts_size s + of_bool (owing (L t)) \<and> ns' = ns"
  shows "size_ok s' (L(t := x)) ns'"
proof -
  have fin: "finite_loops L" using assms(1) by (simp add: size_ok_def)
  have "threads_in popping (L(t := x)) + of_bool (popping (L t)) = threads_in popping L + of_bool (popping x)"
    "threads_in owing (L(t := x)) + of_bool (owing (L t)) = threads_in owing L + of_bool (owing x)"
    by (rule threads_in_upd [OF fin], simp)+
  moreover have "owing (L t) \<Longrightarrow> 0 < threads_in owing L" by (rule threads_in_pos [OF fin]) simp_all
  ultimately show ?thesis using assms fin
    by (cases "popping x"; cases "popping (L t)"; cases "owing x"; cases "owing (L t)") (auto simp: size_ok_def)
qed

lemma pops_see_a_node:
  assumes "ts_inv s L out live ns" "popping (L t)"
  shows "ns \<noteq> []"
  using ts_invD(3) [OF assms(1)] threads_in_pos [of L popping t] assms(2) by (auto simp: size_ok_def)

subsection \<open>Steps inside of a push or a pop\<close>

text \<open>A step of a thread: what it does to the list and to the nodes that the client holds.\<close>

lemma view_others:
  assumes "view_ok s ns pc" "ts_count s' = ts_count s" "set ns \<subseteq> set ns'"
    and "\<And>n. n \<in> set ns \<Longrightarrow> ts_next s' n = ts_next s n"
    and "\<And>n. flight pc = Some n \<Longrightarrow> ts_next s' n = ts_next s n"
  shows "view_ok s' ns' pc"
  using assms by (cases pc rule: flight.cases) auto

lemma view_after_pop:
  assumes "view_ok s ns pc" "ts_count s' = ts_count s + 1" "ts_next s' = ts_next s"
  shows "view_ok s' ns' pc"
  using assms by (cases pc rule: flight.cases) auto

lemma inv_same_memory:
  assumes inv: "ts_inv s L out live ns" and fl: "flight x = flight (L t) \<or> flight x = None"
    and sz: "size_ok s' (L(t := x)) ns" and v: "view_ok s' ns x"
    and s': "ts_pNode s' = ts_pNode s" "ts_count s' = ts_count s" "ts_next s' = ts_next s"
  shows "ts_inv s' (L(t := x)) out live ns"
proof -
  have "view_ok s' ns ((L(t := x)) u)" for u
    using v view_others [OF ts_invD(4) [OF inv, of u] s'(2)] s'(3) by auto
  then show ?thesis
    using inv s' sz nodes_ok_same_flight [of L out live ns x t] fl by (simp add: ts_inv_def)
qed

lemma inv_link:
  assumes inv: "ts_inv s L out live ns" and pc: "L t = Some (PushLink n e)"
  shows "ts_inv (s\<lparr>ts_next := (ts_next s)(n := e)\<rparr>) (L(t := Some (PushCas n e))) out live ns"
proof -
  note k = ts_invD [OF inv]
  have n: "n \<notin> set ns" using nodes_ok_flightD [OF k(2), of t n] pc by simp
  have other: "flight (L u) = Some m \<Longrightarrow> m \<noteq> n" if "u \<noteq> t" for u m
    using nodes_ok_other_flight [OF k(2), of t n u] pc that by auto
  have "view_ok (s\<lparr>ts_next := (ts_next s)(n := e)\<rparr>) ns ((L(t := Some (PushCas n e))) u)" for u
  proof (cases "u = t")
    case False
    have "view_ok (s\<lparr>ts_next := (ts_next s)(n := e)\<rparr>) ns (L u)"
      by (rule view_others [OF k(4) [of u]]) (use n other [OF False] in auto)
    then show ?thesis using False by simp
  qed simp
  moreover have "size_ok (s\<lparr>ts_next := (ts_next s)(n := e)\<rparr>) (L(t := Some (PushCas n e))) ns"
    by (rule size_ok_upd [OF k(3)]) (use pc in simp_all)
  ultimately show ?thesis
    using k n nodes_ok_same_flight [OF k(2), of "Some (PushCas n e)" t] pc by (simp add: ts_inv_def)
qed

lemma inv_linked:
  assumes inv: "ts_inv s L out live ns" and pc: "L t = Some (PushCas n e)" and cas: "ts_pNode s = e"
  shows "ts_inv (s\<lparr>ts_pNode := Some n\<rparr>) (L(t := Some PushAdd)) out live (n # ns)"
proof -
  note k = ts_invD [OF inv]
  have n: "n \<in> live" "n \<notin> set ns" "n \<notin> out" using nodes_ok_flightD [OF k(2), of t n] pc by simp_all
  have nx: "ts_next s n = e" using k(4) [of t] pc by simp
  have "view_ok (s\<lparr>ts_pNode := Some n\<rparr>) (n # ns) ((L(t := Some PushAdd)) u)" for u
    using view_others [OF k(4) [of u], of "s\<lparr>ts_pNode := Some n\<rparr>" "n # ns"] by auto
  moreover have "size_ok (s\<lparr>ts_pNode := Some n\<rparr>) (L(t := Some PushAdd)) (n # ns)"
    by (rule size_ok_upd [OF k(3)]) (use pc in simp_all)
  moreover have "nodes_ok (L(t := Some PushAdd)) out live (n # ns)"
  proof -
    have "\<forall>u. flight ((L(t := Some PushAdd)) u) \<noteq> Some n"
      using nodes_ok_other_flight [OF k(2), of t n] pc by simp
    then show ?thesis using nodes_ok_same_flight [OF k(2), of "Some PushAdd" t] n by (intro nodes_ok_cons) simp_all
  qed
  ultimately show ?thesis using k(1) cas nx by (simp add: ts_inv_def)
qed

lemma inv_popped:
  assumes inv: "ts_inv s L out live ns" and pc: "L t = Some (PopCas (ts_count s) n x)" and top: "ts_pNode s = Some n"
  obtains ms where "ns = n # ms"
    "ts_inv (s\<lparr>ts_pNode := x, ts_count := ts_count s + 1\<rparr>) (L(t := None)) (insert n out) live ms"
proof -
  let ?s = "s\<lparr>ts_pNode := x, ts_count := ts_count s + 1\<rparr>"
  note k = ts_invD [OF inv]
  have nx: "ts_next s n = x" using k(4) [of t] pc by simp
  obtain ms where ns: "ns = n # ms" "path (ts_next s) x ms" using k(1) top nx by (auto simp: path_Some)
  have "view_ok ?s ms ((L(t := None)) u)" for u
    using view_after_pop [OF k(4) [of u], of ?s ms] by auto
  moreover have "size_ok ?s (L(t := None)) ms"
    by (rule size_ok_upd [OF k(3)]) (use pc ns in simp_all)
  moreover have "nodes_ok (L(t := None)) (insert n out) live ms"
    by (rule nodes_ok_tail) (use nodes_ok_same_flight [OF k(2), of None t] ns(1) in simp)
  ultimately have "ts_inv ?s (L(t := None)) (insert n out) live ms" using ns(2) by (simp add: ts_inv_def)
  then show ?thesis using ns(1) that by blast
qed

text \<open>What a result leaves: the thread's program counter, the list, and the nodes the client holds.\<close>

fun next_pc :: "loop_result \<Rightarrow> loop_pc option" where
  "next_pc (Continue pc) = Some pc"
| "next_pc r = None"

fun list_after :: "loop_pc \<Rightarrow> loop_result \<Rightarrow> nat list \<Rightarrow> nat list" where
  "list_after (PushCas n e) (Continue PushAdd) ns = n # ns"
| "list_after pc (Popped n) ns = tl ns"
| "list_after pc r ns = ns"

fun out_after :: "loop_result \<Rightarrow> nat set \<Rightarrow> nat set" where
  "out_after (Popped n) out = insert n out"
| "out_after r out = out"

lemma loop_step_inv:
  assumes inv: "ts_inv s L out live ns" and pc: "L t = Some pc" and run: "loop_step b pc s = (r, s')"
  shows "r \<noteq> NullDeref \<and> (\<forall>n. r = Popped n \<longrightarrow> (\<exists>ms. ns = n # ms)) \<and>
    ts_inv s' (L(t := next_pc r)) (out_after r out) live (list_after pc r ns)"
proof -
  note k = ts_invD [OF inv]
  note mem = inv_same_memory [OF inv] size_ok_upd [OF k(3)]
  have v: "view_ok s ns (Some pc)" using k(4) [of t] pc by simp
  have top: "\<exists>n. ts_pNode s = Some n \<and> n \<in> set ns" if "popping (Some pc)"
    using pops_see_a_node [OF inv, of t] k(1) pc that by (cases ns) auto
  show ?thesis
  proof (cases pc)
    case (PushLoad n)
    then show ?thesis using run pc by (auto intro!: mem)
  next
    case (PushLink n e)
    then show ?thesis using run inv_link [OF inv, of t n e] pc by auto
  next
    case (PushCas n e)
    then show ?thesis using run inv_linked [OF inv, of t n e] pc by (auto split: if_splits intro!: mem)
  next
    case PushAdd
    then show ?thesis using run pc by (auto intro!: mem)
  next
    case PopSub
    then show ?thesis using run pc by (auto intro!: mem split: if_splits)
  next
    case PopUndo
    then show ?thesis using run pc by (auto intro!: mem)
  next
    case PopCount
    then show ?thesis using run pc by (auto intro!: mem)
  next
    case (PopNode c)
    then show ?thesis using run pc top v by (auto intro!: mem)
  next
    case (PopNext c p)
    then show ?thesis using run pc v by (auto intro!: mem)
  next
    case (PopCas c n x)
    show ?thesis
    proof (cases "\<not> b \<and> ts_count s = c \<and> ts_pNode s = Some n")
      case True
      obtain ms where "ns = n # ms"
        "ts_inv (s\<lparr>ts_pNode := x, ts_count := ts_count s + 1\<rparr>) (L(t := None)) (insert n out) live ms"
        by (rule inv_popped [OF inv, of t n x]) (use True PopCas pc in auto)
      then show ?thesis using run True PopCas by auto
    next
      case False
      then have "r = Continue PopCount" "s' = s" using run PopCas by (auto split: if_splits)
      then show ?thesis using pc PopCas by (auto intro!: mem)
    qed
  qed
qed

subsection \<open>Entering an operation, allocation and foreign writes\<close>

lemma inv_begin_push:
  assumes inv: "ts_inv s L out live ns" and t: "L t = None" and n: "n \<in> out"
  shows "ts_inv s (L(t := Some (PushLoad n))) (out - {n}) live ns"
proof -
  note k = ts_invD [OF inv]
  have new: "flight (L u) \<noteq> Some n" for u using nodes_ok_flightD [OF k(2), of u n] n by blast
  have "nodes_ok (L(t := Some (PushLoad n))) (out - {n}) live ns"
    unfolding nodes_ok_def
  proof (intro conjI)
    show "flights_distinct (L(t := Some (PushLoad n)))"
      using k(2) new unfolding nodes_ok_def flights_distinct_def by (metis flight.simps(1) fun_upd_apply option.inject)
  qed (use k(2) n in \<open>auto simp: nodes_ok_def\<close>)
  moreover have "size_ok s (L(t := Some (PushLoad n))) ns" by (rule size_ok_upd [OF k(3)]) (use t in simp_all)
  ultimately show ?thesis using k(1,4) by (simp add: ts_inv_def)
qed

lemma inv_begin_pop:
  assumes inv: "ts_inv s L out live ns" and t: "L t = None"
  shows "ts_inv s (L(t := Some PopSub)) out live ns"
  by (rule inv_same_memory [OF inv]) (use t in \<open>auto intro!: size_ok_upd [OF ts_invD(3) [OF inv]]\<close>)

text \<open>The allocator hands out a node that is not live; the client may write to it and give it back.\<close>

lemma inv_alloc:
  assumes inv: "ts_inv s L out live ns" and n: "n \<notin> live"
  shows "ts_inv s L (insert n out) (insert n live) ns"
proof -
  note k = ts_invD [OF inv]
  have "nodes_ok L (insert n out) (insert n live) ns"
    unfolding nodes_ok_def using k(2) n nodes_ok_flightD [OF k(2)] by (auto simp: nodes_ok_def)
  then show ?thesis using k by (simp add: ts_inv_def)
qed

lemma inv_drop:
  assumes inv: "ts_inv s L out live ns" and n: "n \<in> out"
  shows "ts_inv s L (out - {n}) (live - {n}) ns"
proof -
  note k = ts_invD [OF inv]
  have "nodes_ok L (out - {n}) (live - {n}) ns"
    unfolding nodes_ok_def using k(2) n nodes_ok_flightD [OF k(2)] by (auto simp: nodes_ok_def)
  then show ?thesis using k by (simp add: ts_inv_def)
qed

lemma inv_write:
  assumes inv: "ts_inv s L out live ns" and n: "n \<in> out \<or> n \<notin> live"
  shows "ts_inv (s\<lparr>ts_next := (ts_next s)(n := x)\<rparr>) L out live ns"
proof -
  note k = ts_invD [OF inv]
  have ns: "n \<notin> set ns" using k(2) n by (auto simp: nodes_ok_def)
  have fl: "flight (L u) \<noteq> Some n" for u using nodes_ok_flightD [OF k(2), of u n] n by blast
  have "view_ok (s\<lparr>ts_next := (ts_next s)(n := x)\<rparr>) ns (L u)" for u
    by (rule view_others [OF k(4) [of u]]) (use ns fl in auto)
  then show ?thesis using k ns by (simp add: ts_inv_def size_ok_def)
qed

definition ts_empty :: "tagged \<Rightarrow> bool" where
  "ts_empty s \<longleftrightarrow> ts_pNode s = None \<and> ts_size s = 0"

lemma inv_init: "ts_empty s \<Longrightarrow> ts_inv s (\<lambda>_. None) {} {} []"
  by (simp add: ts_empty_def ts_inv_def nodes_ok_def flights_distinct_def size_ok_def finite_loops_def)

lemma push_step_results:
  "pushing pc \<Longrightarrow> push_step b pc s = (r, s') \<Longrightarrow> loop_step b pc s = (r, s') \<and> ((\<exists>pc'. r = Continue pc' \<and> pushing pc') \<or> r = Pushed)"
  by (cases pc) (auto simp: loop_step_def split: if_splits)

lemma pop_step_results:
  "\<not> pushing pc \<Longrightarrow> pop_step b pc s = (r, s') \<Longrightarrow>
   loop_step b pc s = (r, s') \<and> ((\<exists>pc'. r = Continue pc' \<and> \<not> pushing pc') \<or> (\<exists>n. r = Popped n) \<or> r = PopFailed \<or> r = NullDeref)"
  by (cases pc) (auto simp: loop_step_def split: if_splits option.splits)

subsection \<open>Clients: threads with program counters of their own\<close>

text \<open>
  \<open>f\<close> reads off a client's program counter where the thread is in a push or pop, \<open>h\<close> the nodes
  that the thread holds.
\<close>

definition loops_by :: "('p option \<Rightarrow> loop_pc option) \<Rightarrow> (nat \<Rightarrow> 'p option) \<Rightarrow> nat \<Rightarrow> loop_pc option" where
  "loops_by f pcs t = f (pcs t)"

definition out_by :: "('p option \<Rightarrow> nat set) \<Rightarrow> (nat \<Rightarrow> 'p option) \<Rightarrow> nat set" where
  "out_by h pcs = (\<Union>t. h (pcs t))"

definition one_holder_by :: "('p option \<Rightarrow> nat set) \<Rightarrow> (nat \<Rightarrow> 'p option) \<Rightarrow> bool" where
  "one_holder_by h pcs \<longleftrightarrow> (\<forall>t u. t \<noteq> u \<longrightarrow> h (pcs t) \<inter> h (pcs u) = {})"

lemma loops_by_upd [simp]: "loops_by f (pcs(t := x)) = (loops_by f pcs)(t := f x)"
  by (rule ext) (simp add: loops_by_def)

lemma loops_by_same: "f x = f (pcs t) \<Longrightarrow> loops_by f (pcs(t := x)) = loops_by f pcs"
  by (rule ext) (simp add: loops_by_def)

lemma out_by_upd: "one_holder_by h pcs \<Longrightarrow> out_by h (pcs(t := x)) = out_by h pcs - h (pcs t) \<union> h x"
  by (auto simp: out_by_def one_holder_by_def split: if_splits) blast

lemma out_same: "one_holder_by h pcs \<Longrightarrow> h (pcs t) = {} \<Longrightarrow> h x = {} \<Longrightarrow> out_by h (pcs(t := x)) = out_by h pcs"
  by (simp add: out_by_upd)

lemma held_out: "n \<in> h (pcs t) \<Longrightarrow> n \<in> out_by h pcs"
  by (auto simp: out_by_def)

lemma one_holder_by_upd:
  "one_holder_by h pcs \<Longrightarrow> h x \<subseteq> h (pcs t) \<or> h x \<inter> out_by h pcs = {} \<Longrightarrow> one_holder_by h (pcs(t := x))"
  unfolding one_holder_by_def out_by_def fun_upd_apply by (auto; blast)

end
