(* ===== verification/Lock_Free_Stack.thy ===== *)
theory Lock_Free_Stack
  imports Tagged_Stack
begin

text \<open>
  LockFreeStack (LockFreeStack.h), run by any number of threads. A thread inside of \<open>TryPush\<close> or
  \<open>TryPop\<close> has a program counter; \<open>ls_TryPush_step\<close> and \<open>ls_TryPop_step\<close> execute the next access to
  shared memory. The ObjectAllocator is a parameter: it hands out a node that is not live, and the
  memory of a node that is not live may change at any time.
\<close>

subsection \<open>State and operations\<close>

record 'a LockFreeStack =
  ls_mMaxCount :: int
  ls_top :: tagged
  ls_data :: "nat \<Rightarrow> 'a"
  ls_live :: "nat set"

definition ls_new :: "int \<Rightarrow> (nat \<Rightarrow> nat option) \<Rightarrow> (nat \<Rightarrow> 'a) \<Rightarrow> 'a LockFreeStack" where
  "ls_new maxCount nxt dat =
     \<lparr>ls_mMaxCount = maxCount, ls_top = \<lparr>ts_pNode = None, ts_count = 0, ts_next = nxt, ts_size = 0\<rparr>,
      ls_data = dat, ls_live = {}\<rparr>"

definition ls_Count :: "'a LockFreeStack \<Rightarrow> int" where
  "ls_Count s = ts_size (ls_top s)"

definition ls_MaxCount :: "'a LockFreeStack \<Rightarrow> int" where
  "ls_MaxCount s = ls_mMaxCount s"

datatype 'a ls_pc =
    PushCheck 'a | PushNew 'a | InPush loop_pc
  | InPop loop_pc | PopCopy nat | PopDelete nat 'a

datatype 'a ls_ret = PushRet bool | PopRet "'a option"

datatype 'a ls_next = Goto "'a ls_pc" | Return "'a ls_ret" | Fault

fun ls_TryPush_step :: "bool \<Rightarrow> nat \<Rightarrow> 'a ls_pc \<Rightarrow> 'a LockFreeStack \<Rightarrow> 'a ls_next \<times> 'a LockFreeStack" where
  "ls_TryPush_step spurious fresh (PushCheck d) s =
     (if ls_mMaxCount s \<le> ts_size (ls_top s) then Return (PushRet False) else Goto (PushNew d), s)"
| "ls_TryPush_step spurious fresh (PushNew d) s =
     (Goto (InPush (PushLoad fresh)),
      s\<lparr>ls_data := (ls_data s)(fresh := d), ls_live := insert fresh (ls_live s)\<rparr>)"
| "ls_TryPush_step spurious fresh (InPush pc) s =
     (case push_step spurious pc (ls_top s) of
        (r, l) \<Rightarrow> (case r of Continue pc' \<Rightarrow> Goto (InPush pc') | _ \<Rightarrow> Return (PushRet True), s\<lparr>ls_top := l\<rparr>))"
| "ls_TryPush_step spurious fresh pc s = (Goto pc, s)"

fun ls_TryPop_step :: "bool \<Rightarrow> 'a ls_pc \<Rightarrow> 'a LockFreeStack \<Rightarrow> 'a ls_next \<times> 'a LockFreeStack" where
  "ls_TryPop_step spurious (InPop pc) s =
     (case pop_step spurious pc (ls_top s) of
        (r, l) \<Rightarrow>
          (case r of Continue pc' \<Rightarrow> Goto (InPop pc') | Popped n \<Rightarrow> Goto (PopCopy n)
             | PopFailed \<Rightarrow> Return (PopRet None) | _ \<Rightarrow> Fault, s\<lparr>ls_top := l\<rparr>))"
| "ls_TryPop_step spurious (PopCopy n) s = (Goto (PopDelete n (ls_data s n)), s)"
| "ls_TryPop_step spurious (PopDelete n v) s =
     (Return (PopRet (Some v)), s\<lparr>ls_live := ls_live s - {n}\<rparr>)"
| "ls_TryPop_step spurious pc s = (Goto pc, s)"

fun in_push :: "'a ls_pc \<Rightarrow> bool" where
  "in_push (PushCheck d) = True" | "in_push (PushNew d) = True" | "in_push (InPush pc) = True"
| "in_push pc = False"

definition ls_thread_step :: "bool \<Rightarrow> nat \<Rightarrow> 'a ls_pc \<Rightarrow> 'a LockFreeStack \<Rightarrow> 'a ls_next \<times> 'a LockFreeStack" where
  "ls_thread_step spurious fresh pc s =
     (if in_push pc then ls_TryPush_step spurious fresh pc s else ls_TryPop_step spurious pc s)"

text \<open>
  The destructor: from the top along the next pointers; \<open>Inl n\<close> when it reaches a node that is not
  live.
\<close>

partial_function (option) ls_destroy_loop :: "nat option \<Rightarrow> 'a LockFreeStack \<Rightarrow> (nat + 'a LockFreeStack) option" where
  "ls_destroy_loop p s =
     (case p of
        None \<Rightarrow> Some (Inr s)
      | Some n \<Rightarrow>
          if n \<notin> ls_live s then Some (Inl n)
          else ls_destroy_loop (ts_next (ls_top s) n) (s\<lparr>ls_live := ls_live s - {n}\<rparr>))"

definition ls_destroy :: "'a LockFreeStack \<Rightarrow> (nat + 'a LockFreeStack) option" where
  "ls_destroy s = ls_destroy_loop (ts_pNode (ls_top s)) s"

subsection \<open>Runs of many threads\<close>

text \<open>
  The calls and returns of the threads and, between them, the steps that change the list: a push
  takes effect at its compare-exchange, and so does a pop.
\<close>

datatype 'a act = CallPush 'a | CallPop | LinPush 'a | LinPop 'a | Ret "'a ls_ret"

fun lin_acts :: "'a ls_pc \<Rightarrow> 'a ls_pc \<Rightarrow> 'a LockFreeStack \<Rightarrow> 'a act list" where
  "lin_acts (InPush (PushCas n e)) (InPush PushAdd) s = [LinPush (ls_data s n)]"
| "lin_acts (InPop pc) (PopCopy n) s = [LinPop (ls_data s n)]"
| "lin_acts pc pc' s = []"

type_synonym 'a ls_system = "'a LockFreeStack \<times> (nat \<Rightarrow> 'a ls_pc option)"

inductive ls_step :: "'a ls_system \<Rightarrow> (nat \<times> 'a act list) \<Rightarrow> 'a ls_system \<Rightarrow> bool" where
  call_push: "pcs t = None \<Longrightarrow> ls_step (s, pcs) (t, [CallPush d]) (s, pcs(t := Some (PushCheck d)))"
| call_pop: "pcs t = None \<Longrightarrow> ls_step (s, pcs) (t, [CallPop]) (s, pcs(t := Some (InPop PopSub)))"
| run: "pcs t = Some pc \<Longrightarrow> n \<notin> ls_live s \<Longrightarrow> ls_thread_step b n pc s = (Goto pc', s') \<Longrightarrow>
    ls_step (s, pcs) (t, lin_acts pc pc' s) (s', pcs(t := Some pc'))"
| ret: "pcs t = Some pc \<Longrightarrow> n \<notin> ls_live s \<Longrightarrow> ls_thread_step b n pc s = (Return r, s') \<Longrightarrow>
    ls_step (s, pcs) (t, [Ret r]) (s', pcs(t := None))"
| reuse: "n \<notin> ls_live s \<Longrightarrow>
    ls_step (s, pcs) (t, []) (s\<lparr>ls_data := (ls_data s)(n := d),
      ls_top := ls_top s\<lparr>ts_next := (ts_next (ls_top s))(n := x)\<rparr>\<rparr>, pcs)"

inductive ls_run :: "'a ls_system \<Rightarrow> (nat \<times> 'a act) list \<Rightarrow> 'a ls_system \<Rightarrow> bool" where
  start: "ls_run c [] c"
| snoc: "ls_run c acts c' \<Longrightarrow> ls_step c' (t, as) c'' \<Longrightarrow> ls_run c (acts @ map (Pair t) as) c''"

subsection \<open>The specification: a linearizable stack\<close>

fun lifo_after :: "'a list \<Rightarrow> 'a act \<Rightarrow> 'a list option" where
  "lifo_after st (LinPush d) = Some (d # st)"
| "lifo_after st (LinPop v) = (case st of [] \<Rightarrow> None | x # xs \<Rightarrow> if x = v then Some xs else None)"
| "lifo_after st a = Some st"

text \<open>Each thread calls, takes effect at most once, and returns what the effect was.\<close>

datatype 'a phase = Idle | Pushing 'a | HasPushed | Popping | HasPopped 'a

fun phase_after :: "'a phase \<Rightarrow> 'a act \<Rightarrow> 'a phase option" where
  "phase_after Idle (CallPush d) = Some (Pushing d)"
| "phase_after Idle CallPop = Some Popping"
| "phase_after (Pushing d) (LinPush d') = (if d = d' then Some HasPushed else None)"
| "phase_after (Pushing d) (Ret (PushRet False)) = Some Idle"
| "phase_after HasPushed (Ret (PushRet True)) = Some Idle"
| "phase_after Popping (LinPop v) = Some (HasPopped v)"
| "phase_after Popping (Ret (PopRet None)) = Some Idle"
| "phase_after (HasPopped v) (Ret (PopRet (Some w))) = (if v = w then Some Idle else None)"
| "phase_after ph a = None"

definition linearizable_stack :: "(nat \<times> 'a act) list \<Rightarrow> bool" where
  "linearizable_stack acts \<longleftrightarrow>
     accepts lifo_after [] (map snd acts) \<noteq> None \<and> (\<forall>t. accepts phase_after Idle (acts_of t acts) \<noteq> None)"

subsection \<open>The invariant\<close>

fun loop_of :: "'a ls_pc option \<Rightarrow> loop_pc option" where
  "loop_of (Some (InPush pc)) = Some pc"
| "loop_of (Some (InPop pc)) = Some pc"
| "loop_of pc = None"

fun held :: "'a ls_pc option \<Rightarrow> nat set" where
  "held (Some (PopCopy n)) = {n}"
| "held (Some (PopDelete n v)) = {n}"
| "held pc = {}"

fun pc_wf :: "'a ls_pc option \<Rightarrow> bool" where
  "pc_wf (Some (InPush pc)) \<longleftrightarrow> pushing pc"
| "pc_wf (Some (InPop pc)) \<longleftrightarrow> \<not> pushing pc"
| "pc_wf pc \<longleftrightarrow> True"

fun phase_of :: "(nat \<Rightarrow> 'a) \<Rightarrow> 'a ls_pc option \<Rightarrow> 'a phase" where
  "phase_of dat None = Idle"
| "phase_of dat (Some (PushCheck d)) = Pushing d"
| "phase_of dat (Some (PushNew d)) = Pushing d"
| "phase_of dat (Some (InPush pc)) = (case flight (Some pc) of Some n \<Rightarrow> Pushing (dat n) | None \<Rightarrow> HasPushed)"
| "phase_of dat (Some (InPop pc)) = Popping"
| "phase_of dat (Some (PopCopy n)) = HasPopped (dat n)"
| "phase_of dat (Some (PopDelete n v)) = HasPopped v"

abbreviation loops_of :: "(nat \<Rightarrow> 'a ls_pc option) \<Rightarrow> nat \<Rightarrow> loop_pc option" where
  "loops_of \<equiv> loops_by loop_of"

abbreviation out_of :: "(nat \<Rightarrow> 'a ls_pc option) \<Rightarrow> nat set" where
  "out_of \<equiv> out_by held"

abbreviation one_holder :: "(nat \<Rightarrow> 'a ls_pc option) \<Rightarrow> bool" where
  "one_holder \<equiv> one_holder_by held"

definition accounted :: "'a ls_system \<Rightarrow> nat list \<Rightarrow> bool" where
  "accounted c ns \<longleftrightarrow> ls_live (fst c) \<subseteq> set ns \<union> out_of (snd c) \<union> {n. \<exists>t. flight (loops_of (snd c) t) = Some n}"

definition ls_inv :: "'a ls_system \<Rightarrow> nat list \<Rightarrow> bool" where
  "ls_inv c ns \<longleftrightarrow>
     ts_inv (ls_top (fst c)) (loops_of (snd c)) (out_of (snd c)) (ls_live (fst c)) ns \<and>
     one_holder (snd c) \<and> (\<forall>t. pc_wf (snd c t))"

lemma phase_of_cong:
  "(\<And>n. n \<in> held pc \<or> flight (loop_of pc) = Some n \<Longrightarrow> dat' n = dat n) \<Longrightarrow> phase_of dat' pc = phase_of dat pc"
  by (cases "(dat, pc)" rule: phase_of.cases) (auto split: option.split)

subsection \<open>Every step keeps the invariant\<close>

definition step_ok :: "'a ls_system \<Rightarrow> nat list \<Rightarrow> nat \<Rightarrow> 'a act list \<Rightarrow> 'a ls_system \<Rightarrow> nat list \<Rightarrow> bool" where
  "step_ok c ns t as c' ns' \<longleftrightarrow> ls_inv c' ns' \<and> (accounted c ns \<longrightarrow> accounted c' ns') \<and>
     accepts lifo_after (map (ls_data (fst c)) ns) as = Some (map (ls_data (fst c')) ns') \<and>
     accepts phase_after (phase_of (ls_data (fst c)) (snd c t)) as = Some (phase_of (ls_data (fst c')) (snd c' t)) \<and>
     (\<forall>u. u \<noteq> t \<longrightarrow> phase_of (ls_data (fst c')) (snd c' u) = phase_of (ls_data (fst c)) (snd c u))"

lemma ls_invD:
  assumes "ls_inv (s, pcs) ns"
  shows "ts_inv (ls_top s) (loops_of pcs) (out_of pcs) (ls_live s) ns" "one_holder pcs" "pc_wf (pcs t)"
  using assms by (simp_all add: ls_inv_def)

text \<open>Steps that change neither the list nor the data of a live node.\<close>

lemma step_ok_quiet:
  assumes inv: "ls_inv (s, pcs) ns" and ts: "ts_inv (ls_top s') (loops_of (pcs(t := x))) (out_of (pcs(t := x))) (ls_live s') ns"
    and x: "held x \<subseteq> held (pcs t) \<or> held x \<inter> out_of pcs = {}" "pc_wf x" and dat: "ls_data s' = ls_data s"
    and acts: "accepts lifo_after (map (ls_data s) ns) as = Some (map (ls_data s) ns)"
    and phase: "accepts phase_after (phase_of (ls_data s) (pcs t)) as = Some (phase_of (ls_data s) x)"
    and acc: "accounted (s, pcs) ns \<Longrightarrow> accounted (s', pcs(t := x)) ns"
  shows "step_ok (s, pcs) ns t as (s', pcs(t := x)) ns"
  using assms one_holder_by_upd [OF ls_invD(2) [OF inv] x(1)] by (auto simp: step_ok_def ls_inv_def)

lemma accounted_same:
  "accounted (s, pcs) ns \<Longrightarrow> out_of pcs' = out_of pcs \<Longrightarrow> (\<And>u. flight (loops_of pcs' u) = flight (loops_of pcs u)) \<Longrightarrow>
   ls_live s' = ls_live s \<Longrightarrow> accounted (s', pcs') ns"
  by (simp add: accounted_def)

lemma push_loop_ok:
  assumes inv: "ls_inv (s, pcs) ns" and pc: "pcs t = Some (InPush pc)" and run: "push_step b pc (ls_top s) = (r, l)"
  shows "(\<exists>pc'. r = Continue pc' \<and> (\<exists>ns'. step_ok (s, pcs) ns t (lin_acts (InPush pc) (InPush pc') s)
            (s\<lparr>ls_top := l\<rparr>, pcs(t := Some (InPush pc'))) ns')) \<or>
    r = Pushed \<and> step_ok (s, pcs) ns t [Ret (PushRet True)] (s\<lparr>ls_top := l\<rparr>, pcs(t := None)) ns"
proof -
  note k = ls_invD [OF inv]
  have push: "pushing pc" using k(3) [of t] pc by simp
  note r = push_step_results [OF push run]
  have L: "loops_of pcs t = Some pc" using pc by (simp add: loops_by_def)
  note i = loop_step_inv [OF k(1) L conjunct1 [OF r]]
  have out: "out_of (pcs(t := x)) = out_of pcs" if "held x = {}" for x
    using out_same [OF k(2)] pc that by simp
  have other: "flight (loops_of (pcs(t := x)) u) = flight (loops_of pcs u)" if "flight (loop_of x) = flight (Some pc)" for x u
    using L that by simp
  show ?thesis
  proof (cases r)
    case (Continue pc')
    have wf: "pushing pc'" using r Continue by auto
    show ?thesis
    proof (cases "\<exists>n e. pc = PushCas n e \<and> pc' = PushAdd")
      case True
      then obtain n e where e: "pc = PushCas n e" "pc' = PushAdd" by auto
      have "ts_inv l ((loops_of pcs)(t := Some PushAdd)) (out_of pcs) (ls_live s) (n # ns)" using i Continue e by simp
      then have "ls_inv (s\<lparr>ls_top := l\<rparr>, pcs(t := Some (InPush PushAdd))) (n # ns)"
        using k out one_holder_by_upd [OF k(2), of "Some (InPush PushAdd)"] by (simp add: ls_inv_def)
      moreover have "accounted (s\<lparr>ls_top := l\<rparr>, pcs(t := Some (InPush PushAdd))) (n # ns)" if "accounted (s, pcs) ns"
      proof -
        have "m \<in> set (n # ns) \<union> out_of pcs \<union> {m. \<exists>u. u \<noteq> t \<and> flight (loops_of pcs u) = Some m}"
          if m: "flight (loops_of pcs u) = Some m" for u m
          using m L e by (cases "u = t") auto
        then show ?thesis using that out [of "Some (InPush PushAdd)"] by (auto simp: accounted_def) blast
      qed
      ultimately show ?thesis using Continue e pc by (auto simp: step_ok_def intro!: exI [of _ "n # ns"])
    next
      case False
      have same: "flight (Some pc') = flight (Some pc)" "list_after pc r ns = ns" "lin_acts (InPush pc) (InPush pc') s = []"
        using run False Continue push by (cases pc; auto split: if_splits)+
      have "step_ok (s, pcs) ns t [] (s\<lparr>ls_top := l\<rparr>, pcs(t := Some (InPush pc'))) ns"
        using i Continue wf same out pc other [of "Some (InPush pc')"]
        by (intro step_ok_quiet [OF inv]) (auto intro: accounted_same)
      then show ?thesis using Continue same by auto
    qed
  next
    case Pushed
    have pa: "pc = PushAdd" using run Pushed push by (cases pc) (auto split: if_splits)
    have "step_ok (s, pcs) ns t [Ret (PushRet True)] (s\<lparr>ls_top := l\<rparr>, pcs(t := None)) ns"
      using i Pushed out pc pa other [of None]
      by (intro step_ok_quiet [OF inv]) (auto intro: accounted_same)
    then show ?thesis using Pushed by simp
  qed (use r in auto)
qed

lemma pop_loop_ok:
  assumes inv: "ls_inv (s, pcs) ns" and pc: "pcs t = Some (InPop pc)" and run: "pop_step b pc (ls_top s) = (r, l)"
  shows "(\<exists>pc'. r = Continue pc' \<and> step_ok (s, pcs) ns t [] (s\<lparr>ls_top := l\<rparr>, pcs(t := Some (InPop pc'))) ns) \<or>
    r = PopFailed \<and> step_ok (s, pcs) ns t [Ret (PopRet None)] (s\<lparr>ls_top := l\<rparr>, pcs(t := None)) ns \<or>
    (\<exists>n ms. r = Popped n \<and> ns = n # ms \<and>
       step_ok (s, pcs) ns t [LinPop (ls_data s n)] (s\<lparr>ls_top := l\<rparr>, pcs(t := Some (PopCopy n))) ms)"
proof -
  note k = ls_invD [OF inv]
  have pop: "\<not> pushing pc" using k(3) [of t] pc by simp
  note r = pop_step_results [OF pop run]
  have L: "loops_of pcs t = Some pc" using pc by (simp add: loops_by_def)
  have fl: "flight (Some pc) = None" using pop by (cases pc) simp_all
  note i = loop_step_inv [OF k(1) L conjunct1 [OF r]]
  have out: "out_of (pcs(t := x)) = out_of pcs" if "held x = {}" for x
    using out_same [OF k(2)] pc that by simp
  have other: "flight (loops_of (pcs(t := x)) u) = flight (loops_of pcs u)" if "flight (loop_of x) = None" for x u
    using L fl that by simp
  show ?thesis
  proof (cases r)
    case (Continue pc')
    have wf: "\<not> pushing pc'" using r Continue by auto
    then have fl': "flight (Some pc') = None" by (cases pc') auto
    have same: "list_after pc r ns = ns" using Continue wf by (cases "(pc, r, ns)" rule: list_after.cases) auto
    have "step_ok (s, pcs) ns t [] (s\<lparr>ls_top := l\<rparr>, pcs(t := Some (InPop pc'))) ns"
      using i Continue wf same out pc fl' other [of "Some (InPop pc')"]
      by (intro step_ok_quiet [OF inv]) (auto intro: accounted_same)
    then show ?thesis using Continue by simp
  next
    case PopFailed
    have "step_ok (s, pcs) ns t [Ret (PopRet None)] (s\<lparr>ls_top := l\<rparr>, pcs(t := None)) ns"
      using i PopFailed out pc other [of None]
      by (intro step_ok_quiet [OF inv]) (auto intro: accounted_same)
    then show ?thesis using PopFailed by simp
  next
    case (Popped n)
    obtain ms where ms: "ns = n # ms" using i Popped by auto
    have n: "n \<notin> out_of pcs" using ts_invD(2) [OF k(1)] ms by (auto simp: nodes_ok_def)
    have out': "out_of (pcs(t := Some (PopCopy n))) = insert n (out_of pcs)" using out_by_upd [OF k(2), of t] pc by simp
    have "ts_inv l ((loops_of pcs)(t := None)) (insert n (out_of pcs)) (ls_live s) ms" using i Popped ms by simp
    then have "ls_inv (s\<lparr>ls_top := l\<rparr>, pcs(t := Some (PopCopy n))) ms"
      using k out' n one_holder_by_upd [OF k(2), of "Some (PopCopy n)"] by (simp add: ls_inv_def)
    moreover have "accounted (s\<lparr>ls_top := l\<rparr>, pcs(t := Some (PopCopy n))) ms" if "accounted (s, pcs) ns"
      using that other [of "Some (PopCopy n)"] unfolding accounted_def by (auto simp: out' ms simp del: loops_by_upd)
    ultimately show ?thesis using Popped ms pc by (auto simp: step_ok_def)
  qed (use i r in auto)
qed

lemma alloc_ok:
  assumes inv: "ls_inv (s, pcs) ns" and pc: "pcs t = Some (PushNew d)" and n: "n \<notin> ls_live s"
  shows "step_ok (s, pcs) ns t []
    (s\<lparr>ls_data := (ls_data s)(n := d), ls_live := insert n (ls_live s)\<rparr>, pcs(t := Some (InPush (PushLoad n)))) ns"
proof -
  let ?s = "s\<lparr>ls_data := (ls_data s)(n := d), ls_live := insert n (ls_live s)\<rparr>"
  let ?pcs = "pcs(t := Some (InPush (PushLoad n)))"
  note k = ls_invD [OF inv]
  have live: "m \<in> ls_live s" if "m \<in> set ns \<or> m \<in> held (pcs u) \<or> flight (loop_of (pcs u)) = Some m" for m u
    using ts_invD(2) [OF k(1)] that nodes_ok_flightD [of "loops_of pcs", OF ts_invD(2) [OF k(1)], of u m]
    by (auto simp: nodes_ok_def out_by_def loops_by_def)
  have notin: "n \<notin> out_of pcs" using live n by (auto simp: out_by_def)
  have out: "out_of ?pcs = out_of pcs" using out_same [OF k(2)] pc by simp
  have "loops_of pcs t = None" using pc by (simp add: loops_by_def)
  then have "ts_inv (ls_top s) ((loops_of pcs)(t := Some (PushLoad n))) (out_of pcs) (insert n (ls_live s)) ns"
    using inv_begin_push [OF inv_alloc [OF k(1) n], of t n] notin by simp
  then have "ls_inv (?s, ?pcs) ns"
    using k out one_holder_by_upd [OF k(2), of "Some (InPush (PushLoad n))"] by (simp add: ls_inv_def)
  moreover have "accounted (?s, ?pcs) ns" if "accounted (s, pcs) ns"
  proof -
    have "flight (loops_of ?pcs u) = Some m" if "flight (loops_of pcs u) = Some m" for u m
      using that pc by (cases "u = t") (simp_all add: loops_by_def)
    moreover have "flight (loops_of ?pcs t) = Some n" by simp
    ultimately show ?thesis using that unfolding accounted_def by (auto simp: out simp del: loops_by_upd) blast
  qed
  moreover have "phase_of (ls_data ?s) (pcs u) = phase_of (ls_data s) (pcs u)" for u
    by (rule phase_of_cong) (use live n in auto)
  moreover have "map (ls_data ?s) ns = map (ls_data s) ns" using live n by auto
  ultimately show ?thesis using pc by (simp add: step_ok_def)
qed

lemma delete_ok:
  assumes inv: "ls_inv (s, pcs) ns" and pc: "pcs t = Some (PopDelete n v)"
  shows "step_ok (s, pcs) ns t [Ret (PopRet (Some v))] (s\<lparr>ls_live := ls_live s - {n}\<rparr>, pcs(t := None)) ns"
proof -
  note k = ls_invD [OF inv]
  have n: "n \<in> out_of pcs" using pc by (auto simp: out_by_def intro: exI [of _ t])
  have out: "out_of (pcs(t := None)) = out_of pcs - {n}" using out_by_upd [OF k(2), of t None] pc by simp
  have L: "loops_of (pcs(t := None)) = loops_of pcs" using pc by (auto simp: loops_by_def)
  show ?thesis
  proof (rule step_ok_quiet [OF inv])
    show "ts_inv (ls_top (s\<lparr>ls_live := ls_live s - {n}\<rparr>)) (loops_of (pcs(t := None))) (out_of (pcs(t := None)))
        (ls_live (s\<lparr>ls_live := ls_live s - {n}\<rparr>)) ns"
      unfolding out L using inv_drop [OF k(1) n] by simp
    show "accounted (s, pcs) ns \<Longrightarrow> accounted (s\<lparr>ls_live := ls_live s - {n}\<rparr>, pcs(t := None)) ns"
      unfolding accounted_def snd_conv out L by auto
  qed (use pc in auto)
qed

lemma thread_step_ok:
  assumes inv: "ls_inv (s, pcs) ns" and pc: "pcs t = Some pc" and n: "n \<notin> ls_live s"
    and run: "ls_thread_step b n pc s = (x, s')"
  shows "(\<exists>pc' ns'. x = Goto pc' \<and> step_ok (s, pcs) ns t (lin_acts pc pc' s) (s', pcs(t := Some pc')) ns') \<or>
    (\<exists>r. x = Return r \<and> step_ok (s, pcs) ns t [Ret r] (s', pcs(t := None)) ns)"
proof (cases pc)
  case (PushCheck d)
  have out: "out_of (pcs(t := None)) = out_of pcs" "out_of (pcs(t := Some (PushNew d))) = out_of pcs"
    using out_same [OF ls_invD(2) [OF inv]] pc PushCheck by simp_all
  have L: "loops_of (pcs(t := None)) = loops_of pcs" "loops_of (pcs(t := Some (PushNew d))) = loops_of pcs"
    using pc PushCheck by (auto simp: loops_by_def)
  have "step_ok (s, pcs) ns t [Ret (PushRet False)] (s, pcs(t := None)) ns"
    "step_ok (s, pcs) ns t [] (s, pcs(t := Some (PushNew d))) ns"
    by (rule step_ok_quiet [OF inv];
        use ls_invD(1) [OF inv] pc PushCheck out in \<open>simp add: L accounted_def del: loops_by_upd\<close>)+
  then show ?thesis using run PushCheck by (auto simp: ls_thread_step_def)
next
  case (PushNew d)
  then show ?thesis using alloc_ok [OF inv _ n, of t d] pc run by (auto simp: ls_thread_step_def)
next
  case (InPush lpc)
  obtain r l where "push_step b lpc (ls_top s) = (r, l)" by fastforce
  then show ?thesis using push_loop_ok [OF inv, of t lpc b r l] pc run InPush by (auto simp: ls_thread_step_def)
next
  case (InPop lpc)
  obtain r l where "pop_step b lpc (ls_top s) = (r, l)" by fastforce
  then show ?thesis using pop_loop_ok [OF inv, of t lpc b r l] pc run InPop by (auto simp: ls_thread_step_def)
next
  case (PopCopy m)
  have m: "m \<in> out_of pcs" using pc PopCopy by (auto simp: out_by_def intro: exI [of _ t])
  have pcs: "loops_of (pcs(t := Some (PopDelete m (ls_data s m)))) = loops_of pcs"
    "out_of (pcs(t := Some (PopDelete m (ls_data s m)))) = out_of pcs"
    using pc PopCopy m out_by_upd [OF ls_invD(2) [OF inv], of t] by (auto simp: loops_by_def)
  have "step_ok (s, pcs) ns t [] (s, pcs(t := Some (PopDelete m (ls_data s m)))) ns"
    by (rule step_ok_quiet [OF inv])
      (use ls_invD(1) [OF inv] pc PopCopy in \<open>simp_all add: pcs accounted_def del: loops_by_upd\<close>)
  then show ?thesis using run PopCopy by (auto simp: ls_thread_step_def)
next
  case (PopDelete m v)
  then show ?thesis using delete_ok [OF inv, of t m v] pc run by (auto simp: ls_thread_step_def)
qed

lemma reuse_ok:
  assumes inv: "ls_inv (s, pcs) ns" and n: "n \<notin> ls_live s"
  shows "step_ok (s, pcs) ns t [] (s\<lparr>ls_data := (ls_data s)(n := d),
      ls_top := ls_top s\<lparr>ts_next := (ts_next (ls_top s))(n := x)\<rparr>\<rparr>, pcs) ns"
proof -
  let ?s = "s\<lparr>ls_data := (ls_data s)(n := d), ls_top := ls_top s\<lparr>ts_next := (ts_next (ls_top s))(n := x)\<rparr>\<rparr>"
  note k = ls_invD [OF inv]
  have live: "m \<in> ls_live s" if "m \<in> set ns \<or> m \<in> held (pcs u) \<or> flight (loop_of (pcs u)) = Some m" for m u
    using ts_invD(2) [OF k(1)] that nodes_ok_flightD [of "loops_of pcs", OF ts_invD(2) [OF k(1)], of u m]
    by (auto simp: nodes_ok_def out_by_def loops_by_def)
  have "ls_inv (?s, pcs) ns" using inv inv_write [OF k(1), of n x] n by (simp add: ls_inv_def)
  moreover have "phase_of (ls_data ?s) (pcs u) = phase_of (ls_data s) (pcs u)" for u
    by (rule phase_of_cong) (use live n in auto)
  moreover have "map (ls_data ?s) ns = map (ls_data s) ns" using live n by auto
  ultimately show ?thesis by (simp add: step_ok_def accounted_def)
qed

lemma ls_step_ok: "ls_step c l c' \<Longrightarrow> ls_inv c ns \<Longrightarrow> \<exists>ns'. step_ok c ns (fst l) (snd l) c' ns'"
proof (induction rule: ls_step.induct)
  case (call_push pcs t s d)
  note k = ls_invD [OF call_push(2)]
  have "out_of (pcs(t := Some (PushCheck d))) = out_of pcs" "loops_of (pcs(t := Some (PushCheck d))) = loops_of pcs"
    using out_same [OF k(2)] call_push(1) by (auto simp: loops_by_def)
  then have "step_ok (s, pcs) ns t [CallPush d] (s, pcs(t := Some (PushCheck d))) ns"
    by (intro step_ok_quiet [OF call_push(2)]) (use k call_push(1) in \<open>simp_all add: accounted_def del: loops_by_upd\<close>)
  then show ?case by auto
next
  case (call_pop pcs t s)
  note k = ls_invD [OF call_pop(2)]
  have L: "loops_of pcs t = None" using call_pop(1) by (simp add: loops_by_def)
  have out: "out_of (pcs(t := Some (InPop PopSub))) = out_of pcs" using out_same [OF k(2)] call_pop(1) by simp
  have acc: "accounted (s, pcs) ns \<Longrightarrow> accounted (s, pcs(t := Some (InPop PopSub))) ns"
    by (rule accounted_same [OF _ out]) (use L in auto)
  have "step_ok (s, pcs) ns t [CallPop] (s, pcs(t := Some (InPop PopSub))) ns"
    by (rule step_ok_quiet [OF call_pop(2)]) (use inv_begin_pop [OF k(1) L] out call_pop(1) acc in simp_all)
  then show ?case by auto
next
  case (run pcs t pc n s b pc' s')
  then show ?case using thread_step_ok [OF run(4,1,2,3)] by auto
next
  case (ret pcs t pc n s b r s')
  then show ?case using thread_step_ok [OF ret(4,1,2,3)] by auto
next
  case (reuse n s pcs t d x)
  then show ?case using reuse_ok [OF reuse(2,1)] by auto
qed

subsection \<open>Properties of the stack\<close>

lemma ls_new_inv: "ls_inv (ls_new m nxt dat, \<lambda>_. None) []" "accounted (ls_new m nxt dat, \<lambda>_. None) []"
proof -
  have "loops_of (\<lambda>_. None :: 'a ls_pc option) = (\<lambda>_. None)" "out_of (\<lambda>_. None :: 'a ls_pc option) = {}"
    by (auto simp: loops_by_def out_by_def)
  then show "ls_inv (ls_new m nxt dat, \<lambda>_. None) []" "accounted (ls_new m nxt dat, \<lambda>_. None) []"
    using inv_init [of "\<lparr>ts_pNode = None, ts_count = 0, ts_next = nxt, ts_size = 0\<rparr>"]
    by (simp_all add: ls_inv_def ls_new_def ts_empty_def one_holder_by_def accounted_def)
qed

lemma ls_run_ok:
  assumes "ls_run c acts c'" "ls_inv c []" "accounted c []" "\<forall>t. snd c t = None"
  shows "\<exists>ns. ls_inv c' ns \<and> accounted c' ns \<and>
    accepts lifo_after [] (map snd acts) = Some (map (ls_data (fst c')) ns) \<and>
    (\<forall>t. accepts phase_after Idle (acts_of t acts) = Some (phase_of (ls_data (fst c')) (snd c' t)))"
  using assms
proof (induction rule: ls_run.induct)
  case (start c)
  then show ?case by (intro exI [of _ "[]"]) simp
next
  case (snoc c acts c' t as c'')
  then obtain ns where ns: "ls_inv c' ns" "accounted c' ns"
    "accepts lifo_after [] (map snd acts) = Some (map (ls_data (fst c')) ns)"
    "\<And>u. accepts phase_after Idle (acts_of u acts) = Some (phase_of (ls_data (fst c')) (snd c' u))" by blast
  obtain ns' where "step_ok c' ns t as c'' ns'" using ls_step_ok [OF snoc(2) ns(1)] by auto
  then show ?case using ns by (intro exI [of _ ns']) (simp add: step_ok_def comp_def)
qed

text \<open>A schedule that runs the threads: used to build concrete runs.\<close>

datatype 'a sched = DoPush nat 'a | DoPop nat | Run nat nat

fun ls_exec1 :: "'a sched \<Rightarrow> 'a ls_system \<Rightarrow> ((nat \<times> 'a act list) \<times> 'a ls_system) option" where
  "ls_exec1 (DoPush t d) (s, pcs) =
     (case pcs t of None \<Rightarrow> Some ((t, [CallPush d]), (s, pcs(t := Some (PushCheck d)))) | Some pc \<Rightarrow> None)"
| "ls_exec1 (DoPop t) (s, pcs) =
     (case pcs t of None \<Rightarrow> Some ((t, [CallPop]), (s, pcs(t := Some (InPop PopSub)))) | Some pc \<Rightarrow> None)"
| "ls_exec1 (Run t n) (s, pcs) =
     (case pcs t of None \<Rightarrow> None
      | Some pc \<Rightarrow> if n \<in> ls_live s then None else
          (case ls_thread_step False n pc s of
             (Goto pc', s') \<Rightarrow> Some ((t, lin_acts pc pc' s), (s', pcs(t := Some pc')))
           | (Return r, s') \<Rightarrow> Some ((t, [Ret r]), (s', pcs(t := None)))
           | (Fault, s') \<Rightarrow> None))"

fun ls_exec :: "'a sched list \<Rightarrow> 'a ls_system \<Rightarrow> ((nat \<times> 'a act) list \<times> 'a ls_system) option" where
  "ls_exec [] c = Some ([], c)"
| "ls_exec (x # xs) c =
     (case ls_exec1 x c of None \<Rightarrow> None
      | Some ((t, as), c') \<Rightarrow> map_option (\<lambda>(acts, c''). (map (Pair t) as @ acts, c'')) (ls_exec xs c'))"

lemma ls_exec1_step: "ls_exec1 x c = Some (l, c') \<Longrightarrow> ls_step c l c'"
  by (cases "(x, c)" rule: ls_exec1.cases)
    (auto split: option.splits if_splits ls_next.splits prod.splits intro: ls_step.intros)

lemma ls_run_trans: "ls_run c' bs c'' \<Longrightarrow> ls_run c as c' \<Longrightarrow> ls_run c (as @ bs) c''"
  by (induction arbitrary: rule: ls_run.induct) (auto dest: ls_run.snoc)

lemma ls_exec_run: "ls_exec xs c = Some (acts, c') \<Longrightarrow> ls_run c acts c'"
proof (induction xs c arbitrary: acts rule: ls_exec.induct)
  case (1 c)
  then show ?case by (simp add: ls_run.start)
next
  case (2 x xs c)
  then obtain t as c1 bs where x: "ls_exec1 x c = Some ((t, as), c1)" "ls_exec xs c1 = Some (bs, c')"
    "acts = map (Pair t) as @ bs" by (auto split: option.splits prod.splits)
  have "ls_run c (map (Pair t) as) c1" using ls_run.snoc [OF ls_run.start ls_exec1_step [OF x(1)]] by simp
  then show ?case using ls_run_trans [OF "2.IH" [OF x(1) refl refl x(2)]] x(3) by simp
qed

text \<open>Thread 0 pushes 5; thread 1 starts a pop and reaches its compare-exchange.\<close>

definition demo_sched :: "nat sched list" where
  "demo_sched = DoPush 0 5 # replicate 2 (Run 0 3) @ replicate 4 (Run 0 4) @ DoPop 1 # replicate 4 (Run 1 4)"

definition demo_start :: "nat ls_system" where
  "demo_start = (ls_new 1 (\<lambda>_. None) (\<lambda>_. 0), \<lambda>_. None)"

lemma demo_exec:
  "\<exists>s pcs. ls_exec demo_sched demo_start = Some ([(0, CallPush 5), (0, LinPush 5), (0, Ret (PushRet True)), (1, CallPop)], (s, pcs)) \<and>
     pcs 1 = Some (InPop (PopCas 0 3 None)) \<and> ls_live s = {3}"
  by (simp add: demo_sched_def demo_start_def ls_new_def ls_thread_step_def numeral_eq_Suc)

text \<open>C3: However the pushes and pops of any number of threads interleave, with freed nodes reused at once and their
  memory overwritten, the stack is linearizable: the effects of the pushes and pops form a last-in
  first-out sequence, each takes place between the call and the return of its operation, a push that returns
  true has pushed its value, one that returns false nothing, and a pop returns the value it has removed.\<close>

theorem stack_is_linearizable:
  assumes "ls_run (ls_new maxCount nxt dat, \<lambda>_. None) acts (s, pcs)"
  shows "linearizable_stack acts"
  using ls_run_ok [OF assms ls_new_inv] by (auto simp: linearizable_stack_def)

lemma stack_is_linearizable_witness:
  "\<exists>acts c. ls_run demo_start acts c \<and> (0, Ret (PushRet True)) \<in> set acts \<and> linearizable_stack acts"
proof -
  obtain s pcs where e: "ls_exec demo_sched demo_start =
      Some ([(0, CallPush 5), (0, LinPush 5), (0, Ret (PushRet True)), (1, CallPop)], (s, pcs))" using demo_exec by blast
  note run = ls_exec_run [OF e]
  show ?thesis
    using run stack_is_linearizable [OF run [unfolded demo_start_def]] by (intro exI) auto
qed

text \<open>No step of a thread in TryPop, in any interleaving, dereferences a null top pointer: the reservation on
  the count guarantees a node.\<close>

theorem pop_never_dereferences_null:
  assumes "ls_run (ls_new maxCount nxt dat, \<lambda>_. None) acts (s, pcs)" "pcs t = Some pc" "n \<notin> ls_live s"
  shows "fst (ls_thread_step b n pc s) \<noteq> Fault"
proof -
  obtain ns where "ls_inv (s, pcs) ns" using ls_run_ok [OF assms(1) ls_new_inv] by auto
  moreover obtain x s' where "ls_thread_step b n pc s = (x, s')" by fastforce
  ultimately show ?thesis using thread_step_ok [of s pcs ns t pc n b x s'] assms(2,3) by auto
qed

lemma pop_never_dereferences_null_witness:
  "\<exists>acts s pcs. ls_run demo_start acts (s, pcs) \<and> pcs 1 = Some (InPop (PopCas 0 3 None)) \<and>
     fst (ls_thread_step False 4 (InPop (PopCas 0 3 None)) s) \<noteq> Fault"
proof -
  obtain s pcs where e: "ls_exec demo_sched demo_start =
      Some ([(0, CallPush 5), (0, LinPush 5), (0, Ret (PushRet True)), (1, CallPop)], (s, pcs))"
    "pcs 1 = Some (InPop (PopCas 0 3 None))" "ls_live s = {3}" using demo_exec by blast
  note run = ls_exec_run [OF e(1)]
  have "4 \<notin> ls_live s" using e(3) by simp
  from pop_never_dereferences_null [OF run [unfolded demo_start_def] e(2) this, of False] show ?thesis
    using run e(2) by blast
qed

text \<open>The destructor walks the list; every node on it is live.\<close>

lemma destroy_loop_path:
  "path (ts_next (ls_top s)) p ns \<Longrightarrow> distinct ns \<Longrightarrow> set ns \<subseteq> ls_live s \<Longrightarrow>
   ls_destroy_loop p s = Some (Inr (s\<lparr>ls_live := ls_live s - set ns\<rparr>))"
proof (induction ns arbitrary: p s)
  case Nil
  then show ?case by (subst ls_destroy_loop.simps) simp
next
  case (Cons n ns)
  let ?s = "s\<lparr>ls_live := ls_live s - {n}\<rparr>"
  have "ls_destroy_loop (ts_next (ls_top s) n) ?s = Some (Inr (?s\<lparr>ls_live := ls_live ?s - set ns\<rparr>))"
    using Cons.prems by (intro Cons.IH) auto
  moreover have "ls_live s - {n} - set ns = ls_live s - insert n (set ns)" by auto
  ultimately show ?case using Cons.prems by (subst ls_destroy_loop.simps) simp
qed

text \<open>When no thread is in an operation any more, Count is the number of elements that the accepted operations
  have left, and the destructor returns, touches live nodes only and frees every one of them.\<close>

theorem destructor_frees_every_node:
  assumes "ls_run (ls_new maxCount nxt dat, \<lambda>_. None) acts (s, \<lambda>_. None)"
  shows "\<exists>st. accepts lifo_after [] (map snd acts) = Some st \<and> ls_Count s = int (length st) \<and>
    (\<exists>s'. ls_destroy s = Some (Inr s') \<and> ls_live s' = {})"
proof -
  obtain ns where ns: "ls_inv (s, \<lambda>_. None) ns" "accounted (s, \<lambda>_. None) ns"
    "accepts lifo_after [] (map snd acts) = Some (map (ls_data s) ns)"
    using ls_run_ok [OF assms ls_new_inv] by auto
  have quiet: "loops_of (\<lambda>_. None :: 'a ls_pc option) = (\<lambda>_. None)" "out_of (\<lambda>_. None :: 'a ls_pc option) = {}"
    by (auto simp: loops_by_def out_by_def)
  note i = ls_invD(1) [OF ns(1), unfolded quiet]
  note k = ts_invD [OF i]
  have live: "ls_live s - set ns = {}" using ns(2) by (auto simp: accounted_def quiet)
  have "ls_destroy s = Some (Inr (s\<lparr>ls_live := ls_live s - set ns\<rparr>))"
    unfolding ls_destroy_def by (rule destroy_loop_path) (use k(1,2) in \<open>auto simp: nodes_ok_def\<close>)
  then show ?thesis using ns(3) k(3) live by (intro exI) (auto simp: size_ok_def ls_Count_def)
qed

lemma destructor_frees_every_node_witness:
  "\<exists>acts s s'. ls_run demo_start acts (s, \<lambda>_. None) \<and> ls_Count s = 1 \<and> ls_destroy s = Some (Inr s') \<and> ls_live s' = {}"
proof -
  have "\<exists>s. ls_exec (take 7 demo_sched) demo_start =
      Some ([(0, CallPush 5), (0, LinPush 5), (0, Ret (PushRet True))], (s, \<lambda>_. None)) \<and> ls_Count s = 1"
    by (simp add: demo_sched_def demo_start_def ls_new_def ls_thread_step_def numeral_eq_Suc ls_Count_def fun_upd_def)
      auto
  then obtain s where e: "ls_exec (take 7 demo_sched) demo_start =
      Some ([(0, CallPush 5), (0, LinPush 5), (0, Ret (PushRet True))], (s, \<lambda>_. None))" by blast
  note run = ls_exec_run [OF e]
  from destructor_frees_every_node [OF run [unfolded demo_start_def]] run show ?thesis by fastforce
qed

end
