(* ===== verification/Object_Pool.thy ===== *)
theory Object_Pool
  imports Tagged_Stack
begin

text \<open>
  ObjectPool (ObjectPool.h), run by any number of threads. The address of an object is the address
  of its node, since \<open>data\<close> is the first member. \<open>mi_malloc\<close> is a parameter: it returns null or a
  node that is not live. \<open>op_data n\<close> is \<open>None\<close> while no object is constructed in the node. An assertion
  does nothing, as in a release build.
\<close>

subsection \<open>State and operations\<close>

definition op_CHECKSUM_CODE :: uint64 where "op_CHECKSUM_CODE = 0xDEADBEEFBEFFDEAD"

record 'a ObjectPool =
  op_mbPlacementNew :: bool
  op_top :: tagged
  op_data :: "nat \<Rightarrow> 'a option"
  op_checksum :: "nat \<Rightarrow> uint64"
  op_live :: "nat set"

definition op_PoolingCount :: "'a ObjectPool \<Rightarrow> int" where
  "op_PoolingCount s = ts_size (op_top s)"

text \<open>\<open>allocNode\<close> followed by the two assignments that every caller makes.\<close>

definition op_allocNode :: "nat \<Rightarrow> 'a option \<Rightarrow> nat option \<Rightarrow> 'a ObjectPool \<Rightarrow> 'a ObjectPool" where
  "op_allocNode n obj nxt s =
     s\<lparr>op_data := (op_data s)(n := obj), op_checksum := (op_checksum s)(n := op_CHECKSUM_CODE),
       op_live := insert n (op_live s),
       op_top := op_top s\<lparr>ts_next := (ts_next (op_top s))(n := nxt)\<rparr>\<rparr>"

text \<open>The constructor: the nodes of its loop come from \<open>mi_malloc\<close> at the addresses of the list.\<close>

fun op_fill :: "(nat \<Rightarrow> 'a) \<Rightarrow> nat list \<Rightarrow> 'a ObjectPool \<Rightarrow> 'a ObjectPool" where
  "op_fill dflt [] s = s"
| "op_fill dflt (n # as) s =
     (let s1 = op_allocNode n (if \<not> op_mbPlacementNew s then Some (dflt n) else None) (ts_pNode (op_top s)) s in
      op_fill dflt as (s1\<lparr>op_top := op_top s1\<lparr>ts_pNode := Some n\<rparr>\<rparr>))"

definition op_new :: "bool \<Rightarrow> int \<Rightarrow> nat list \<Rightarrow> (nat \<Rightarrow> 'a) \<Rightarrow> (nat \<Rightarrow> nat option) \<Rightarrow> (nat \<Rightarrow> uint64) \<Rightarrow> 'a ObjectPool" where
  "op_new bPlacementNew poolingCount addrs dflt nxt sums =
     op_fill dflt (take (nat poolingCount) addrs)
       \<lparr>op_mbPlacementNew = bPlacementNew,
        op_top = \<lparr>ts_pNode = None, ts_count = 0, ts_next = nxt, ts_size = poolingCount\<rparr>,
        op_data = (\<lambda>_. None), op_checksum = sums, op_live = {}\<rparr>"

datatype 'a op_pc =
    InAlloc "nat \<Rightarrow> 'a" loop_pc | AllocNew "nat \<Rightarrow> 'a" | AllocConstruct "nat \<Rightarrow> 'a" nat | FreeCheck "nat option" | InFree loop_pc

datatype 'a op_next = Goto "'a op_pc" | AllocReturn nat | FreeReturn | Fault

text \<open>\<open>v n\<close> is the object that the constructor makes of the arguments of \<open>Alloc\<close> at address \<open>n\<close>; \<open>fresh\<close> is what \<open>mi_malloc\<close> returns.\<close>

fun op_Alloc_step :: "bool \<Rightarrow> nat option \<Rightarrow> 'a op_pc \<Rightarrow> 'a ObjectPool \<Rightarrow> 'a op_next \<times> 'a ObjectPool" where
  "op_Alloc_step spurious fresh (InAlloc v pc) s =
     (case pop_step spurious pc (op_top s) of
        (r, l) \<Rightarrow>
          (case r of Continue pc' \<Rightarrow> Goto (InAlloc v pc') | PopFailed \<Rightarrow> Goto (AllocNew v)
             | Popped n \<Rightarrow> Goto (AllocConstruct v n) | _ \<Rightarrow> Fault, s\<lparr>op_top := l\<rparr>))"
| "op_Alloc_step spurious fresh (AllocNew v) s =
     (case fresh of
        None \<Rightarrow> (Fault, s)
      | Some n \<Rightarrow> (AllocReturn n, op_allocNode n (Some (v n)) None s))"
| "op_Alloc_step spurious fresh (AllocConstruct v n) s =
     (AllocReturn n, if op_mbPlacementNew s then s\<lparr>op_data := (op_data s)(n := Some (v n))\<rparr> else s)"
| "op_Alloc_step spurious fresh pc s = (Goto pc, s)"

fun op_Free_step :: "bool \<Rightarrow> 'a op_pc \<Rightarrow> 'a ObjectPool \<Rightarrow> 'a op_next \<times> 'a ObjectPool" where
  "op_Free_step spurious (FreeCheck pData) s =
     (case pData of
        None \<Rightarrow> (FreeReturn, s)
      | Some n \<Rightarrow>
          if op_checksum s n \<noteq> op_CHECKSUM_CODE then (FreeReturn, s)
          else (Goto (InFree (PushLoad n)), if op_mbPlacementNew s then s\<lparr>op_data := (op_data s)(n := None)\<rparr> else s))"
| "op_Free_step spurious (InFree pc) s =
     (case push_step spurious pc (op_top s) of
        (r, l) \<Rightarrow> (case r of Continue pc' \<Rightarrow> Goto (InFree pc') | _ \<Rightarrow> FreeReturn, s\<lparr>op_top := l\<rparr>))"
| "op_Free_step spurious pc s = (Goto pc, s)"

fun in_free :: "'a op_pc \<Rightarrow> bool" where
  "in_free (FreeCheck p) = True" | "in_free (InFree pc) = True" | "in_free pc = False"

definition op_thread_step :: "bool \<Rightarrow> nat option \<Rightarrow> 'a op_pc \<Rightarrow> 'a ObjectPool \<Rightarrow> 'a op_next \<times> 'a ObjectPool" where
  "op_thread_step spurious fresh pc s =
     (if in_free pc then op_Free_step spurious pc s else op_Alloc_step spurious fresh pc s)"

text \<open>The destructor; \<open>None\<close> as the inner value when it reaches a node that is not live.\<close>

partial_function (option) op_destroy_loop :: "nat option \<Rightarrow> 'a ObjectPool \<Rightarrow> 'a ObjectPool option option" where
  "op_destroy_loop p s =
     (case p of
        None \<Rightarrow> Some (Some s)
      | Some n \<Rightarrow>
          if n \<notin> op_live s then Some None
          else op_destroy_loop (ts_next (op_top s) n)
                 (s\<lparr>op_data := (if \<not> op_mbPlacementNew s then (op_data s)(n := None) else op_data s),
                    op_live := op_live s - {n},
                    op_top := op_top s\<lparr>ts_size := ts_size (op_top s) - 1\<rparr>\<rparr>))"

definition op_destroy :: "'a ObjectPool \<Rightarrow> 'a ObjectPool option option" where
  "op_destroy s = op_destroy_loop (ts_pNode (op_top s)) s"

subsection \<open>Runs of many threads\<close>

text \<open>
  \<open>handed\<close> are the objects that clients hold. A client frees only an object that it holds, and may
  assign to it; the memory of a node that is not live may change at any time.
\<close>

type_synonym 'a op_system = "'a ObjectPool \<times> (nat \<Rightarrow> 'a op_pc option) \<times> nat set"

inductive op_step :: "'a op_system \<Rightarrow> 'a op_system \<Rightarrow> bool" where
  call_alloc: "pcs t = None \<Longrightarrow> op_step (s, pcs, handed) (s, pcs(t := Some (InAlloc v PopSub)), handed)"
| call_free: "pcs t = None \<Longrightarrow> n \<in> handed \<Longrightarrow>
    op_step (s, pcs, handed) (s, pcs(t := Some (FreeCheck (Some n))), handed - {n})"
| call_free_null: "pcs t = None \<Longrightarrow> op_step (s, pcs, handed) (s, pcs(t := Some (FreeCheck None)), handed)"
| run: "pcs t = Some pc \<Longrightarrow> \<forall>n. fresh = Some n \<longrightarrow> n \<notin> op_live s \<Longrightarrow>
    op_thread_step b fresh pc s = (Goto pc', s') \<Longrightarrow> op_step (s, pcs, handed) (s', pcs(t := Some pc'), handed)"
| alloc_returns: "pcs t = Some pc \<Longrightarrow> \<forall>n. fresh = Some n \<longrightarrow> n \<notin> op_live s \<Longrightarrow>
    op_thread_step b fresh pc s = (AllocReturn n, s') \<Longrightarrow>
    op_step (s, pcs, handed) (s', pcs(t := None), insert n handed)"
| free_returns: "pcs t = Some pc \<Longrightarrow> \<forall>n. fresh = Some n \<longrightarrow> n \<notin> op_live s \<Longrightarrow>
    op_thread_step b fresh pc s = (FreeReturn, s') \<Longrightarrow> op_step (s, pcs, handed) (s', pcs(t := None), handed)"
| assigned: "n \<in> handed \<Longrightarrow> op_step (s, pcs, handed) (s\<lparr>op_data := (op_data s)(n := Some v)\<rparr>, pcs, handed)"
| reuse: "n \<notin> op_live s \<Longrightarrow>
    op_step (s, pcs, handed) (s\<lparr>op_data := (op_data s)(n := v), op_checksum := (op_checksum s)(n := c),
      op_top := op_top s\<lparr>ts_next := (ts_next (op_top s))(n := x)\<rparr>\<rparr>, pcs, handed)"

subsection \<open>The invariant\<close>

fun op_loop_of :: "'a op_pc option \<Rightarrow> loop_pc option" where
  "op_loop_of (Some (InAlloc v pc)) = Some pc"
| "op_loop_of (Some (InFree pc)) = Some pc"
| "op_loop_of pc = None"

fun op_held :: "'a op_pc option \<Rightarrow> nat set" where
  "op_held (Some (AllocConstruct v n)) = {n}"
| "op_held (Some (FreeCheck (Some n))) = {n}"
| "op_held pc = {}"

abbreviation op_loops :: "(nat \<Rightarrow> 'a op_pc option) \<Rightarrow> nat \<Rightarrow> loop_pc option" where
  "op_loops \<equiv> loops_by op_loop_of"

abbreviation op_out :: "(nat \<Rightarrow> 'a op_pc option) \<Rightarrow> nat set" where
  "op_out \<equiv> out_by op_held"

fun op_pc_wf :: "'a op_pc option \<Rightarrow> bool" where
  "op_pc_wf (Some (InFree pc)) \<longleftrightarrow> pushing pc"
| "op_pc_wf (Some (InAlloc v pc)) \<longleftrightarrow> \<not> pushing pc"
| "op_pc_wf pc \<longleftrightarrow> True"

text \<open>Where an object must be constructed: with the clients and before the check of \<open>Free\<close>.\<close>

definition object_at :: "(nat \<Rightarrow> 'a op_pc option) \<Rightarrow> nat set \<Rightarrow> nat \<Rightarrow> bool" where
  "object_at pcs handed n \<longleftrightarrow> n \<in> handed \<or> (\<exists>t. pcs t = Some (FreeCheck (Some n)))"

definition objects_ok :: "'a op_system \<Rightarrow> bool" where
  "objects_ok c \<longleftrightarrow> (case c of (s, pcs, handed) \<Rightarrow>
     \<forall>n \<in> op_live s. op_checksum s n = op_CHECKSUM_CODE \<and>
       (op_data s n = None \<longleftrightarrow> op_mbPlacementNew s \<and> \<not> object_at pcs handed n))"

definition op_inv :: "'a op_system \<Rightarrow> nat list \<Rightarrow> bool" where
  "op_inv c ns \<longleftrightarrow> (case c of (s, pcs, handed) \<Rightarrow>
     ts_inv (op_top s) (op_loops pcs) (handed \<union> op_out pcs) (op_live s) ns \<and>
     one_holder_by op_held pcs \<and> handed \<inter> op_out pcs = {} \<and> (\<forall>t. op_pc_wf (pcs t)) \<and> objects_ok c \<and>
     op_live s \<subseteq> set ns \<union> handed \<union> op_out pcs \<union> {n. \<exists>t. flight (op_loops pcs t) = Some n})"

lemma op_invD:
  assumes "op_inv (s, pcs, handed) ns"
  shows "ts_inv (op_top s) (op_loops pcs) (handed \<union> op_out pcs) (op_live s) ns"
    "one_holder_by op_held pcs" "handed \<inter> op_out pcs = {}" "op_pc_wf (pcs t)"
    "op_live s \<subseteq> set ns \<union> handed \<union> op_out pcs \<union> {n. \<exists>t. flight (op_loops pcs t) = Some n}"
    "n \<in> op_live s \<Longrightarrow> op_checksum s n = op_CHECKSUM_CODE"
    "n \<in> op_live s \<Longrightarrow> op_data s n = None \<longleftrightarrow> op_mbPlacementNew s \<and> \<not> object_at pcs handed n"
  using assms by (auto simp: op_inv_def objects_ok_def)

lemma op_invI:
  assumes "ts_inv (op_top s) (op_loops pcs) (handed \<union> op_out pcs) (op_live s) ns"
    "one_holder_by op_held pcs" "handed \<inter> op_out pcs = {}" "\<And>t. op_pc_wf (pcs t)"
    "\<And>n. n \<in> op_live s \<Longrightarrow> op_checksum s n = op_CHECKSUM_CODE"
    "\<And>n. n \<in> op_live s \<Longrightarrow> op_data s n = None \<longleftrightarrow> op_mbPlacementNew s \<and> \<not> object_at pcs handed n"
    "op_live s \<subseteq> set ns \<union> handed \<union> op_out pcs \<union> {n. \<exists>t. flight (op_loops pcs t) = Some n}"
  shows "op_inv (s, pcs, handed) ns"
  using assms by (simp add: op_inv_def objects_ok_def)

lemma object_at_upd:
  "pcs t = Some (FreeCheck (Some n)) \<longleftrightarrow> x = Some (FreeCheck (Some n)) \<Longrightarrow>
   object_at (pcs(t := x)) handed n \<longleftrightarrow> object_at pcs handed n"
  by (auto simp: object_at_def)

lemma live_node:
  assumes "op_inv (s, pcs, handed) ns"
    and "n \<in> set ns \<or> n \<in> handed \<or> n \<in> op_out pcs \<or> flight (op_loops pcs t) = Some n"
  shows "n \<in> op_live s"
  using ts_invD(2) [OF op_invD(1) [OF assms(1)]] nodes_ok_flightD [OF ts_invD(2) [OF op_invD(1) [OF assms(1)]], of t n]
    assms(2) by (auto simp: nodes_ok_def)

text \<open>A step that changes neither the objects nor who holds them.\<close>

lemma op_inv_loop:
  assumes inv: "op_inv (s, pcs, handed) ns"
    and ts: "ts_inv l (op_loops (pcs(t := x))) (handed \<union> op_out pcs) (op_live s) ns"
    and h: "op_held (pcs t) = {}" "op_held x = {}" "op_pc_wf x"
    and fl: "flight (op_loop_of x) = flight (op_loop_of (pcs t))"
  shows "op_inv (s\<lparr>op_top := l\<rparr>, pcs(t := x), handed) ns"
proof -
  note k = op_invD [OF inv]
  have out: "op_out (pcs(t := x)) = op_out pcs" by (rule out_same [OF k(2) h(1,2)])
  have "object_at (pcs(t := x)) handed n \<longleftrightarrow> object_at pcs handed n" for n
    by (rule object_at_upd) (use h in auto)
  moreover have "flight (op_loops (pcs(t := x)) u) = flight (op_loops pcs u)" for u
    using fl by (simp add: loops_by_def)
  moreover have "one_holder_by op_held (pcs(t := x))" by (rule one_holder_by_upd [OF k(2)]) (simp add: h)
  ultimately show ?thesis using ts k h out by (simp add: op_inv_def objects_ok_def del: loops_by_upd)
qed

lemma op_alloc_loop_ok:
  assumes inv: "op_inv (s, pcs, handed) ns" and pc: "pcs t = Some (InAlloc v pc)" and run: "pop_step b pc (op_top s) = (r, l)"
  shows "(\<exists>pc'. r = Continue pc' \<and> op_inv (s\<lparr>op_top := l\<rparr>, pcs(t := Some (InAlloc v pc')), handed) ns) \<or>
    r = PopFailed \<and> op_inv (s\<lparr>op_top := l\<rparr>, pcs(t := Some (AllocNew v)), handed) ns \<or>
    (\<exists>n ms. r = Popped n \<and> op_inv (s\<lparr>op_top := l\<rparr>, pcs(t := Some (AllocConstruct v n)), handed) ms)"
proof -
  note k = op_invD [OF inv]
  have pop: "\<not> pushing pc" using k(4) [of t] pc by simp
  note r = pop_step_results [OF pop run]
  have L: "op_loops pcs t = Some pc" using pc by (simp add: loops_by_def)
  have fl: "flight (Some pc) = None" using pop by (cases pc) simp_all
  note i = loop_step_inv [OF k(1) L conjunct1 [OF r]]
  show ?thesis
  proof (cases r)
    case (Continue pc')
    have wf: "\<not> pushing pc'" using r Continue by auto
    then have fl': "flight (Some pc') = None" by (cases pc') auto
    have same: "list_after pc r ns = ns" using Continue wf by (cases "(pc, r, ns)" rule: list_after.cases) auto
    have "op_inv (s\<lparr>op_top := l\<rparr>, pcs(t := Some (InAlloc v pc')), handed) ns"
      by (rule op_inv_loop [OF inv]) (use i Continue same wf fl fl' pc in simp_all)
    then show ?thesis using Continue by simp
  next
    case PopFailed
    have "op_inv (s\<lparr>op_top := l\<rparr>, pcs(t := Some (AllocNew v)), handed) ns"
      by (rule op_inv_loop [OF inv]) (use i PopFailed fl pc in simp_all)
    then show ?thesis using PopFailed by simp
  next
    case (Popped n)
    obtain ms where ms: "ns = n # ms" using i Popped by auto
    let ?pcs = "pcs(t := Some (AllocConstruct v n))"
    have n: "n \<notin> handed" "n \<notin> op_out pcs" using ts_invD(2) [OF k(1)] ms by (auto simp: nodes_ok_def)
    have out: "op_out ?pcs = insert n (op_out pcs)" using out_by_upd [OF k(2), of t] pc by simp
    have "ts_inv l ((op_loops pcs)(t := None)) (insert n (handed \<union> op_out pcs)) (op_live s) ms" using i Popped ms by simp
    moreover have "object_at ?pcs handed m \<longleftrightarrow> object_at pcs handed m" for m
      by (rule object_at_upd) (use pc in simp)
    moreover have "flight (op_loops ?pcs u) = flight (op_loops pcs u)" for u using pc fl by (simp add: loops_by_def)
    moreover have "one_holder_by op_held ?pcs" by (rule one_holder_by_upd [OF k(2)]) (use n in simp)
    ultimately have "op_inv (s\<lparr>op_top := l\<rparr>, ?pcs, handed) ms"
      using k(3-7) n by (auto simp: op_inv_def objects_ok_def out ms)
    then show ?thesis using Popped by blast
  qed (use i r in auto)
qed

lemma op_free_loop_ok:
  assumes inv: "op_inv (s, pcs, handed) ns" and pc: "pcs t = Some (InFree pc)" and run: "push_step b pc (op_top s) = (r, l)"
  shows "(\<exists>pc' ns'. r = Continue pc' \<and> op_inv (s\<lparr>op_top := l\<rparr>, pcs(t := Some (InFree pc')), handed) ns') \<or>
    r = Pushed \<and> op_inv (s\<lparr>op_top := l\<rparr>, pcs(t := None), handed) ns"
proof -
  note k = op_invD [OF inv]
  have push: "pushing pc" using k(4) [of t] pc by simp
  note r = push_step_results [OF push run]
  have L: "op_loops pcs t = Some pc" using pc by (simp add: loops_by_def)
  note i = loop_step_inv [OF k(1) L conjunct1 [OF r]]
  show ?thesis
  proof (cases r)
    case (Continue pc')
    have wf: "pushing pc'" using r Continue by auto
    show ?thesis
    proof (cases "\<exists>n e. pc = PushCas n e \<and> pc' = PushAdd")
      case True
      then obtain n e where e: "pc = PushCas n e" "pc' = PushAdd" by auto
      let ?pcs = "pcs(t := Some (InFree PushAdd))"
      have out: "op_out ?pcs = op_out pcs" by (rule out_same [OF k(2)]) (use pc in simp_all)
      have "ts_inv l ((op_loops pcs)(t := Some PushAdd)) (handed \<union> op_out pcs) (op_live s) (n # ns)"
        using i Continue e by simp
      moreover have "object_at ?pcs handed m \<longleftrightarrow> object_at pcs handed m" for m
        by (rule object_at_upd) (use pc in simp)
      moreover have "one_holder_by op_held ?pcs" by (rule one_holder_by_upd [OF k(2)]) simp
      moreover have "op_live s \<subseteq> set (n # ns) \<union> handed \<union> op_out pcs \<union> {m. \<exists>u. flight (op_loops ?pcs u) = Some m}"
      proof
        fix m assume "m \<in> op_live s"
        then consider "m \<in> set ns \<union> handed \<union> op_out pcs" | u where "flight (op_loops pcs u) = Some m" using k(5) by blast
        then show "m \<in> set (n # ns) \<union> handed \<union> op_out pcs \<union> {m. \<exists>u. flight (op_loops ?pcs u) = Some m}"
        proof cases
          case (2 u)
          then show ?thesis using pc e by (cases "u = t") (auto simp: loops_by_def)
        qed auto
      qed
      ultimately have "op_inv (s\<lparr>op_top := l\<rparr>, ?pcs, handed) (n # ns)"
        using k(3,4,6,7) by (simp add: op_inv_def objects_ok_def out del: set_simps)
      then show ?thesis using Continue e by blast
    next
      case False
      have same: "flight (Some pc') = flight (Some pc)" "list_after pc r ns = ns"
        using run False Continue push by (cases pc; auto split: if_splits)+
      have "op_inv (s\<lparr>op_top := l\<rparr>, pcs(t := Some (InFree pc')), handed) ns"
        by (rule op_inv_loop [OF inv]) (use i Continue same wf pc in simp_all)
      then show ?thesis using Continue by blast
    qed
  next
    case Pushed
    have pa: "pc = PushAdd" using run Pushed push by (cases pc) (auto split: if_splits)
    have "op_inv (s\<lparr>op_top := l\<rparr>, pcs(t := None), handed) ns"
      by (rule op_inv_loop [OF inv]) (use i Pushed pa pc in simp_all)
    then show ?thesis using Pushed by simp
  qed (use r in auto)
qed

lemma op_new_node_ok:
  assumes inv: "op_inv (s, pcs, handed) ns" and pc: "pcs t = Some (AllocNew v)" and n: "n \<notin> op_live s"
  shows "op_inv (op_allocNode n (Some (v n)) None s, pcs(t := None), insert n handed) ns"
proof -
  note k = op_invD [OF inv]
  have new: "n \<notin> handed" "n \<notin> op_out pcs" using live_node [OF inv, of n] n by blast+
  have L: "op_loops (pcs(t := None)) = op_loops pcs" by (rule loops_by_same) (use pc in simp)
  have out: "op_out (pcs(t := None)) = op_out pcs" by (rule out_same [OF k(2)]) (use pc in simp_all)
  have "ts_inv (op_top (op_allocNode n (Some (v n)) None s)) (op_loops pcs) (insert n (handed \<union> op_out pcs)) (insert n (op_live s)) ns"
    using inv_write [OF inv_alloc [OF k(1) n], of n None] by (simp add: op_allocNode_def)
  moreover have "object_at (pcs(t := None)) (insert n handed) m \<longleftrightarrow> m = n \<or> object_at pcs handed m" for m
    using object_at_upd [of pcs t m None handed] pc by (auto simp: object_at_def)
  moreover have "one_holder_by op_held (pcs(t := None))" by (rule one_holder_by_upd [OF k(2)]) simp
  ultimately show ?thesis
    using k(3-7) new by (auto simp: op_inv_def objects_ok_def out L op_allocNode_def simp del: loops_by_upd)
qed

lemma op_construct_ok:
  assumes inv: "op_inv (s, pcs, handed) ns" and pc: "pcs t = Some (AllocConstruct v n)"
  shows "n \<notin> handed"
    "op_inv (if op_mbPlacementNew s then s\<lparr>op_data := (op_data s)(n := Some (v n))\<rparr> else s, pcs(t := None), insert n handed) ns"
proof -
  let ?s = "if op_mbPlacementNew s then s\<lparr>op_data := (op_data s)(n := Some (v n))\<rparr> else s"
  let ?pcs = "pcs(t := None)"
  note k = op_invD [OF inv]
  have n: "n \<in> op_out pcs" by (rule held_out [of _ _ _ t]) (use pc in simp)
  then show nh: "n \<notin> handed" using k(3) by blast
  have L: "op_loops ?pcs = op_loops pcs" by (rule loops_by_same) (use pc in simp)
  have out: "op_out ?pcs = op_out pcs - {n}" using out_by_upd [OF k(2), of t None] pc by simp
  have same: "insert n handed \<union> op_out ?pcs = handed \<union> op_out pcs" using n out by blast
  have mem: "op_top ?s = op_top s" "op_live ?s = op_live s" "op_checksum ?s = op_checksum s"
    "op_mbPlacementNew ?s = op_mbPlacementNew s" by simp_all
  show "op_inv (?s, ?pcs, insert n handed) ns"
  proof (rule op_invI)
    show "one_holder_by op_held ?pcs" by (rule one_holder_by_upd [OF k(2)]) simp
    show "insert n handed \<inter> op_out ?pcs = {}" using k(3) out by blast
    show "op_live ?s \<subseteq> set ns \<union> insert n handed \<union> op_out ?pcs \<union> {n. \<exists>t. flight (op_loops ?pcs t) = Some n}"
      unfolding L mem using k(5) same by blast
    show "op_pc_wf (?pcs u)" for u using k(4) [of u] by simp
    show "op_data ?s m = None \<longleftrightarrow> op_mbPlacementNew ?s \<and> \<not> object_at ?pcs (insert n handed) m" if "m \<in> op_live ?s" for m
    proof (cases "m = n")
      case True
      have "object_at ?pcs (insert n handed) n" by (simp add: object_at_def)
      moreover have "op_data ?s n \<noteq> None" using k(7) [of n] that True by auto
      ultimately show ?thesis using True by simp
    next
      case False
      then have "object_at ?pcs (insert n handed) m \<longleftrightarrow> object_at pcs handed m"
        using object_at_upd [of pcs t m None handed] pc by (auto simp: object_at_def)
      then show ?thesis using k(7) [of m] that False by (auto split: if_splits)
    qed
  qed (use k(1,5,6) same L mem in simp_all)
qed

lemma op_free_check_ok:
  assumes inv: "op_inv (s, pcs, handed) ns" and pc: "pcs t = Some (FreeCheck (Some n))"
  shows "op_checksum s n = op_CHECKSUM_CODE"
    "op_inv (if op_mbPlacementNew s then s\<lparr>op_data := (op_data s)(n := None)\<rparr> else s,
       pcs(t := Some (InFree (PushLoad n))), handed) ns"
proof -
  let ?s = "if op_mbPlacementNew s then s\<lparr>op_data := (op_data s)(n := None)\<rparr> else s"
  let ?pcs = "pcs(t := Some (InFree (PushLoad n)))"
  note k = op_invD [OF inv]
  have n: "n \<in> op_out pcs" by (rule held_out [of _ _ _ t]) (use pc in simp)
  have live: "n \<in> op_live s" using live_node [OF inv] n by blast
  then show "op_checksum s n = op_CHECKSUM_CODE" by (rule k(6))
  have nh: "n \<notin> handed" using k(3) n by blast
  have L: "op_loops pcs t = None" using pc by (simp add: loops_by_def)
  have out: "op_out ?pcs = op_out pcs - {n}" using out_by_upd [OF k(2), of t "Some (InFree (PushLoad n))"] pc by simp
  have other: "pcs u \<noteq> Some (FreeCheck (Some n))" if "u \<noteq> t" for u
  proof
    assume "pcs u = Some (FreeCheck (Some n))"
    then have "op_held (pcs u) \<inter> op_held (pcs t) = {n}" using pc by simp
    then show False using k(2) that unfolding one_holder_by_def by (metis insert_not_empty)
  qed
  have "ts_inv (op_top s) ((op_loops pcs)(t := Some (PushLoad n))) (handed \<union> op_out pcs - {n}) (op_live s) ns"
    by (rule inv_begin_push [OF k(1) L]) (use n in simp)
  moreover have "handed \<union> op_out pcs - {n} = handed \<union> op_out ?pcs" using nh out by blast
  ultimately have ts: "ts_inv (op_top s) (op_loops ?pcs) (handed \<union> op_out ?pcs) (op_live s) ns" by simp
  have mem: "op_top ?s = op_top s" "op_live ?s = op_live s" "op_checksum ?s = op_checksum s"
    "op_mbPlacementNew ?s = op_mbPlacementNew s" by simp_all
  show "op_inv (?s, ?pcs, handed) ns"
  proof (rule op_invI)
    show "one_holder_by op_held ?pcs" by (rule one_holder_by_upd [OF k(2)]) simp
    show "handed \<inter> op_out ?pcs = {}" using k(3) out by blast
    show "op_pc_wf (?pcs u)" for u using k(4) [of u] by simp
    show "op_live ?s \<subseteq> set ns \<union> handed \<union> op_out ?pcs \<union> {n. \<exists>t. flight (op_loops ?pcs t) = Some n}"
    proof
      fix m assume "m \<in> op_live ?s"
      then have m: "m \<in> op_live s" by (simp split: if_splits)
      have t: "flight (op_loops ?pcs t) = Some n" by simp
      have "flight (op_loops ?pcs u) = Some q" if "flight (op_loops pcs u) = Some q" for u q
        using that L by (cases "u = t") simp_all
      then show "m \<in> set ns \<union> handed \<union> op_out ?pcs \<union> {n. \<exists>t. flight (op_loops ?pcs t) = Some n}"
        using subsetD [OF k(5) m] t out by blast
    qed
    show "op_data ?s m = None \<longleftrightarrow> op_mbPlacementNew ?s \<and> \<not> object_at ?pcs handed m" if "m \<in> op_live ?s" for m
    proof (cases "m = n")
      case True
      have "\<not> object_at ?pcs handed n" using nh other by (auto simp: object_at_def)
      moreover have "object_at pcs handed n" using pc by (auto simp: object_at_def)
      ultimately show ?thesis using True k(7) [OF live] by auto
    next
      case False
      then have "object_at ?pcs handed m \<longleftrightarrow> object_at pcs handed m"
        by (intro object_at_upd) (use pc in simp)
      then show ?thesis using k(7) [of m] that False by (auto split: if_splits)
    qed
  qed (use k(1,5,6) ts mem in simp_all)
qed

lemma op_call_free_ok:
  assumes inv: "op_inv (s, pcs, handed) ns" and pc: "pcs t = None" and n: "n \<in> handed"
  shows "op_inv (s, pcs(t := Some (FreeCheck (Some n))), handed - {n}) ns"
proof -
  let ?pcs = "pcs(t := Some (FreeCheck (Some n)))"
  note k = op_invD [OF inv]
  have L: "op_loops ?pcs = op_loops pcs" by (rule loops_by_same) (use pc in simp)
  have no: "n \<notin> op_out pcs" using k(3) n by blast
  have out: "op_out ?pcs = insert n (op_out pcs)" using out_by_upd [OF k(2), of t "Some (FreeCheck (Some n))"] pc by simp
  have same: "handed - {n} \<union> op_out ?pcs = handed \<union> op_out pcs" unfolding out using n by blast
  show ?thesis
  proof (rule op_invI)
    show "one_holder_by op_held ?pcs" by (rule one_holder_by_upd [OF k(2)]) (use no in simp)
    show "(handed - {n}) \<inter> op_out ?pcs = {}" unfolding out using k(3) no by blast
    show "op_pc_wf (?pcs u)" for u using k(4) [of u] by simp
    show "op_live s \<subseteq> set ns \<union> (handed - {n}) \<union> op_out ?pcs \<union> {n. \<exists>t. flight (op_loops ?pcs t) = Some n}"
      unfolding L out using k(5) n by blast
    show "op_data s m = None \<longleftrightarrow> op_mbPlacementNew s \<and> \<not> object_at ?pcs (handed - {n}) m" if "m \<in> op_live s" for m
    proof -
      have "object_at ?pcs (handed - {n}) m \<longleftrightarrow> object_at pcs handed m"
      proof (cases "m = n")
        case False
        then have "object_at ?pcs (handed - {n}) m \<longleftrightarrow> object_at pcs (handed - {n}) m"
          by (intro object_at_upd) (use pc in simp)
        then show ?thesis using False by (simp add: object_at_def)
      qed (use n in \<open>auto simp: object_at_def\<close>)
      then show ?thesis using k(7) [OF that] by simp
    qed
  qed (use k(1,6) in \<open>simp_all only: L same\<close>)
qed

lemma op_call_ok:
  assumes inv: "op_inv (s, pcs, handed) ns" and pc: "pcs t = None"
  shows "op_inv (s, pcs(t := Some (InAlloc v PopSub)), handed) ns" "op_inv (s, pcs(t := Some (FreeCheck None)), handed) ns"
proof -
  note k = op_invD [OF inv]
  have L: "op_loops pcs t = None" using pc by (simp add: loops_by_def)
  have "op_inv (s\<lparr>op_top := op_top s\<rparr>, pcs(t := Some (InAlloc v PopSub)), handed) ns"
    by (rule op_inv_loop [OF inv]) (use inv_begin_pop [OF k(1) L] pc in simp_all)
  then show "op_inv (s, pcs(t := Some (InAlloc v PopSub)), handed) ns" by simp
  have "op_loops (pcs(t := Some (FreeCheck None))) = op_loops pcs" by (rule loops_by_same) (use pc in simp)
  then have "op_inv (s\<lparr>op_top := op_top s\<rparr>, pcs(t := Some (FreeCheck None)), handed) ns"
    by (intro op_inv_loop [OF inv]) (use k(1) pc in \<open>simp_all del: loops_by_upd\<close>)
  then show "op_inv (s, pcs(t := Some (FreeCheck None)), handed) ns" by simp
qed

lemma op_data_write_ok:
  assumes inv: "op_inv (s, pcs, handed) ns" and n: "n \<in> handed"
  shows "op_inv (s\<lparr>op_data := (op_data s)(n := Some v)\<rparr>, pcs, handed) ns"
  using op_invD [OF inv] n by (intro op_invI) (auto simp: object_at_def)

lemma op_reuse_ok:
  assumes inv: "op_inv (s, pcs, handed) ns" and n: "n \<notin> op_live s"
  shows "op_inv (s\<lparr>op_data := (op_data s)(n := v), op_checksum := (op_checksum s)(n := c),
      op_top := op_top s\<lparr>ts_next := (ts_next (op_top s))(n := x)\<rparr>\<rparr>, pcs, handed) ns"
proof -
  note k = op_invD [OF inv]
  show ?thesis
  proof (rule op_invI)
    show "one_holder_by op_held pcs" "handed \<inter> op_out pcs = {}" by (rule k)+
    show "op_pc_wf (pcs t)" for t by (rule k)
  qed (use k(1,5-7) n inv_write [OF k(1), of n x] in auto)
qed

text \<open>The result of a thread's next step, whatever it is, keeps the invariant.\<close>

lemma op_thread_step_ok:
  assumes inv: "op_inv (s, pcs, handed) ns" and pc: "pcs t = Some pc"
    and fresh: "\<forall>n. fresh = Some n \<longrightarrow> n \<notin> op_live s" and run: "op_thread_step b fresh pc s = (x, s')"
  shows "case x of
      Goto pc' \<Rightarrow> \<exists>ns'. op_inv (s', pcs(t := Some pc'), handed) ns'
    | AllocReturn n \<Rightarrow> n \<notin> handed \<and> op_inv (s', pcs(t := None), insert n handed) ns
    | FreeReturn \<Rightarrow> op_inv (s', pcs(t := None), handed) ns
    | Fault \<Rightarrow> fresh = None \<and> (\<exists>v. pc = AllocNew v)"
proof (cases pc)
  case (InAlloc v lpc)
  obtain r l where "pop_step b lpc (op_top s) = (r, l)" by fastforce
  then show ?thesis using op_alloc_loop_ok [OF inv, of t v lpc b r l] pc run InAlloc by (auto simp: op_thread_step_def)
next
  case (AllocNew v)
  then show ?thesis using op_new_node_ok [OF inv, of t v] live_node [OF inv] pc fresh run
    by (fastforce simp: op_thread_step_def split: option.splits)
next
  case (AllocConstruct v n)
  then show ?thesis using op_construct_ok [OF inv, of t v n] pc run by (auto simp: op_thread_step_def)
next
  case (FreeCheck p)
  show ?thesis
  proof (cases p)
    case None
    have "op_loops (pcs(t := None)) = op_loops pcs" by (rule loops_by_same) (use pc FreeCheck None in simp)
    then have "op_inv (s\<lparr>op_top := op_top s\<rparr>, pcs(t := None), handed) ns"
      by (intro op_inv_loop [OF inv]) (use op_invD(1) [OF inv] pc FreeCheck None in \<open>simp_all del: loops_by_upd\<close>)
    then show ?thesis using run FreeCheck None by (simp add: op_thread_step_def)
  next
    case (Some n)
    note f = op_free_check_ok [OF inv, of t n]
    have x: "x = Goto (InFree (PushLoad n))" and s': "s' = (if op_mbPlacementNew s then s\<lparr>op_data := (op_data s)(n := None)\<rparr> else s)"
      using run FreeCheck Some f(1) pc by (simp_all add: op_thread_step_def)
    have "\<exists>ns'. op_inv (s', pcs(t := Some (InFree (PushLoad n))), handed) ns'"
      unfolding s' by (rule exI, rule f(2)) (use pc FreeCheck Some in simp)
    then show ?thesis using x by simp
  qed
next
  case (InFree lpc)
  obtain r l where "push_step b lpc (op_top s) = (r, l)" by fastforce
  then show ?thesis using op_free_loop_ok [OF inv, of t lpc b r l] pc run InFree by (auto simp: op_thread_step_def)
qed

lemma op_step_ok: "op_step c c' \<Longrightarrow> op_inv c ns \<Longrightarrow> \<exists>ns'. op_inv c' ns'"
proof (induction rule: op_step.induct)
  case (call_alloc pcs t s handed v)
  then show ?case using op_call_ok(1) [OF call_alloc(2,1)] by (intro exI)
next
  case (call_free pcs t n handed s)
  then show ?case using op_call_free_ok [OF call_free(3,1,2)] by (intro exI)
next
  case (call_free_null pcs t s handed)
  then show ?case using op_call_ok(2) [OF call_free_null(2,1)] by (intro exI)
next
  case (run pcs t pc fresh s b pc' s' handed)
  then show ?case using op_thread_step_ok [OF run(4,1,2,3)] by auto
next
  case (alloc_returns pcs t pc fresh s b n s' handed)
  then show ?case using op_thread_step_ok [OF alloc_returns(4,1,2,3)] by auto
next
  case (free_returns pcs t pc fresh s b s' handed)
  then show ?case using op_thread_step_ok [OF free_returns(4,1,2,3)] by auto
next
  case (assigned n handed s pcs v)
  then show ?case using op_data_write_ok [OF assigned(2,1)] by (intro exI)
next
  case (reuse n s pcs handed v c x)
  then show ?case using op_reuse_ok [OF reuse(2,1)] by (intro exI)
qed

subsection \<open>Properties of the pool\<close>

lemma op_fill_path:
  assumes "path (ts_next (op_top s)) (ts_pNode (op_top s)) ns" "distinct (rev as @ ns)"
  shows "path (ts_next (op_top (op_fill d as s))) (ts_pNode (op_top (op_fill d as s))) (rev as @ ns) \<and>
    ts_size (op_top (op_fill d as s)) = ts_size (op_top s) \<and> op_mbPlacementNew (op_fill d as s) = op_mbPlacementNew s"
  using assms
proof (induction as arbitrary: s ns)
  case (Cons n as)
  let ?s1 = "op_allocNode n (if \<not> op_mbPlacementNew s then Some (d n) else None) (ts_pNode (op_top s)) s"
  let ?s2 = "?s1\<lparr>op_top := op_top ?s1\<lparr>ts_pNode := Some n\<rparr>\<rparr>"
  have "path (ts_next (op_top ?s2)) (ts_pNode (op_top ?s2)) (n # ns)"
    using Cons.prems by (simp add: op_allocNode_def)
  then have ih: "path (ts_next (op_top (op_fill d as ?s2))) (ts_pNode (op_top (op_fill d as ?s2))) (rev as @ n # ns) \<and>
      ts_size (op_top (op_fill d as ?s2)) = ts_size (op_top ?s2) \<and>
      op_mbPlacementNew (op_fill d as ?s2) = op_mbPlacementNew ?s2"
    by (rule Cons.IH) (use Cons.prems in simp)
  have "op_fill d (n # as) s = op_fill d as ?s2" by (simp add: Let_def)
  moreover have "ts_size (op_top ?s2) = ts_size (op_top s)" "op_mbPlacementNew ?s2 = op_mbPlacementNew s"
    by (simp_all add: op_allocNode_def)
  ultimately show ?case using ih by (simp only: rev.simps append.assoc append_Cons append_Nil simp_thms)
qed simp

lemma op_fill_nodes:
  "op_live (op_fill d as s) = set as \<union> op_live s \<and>
   (\<forall>n. op_checksum (op_fill d as s) n = (if n \<in> set as then op_CHECKSUM_CODE else op_checksum s n)) \<and>
   (\<forall>n. op_data (op_fill d as s) n =
      (if n \<in> set as then if \<not> op_mbPlacementNew s then Some (d n) else None else op_data s n))"
  by (induction d as s rule: op_fill.induct) (auto simp: op_allocNode_def Let_def)

lemma op_new_inv:
  assumes "distinct addrs" "int (length addrs) = poolingCount"
  shows "op_inv (op_new pl poolingCount addrs d nxt sums, \<lambda>_. None, {}) (rev addrs)"
proof -
  define s where "s = op_new pl poolingCount addrs d nxt sums"
  have none: "op_loops (\<lambda>_. None :: 'a op_pc option) = (\<lambda>_. None)" "op_out (\<lambda>_. None :: 'a op_pc option) = {}"
    by (auto simp: loops_by_def out_by_def)
  have len: "take (nat poolingCount) addrs = addrs" using assms(2) by simp
  have mem: "path (ts_next (op_top s)) (ts_pNode (op_top s)) (rev addrs)" "ts_size (op_top s) = poolingCount"
    "op_mbPlacementNew s = pl" "op_live s = set addrs" "\<And>n. n \<in> set addrs \<Longrightarrow> op_checksum s n = op_CHECKSUM_CODE"
    "\<And>n. n \<in> set addrs \<Longrightarrow> op_data s n = (if \<not> pl then Some (d n) else None)"
    using assms op_fill_path [of "\<lparr>op_mbPlacementNew = pl, op_top = \<lparr>ts_pNode = None, ts_count = 0, ts_next = nxt,
        ts_size = poolingCount\<rparr>, op_data = (\<lambda>_. None), op_checksum = sums, op_live = {}\<rparr>" "[]" addrs d]
    by (simp_all add: s_def op_new_def len op_fill_nodes)
  have "ts_inv (op_top s) (\<lambda>_. None) {} (set addrs) (rev addrs)"
    using mem(1,2) assms by (simp add: ts_inv_def nodes_ok_def flights_distinct_def size_ok_def finite_loops_def)
  then show ?thesis unfolding s_def [symmetric]
    by (intro op_invI) (use mem in \<open>simp_all add: none one_holder_by_def object_at_def\<close>)
qed

lemma op_steps_ok: "op_step\<^sup>*\<^sup>* c c' \<Longrightarrow> op_inv c ns \<Longrightarrow> \<exists>ns'. op_inv c' ns'"
  by (induction rule: rtranclp_induct) (auto dest: op_step_ok)

text \<open>A concrete run: thread 0 allocates from an empty pool and is about to call \<open>mi_malloc\<close>.\<close>

definition demo_pool :: "nat ObjectPool" where
  "demo_pool = op_new True 0 [] (\<lambda>_. 0) (\<lambda>_. None) (\<lambda>_. 0)"

lemma demo_pool_size: "ts_size (op_top demo_pool) = 0" "op_live demo_pool = {}"
  by (simp_all add: demo_pool_def op_new_def)

lemma demo_alloc: "op_step\<^sup>*\<^sup>* (demo_pool, \<lambda>_. None, {}) (demo_pool, (\<lambda>_. None)(0 := Some (AllocNew (\<lambda>_. 9))), {})"
proof -
  let ?at = "\<lambda>pc. (\<lambda>_. None)(0 := Some pc) :: nat \<Rightarrow> nat op_pc option"
  let ?s = "demo_pool\<lparr>op_top := op_top demo_pool\<lparr>ts_size := - 1\<rparr>\<rparr>"
  have "op_step (demo_pool, \<lambda>_. None, {}) (demo_pool, ?at (InAlloc (\<lambda>_. 9) PopSub), {})" by (rule op_step.call_alloc) simp
  moreover have "op_step (demo_pool, ?at (InAlloc (\<lambda>_. 9) PopSub), {}) (?s, ?at (InAlloc (\<lambda>_. 9) PopUndo), {})"
    using op_step.run [of "?at (InAlloc (\<lambda>_. 9) PopSub)" 0 "InAlloc (\<lambda>_. 9) PopSub" None demo_pool False "InAlloc (\<lambda>_. 9) PopUndo" ?s "{}"]
    by (simp add: op_thread_step_def demo_pool_size)
  moreover have "op_step (?s, ?at (InAlloc (\<lambda>_. 9) PopUndo), {}) (demo_pool, ?at (AllocNew (\<lambda>_. 9)), {})"
    using op_step.run [of "?at (InAlloc (\<lambda>_. 9) PopUndo)" 0 "InAlloc (\<lambda>_. 9) PopUndo" None ?s False "AllocNew (\<lambda>_. 9)" demo_pool "{}"] demo_pool_size(1)
    by (simp add: op_thread_step_def)
  ultimately show ?thesis by (meson converse_rtranclp_into_rtranclp rtranclp.rtrancl_refl)
qed

text \<open>C28: Whatever the interleaving of Alloc and Free, an allocation never returns an object that another client
  still holds, the object it returns is constructed and carries the checksum, and the only way it can go
  wrong is that mi_malloc returns null.\<close>

theorem alloc_returns_a_free_object:
  assumes "op_step\<^sup>*\<^sup>* (op_new pl (int (length addrs)) addrs d nxt sums, \<lambda>_. None, {}) (s, pcs, handed)" "distinct addrs"
    and "pcs t = Some pc" "\<forall>n. fresh = Some n \<longrightarrow> n \<notin> op_live s" "op_thread_step b fresh pc s = (x, s')"
  shows "(\<forall>n. x = AllocReturn n \<longrightarrow> n \<notin> handed \<and> op_data s' n \<noteq> None \<and> op_checksum s' n = op_CHECKSUM_CODE) \<and>
    (x = Fault \<longrightarrow> fresh = None)"
proof -
  obtain ns where ns: "op_inv (s, pcs, handed) ns"
    using op_steps_ok [OF assms(1) op_new_inv [OF assms(2) refl]] by blast
  note r = op_thread_step_ok [OF ns assms(3-5)]
  have "op_data s' n \<noteq> None \<and> op_checksum s' n = op_CHECKSUM_CODE" if "x = AllocReturn n" for n
  proof -
    have inv: "op_inv (s', pcs(t := None), insert n handed) ns" using r that by simp
    have "n \<in> op_live s'" by (rule live_node [OF inv]) simp
    then show ?thesis using op_invD(6,7) [OF inv, of n] by (simp add: object_at_def)
  qed
  then show ?thesis using r by auto
qed

lemma alloc_returns_a_free_object_witness:
  "\<exists>s'. op_thread_step False (Some 3) (AllocNew (\<lambda>_. 9)) demo_pool = (AllocReturn 3, s') \<and> op_data s' 3 \<noteq> None"
proof -
  obtain s' where r: "op_thread_step False (Some 3) (AllocNew (\<lambda>_. 9)) demo_pool = (AllocReturn 3, s')"
    by (simp add: op_thread_step_def)
  show ?thesis
    using alloc_returns_a_free_object [of True "[]" "\<lambda>_. 0" "\<lambda>_. None" "\<lambda>_. 0" demo_pool "(\<lambda>_. None)(0 := Some (AllocNew (\<lambda>_. 9)))" "{}"
        0 "AllocNew (\<lambda>_. 9)" "Some 3" False "AllocReturn 3" s'] demo_alloc r
    by (auto simp: demo_pool_size demo_pool_def [symmetric])
qed

text \<open>The destructor of a pool that no thread is using.\<close>

lemma op_destroy_path:
  "path (ts_next (op_top s)) p ns \<Longrightarrow> distinct ns \<Longrightarrow> set ns \<subseteq> op_live s \<Longrightarrow>
   \<exists>s'. op_destroy_loop p s = Some (Some s') \<and> op_live s' = op_live s - set ns \<and>
     op_PoolingCount s' = op_PoolingCount s - int (length ns)"
proof (induction ns arbitrary: p s)
  case Nil
  then show ?case by (subst op_destroy_loop.simps) simp
next
  case (Cons n ns)
  let ?s = "s\<lparr>op_data := (if \<not> op_mbPlacementNew s then (op_data s)(n := None) else op_data s),
    op_live := op_live s - {n}, op_top := op_top s\<lparr>ts_size := ts_size (op_top s) - 1\<rparr>\<rparr>"
  have "\<exists>s'. op_destroy_loop (ts_next (op_top s) n) ?s = Some (Some s') \<and> op_live s' = op_live ?s - set ns \<and>
     op_PoolingCount s' = op_PoolingCount ?s - int (length ns)"
    using Cons.prems by (intro Cons.IH) auto
  then show ?case using Cons.prems by (subst op_destroy_loop.simps) (auto simp: op_PoolingCount_def)
qed

text \<open>The leak check of the destructor cannot fire: when no thread is in an operation the destructor leaves the
  pooling count at zero, although the nodes of all the objects that clients still hold stay allocated.\<close>

theorem pool_leak_check_never_fires:
  assumes "op_step\<^sup>*\<^sup>* (op_new pl (int (length addrs)) addrs d nxt sums, \<lambda>_. None, {}) (s, \<lambda>_. None, handed)" "distinct addrs"
  shows "\<exists>s'. op_destroy s = Some (Some s') \<and> op_PoolingCount s' = 0 \<and> op_live s' = handed"
proof -
  obtain ns where ns: "op_inv (s, \<lambda>_. None, handed) ns"
    using op_steps_ok [OF assms(1) op_new_inv [OF assms(2) refl]] by blast
  note k = op_invD [OF ns]
  have none: "op_loops (\<lambda>_. None :: 'a op_pc option) = (\<lambda>_. None)" "op_out (\<lambda>_. None :: 'a op_pc option) = {}"
    by (auto simp: loops_by_def out_by_def)
  note t = ts_invD [OF k(1) [unfolded none]]
  have "op_live s - set ns = handed" using k(5) t(2) by (auto simp: none nodes_ok_def)
  moreover have "\<exists>s'. op_destroy s = Some (Some s') \<and> op_live s' = op_live s - set ns \<and>
      op_PoolingCount s' = op_PoolingCount s - int (length ns)"
    unfolding op_destroy_def by (rule op_destroy_path) (use t(1,2) in \<open>auto simp: nodes_ok_def\<close>)
  moreover have "op_PoolingCount s = int (length ns)" using t(3) by (simp add: size_ok_def op_PoolingCount_def)
  ultimately show ?thesis by auto
qed

lemma pool_leak_check_never_fires_witness:
  "\<exists>s s'. op_step\<^sup>*\<^sup>* (demo_pool, \<lambda>_. None, {}) (s, \<lambda>_. None, {3}) \<and> op_destroy s = Some (Some s') \<and>
     op_PoolingCount s' = 0 \<and> op_live s' = {3}"
proof -
  obtain s where r: "op_thread_step False (Some 3) (AllocNew (\<lambda>_. 9)) demo_pool = (AllocReturn 3, s)"
    by (simp add: op_thread_step_def)
  have empty: "((\<lambda>_. None)(0 := Some (AllocNew (\<lambda>_. 9))))(0 := None) = (\<lambda>_. None :: nat op_pc option)" by (rule ext) simp
  have "op_step (demo_pool, (\<lambda>_. None)(0 := Some (AllocNew (\<lambda>_. 9))), {}) (s, ((\<lambda>_. None)(0 := Some (AllocNew (\<lambda>_. 9))))(0 := None), insert 3 {})"
    by (rule op_step.alloc_returns [OF _ _ r]) (simp_all add: demo_pool_size)
  then have run: "op_step\<^sup>*\<^sup>* (demo_pool, \<lambda>_. None, {}) (s, \<lambda>_. None, {3})"
    using rtranclp.rtrancl_into_rtrancl [OF demo_alloc] by (simp only: empty)
  then show ?thesis using pool_leak_check_never_fires [of True "[]" "\<lambda>_. 0" "\<lambda>_. None" "\<lambda>_. 0" s "{3}"]
    by (auto simp: demo_pool_def)
qed

end
