(* ===== verification/Memory_Pools.thy ===== *)
theory Memory_Pools
  imports Object_Pool
begin

text \<open>
  MemoryPool (MemoryPool.h) and TlsObjectPool with ObjectAllocator (ObjectPool.h, ObjectAllocator.h):
  blocks are handed out from chunks, each thread takes the blocks of its own chunk, and the thread
  that frees the last block of a chunk returns it to the ObjectPool. A block is the address of its
  chunk and its index. An operation runs without interference here: what it changes is private to
  the thread, or an atomic counter, or the ObjectPool, whose interleavings are verified in
  \<open>Object_Pool\<close>.
\<close>

subsection \<open>One call of the ObjectPool\<close>

fun op_run :: "nat \<Rightarrow> nat option \<Rightarrow> 'a op_pc \<Rightarrow> 'a ObjectPool \<Rightarrow> 'a op_next \<times> 'a ObjectPool" where
  "op_run 0 fresh pc s = (Goto pc, s)"
| "op_run (Suc k) fresh pc s =
     (case op_thread_step False fresh pc s of
        (Goto pc', s') \<Rightarrow> op_run k fresh pc' s'
      | r \<Rightarrow> r)"

definition op_Alloc :: "(nat \<Rightarrow> 'a) \<Rightarrow> nat option \<Rightarrow> 'a ObjectPool \<Rightarrow> (nat \<times> 'a ObjectPool) option" where
  "op_Alloc v fresh s =
     (case op_run 6 fresh (InAlloc v PopSub) s of (AllocReturn n, s') \<Rightarrow> Some (n, s') | _ \<Rightarrow> None)"

definition op_Free :: "nat option \<Rightarrow> 'a ObjectPool \<Rightarrow> 'a ObjectPool option" where
  "op_Free p s = (case op_run 5 None (FreeCheck p) s of (FreeReturn, s') \<Rightarrow> Some s' | _ \<Rightarrow> None)"

text \<open>The invariant of the pool between two calls.\<close>

definition pool_ok :: "'a ObjectPool \<Rightarrow> nat list \<Rightarrow> nat set \<Rightarrow> bool" where
  "pool_ok s ns handed \<longleftrightarrow>
     path (ts_next (op_top s)) (ts_pNode (op_top s)) ns \<and> distinct ns \<and> set ns \<inter> handed = {} \<and>
     op_live s = set ns \<union> handed \<and> ts_size (op_top s) = int (length ns) \<and>
     (\<forall>n \<in> op_live s. op_checksum s n = op_CHECKSUM_CODE \<and> (op_data s n = None \<longleftrightarrow> op_mbPlacementNew s \<and> n \<notin> handed))"

lemma pool_ok_is_op_inv: "op_inv (s, \<lambda>_. None, handed) ns \<longleftrightarrow> pool_ok s ns handed"
proof -
  have none: "op_loops (\<lambda>_. None :: 'a op_pc option) = (\<lambda>_. None)" "op_out (\<lambda>_. None :: 'a op_pc option) = {}"
    by (auto simp: loops_by_def out_by_def)
  show ?thesis
    by (auto simp: op_inv_def pool_ok_def none one_holder_by_def objects_ok_def object_at_def ts_inv_def nodes_ok_def
        flights_distinct_def size_ok_def finite_loops_def)
qed

lemma op_Alloc_new:
  assumes "pool_ok s [] handed" "n \<notin> op_live s"
  shows "op_Alloc v (Some n) s = Some (n, op_allocNode n (Some (v n)) None s)"
    "pool_ok (op_allocNode n (Some (v n)) None s) [] (insert n handed)"
proof -
  have size: "ts_size (op_top s) = 0" using assms by (simp add: pool_ok_def)
  then have same: "s\<lparr>op_top := op_top s\<lparr>ts_size := 0\<rparr>\<rparr> = s" by (cases s; cases "op_top s") simp
  show "op_Alloc v (Some n) s = Some (n, op_allocNode n (Some (v n)) None s)"
    by (simp add: op_Alloc_def eval_nat_numeral op_thread_step_def size same)
  show "pool_ok (op_allocNode n (Some (v n)) None s) [] (insert n handed)"
    using assms by (auto simp: pool_ok_def op_allocNode_def)
qed

lemma op_Alloc_pooled:
  assumes "pool_ok s (n # ns) handed" "\<not> op_mbPlacementNew s"
  defines "s' \<equiv> s\<lparr>op_top := op_top s\<lparr>ts_pNode := ts_next (op_top s) n, ts_count := ts_count (op_top s) + 1,
    ts_size := ts_size (op_top s) - 1\<rparr>\<rparr>"
  shows "op_Alloc v fresh s = Some (n, s')" "pool_ok s' ns (insert n handed)"
proof -
  have "ts_size (op_top s) = int (length ns) + 1" "ts_pNode (op_top s) = Some n" using assms(1) by (simp_all add: pool_ok_def)
  then show "op_Alloc v fresh s = Some (n, s')"
    using assms(2) by (simp add: op_Alloc_def eval_nat_numeral op_thread_step_def s'_def)
  show "pool_ok s' ns (insert n handed)" using assms by (auto simp: pool_ok_def)
qed

lemma op_Free_ok:
  assumes "pool_ok s ns handed" "n \<in> handed" "\<not> op_mbPlacementNew s"
  defines "s' \<equiv> s\<lparr>op_top := op_top s\<lparr>ts_next := (ts_next (op_top s))(n := ts_pNode (op_top s)),
    ts_pNode := Some n, ts_size := ts_size (op_top s) + 1\<rparr>\<rparr>"
  shows "op_Free (Some n) s = Some s'" "pool_ok s' (n # ns) (handed - {n})"
proof -
  have n: "op_checksum s n = op_CHECKSUM_CODE" "n \<notin> set ns" using assms(1,2) by (auto simp: pool_ok_def)
  show "op_Free (Some n) s = Some s'"
    using n(1) assms(3) by (simp add: op_Free_def eval_nat_numeral op_thread_step_def s'_def)
  show "pool_ok s' (n # ns) (handed - {n})" using assms n(2) by (auto simp: pool_ok_def)
qed

subsection \<open>Chunk\<close>

record ChunkData =
  cd_checksum :: uint64
  cd_pChunk :: nat

record Chunk =
  ch_mAllocCount :: int
  ch_mFreeCount :: int
  ch_mChunkDataArray :: "ChunkData list"

definition ch_CHECKSUM_CODE :: uint64 where "ch_CHECKSUM_CODE = 0xDEADBEEFBEFFDEAD"

text \<open>\<open>CHUNK_SIZE\<close> is the template parameter, \<open>this\<close> the address of the chunk.\<close>

definition ch_new :: "nat \<Rightarrow> nat \<Rightarrow> Chunk" where
  "ch_new CHUNK_SIZE this =
     \<lparr>ch_mAllocCount = 0, ch_mFreeCount = 0,
      ch_mChunkDataArray = replicate CHUNK_SIZE \<lparr>cd_checksum = ch_CHECKSUM_CODE, cd_pChunk = this\<rparr>\<rparr>"

definition ch_GetData :: "nat \<Rightarrow> Chunk \<Rightarrow> nat option \<times> Chunk" where
  "ch_GetData CHUNK_SIZE c =
     (if ch_mAllocCount c \<ge> int CHUNK_SIZE then (None, c)
      else (Some (nat (ch_mAllocCount c)), c\<lparr>ch_mAllocCount := ch_mAllocCount c + 1\<rparr>))"

definition ch_IsDataEmpty :: "nat \<Rightarrow> Chunk \<Rightarrow> bool" where
  "ch_IsDataEmpty CHUNK_SIZE c \<longleftrightarrow> ch_mAllocCount c = int CHUNK_SIZE"

definition ch_FreeWithIsAllFreed :: "nat \<Rightarrow> Chunk \<Rightarrow> bool \<times> Chunk" where
  "ch_FreeWithIsAllFreed CHUNK_SIZE c =
     (ch_mFreeCount c = int CHUNK_SIZE - 1, c\<lparr>ch_mFreeCount := ch_mFreeCount c + 1\<rparr>)"

definition ch_ChunkReset :: "Chunk \<Rightarrow> Chunk" where
  "ch_ChunkReset c = c\<lparr>ch_mAllocCount := 0, ch_mFreeCount := 0\<rparr>"

definition ch_IsValidChecksum :: "ChunkData \<Rightarrow> bool" where
  "ch_IsValidChecksum d \<longleftrightarrow> cd_checksum d = ch_CHECKSUM_CODE"

lemmas ch_defs = ch_new_def ch_GetData_def ch_IsDataEmpty_def ch_FreeWithIsAllFreed_def ch_ChunkReset_def
  ch_IsValidChecksum_def

subsection \<open>MemoryPool\<close>

type_synonym block = "nat \<times> nat"

record MemoryPool =
  mp_mObjectPool :: "Chunk ObjectPool"
  mp_spTlsChunk :: "nat \<Rightarrow> nat option"

definition mp_new :: "(nat \<Rightarrow> nat option) \<Rightarrow> (nat \<Rightarrow> uint64) \<Rightarrow> MemoryPool" where
  "mp_new nxt sums = \<lparr>mp_mObjectPool = op_new False 0 [] (ch_new 0) nxt sums, mp_spTlsChunk = \<lambda>_. None\<rparr>"

text \<open>
  The fault values: \<open>mi_malloc\<close> returned null, an access to a chunk that is not constructed or to a
  block outside of its array.
\<close>

datatype pool_fault = OutOfMemory | BadChunk

definition mp_chunk :: "nat \<Rightarrow> 'z MemoryPool_scheme \<Rightarrow> Chunk option" where
  "mp_chunk n p = op_data (mp_mObjectPool p) n"

definition mp_set_chunk :: "nat \<Rightarrow> Chunk \<Rightarrow> 'z MemoryPool_scheme \<Rightarrow> 'z MemoryPool_scheme" where
  "mp_set_chunk n c p =
     p\<lparr>mp_mObjectPool := mp_mObjectPool p\<lparr>op_data := (op_data (mp_mObjectPool p))(n := Some c)\<rparr>\<rparr>"

text \<open>\<open>spTlsChunk = mObjectPool.Alloc()\<close> in thread \<open>t\<close>.\<close>

definition mp_take_chunk :: "nat \<Rightarrow> nat \<Rightarrow> nat option \<Rightarrow> 'z MemoryPool_scheme \<Rightarrow> pool_fault + 'z MemoryPool_scheme" where
  "mp_take_chunk CHUNK_SIZE t fresh p =
     (case op_Alloc (ch_new CHUNK_SIZE) fresh (mp_mObjectPool p) of
        None \<Rightarrow> Inl OutOfMemory
      | Some (n, pool) \<Rightarrow> Inr (p\<lparr>mp_mObjectPool := pool, mp_spTlsChunk := (mp_spTlsChunk p)(t := Some n)\<rparr>))"

text \<open>\<open>fresh1\<close> and \<open>fresh2\<close>: what \<open>mi_malloc\<close> returns in the first and in the second call of \<open>Alloc\<close>.\<close>

definition mp_Alloc :: "nat \<Rightarrow> nat \<Rightarrow> nat option \<Rightarrow> nat option \<Rightarrow> 'z MemoryPool_scheme
    \<Rightarrow> pool_fault + (block option \<times> 'z MemoryPool_scheme)" where
  "mp_Alloc CHUNK_SIZE t fresh1 fresh2 p =
     (case (case mp_spTlsChunk p t of None \<Rightarrow> mp_take_chunk CHUNK_SIZE t fresh1 p | Some n \<Rightarrow> Inr p) of
        Inl e \<Rightarrow> Inl e
      | Inr p1 \<Rightarrow>
          (let n = the (mp_spTlsChunk p1 t) in
           case mp_chunk n p1 of
             None \<Rightarrow> Inl BadChunk
           | Some c \<Rightarrow>
               (case ch_GetData CHUNK_SIZE c of
                  (pData, c') \<Rightarrow>
                    (let p2 = mp_set_chunk n c' p1 in
                     if pData \<noteq> None \<and> ch_IsDataEmpty CHUNK_SIZE c' then
                       (case mp_take_chunk CHUNK_SIZE t fresh2 p2 of
                          Inl e \<Rightarrow> Inl e
                        | Inr p3 \<Rightarrow> Inr (map_option (Pair n) pData, p3))
                     else Inr (map_option (Pair n) pData, p2)))))"

definition mp_Free :: "nat \<Rightarrow> block option \<Rightarrow> 'z MemoryPool_scheme \<Rightarrow> pool_fault + 'z MemoryPool_scheme" where
  "mp_Free CHUNK_SIZE pData p =
     (case pData of
        None \<Rightarrow> Inr p
      | Some (n, i) \<Rightarrow>
          (case mp_chunk n p of
             None \<Rightarrow> Inl BadChunk
           | Some c \<Rightarrow>
               if i \<ge> length (ch_mChunkDataArray c) then Inl BadChunk
               else if \<not> ch_IsValidChecksum (ch_mChunkDataArray c ! i) then Inr p
               else let pChunk = cd_pChunk (ch_mChunkDataArray c ! i) in
                 (case mp_chunk pChunk p of
                    None \<Rightarrow> Inl BadChunk
                  | Some c1 \<Rightarrow>
                      (case ch_FreeWithIsAllFreed CHUNK_SIZE c1 of
                         (allFreed, c2) \<Rightarrow>
                           if allFreed then
                             (let p1 = mp_set_chunk pChunk (ch_ChunkReset c2) p in
                              case op_Free (Some pChunk) (mp_mObjectPool p1) of
                                None \<Rightarrow> Inl BadChunk
                              | Some pool \<Rightarrow> Inr (p1\<lparr>mp_mObjectPool := pool\<rparr>))
                           else Inr (mp_set_chunk pChunk c2 p)))))"

definition mp_PoolingCount :: "'z MemoryPool_scheme \<Rightarrow> int" where
  "mp_PoolingCount p = op_PoolingCount (mp_mObjectPool p)"

subsection \<open>TlsObjectPool and ObjectAllocator\<close>

record TlsObjectPool = MemoryPool +
  tp_mAllocCount :: int

definition tp_new :: "(nat \<Rightarrow> nat option) \<Rightarrow> (nat \<Rightarrow> uint64) \<Rightarrow> TlsObjectPool" where
  "tp_new nxt sums = MemoryPool.extend (mp_new nxt sums) \<lparr>tp_mAllocCount = 0\<rparr>"

subsection \<open>The chunks of TlsObjectPool\<close>

text \<open>TlsObjectPool has a chunk class of its own; it does what the one of MemoryPool does.\<close>

definition tch_new :: "nat \<Rightarrow> nat \<Rightarrow> Chunk" where
  "tch_new CHUNK_SIZE this =
     \<lparr>ch_mAllocCount = 0, ch_mFreeCount = 0,
      ch_mChunkDataArray = map (\<lambda>i. \<lparr>cd_checksum = ch_CHECKSUM_CODE, cd_pChunk = this\<rparr>) [0..<CHUNK_SIZE]\<rparr>"

definition tch_GetData :: "nat \<Rightarrow> Chunk \<Rightarrow> nat option \<times> Chunk" where
  "tch_GetData CHUNK_SIZE c =
     (if ch_mAllocCount c \<ge> int CHUNK_SIZE then (None, c)
      else (let i = ch_mAllocCount c in (Some (nat i), c\<lparr>ch_mAllocCount := i + 1\<rparr>)))"

definition tch_IsDataEmpty :: "nat \<Rightarrow> Chunk \<Rightarrow> bool" where
  "tch_IsDataEmpty CHUNK_SIZE c \<longleftrightarrow> ch_mAllocCount c = int CHUNK_SIZE"

definition tch_FreeWithIsAllFreed :: "nat \<Rightarrow> Chunk \<Rightarrow> bool \<times> Chunk" where
  "tch_FreeWithIsAllFreed CHUNK_SIZE c =
     (let old = ch_mFreeCount c; c' = c\<lparr>ch_mFreeCount := old + 1\<rparr> in
      if old = int CHUNK_SIZE - 1 then (True, c') else (False, c'))"

definition tch_ChunkReset :: "Chunk \<Rightarrow> Chunk" where
  "tch_ChunkReset c = (let c1 = c\<lparr>ch_mAllocCount := 0\<rparr> in c1\<lparr>ch_mFreeCount := 0\<rparr>)"

definition tch_destroy :: "Chunk \<Rightarrow> Chunk" where
  "tch_destroy c = tch_ChunkReset c"

definition tch_IsValidChecksum :: "ChunkData \<Rightarrow> bool" where
  "tch_IsValidChecksum d \<longleftrightarrow> cd_checksum d = ch_CHECKSUM_CODE"

lemma chunk_classes_agree:
  "tch_new = ch_new" "tch_GetData = ch_GetData" "tch_IsDataEmpty = ch_IsDataEmpty"
  "tch_FreeWithIsAllFreed = ch_FreeWithIsAllFreed" "tch_ChunkReset = ch_ChunkReset" "tch_IsValidChecksum = ch_IsValidChecksum"
  by (auto simp: fun_eq_iff ch_defs tch_new_def tch_GetData_def tch_IsDataEmpty_def tch_FreeWithIsAllFreed_def
      tch_ChunkReset_def tch_IsValidChecksum_def Let_def map_replicate_const)

subsection \<open>The operations of TlsObjectPool\<close>

text \<open>\<open>spTlsChunk = mObjectPool.Alloc()\<close> in thread \<open>t\<close>.\<close>

definition tp_take_chunk :: "nat \<Rightarrow> nat \<Rightarrow> nat option \<Rightarrow> TlsObjectPool \<Rightarrow> pool_fault + TlsObjectPool" where
  "tp_take_chunk CHUNK_SIZE t fresh p =
     (case op_Alloc (tch_new CHUNK_SIZE) fresh (mp_mObjectPool p) of
        None \<Rightarrow> Inl OutOfMemory
      | Some (n, pool) \<Rightarrow> Inr (p\<lparr>mp_mObjectPool := pool, mp_spTlsChunk := (mp_spTlsChunk p)(t := Some n)\<rparr>))"

definition tp_Alloc :: "nat \<Rightarrow> nat \<Rightarrow> nat option \<Rightarrow> nat option \<Rightarrow> TlsObjectPool
    \<Rightarrow> pool_fault + (block option \<times> TlsObjectPool)" where
  "tp_Alloc CHUNK_SIZE t fresh1 fresh2 p0 =
     (let p = p0\<lparr>tp_mAllocCount := tp_mAllocCount p0 + 1\<rparr> in
      case (case mp_spTlsChunk p t of None \<Rightarrow> tp_take_chunk CHUNK_SIZE t fresh1 p | Some n \<Rightarrow> Inr p) of
        Inl e \<Rightarrow> Inl e
      | Inr p1 \<Rightarrow>
          (let n = the (mp_spTlsChunk p1 t) in
           case mp_chunk n p1 of
             None \<Rightarrow> Inl BadChunk
           | Some c \<Rightarrow>
               (case tch_GetData CHUNK_SIZE c of
                  (pData, c') \<Rightarrow>
                    (let p2 = mp_set_chunk n c' p1 in
                     if pData \<noteq> None \<and> tch_IsDataEmpty CHUNK_SIZE c' then
                       (case tp_take_chunk CHUNK_SIZE t fresh2 p2 of
                          Inl e \<Rightarrow> Inl e
                        | Inr p3 \<Rightarrow> Inr (map_option (Pair n) pData, p3))
                     else Inr (map_option (Pair n) pData, p2)))))"

definition tp_Free :: "nat \<Rightarrow> block option \<Rightarrow> TlsObjectPool \<Rightarrow> pool_fault + TlsObjectPool" where
  "tp_Free CHUNK_SIZE pData p =
     (case pData of
        None \<Rightarrow> Inr p
      | Some (n, i) \<Rightarrow>
          (case mp_chunk n p of
             None \<Rightarrow> Inl BadChunk
           | Some c \<Rightarrow>
               if i \<ge> length (ch_mChunkDataArray c) then Inl BadChunk
               else if \<not> tch_IsValidChecksum (ch_mChunkDataArray c ! i) then Inr p
               else let pChunk = cd_pChunk (ch_mChunkDataArray c ! i) in
                 (case mp_chunk pChunk p of
                    None \<Rightarrow> Inl BadChunk
                  | Some c1 \<Rightarrow>
                      (case tch_FreeWithIsAllFreed CHUNK_SIZE c1 of
                         (allFreed, c2) \<Rightarrow>
                           if allFreed then
                             (let p1 = mp_set_chunk pChunk (tch_ChunkReset c2) p in
                              case op_Free (Some pChunk) (mp_mObjectPool p1) of
                                None \<Rightarrow> Inl BadChunk
                              | Some pool \<Rightarrow> Inr (p1\<lparr>mp_mObjectPool := pool, tp_mAllocCount := tp_mAllocCount p1 - 1\<rparr>))
                           else (let p1 = mp_set_chunk pChunk c2 p in
                              Inr (p1\<lparr>tp_mAllocCount := tp_mAllocCount p1 - 1\<rparr>))))))"

definition tp_AllFree :: "nat \<Rightarrow> TlsObjectPool \<Rightarrow> pool_fault + TlsObjectPool" where
  "tp_AllFree t p =
     (case mp_spTlsChunk p t of
        None \<Rightarrow> Inl BadChunk
      | Some n \<Rightarrow>
          (case mp_chunk n p of
             None \<Rightarrow> Inl BadChunk
           | Some c \<Rightarrow>
               (let p1 = mp_set_chunk n (tch_ChunkReset c) p in
                case op_Free (Some n) (mp_mObjectPool p1) of
                  None \<Rightarrow> Inl BadChunk
                | Some pool \<Rightarrow> Inr (p1\<lparr>mp_mObjectPool := pool, mp_spTlsChunk := (mp_spTlsChunk p1)(t := None)\<rparr>))))"

text \<open>Alloc and Free are those of MemoryPool with a count beside them.\<close>

definition tp_valid :: "block \<Rightarrow> TlsObjectPool \<Rightarrow> bool" where
  "tp_valid b p \<longleftrightarrow> (case mp_chunk (fst b) p of
      None \<Rightarrow> False
    | Some c \<Rightarrow> snd b < length (ch_mChunkDataArray c) \<and> tch_IsValidChecksum (ch_mChunkDataArray c ! snd b))"

lemma tp_Alloc_is:
  "tp_Alloc CHUNK_SIZE t fresh1 fresh2 p = mp_Alloc CHUNK_SIZE t fresh1 fresh2 (p\<lparr>tp_mAllocCount := tp_mAllocCount p + 1\<rparr>)"
proof -
  have take: "tp_take_chunk = mp_take_chunk"
    by (simp add: fun_eq_iff tp_take_chunk_def mp_take_chunk_def chunk_classes_agree)
  show ?thesis unfolding tp_Alloc_def mp_Alloc_def take chunk_classes_agree Let_def ..
qed

lemma tp_Free_is:
  "tp_Free CHUNK_SIZE pData p =
     (case mp_Free CHUNK_SIZE pData p of
        Inl e \<Rightarrow> Inl e
      | Inr p1 \<Rightarrow>
          (case pData of
             None \<Rightarrow> Inr p1
           | Some b \<Rightarrow> Inr (if tp_valid b p then p1\<lparr>tp_mAllocCount := tp_mAllocCount p1 - 1\<rparr> else p1)))"
  unfolding tp_Free_def mp_Free_def tp_valid_def chunk_classes_agree Let_def by (auto split: option.split prod.split)

definition tp_AllocCount :: "TlsObjectPool \<Rightarrow> int" where
  "tp_AllocCount p = tp_mAllocCount p"

subsection \<open>The invariant of the chunks\<close>

text \<open>
  \<open>used\<close> are the blocks that clients hold, \<open>T\<close> the chunks that threads take blocks from. A chunk
  outside of the ObjectPool has handed out the blocks below \<open>mAllocCount\<close> and got \<open>mFreeCount\<close> of them back.
\<close>

definition used_in :: "block set \<Rightarrow> nat \<Rightarrow> nat set" where
  "used_in used n = {i. (n, i) \<in> used}"

definition array_ok :: "nat \<Rightarrow> nat \<Rightarrow> Chunk \<Rightarrow> bool" where
  "array_ok M n c \<longleftrightarrow> ch_mChunkDataArray c = replicate M \<lparr>cd_checksum = ch_CHECKSUM_CODE, cd_pChunk = n\<rparr>"

definition chunk_ok :: "nat \<Rightarrow> block set \<Rightarrow> nat set \<Rightarrow> nat \<Rightarrow> Chunk \<Rightarrow> bool" where
  "chunk_ok M used T n c \<longleftrightarrow> array_ok M n c \<and> 0 \<le> ch_mFreeCount c \<and>
     used_in used n \<subseteq> {..<nat (ch_mAllocCount c)} \<and>
     int (card (used_in used n)) = ch_mAllocCount c - ch_mFreeCount c \<and>
     (if n \<in> T then ch_mAllocCount c < int M else ch_mAllocCount c = int M \<and> ch_mFreeCount c < int M)"

definition pooled_ok :: "nat \<Rightarrow> nat \<Rightarrow> Chunk \<Rightarrow> bool" where
  "pooled_ok M n c \<longleftrightarrow> array_ok M n c \<and> ch_mAllocCount c = 0 \<and> ch_mFreeCount c = 0"

definition chunks_ok :: "nat \<Rightarrow> Chunk ObjectPool \<Rightarrow> block set \<Rightarrow> nat set \<Rightarrow> nat list \<Rightarrow> nat set \<Rightarrow> bool" where
  "chunks_ok M s used T ns handed \<longleftrightarrow> pool_ok s ns handed \<and> \<not> op_mbPlacementNew s \<and> T \<subseteq> handed \<and> fst ` used \<subseteq> handed \<and>
     (\<forall>n \<in> handed. \<exists>c. op_data s n = Some c \<and> chunk_ok M used T n c) \<and>
     (\<forall>n \<in> set ns. \<exists>c. op_data s n = Some c \<and> pooled_ok M n c)"

lemma chunks_okD:
  assumes "chunks_ok M s used T ns handed"
  shows "pool_ok s ns handed" "\<not> op_mbPlacementNew s" "T \<subseteq> handed" "fst ` used \<subseteq> handed"
    "n \<in> handed \<Longrightarrow> \<exists>c. op_data s n = Some c \<and> chunk_ok M used T n c"
    "n \<in> set ns \<Longrightarrow> \<exists>c. op_data s n = Some c \<and> pooled_ok M n c"
  using assms by (auto simp: chunks_ok_def)

lemma chunks_okI:
  assumes "pool_ok s ns handed" "\<not> op_mbPlacementNew s" "T \<subseteq> handed" "fst ` used \<subseteq> handed"
    "\<And>n. n \<in> handed \<Longrightarrow> \<exists>c. op_data s n = Some c \<and> chunk_ok M used T n c"
    "\<And>n. n \<in> set ns \<Longrightarrow> \<exists>c. op_data s n = Some c \<and> pooled_ok M n c"
  shows "chunks_ok M s used T ns handed"
  using assms by (simp add: chunks_ok_def)

lemma used_in_empty: "fst ` used \<subseteq> handed \<Longrightarrow> n \<notin> handed \<Longrightarrow> used_in used n = {}"
  by (auto simp: used_in_def image_subset_iff)

lemma chunk_ok_other_T: "m \<noteq> n \<Longrightarrow> chunk_ok M used (insert n T) m c \<longleftrightarrow> chunk_ok M used T m c"
  by (simp add: chunk_ok_def)

lemma chunk_ok_open: "0 < M \<Longrightarrow> used_in used n = {} \<Longrightarrow> n \<in> T \<Longrightarrow> pooled_ok M n c \<Longrightarrow> chunk_ok M used T n c"
  by (auto simp: chunk_ok_def pooled_ok_def)

lemma take_chunk_ok:
  assumes ok: "chunks_ok M s used T ns handed" and M: "0 < M" and f: "f \<notin> op_live s"
  shows "\<exists>n s' ns'. op_Alloc (ch_new M) (Some f) s = Some (n, s') \<and> n \<notin> handed \<and>
    op_live s' = insert n (op_live s) \<and> (n = f \<or> n \<in> op_live s) \<and>
    chunks_ok M s' used (insert n T) ns' (insert n handed)"
proof (cases ns)
  case Nil
  note k = chunks_okD [OF ok]
  let ?s = "op_allocNode f (Some (ch_new M f)) None s"
  note a = op_Alloc_new [OF k(1) [unfolded Nil] f, of "ch_new M"]
  have f': "f \<notin> handed" using k(1) f by (auto simp: pool_ok_def)
  have dat: "op_data ?s f = Some (ch_new M f)" "m \<noteq> f \<Longrightarrow> op_data ?s m = op_data s m" for m
    by (simp_all add: op_allocNode_def)
  have "chunks_ok M ?s used (insert f T) [] (insert f handed)"
  proof (rule chunks_okI)
    fix m assume m: "m \<in> insert f handed"
    show "\<exists>c. op_data ?s m = Some c \<and> chunk_ok M used (insert f T) m c"
    proof (cases "m = f")
      case True
      have "pooled_ok M f (ch_new M f)" by (simp add: pooled_ok_def array_ok_def ch_new_def)
      then show ?thesis using True dat(1) chunk_ok_open [OF M used_in_empty [OF k(4) f'], of "insert f T"] by simp
    next
      case False
      then show ?thesis using m k(5) [of m] dat(2) [of m] by (auto simp: chunk_ok_other_T)
    qed
  qed (use a(2) k(2-4) in \<open>auto simp: op_allocNode_def\<close>)
  then show ?thesis using a(1) f' by (intro exI [of _ f] exI [of _ ?s] exI [of _ "[]"]) (simp add: op_allocNode_def)
next
  case (Cons n ms)
  note k = chunks_okD [OF ok]
  let ?s = "s\<lparr>op_top := op_top s\<lparr>ts_pNode := ts_next (op_top s) n, ts_count := ts_count (op_top s) + 1,
    ts_size := ts_size (op_top s) - 1\<rparr>\<rparr>"
  note a = op_Alloc_pooled [OF k(1) [unfolded Cons] k(2)]
  have n': "n \<notin> handed" "n \<in> op_live s" using k(1) Cons by (auto simp: pool_ok_def)
  have "chunks_ok M ?s used (insert n T) ms (insert n handed)"
  proof (rule chunks_okI)
    fix m assume m: "m \<in> insert n handed"
    show "\<exists>c. op_data ?s m = Some c \<and> chunk_ok M used (insert n T) m c"
    proof (cases "m = n")
      case True
      then show ?thesis using k(6) [of n] Cons chunk_ok_open [OF M used_in_empty [OF k(4) n'(1)], of "insert n T"] by auto
    next
      case False
      then show ?thesis using m k(5) [of m] by (auto simp: chunk_ok_other_T)
    qed
  qed (use a(2) k(2-4,6) Cons in auto)
  then show ?thesis using a(1) n' by (intro exI [of _ n] exI [of _ ?s] exI [of _ ms]) (simp add: insert_absorb)
qed

definition set_chunk :: "nat \<Rightarrow> Chunk \<Rightarrow> Chunk ObjectPool \<Rightarrow> Chunk ObjectPool" where
  "set_chunk n c s = s\<lparr>op_data := (op_data s)(n := Some c)\<rparr>"

lemma set_chunk_simps [simp]:
  "op_data (set_chunk n c s) = (op_data s)(n := Some c)" "op_live (set_chunk n c s) = op_live s"
  "op_top (set_chunk n c s) = op_top s" "op_mbPlacementNew (set_chunk n c s) = op_mbPlacementNew s"
  "op_checksum (set_chunk n c s) = op_checksum s"
  by (simp_all add: set_chunk_def)

lemma pool_ok_set_chunk: "pool_ok s ns handed \<Longrightarrow> \<not> op_mbPlacementNew s \<Longrightarrow> pool_ok (set_chunk n c s) ns handed"
  by (simp add: pool_ok_def)

lemma used_in_insert [simp]: "used_in (insert (n, i) used) m = (if m = n then insert i (used_in used n) else used_in used m)"
  by (auto simp: used_in_def)

lemma used_in_remove [simp]: "used_in (used - {(n, i)}) m = (if m = n then used_in used n - {i} else used_in used m)"
  by (auto simp: used_in_def)

lemma chunk_ok_cong: "used_in used' m = used_in used m \<Longrightarrow> m \<in> T' \<longleftrightarrow> m \<in> T \<Longrightarrow> chunk_ok M used' T' m c = chunk_ok M used T m c"
  by (simp add: chunk_ok_def)

lemma get_data_ok:
  assumes ok: "chunks_ok M s used T ns handed" and n: "n \<in> T"
  shows "\<exists>c i c'. op_data s n = Some c \<and> ch_GetData M c = (Some i, c') \<and> (n, i) \<notin> used \<and> i < M \<and>
    chunks_ok M (set_chunk n c' s) (insert (n, i) used) (if ch_IsDataEmpty M c' then T - {n} else T) ns handed"
proof -
  note k = chunks_okD [OF ok]
  have nh: "n \<in> handed" using n k(3) by blast
  then obtain c where c: "op_data s n = Some c" "chunk_ok M used T n c" using k(5) by blast
  let ?i = "nat (ch_mAllocCount c)" and ?c = "c\<lparr>ch_mAllocCount := ch_mAllocCount c + 1\<rparr>"
  let ?used = "insert (n, ?i) used" and ?T = "if ch_IsDataEmpty M ?c then T - {n} else T"
  have a: "0 \<le> ch_mAllocCount c" "ch_mAllocCount c < int M" using c(2) n by (auto simp: chunk_ok_def)
  have i: "?i \<notin> used_in used n" "finite (used_in used n)"
    using c(2) by (auto simp: chunk_ok_def intro: finite_subset)
  have "chunk_ok M ?used ?T n ?c"
    using c(2) i a n unfolding chunk_ok_def array_ok_def ch_IsDataEmpty_def
    by (auto simp: subset_iff less_Suc_eq nat_add_distrib)
  moreover have "chunk_ok M ?used ?T m d \<longleftrightarrow> chunk_ok M used T m d" if "m \<noteq> n" for m d
    by (rule chunk_ok_cong) (use that in simp_all)
  moreover have "n \<notin> set ns" using k(1) nh by (auto simp: pool_ok_def)
  ultimately have "chunks_ok M (set_chunk n ?c s) ?used ?T ns handed"
    using k nh by (intro chunks_okI) (auto intro: pool_ok_set_chunk)
  then show ?thesis using c(1) a i by (intro exI [of _ c] exI [of _ ?i] exI [of _ ?c]) (auto simp: ch_GetData_def used_in_def)
qed

lemma free_data_ok:
  assumes ok: "chunks_ok M s used T ns handed" and b: "(n, i) \<in> used" and M: "0 < M"
  shows "\<exists>c allFreed c2. op_data s n = Some c \<and> i < length (ch_mChunkDataArray c) \<and>
    ch_mChunkDataArray c ! i = \<lparr>cd_checksum = ch_CHECKSUM_CODE, cd_pChunk = n\<rparr> \<and>
    ch_FreeWithIsAllFreed M c = (allFreed, c2) \<and>
    (if allFreed then \<exists>s' ns'. op_Free (Some n) (set_chunk n (ch_ChunkReset c2) s) = Some s' \<and>
         chunks_ok M s' (used - {(n, i)}) T ns' (handed - {n})
     else chunks_ok M (set_chunk n c2 s) (used - {(n, i)}) T ns handed)"
proof -
  note k = chunks_okD [OF ok]
  have nh: "n \<in> handed" using b k(4) by force
  then obtain c where c: "op_data s n = Some c" "chunk_ok M used T n c" using k(5) by blast
  let ?c2 = "c\<lparr>ch_mFreeCount := ch_mFreeCount c + 1\<rparr>" and ?used = "used - {(n, i)}"
  have i: "i \<in> used_in used n" using b by (simp add: used_in_def)
  have fin: "finite (used_in used n)" using c(2) by (auto simp: chunk_ok_def intro: finite_subset)
  have alloc: "ch_mAllocCount c \<le> int M" using c(2) by (auto simp: chunk_ok_def split: if_splits)
  have il: "i < nat (ch_mAllocCount c)" using c(2) i by (auto simp: chunk_ok_def)
  have arr: "i < length (ch_mChunkDataArray c)"
    "ch_mChunkDataArray c ! i = \<lparr>cd_checksum = ch_CHECKSUM_CODE, cd_pChunk = n\<rparr>"
    using c(2) il alloc by (auto simp: chunk_ok_def array_ok_def)
  have card: "int (card (used_in used n - {i})) = int (card (used_in used n)) - 1" "0 < card (used_in used n)"
    using i fin card_gt_0_iff [of "used_in used n"] by (auto simp: card_Diff_singleton of_nat_diff)
  have other: "chunk_ok M ?used T m d \<longleftrightarrow> chunk_ok M used T m d" if "m \<noteq> n" for m d
    by (rule chunk_ok_cong) (use that in simp_all)
  have used': "fst ` ?used \<subseteq> handed" using k(4) by auto
  show ?thesis
  proof (cases "ch_mFreeCount c = int M - 1")
    case False
    have "chunk_ok M ?used T n ?c2"
      using c(2) card(1) False by (auto simp: chunk_ok_def array_ok_def split: if_splits)
    moreover have "n \<notin> set ns" using k(1) nh by (auto simp: pool_ok_def)
    ultimately have "chunks_ok M (set_chunk n ?c2 s) ?used T ns handed"
      using k used' other nh by (intro chunks_okI) (auto intro: pool_ok_set_chunk)
    then show ?thesis using c(1) arr False by (simp add: ch_FreeWithIsAllFreed_def)
  next
    case True
    have full: "ch_mAllocCount c = int M" "n \<notin> T" using c(2) card True alloc by (auto simp: chunk_ok_def split: if_splits)
    have none: "used_in ?used n = {}" using c(2) card full True fin by (auto simp: chunk_ok_def)
    let ?c = "ch_ChunkReset ?c2"
    let ?s = "set_chunk n ?c s"
    note f = op_Free_ok [OF pool_ok_set_chunk [OF k(1,2), of n ?c] nh]
    define s' where "s' = ?s\<lparr>op_top := op_top ?s\<lparr>ts_next := (ts_next (op_top ?s))(n := ts_pNode (op_top ?s)),
      ts_pNode := Some n, ts_size := ts_size (op_top ?s) + 1\<rparr>\<rparr>"
    have fr: "op_Free (Some n) ?s = Some s'" "pool_ok s' (n # ns) (handed - {n})" using f k(2) by (simp_all add: s'_def)
    have dat: "op_data s' = (op_data s)(n := Some ?c)" "op_mbPlacementNew s' = op_mbPlacementNew s" by (simp_all add: s'_def)
    have "chunks_ok M s' ?used T (n # ns) (handed - {n})"
    proof (rule chunks_okI)
      show "fst ` ?used \<subseteq> handed - {n}" using used' none by (auto simp: used_in_def)
      show "\<exists>d. op_data s' m = Some d \<and> chunk_ok M ?used T m d" if "m \<in> handed - {n}" for m
        using that k(5) [of m] dat other by auto
      show "\<exists>d. op_data s' m = Some d \<and> pooled_ok M m d" if "m \<in> set (n # ns)" for m
      proof (cases "m = n")
        case True
        then show ?thesis using dat c(2) by (simp add: pooled_ok_def chunk_ok_def array_ok_def ch_ChunkReset_def)
      next
        case False
        then show ?thesis using that k(6) [of m] dat by auto
      qed
    qed (use fr(2) k(2,3) full(2) dat in auto)
    then show ?thesis using c(1) arr True fr(1) by (auto simp: ch_FreeWithIsAllFreed_def)
  qed
qed

subsection \<open>Every call keeps the invariant\<close>

definition tls_inj :: "(nat \<Rightarrow> nat option) \<Rightarrow> bool" where
  "tls_inj f \<longleftrightarrow> (\<forall>t u n. f t = Some n \<longrightarrow> f u = Some n \<longrightarrow> t = u)"

definition mp_inv :: "nat \<Rightarrow> 'z MemoryPool_scheme \<Rightarrow> block set \<Rightarrow> bool" where
  "mp_inv M p used \<longleftrightarrow> tls_inj (mp_spTlsChunk p) \<and>
     (\<exists>ns handed. chunks_ok M (mp_mObjectPool p) used (ran (mp_spTlsChunk p)) ns handed)"

lemma ran_remove: "ran (f(t := None)) = {m. \<exists>u. u \<noteq> t \<and> f u = Some m}"
  unfolding ran_def by (rule Collect_cong) (metis fun_upd_apply option.distinct(1))

lemma ran_without: "tls_inj f \<Longrightarrow> f t = Some n \<Longrightarrow> ran (f(t := None)) = ran f - {n}"
  unfolding ran_remove unfolding tls_inj_def ran_def by auto (metis option.inject)

lemma ran_with: "ran (f(t := Some n)) = insert n (ran (f(t := None)))"
  unfolding ran_remove by (auto simp: ran_def split: if_splits)

lemma inj_without: "tls_inj f \<Longrightarrow> tls_inj (f(t := None))"
  by (auto simp: tls_inj_def)

lemma inj_with:
  assumes "tls_inj (f(t := None))" "n \<notin> ran (f(t := None))"
  shows "tls_inj (f(t := Some n))"
proof -
  have other: "u = w" if "u \<noteq> t" "w \<noteq> t" "f u = Some m" "f w = Some m" for u w m
    using assms(1) that unfolding tls_inj_def by (metis fun_upd_apply)
  have new: "f u \<noteq> Some n" if "u \<noteq> t" for u using assms(2) that unfolding ran_remove by blast
  show ?thesis
    unfolding tls_inj_def
  proof (intro allI impI)
    fix u w m assume m: "(f(t := Some n)) u = Some m" "(f(t := Some n)) w = Some m"
    show "u = w"
      by (cases "u = t"; cases "w = t") (use m other new in auto)
  qed
qed

lemma mp_take_chunk_ok:
  fixes p :: "'z MemoryPool_scheme"
  assumes ok: "chunks_ok M (mp_mObjectPool p) used (ran ((mp_spTlsChunk p)(t := None))) ns handed"
    and inj: "tls_inj ((mp_spTlsChunk p)(t := None))"
    and M: "0 < M" and f: "f \<notin> op_live (mp_mObjectPool p)"
  shows "\<exists>p' n. mp_take_chunk M t (Some f) p = Inr p' \<and> mp_spTlsChunk p' = (mp_spTlsChunk p)(t := Some n) \<and> mp_inv M p' used \<and>
    op_live (mp_mObjectPool p') \<subseteq> insert f (op_live (mp_mObjectPool p)) \<and> MemoryPool.more p' = MemoryPool.more p"
proof -
  obtain n s' ns' where a: "op_Alloc (ch_new M) (Some f) (mp_mObjectPool p) = Some (n, s')" "n \<notin> handed"
    "op_live s' = insert n (op_live (mp_mObjectPool p))" "n = f \<or> n \<in> op_live (mp_mObjectPool p)"
    "chunks_ok M s' used (insert n (ran ((mp_spTlsChunk p)(t := None)))) ns' (insert n handed)"
    using take_chunk_ok [OF ok M f] by blast
  let ?p = "p\<lparr>mp_mObjectPool := s', mp_spTlsChunk := (mp_spTlsChunk p)(t := Some n)\<rparr>"
  have "n \<notin> ran ((mp_spTlsChunk p)(t := None))" using a(2) chunks_okD(3) [OF ok] by blast
  then have "tls_inj ((mp_spTlsChunk p)(t := Some n))" by (rule inj_with [OF inj])
  then have "mp_inv M ?p used" using a(5) unfolding mp_inv_def by (simp add: ran_with) blast
  then show ?thesis using a(1,3,4) by (intro exI [of _ ?p] exI [of _ n]) (auto simp: mp_take_chunk_def)
qed

lemma mp_set_chunk_is: "mp_mObjectPool (mp_set_chunk n c p) = set_chunk n c (mp_mObjectPool p)"
  "mp_spTlsChunk (mp_set_chunk n c p) = mp_spTlsChunk p" "MemoryPool.more (mp_set_chunk n c p) = MemoryPool.more p"
  by (simp_all add: mp_set_chunk_def set_chunk_def)

text \<open>The part of \<open>Alloc\<close> after the thread has a chunk.\<close>

lemma mp_alloc_rest_ok:
  fixes p :: "'z MemoryPool_scheme"
  assumes inv: "mp_inv M p used" and M: "0 < M" and f: "f \<notin> op_live (mp_mObjectPool p)" and t: "mp_spTlsChunk p t = Some n"
  shows "\<exists>b p'. mp_Alloc M t fresh1 (Some f) p = Inr (Some b, p') \<and> b \<notin> used \<and> snd b < M \<and> mp_inv M p' (insert b used) \<and>
    MemoryPool.more p' = MemoryPool.more p"
proof -
  obtain ns handed where ok: "chunks_ok M (mp_mObjectPool p) used (ran (mp_spTlsChunk p)) ns handed"
    and inj: "tls_inj (mp_spTlsChunk p)" using inv by (auto simp: mp_inv_def)
  have "n \<in> ran (mp_spTlsChunk p)" using t by (rule ranI)
  then obtain c i c' where c: "op_data (mp_mObjectPool p) n = Some c" "ch_GetData M c = (Some i, c')" "(n, i) \<notin> used" "i < M"
    "chunks_ok M (set_chunk n c' (mp_mObjectPool p)) (insert (n, i) used)
      (if ch_IsDataEmpty M c' then ran (mp_spTlsChunk p) - {n} else ran (mp_spTlsChunk p)) ns handed"
    using get_data_ok [OF ok] by blast
  let ?p = "mp_set_chunk n c' p"
  show ?thesis
  proof (cases "ch_IsDataEmpty M c'")
    case False
    then have "mp_inv M ?p (insert (n, i) used)" using c(5) inj unfolding mp_inv_def by (auto simp: mp_set_chunk_is)
    then show ?thesis using t c(1-4) False
      by (intro exI [of _ "(n, i)"] exI [of _ ?p]) (simp add: mp_Alloc_def mp_chunk_def mp_set_chunk_is)
  next
    case True
    have ok': "chunks_ok M (mp_mObjectPool ?p) (insert (n, i) used) (ran ((mp_spTlsChunk ?p)(t := None))) ns handed"
      using c(5) True ran_without [OF inj t] by (simp add: mp_set_chunk_is)
    have inj': "tls_inj ((mp_spTlsChunk ?p)(t := None))"
      using inj_without [OF inj] by (simp add: mp_set_chunk_is)
    have "f \<notin> op_live (mp_mObjectPool ?p)" using f by (simp add: mp_set_chunk_is)
    then obtain p' where "mp_take_chunk M t (Some f) ?p = Inr p'" "mp_inv M p' (insert (n, i) used)"
      "MemoryPool.more p' = MemoryPool.more ?p"
      using mp_take_chunk_ok [OF ok' inj' M] by blast
    then show ?thesis using t c(1-4) True
      by (intro exI [of _ "(n, i)"] exI [of _ p']) (simp add: mp_Alloc_def mp_chunk_def mp_set_chunk_is)
  qed
qed

lemma mp_Alloc_ok:
  fixes p :: "'z MemoryPool_scheme"
  assumes inv: "mp_inv M p used" and M: "0 < M"
    and f: "f1 \<notin> op_live (mp_mObjectPool p)" "f2 \<notin> op_live (mp_mObjectPool p)" "f1 \<noteq> f2"
  shows "\<exists>b p'. mp_Alloc M t (Some f1) (Some f2) p = Inr (Some b, p') \<and> b \<notin> used \<and> snd b < M \<and> mp_inv M p' (insert b used) \<and>
    MemoryPool.more p' = MemoryPool.more p"
proof (cases "mp_spTlsChunk p t")
  case (Some n)
  then show ?thesis by (rule mp_alloc_rest_ok [OF inv M f(2)])
next
  case None
  obtain ns handed where ok: "chunks_ok M (mp_mObjectPool p) used (ran (mp_spTlsChunk p)) ns handed"
    and inj: "tls_inj (mp_spTlsChunk p)" using inv by (auto simp: mp_inv_def)
  have same: "(mp_spTlsChunk p)(t := None) = mp_spTlsChunk p" using None by (simp add: fun_upd_idem)
  obtain p1 n where p1: "mp_take_chunk M t (Some f1) p = Inr p1" "mp_spTlsChunk p1 = (mp_spTlsChunk p)(t := Some n)"
    "mp_inv M p1 used" "op_live (mp_mObjectPool p1) \<subseteq> insert f1 (op_live (mp_mObjectPool p))" "MemoryPool.more p1 = MemoryPool.more p"
    using mp_take_chunk_ok [of M p used t ns handed f1] ok inj M f(1) unfolding same by blast
  have t: "mp_spTlsChunk p1 t = Some n" using p1(2) by simp
  have "f2 \<notin> op_live (mp_mObjectPool p1)" using p1(4) f by blast
  moreover have "mp_Alloc M t (Some f1) (Some f2) p = mp_Alloc M t None (Some f2) p1"
    using None p1(1) t by (simp add: mp_Alloc_def)
  ultimately show ?thesis using mp_alloc_rest_ok [OF p1(3) M _ t, of f2 None] p1(5) by auto
qed

lemma mp_Free_ok:
  fixes p :: "'z MemoryPool_scheme"
  assumes inv: "mp_inv M p used" and M: "0 < M" and b: "b \<in> used"
  shows "\<exists>p'. mp_Free M (Some b) p = Inr p' \<and> mp_inv M p' (used - {b}) \<and> MemoryPool.more p' = MemoryPool.more p \<and>
    (\<exists>c. mp_chunk (fst b) p = Some c \<and> snd b < length (ch_mChunkDataArray c) \<and> ch_IsValidChecksum (ch_mChunkDataArray c ! snd b))"
proof -
  obtain n i where ni: "b = (n, i)" by fastforce
  obtain ns handed where ok: "chunks_ok M (mp_mObjectPool p) used (ran (mp_spTlsChunk p)) ns handed"
    and inj: "tls_inj (mp_spTlsChunk p)" using inv by (auto simp: mp_inv_def)
  obtain c allFreed c2 where c: "op_data (mp_mObjectPool p) n = Some c" "i < length (ch_mChunkDataArray c)"
    "ch_mChunkDataArray c ! i = \<lparr>cd_checksum = ch_CHECKSUM_CODE, cd_pChunk = n\<rparr>"
    "ch_FreeWithIsAllFreed M c = (allFreed, c2)"
    "if allFreed then \<exists>s' ns'. op_Free (Some n) (set_chunk n (ch_ChunkReset c2) (mp_mObjectPool p)) = Some s' \<and>
         chunks_ok M s' (used - {(n, i)}) (ran (mp_spTlsChunk p)) ns' (handed - {n})
     else chunks_ok M (set_chunk n c2 (mp_mObjectPool p)) (used - {(n, i)}) (ran (mp_spTlsChunk p)) ns handed"
    using free_data_ok [OF ok b [unfolded ni] M] by blast
  have valid: "ch_IsValidChecksum (ch_mChunkDataArray c ! i)" using c(3) by (simp add: ch_IsValidChecksum_def)
  show ?thesis
  proof (cases allFreed)
    case True
    let ?p1 = "mp_set_chunk n (ch_ChunkReset c2) p"
    obtain s' ns' where s': "op_Free (Some n) (mp_mObjectPool ?p1) = Some s'"
      "chunks_ok M s' (used - {(n, i)}) (ran (mp_spTlsChunk p)) ns' (handed - {n})" using c(5) True by (auto simp: mp_set_chunk_is)
    have "mp_inv M (?p1\<lparr>mp_mObjectPool := s'\<rparr>) (used - {b})" using s'(2) inj ni unfolding mp_inv_def by (auto simp: mp_set_chunk_is)
    then show ?thesis using c(1-4) True s'(1) valid ni
      by (intro exI [of _ "?p1\<lparr>mp_mObjectPool := s'\<rparr>"]) (simp add: mp_Free_def mp_chunk_def Let_def mp_set_chunk_is)
  next
    case False
    have "mp_inv M (mp_set_chunk n c2 p) (used - {b})" using c(5) False inj ni unfolding mp_inv_def by (auto simp: mp_set_chunk_is)
    then show ?thesis using c(1-4) False valid ni
      by (intro exI [of _ "mp_set_chunk n c2 p"]) (simp add: mp_Free_def mp_chunk_def Let_def mp_set_chunk_is)
  qed
qed

subsection \<open>Runs and properties\<close>

text \<open>Clients free blocks that they hold; \<open>mi_malloc\<close> succeeds and returns memory that is not live.\<close>

definition fresh_pair :: "nat \<Rightarrow> nat \<Rightarrow> 'z MemoryPool_scheme \<Rightarrow> bool" where
  "fresh_pair f1 f2 p \<longleftrightarrow>
     f1 \<noteq> f2 \<and> f1 \<notin> op_live (mp_mObjectPool p) \<and> f2 \<notin> op_live (mp_mObjectPool p)"

inductive mp_step :: "nat \<Rightarrow> MemoryPool \<times> block set \<Rightarrow> MemoryPool \<times> block set \<Rightarrow> bool" for M where
  alloc: "fresh_pair f1 f2 p \<Longrightarrow> mp_Alloc M t (Some f1) (Some f2) p = Inr (Some b, p') \<Longrightarrow>
    mp_step M (p, used) (p', insert b used)"
| free: "b \<in> used \<Longrightarrow> mp_Free M (Some b) p = Inr p' \<Longrightarrow> mp_step M (p, used) (p', used - {b})"

inductive tp_step :: "nat \<Rightarrow> TlsObjectPool \<times> block set \<Rightarrow> TlsObjectPool \<times> block set \<Rightarrow> bool" for M where
  alloc: "fresh_pair f1 f2 p \<Longrightarrow> tp_Alloc M t (Some f1) (Some f2) p = Inr (Some b, p') \<Longrightarrow>
    tp_step M (p, used) (p', insert b used)"
| free: "b \<in> used \<Longrightarrow> tp_Free M (Some b) p = Inr p' \<Longrightarrow> tp_step M (p, used) (p', used - {b})"

lemma mp_inv_fields:
  "mp_mObjectPool q = mp_mObjectPool p \<Longrightarrow> mp_spTlsChunk q = mp_spTlsChunk p \<Longrightarrow> mp_inv M p used \<Longrightarrow> mp_inv M q used"
  by (simp add: mp_inv_def)

lemma mp_new_inv: "mp_inv M (mp_new nxt sums) {}"
  by (auto simp: mp_inv_def tls_inj_def mp_new_def op_new_def chunks_ok_def pool_ok_def)

lemma mp_steps_inv: "(mp_step M)\<^sup>*\<^sup>* (p, used) (p', used') \<Longrightarrow> 0 < M \<Longrightarrow> mp_inv M p used \<Longrightarrow> mp_inv M p' used'"
proof (induction "(p', used')" arbitrary: p' used' rule: rtranclp_induct)
  case (step c)
  obtain q u where c: "c = (q, u)" by fastforce
  with step have inv: "mp_inv M q u" by simp
  from step.hyps(2) [unfolded c] show ?case
  proof cases
    case (alloc f1 f2 t b)
    then show ?thesis using mp_Alloc_ok [OF inv step.prems(1), of f1 f2 t] by (auto simp: fresh_pair_def)
  next
    case (free b)
    then show ?thesis using mp_Free_ok [OF inv step.prems(1), of b] by auto
  qed
qed

lemma tp_steps_inv:
  "(tp_step M)\<^sup>*\<^sup>* (p, used) (p', used') \<Longrightarrow> 0 < M \<Longrightarrow> mp_inv M p used \<and> finite used \<and> tp_mAllocCount p = int (card used) \<Longrightarrow>
   mp_inv M p' used' \<and> finite used' \<and> tp_mAllocCount p' = int (card used')"
proof (induction "(p', used')" arbitrary: p' used' rule: rtranclp_induct)
  case (step c)
  obtain q u where c: "c = (q, u)" by fastforce
  with step have inv: "mp_inv M q u" "finite u" "tp_mAllocCount q = int (card u)" by simp_all
  have count: "tp_mAllocCount r = tp_mAllocCount q'" if "MemoryPool.more r = MemoryPool.more q'" for r q' :: TlsObjectPool
    using that by (cases r; cases q') simp
  from step.hyps(2) [unfolded c] show ?case
  proof cases
    case (alloc f1 f2 t b)
    let ?q = "q\<lparr>tp_mAllocCount := tp_mAllocCount q + 1\<rparr>"
    have "mp_inv M ?q u" by (rule mp_inv_fields [OF _ _ inv(1)]) simp_all
    then show ?thesis using mp_Alloc_ok [of M ?q u f1 f2 t] step.prems(1) alloc inv count [of p' ?q]
      by (auto simp: fresh_pair_def tp_Alloc_is)
  next
    case (free b)
    obtain r where r: "mp_Free M (Some b) q = Inr r" "mp_inv M r (u - {b})" "MemoryPool.more r = MemoryPool.more q" "tp_valid b q"
      using mp_Free_ok [OF inv(1) step.prems(1) free(2)] by (auto simp: tp_valid_def chunk_classes_agree)
    have p': "p' = r\<lparr>tp_mAllocCount := tp_mAllocCount r - 1\<rparr>" using free(3) r by (simp add: tp_Free_is)
    have "mp_inv M p' (u - {b})" by (rule mp_inv_fields [OF _ _ r(2)]) (simp_all add: p')
    moreover have "int (card (u - {b})) = int (card u) - 1"
      using inv(2) free(2) card_gt_0_iff [of u] by (auto simp: card_Diff_singleton of_nat_diff)
    ultimately show ?thesis using free inv count [OF r(3)] p' by simp
  qed
qed simp

text \<open>A MemoryPool never hands out a block that a client still holds, whichever threads allocate and free: after
  any run an allocation returns a block of the right range that is not in use, and freeing a block in use
  never fails.\<close>

theorem memory_pool_blocks_are_exclusive:
  assumes "(mp_step M)\<^sup>*\<^sup>* (mp_new nxt sums, {}) (p, used)" "0 < M" "fresh_pair f1 f2 p"
  shows "(\<exists>b p'. mp_Alloc M t (Some f1) (Some f2) p = Inr (Some b, p') \<and> b \<notin> used \<and> snd b < M) \<and>
    (\<forall>b \<in> used. \<exists>p'. mp_Free M (Some b) p = Inr p')"
proof -
  note inv = mp_steps_inv [OF assms(1,2) mp_new_inv]
  show ?thesis
    using mp_Alloc_ok [OF inv assms(2), of f1 f2 t] mp_Free_ok [OF inv assms(2)] assms(3)
    by (auto simp: fresh_pair_def)
qed

lemma demo_first_block:
  "\<exists>p. mp_Alloc 2 0 (Some 5) (Some 6) (mp_new (\<lambda>_. None) (\<lambda>_. 0)) = Inr (Some (5, 0), p) \<and> op_live (mp_mObjectPool p) = {5}"
  by (simp add: mp_Alloc_def mp_take_chunk_def mp_new_def op_new_def op_Alloc_def eval_nat_numeral op_thread_step_def
      op_allocNode_def mp_chunk_def mp_set_chunk_def ch_defs)

lemma memory_pool_blocks_are_exclusive_witness:
  "\<exists>p b. (mp_step 2)\<^sup>*\<^sup>* (mp_new (\<lambda>_. None) (\<lambda>_. 0), {}) (p, {(5, 0)}) \<and> b \<noteq> (5, 0) \<and>
     (\<exists>p'. mp_Alloc 2 1 (Some 6) (Some 7) p = Inr (Some b, p'))"
proof -
  obtain p where p: "mp_Alloc 2 0 (Some 5) (Some 6) (mp_new (\<lambda>_. None) (\<lambda>_. 0)) = Inr (Some (5, 0), p)"
    "op_live (mp_mObjectPool p) = {5}" using demo_first_block by blast
  have "fresh_pair 5 6 (mp_new (\<lambda>_. None) (\<lambda>_. 0))" by (simp add: fresh_pair_def mp_new_def op_new_def)
  then have run: "(mp_step 2)\<^sup>*\<^sup>* (mp_new (\<lambda>_. None) (\<lambda>_. 0), {}) (p, {(5, 0)})"
    using mp_step.alloc [OF _ p(1), of "{}"] by auto
  have "fresh_pair 6 7 p" using p(2) by (simp add: fresh_pair_def)
  from memory_pool_blocks_are_exclusive [OF run _ this, of 1] run show ?thesis by fastforce
qed

text \<open>AllocCount of a TlsObjectPool, and so of an ObjectAllocator, is the number of objects that clients hold.\<close>

theorem alloc_count_is_objects_held:
  assumes "(tp_step M)\<^sup>*\<^sup>* (tp_new nxt sums, {}) (p, used)" "0 < M"
  shows "finite used \<and> tp_AllocCount p = int (card used)"
proof -
  have "mp_inv M (tp_new nxt sums) {}" "tp_mAllocCount (tp_new nxt sums) = 0"
    by (auto simp: tp_new_def MemoryPool.defs mp_inv_def tls_inj_def mp_new_def op_new_def chunks_ok_def pool_ok_def)
  then show ?thesis using tp_steps_inv [OF assms] by (simp add: tp_AllocCount_def)
qed

lemma alloc_count_is_objects_held_witness:
  "\<exists>p. (tp_step 2)\<^sup>*\<^sup>* (tp_new (\<lambda>_. None) (\<lambda>_. 0), {}) (p, {(5, 0)}) \<and> tp_AllocCount p = 1"
proof -
  have "\<exists>p. tp_Alloc 2 0 (Some 5) (Some 6) (tp_new (\<lambda>_. None) (\<lambda>_. 0)) = Inr (Some (5, 0), p)"
    by (simp add: tp_Alloc_is tp_new_def MemoryPool.defs mp_Alloc_def mp_take_chunk_def mp_new_def op_new_def op_Alloc_def
        eval_nat_numeral op_thread_step_def op_allocNode_def mp_chunk_def mp_set_chunk_def ch_defs)
  then obtain p where p: "tp_Alloc 2 0 (Some 5) (Some 6) (tp_new (\<lambda>_. None) (\<lambda>_. 0)) = Inr (Some (5, 0), p)" by blast
  have "fresh_pair 5 6 (tp_new (\<lambda>_. None) (\<lambda>_. 0))" by (simp add: fresh_pair_def tp_new_def MemoryPool.defs mp_new_def op_new_def)
  then have run: "(tp_step 2)\<^sup>*\<^sup>* (tp_new (\<lambda>_. None) (\<lambda>_. 0), {}) (p, {(5, 0)})"
    using tp_step.alloc [OF _ p, of "{}"] by auto
  from alloc_count_is_objects_held [OF run] run show ?thesis by auto
qed

end
