(* ===== verification/Memory_Allocator.thy ===== *)
theory Memory_Allocator
  imports Memory_Pools
begin

text \<open>
  MemoryAllocator (MemoryAllocator.h, MemoryAllocator.cpp): 15 pools of blocks of 256 to 3840 bytes,
  16 pools of blocks of 4096 to 65536 bytes, and \<open>mi_malloc\<close> with a checksum behind the data for
  anything larger. The tuple of pools and the table of functions over it are a list. A pointer is
  the block it points to; the memory of a large allocation is its bytes.
\<close>

subsection \<open>State\<close>

definition SMALL_STRIDE :: int where "SMALL_STRIDE = 256"
definition LARGE_STRIDE :: int where "LARGE_STRIDE = 4096"
definition THRESHOLD :: int where "THRESHOLD = 4096"
definition MAX_SIZE :: int where "MAX_SIZE = 65536"
definition SMALL_POOL_COUNT :: int where "SMALL_POOL_COUNT = (THRESHOLD sdiv SMALL_STRIDE) - 1"
definition LARGE_POOL_COUNT :: int where "LARGE_POOL_COUNT = MAX_SIZE sdiv LARGE_STRIDE"
definition ma_CHECKSUM_CODE :: uint64 where "ma_CHECKSUM_CODE = 0xDEADBEEFBEFFDEAD"
definition ma_CHUNK_SIZE :: nat where "ma_CHUNK_SIZE = 500"

lemmas ma_consts = SMALL_STRIDE_def LARGE_STRIDE_def THRESHOLD_def MAX_SIZE_def

lemma pool_counts: "SMALL_POOL_COUNT = 15" "LARGE_POOL_COUNT = 16"
  by (simp_all add: SMALL_POOL_COUNT_def LARGE_POOL_COUNT_def ma_consts signed_divide_int_def)

record MemoryAllocator =
  ma_mSmallBuckets :: "MemoryPool list"
  ma_mLargeBuckets :: "MemoryPool list"
  ma_raw :: "nat \<Rightarrow> byte list option"

datatype ma_ptr = SmallBlock nat block | LargeBlock nat block | RawBlock nat

datatype ma_fault = PoolFault pool_fault | BadIndex int | NullWrite | WildPointer

definition ma_new :: "(nat \<Rightarrow> nat option) \<Rightarrow> (nat \<Rightarrow> uint64) \<Rightarrow> MemoryAllocator" where
  "ma_new nxt sums =
     \<lparr>ma_mSmallBuckets = replicate (nat SMALL_POOL_COUNT) (mp_new nxt sums),
      ma_mLargeBuckets = replicate (nat LARGE_POOL_COUNT) (mp_new nxt sums), ma_raw = \<lambda>_. None\<rparr>"

subsection \<open>Operations\<close>

definition ma_getBucketIndex :: "int \<Rightarrow> int \<Rightarrow> int" where
  "ma_getBucketIndex sz stride = (sz - 1) sdiv stride"

definition le_bytes :: "uint64 \<Rightarrow> byte list" where
  "le_bytes w = map (\<lambda>i. ucast (drop_bit (8 * i) w)) [0..<8]"

lemma length_le_bytes [simp]: "length (le_bytes w) = 8"
  by (simp add: le_bytes_def)

definition ma_setChecksum :: "byte list \<Rightarrow> int \<Rightarrow> byte list" where
  "ma_setChecksum pData sz = copy_at pData (nat sz) (le_bytes ma_CHECKSUM_CODE)"

definition ma_isValidChecksum :: "byte list \<Rightarrow> int \<Rightarrow> bool" where
  "ma_isValidChecksum pData sz \<longleftrightarrow> take 8 (drop (nat sz) pData) = le_bytes ma_CHECKSUM_CODE"

definition bucket_Alloc :: "int \<Rightarrow> nat \<Rightarrow> nat option \<Rightarrow> nat option \<Rightarrow> MemoryPool list
    \<Rightarrow> ma_fault + (block option \<times> MemoryPool list)" where
  "bucket_Alloc index t fresh1 fresh2 buckets =
     (if index < 0 \<or> index \<ge> int (length buckets) then Inl (BadIndex index)
      else case mp_Alloc ma_CHUNK_SIZE t fresh1 fresh2 (buckets ! nat index) of
             Inl e \<Rightarrow> Inl (PoolFault e)
           | Inr (pData, pool) \<Rightarrow> Inr (pData, buckets[nat index := pool]))"

definition bucket_Free :: "int \<Rightarrow> block \<Rightarrow> MemoryPool list \<Rightarrow> ma_fault + MemoryPool list" where
  "bucket_Free index b buckets =
     (if index < 0 \<or> index \<ge> int (length buckets) then Inl (BadIndex index)
      else case mp_Free ma_CHUNK_SIZE (Some b) (buckets ! nat index) of
             Inl e \<Rightarrow> Inl (PoolFault e)
           | Inr pool \<Rightarrow> Inr (buckets[nat index := pool]))"

text \<open>\<open>fresh1\<close> and \<open>fresh2\<close> serve the pools, \<open>raw\<close> is the memory that \<open>mi_malloc(sz + 8)\<close> returns.\<close>

definition ma_Alloc :: "nat \<Rightarrow> nat option \<Rightarrow> nat option \<Rightarrow> (nat \<times> byte list) option \<Rightarrow> int \<Rightarrow> MemoryAllocator
    \<Rightarrow> ma_fault + (ma_ptr option \<times> MemoryAllocator)" where
  "ma_Alloc t fresh1 fresh2 raw sz m =
     (if sz = 0 then Inr (None, m)
      else if sz \<le> THRESHOLD - SMALL_STRIDE then
        (let index = ma_getBucketIndex sz SMALL_STRIDE in
         case bucket_Alloc index t fresh1 fresh2 (ma_mSmallBuckets m) of
           Inl e \<Rightarrow> Inl e
         | Inr (pData, bs) \<Rightarrow> Inr (map_option (SmallBlock (nat index)) pData, m\<lparr>ma_mSmallBuckets := bs\<rparr>))
      else if sz \<le> MAX_SIZE then
        (let index = ma_getBucketIndex sz LARGE_STRIDE in
         case bucket_Alloc index t fresh1 fresh2 (ma_mLargeBuckets m) of
           Inl e \<Rightarrow> Inl e
         | Inr (pData, bs) \<Rightarrow> Inr (map_option (LargeBlock (nat index)) pData, m\<lparr>ma_mLargeBuckets := bs\<rparr>))
      else
        (case raw of
           None \<Rightarrow> Inl NullWrite
         | Some (a, bytes) \<Rightarrow> Inr (Some (RawBlock a), m\<lparr>ma_raw := (ma_raw m)(a := Some (ma_setChecksum bytes sz))\<rparr>)))"

text \<open>A pointer handed to the pool of another bucket is \<open>WildPointer\<close>.\<close>

definition ma_Free :: "ma_ptr option \<Rightarrow> int \<Rightarrow> MemoryAllocator \<Rightarrow> ma_fault + MemoryAllocator" where
  "ma_Free pData sz m =
     (case pData of
        None \<Rightarrow> Inr m
      | Some p \<Rightarrow>
          if sz = 0 then Inr m
          else if sz \<le> THRESHOLD - SMALL_STRIDE then
            (let index = ma_getBucketIndex sz SMALL_STRIDE in
             case p of
               SmallBlock j b \<Rightarrow>
                 if int j \<noteq> index then Inl WildPointer
                 else (case bucket_Free index b (ma_mSmallBuckets m) of
                         Inl e \<Rightarrow> Inl e | Inr bs \<Rightarrow> Inr (m\<lparr>ma_mSmallBuckets := bs\<rparr>))
             | _ \<Rightarrow> Inl WildPointer)
          else if sz \<le> MAX_SIZE then
            (let index = ma_getBucketIndex sz LARGE_STRIDE in
             case p of
               LargeBlock j b \<Rightarrow>
                 if int j \<noteq> index then Inl WildPointer
                 else (case bucket_Free index b (ma_mLargeBuckets m) of
                         Inl e \<Rightarrow> Inl e | Inr bs \<Rightarrow> Inr (m\<lparr>ma_mLargeBuckets := bs\<rparr>))
             | _ \<Rightarrow> Inl WildPointer)
          else
            (case p of
               RawBlock a \<Rightarrow>
                 (case ma_raw m a of
                    None \<Rightarrow> Inl WildPointer
                  | Some bytes \<Rightarrow>
                      if \<not> ma_isValidChecksum bytes sz then Inr m
                      else Inr (m\<lparr>ma_raw := (ma_raw m)(a := None)\<rparr>))
             | _ \<Rightarrow> Inl WildPointer))"

subsection \<open>Buckets\<close>

text \<open>How many bytes a pointer points to.\<close>

fun ma_capacity :: "ma_ptr \<Rightarrow> MemoryAllocator \<Rightarrow> int" where
  "ma_capacity (SmallBlock j b) m = (int j + 1) * SMALL_STRIDE"
| "ma_capacity (LargeBlock j b) m = (int j + 1) * LARGE_STRIDE"
| "ma_capacity (RawBlock a) m = (case ma_raw m a of None \<Rightarrow> 0 | Some bytes \<Rightarrow> int (length bytes) - 8)"

lemma bucket_index:
  assumes "0 < sz" "0 < stride"
  shows "0 \<le> ma_getBucketIndex sz stride" "sz \<le> (ma_getBucketIndex sz stride + 1) * stride"
    "ma_getBucketIndex sz stride * stride < sz"
proof -
  define q where "q = (sz - 1) div stride"
  have eq: "ma_getBucketIndex sz stride = q"
    using assms by (simp add: ma_getBucketIndex_def signed_divide_int_def sgn_if q_def)
  have "q * stride + (sz - 1) mod stride = sz - 1" unfolding q_def by (rule div_mult_mod_eq)
  moreover have "0 \<le> (sz - 1) mod stride" "(sz - 1) mod stride < stride" using assms(2) by simp_all
  moreover have "(q + 1) * stride = q * stride + stride" by (simp add: distrib_right)
  ultimately show "sz \<le> (ma_getBucketIndex sz stride + 1) * stride" "ma_getBucketIndex sz stride * stride < sz"
    unfolding eq by linarith+
  show "0 \<le> ma_getBucketIndex sz stride" unfolding eq q_def using assms by (simp add: pos_imp_zdiv_nonneg_iff)
qed

lemma bucket_index_less:
  assumes "0 < sz" "0 < stride" "sz \<le> n * stride"
  shows "ma_getBucketIndex sz stride < n"
proof -
  have "ma_getBucketIndex sz stride * stride < n * stride" using bucket_index(3) [OF assms(1,2)] assms(3) by linarith
  then show ?thesis using assms(2) by (simp add: mult_less_cancel_right)
qed

subsection \<open>The invariant\<close>

text \<open>\<open>used\<close> maps a pointer that a client holds to the size it was allocated with.\<close>

definition held_blocks :: "(nat \<Rightarrow> block \<Rightarrow> ma_ptr) \<Rightarrow> nat \<Rightarrow> (ma_ptr \<Rightarrow> int option) \<Rightarrow> block set" where
  "held_blocks C j used = {b. used (C j b) \<noteq> None}"

definition buckets_ok :: "(nat \<Rightarrow> block \<Rightarrow> ma_ptr) \<Rightarrow> MemoryPool list \<Rightarrow> (ma_ptr \<Rightarrow> int option) \<Rightarrow> bool" where
  "buckets_ok C bs used \<longleftrightarrow> (\<forall>j < length bs. mp_inv ma_CHUNK_SIZE (bs ! j) (held_blocks C j used))"

definition sizes_ok :: "(ma_ptr \<Rightarrow> int option) \<Rightarrow> MemoryAllocator \<Rightarrow> bool" where
  "sizes_ok used m \<longleftrightarrow>
     (\<forall>j b sz. used (SmallBlock j b) = Some sz \<longrightarrow> 0 < sz \<and> sz \<le> 3840 \<and> int j = ma_getBucketIndex sz SMALL_STRIDE) \<and>
     (\<forall>j b sz. used (LargeBlock j b) = Some sz \<longrightarrow> 3840 < sz \<and> sz \<le> 65536 \<and> int j = ma_getBucketIndex sz LARGE_STRIDE) \<and>
     (\<forall>a sz. used (RawBlock a) = Some sz \<longrightarrow> 65536 < sz \<and>
        (\<exists>bytes. ma_raw m a = Some bytes \<and> int (length bytes) = sz + 8 \<and> ma_isValidChecksum bytes sz))"

definition ma_inv :: "MemoryAllocator \<Rightarrow> (ma_ptr \<Rightarrow> int option) \<Rightarrow> bool" where
  "ma_inv m used \<longleftrightarrow> length (ma_mSmallBuckets m) = 15 \<and> length (ma_mLargeBuckets m) = 16 \<and>
     buckets_ok SmallBlock (ma_mSmallBuckets m) used \<and> buckets_ok LargeBlock (ma_mLargeBuckets m) used \<and> sizes_ok used m"

definition one_to_one :: "(nat \<Rightarrow> block \<Rightarrow> ma_ptr) \<Rightarrow> bool" where
  "one_to_one C \<longleftrightarrow> (\<forall>j b k d. C j b = C k d \<longleftrightarrow> j = k \<and> b = d)"

lemma one_to_oneD: "one_to_one C \<Longrightarrow> C j b = C k d \<longleftrightarrow> j = k \<and> b = d"
  unfolding one_to_one_def by blast

lemma held_upd:
  assumes "one_to_one C"
  shows "held_blocks C j (used(C j b := Some sz)) = insert b (held_blocks C j used)"
    "held_blocks C j (used(C j b := None)) = held_blocks C j used - {b}"
    "k \<noteq> j \<Longrightarrow> held_blocks C k (used(C j b := x)) = held_blocks C k used"
  using one_to_oneD [OF assms] by (auto simp: held_blocks_def split: if_splits)

lemma held_other: "(\<And>b. C j b \<noteq> q) \<Longrightarrow> held_blocks C j (used(q := x)) = held_blocks C j used"
  by (simp add: held_blocks_def)

lemma one_to_one_ptrs: "one_to_one SmallBlock" "one_to_one LargeBlock"
  by (simp_all add: one_to_one_def)

lemma bucket_Alloc_ok:
  assumes ok: "buckets_ok C bs used" and C: "one_to_one C" and j: "j < length bs" and f: "\<forall>p \<in> set bs. fresh_pair f1 f2 p"
  shows "\<exists>b bs'. bucket_Alloc (int j) t (Some f1) (Some f2) bs = Inr (Some b, bs') \<and> used (C j b) = None \<and>
    length bs' = length bs \<and> buckets_ok C bs' (used(C j b := Some sz))"
proof -
  have inv: "mp_inv ma_CHUNK_SIZE (bs ! j) (held_blocks C j used)" using ok j by (simp add: buckets_ok_def)
  have "fresh_pair f1 f2 (bs ! j)" using f j by simp
  then obtain b p where b: "mp_Alloc ma_CHUNK_SIZE t (Some f1) (Some f2) (bs ! j) = Inr (Some b, p)"
    "b \<notin> held_blocks C j used" "mp_inv ma_CHUNK_SIZE p (insert b (held_blocks C j used))"
    using mp_Alloc_ok [OF inv, of f1 f2 t] by (auto simp: fresh_pair_def ma_CHUNK_SIZE_def)
  have "buckets_ok C (bs[j := p]) (used(C j b := Some sz))"
    unfolding buckets_ok_def
  proof (intro allI impI)
    fix k assume "k < length (bs[j := p])"
    then show "mp_inv ma_CHUNK_SIZE (bs[j := p] ! k) (held_blocks C k (used(C j b := Some sz)))"
      using ok b(3) C by (cases "k = j") (simp_all add: held_upd buckets_ok_def)
  qed
  then show ?thesis using b(1,2) j
    by (intro exI [of _ b] exI [of _ "bs[j := p]"]) (simp add: bucket_Alloc_def held_blocks_def)
qed

lemma bucket_Free_ok:
  assumes ok: "buckets_ok C bs used" and C: "one_to_one C" and j: "j < length bs" and b: "used (C j b) \<noteq> None"
  shows "\<exists>bs'. bucket_Free (int j) b bs = Inr bs' \<and> length bs' = length bs \<and> buckets_ok C bs' (used(C j b := None))"
proof -
  have inv: "mp_inv ma_CHUNK_SIZE (bs ! j) (held_blocks C j used)" using ok j by (simp add: buckets_ok_def)
  obtain p where p: "mp_Free ma_CHUNK_SIZE (Some b) (bs ! j) = Inr p" "mp_inv ma_CHUNK_SIZE p (held_blocks C j used - {b})"
    using mp_Free_ok [OF inv, of b] b by (auto simp: held_blocks_def ma_CHUNK_SIZE_def)
  have "buckets_ok C (bs[j := p]) (used(C j b := None))"
    unfolding buckets_ok_def
  proof (intro allI impI)
    fix k assume "k < length (bs[j := p])"
    then show "mp_inv ma_CHUNK_SIZE (bs[j := p] ! k) (held_blocks C k (used(C j b := None)))"
      using ok p(2) C by (cases "k = j") (simp_all add: held_upd buckets_ok_def)
  qed
  then show ?thesis using p(1) j by (intro exI [of _ "bs[j := p]"]) (simp add: bucket_Free_def)
qed

lemma buckets_other:
  "(\<And>j b. C j b \<noteq> q) \<Longrightarrow> buckets_ok C bs (used(q := x)) \<longleftrightarrow> buckets_ok C bs used"
  by (simp add: buckets_ok_def held_other)

lemma checksum_round_trip:
  assumes "0 \<le> sz" "int (length bytes) = sz + 8"
  shows "length (ma_setChecksum bytes sz) = length bytes" "ma_isValidChecksum (ma_setChecksum bytes sz) sz"
  using assms by (simp_all add: ma_setChecksum_def ma_isValidChecksum_def copy_at_def)

lemma ma_inv_sizes:
  assumes "ma_inv m used"
  shows "used (SmallBlock j b) = Some sz \<Longrightarrow> 0 < sz \<and> sz \<le> 3840 \<and> int j = ma_getBucketIndex sz SMALL_STRIDE"
    "used (LargeBlock j b) = Some sz \<Longrightarrow> 3840 < sz \<and> sz \<le> 65536 \<and> int j = ma_getBucketIndex sz LARGE_STRIDE"
    "used (RawBlock a) = Some sz \<Longrightarrow> 65536 < sz \<and>
       (\<exists>bytes. ma_raw m a = Some bytes \<and> int (length bytes) = sz + 8 \<and> ma_isValidChecksum bytes sz)"
  using assms unfolding ma_inv_def sizes_ok_def by blast+

subsection \<open>Properties\<close>

text \<open>What the allocator's callers rely on: \<open>mi_malloc\<close> succeeds, its memory is not live, and has the size asked for.\<close>

definition fresh_for :: "nat \<Rightarrow> nat \<Rightarrow> nat \<times> byte list \<Rightarrow> int \<Rightarrow> MemoryAllocator \<Rightarrow> bool" where
  "fresh_for f1 f2 raw sz m \<longleftrightarrow>
     (\<forall>p \<in> set (ma_mSmallBuckets m) \<union> set (ma_mLargeBuckets m). fresh_pair f1 f2 p) \<and>
     ma_raw m (fst raw) = None \<and> int (length (snd raw)) = sz + 8"

lemma ma_Alloc_ok:
  assumes inv: "ma_inv m used" and sz: "0 < sz" and f: "fresh_for f1 f2 raw sz m"
  shows "\<exists>p m'. ma_Alloc t (Some f1) (Some f2) (Some raw) sz m = Inr (Some p, m') \<and> used p = None \<and> sz \<le> ma_capacity p m' \<and>
    ma_inv m' (used(p := Some sz))"
proof -
  consider "sz \<le> 3840" | "3840 < sz" "sz \<le> 65536" | "65536 < sz" by linarith
  then show ?thesis
  proof cases
    case 1
    define j where "j = nat (ma_getBucketIndex sz SMALL_STRIDE)"
    have j: "int j = ma_getBucketIndex sz SMALL_STRIDE" "sz \<le> (int j + 1) * 256" "j < 15"
      using bucket_index [of sz 256] bucket_index_less [of sz 256 15] sz 1 by (simp_all add: j_def ma_consts)
    obtain b bs where b: "bucket_Alloc (int j) t (Some f1) (Some f2) (ma_mSmallBuckets m) = Inr (Some b, bs)"
      "used (SmallBlock j b) = None" "length bs = 15" "buckets_ok SmallBlock bs (used(SmallBlock j b := Some sz))"
      using bucket_Alloc_ok [of SmallBlock "ma_mSmallBuckets m" used j f1 f2 t sz] inv f j(3) one_to_one_ptrs
      by (auto simp: ma_inv_def fresh_for_def)
    have "ma_inv (m\<lparr>ma_mSmallBuckets := bs\<rparr>) (used(SmallBlock j b := Some sz))"
      using inv b(3,4) sz 1 j(1) by (simp add: ma_inv_def buckets_other sizes_ok_def)
    moreover have "nat (ma_getBucketIndex sz 256) = j" by (simp add: j_def ma_consts)
    ultimately show ?thesis using b(1,2) sz 1 j
      by (intro exI [of _ "SmallBlock j b"] exI [of _ "m\<lparr>ma_mSmallBuckets := bs\<rparr>"]) (simp add: ma_Alloc_def ma_consts Let_def)
  next
    case 2
    define j where "j = nat (ma_getBucketIndex sz LARGE_STRIDE)"
    have j: "int j = ma_getBucketIndex sz LARGE_STRIDE" "sz \<le> (int j + 1) * 4096" "j < 16"
      using bucket_index [of sz 4096] bucket_index_less [of sz 4096 16] sz 2 by (simp_all add: j_def ma_consts)
    obtain b bs where b: "bucket_Alloc (int j) t (Some f1) (Some f2) (ma_mLargeBuckets m) = Inr (Some b, bs)"
      "used (LargeBlock j b) = None" "length bs = 16" "buckets_ok LargeBlock bs (used(LargeBlock j b := Some sz))"
      using bucket_Alloc_ok [of LargeBlock "ma_mLargeBuckets m" used j f1 f2 t sz] inv f j(3) one_to_one_ptrs
      by (auto simp: ma_inv_def fresh_for_def)
    have "ma_inv (m\<lparr>ma_mLargeBuckets := bs\<rparr>) (used(LargeBlock j b := Some sz))"
      using inv b(3,4) sz 2 j(1) by (simp add: ma_inv_def buckets_other sizes_ok_def)
    moreover have "nat (ma_getBucketIndex sz 4096) = j" by (simp add: j_def ma_consts)
    ultimately show ?thesis using b(1,2) sz 2 j
      by (intro exI [of _ "LargeBlock j b"] exI [of _ "m\<lparr>ma_mLargeBuckets := bs\<rparr>"]) (simp add: ma_Alloc_def ma_consts Let_def)
  next
    case 3
    obtain a bytes where raw: "raw = (a, bytes)" by fastforce
    let ?m = "m\<lparr>ma_raw := (ma_raw m)(a := Some (ma_setChecksum bytes sz))\<rparr>"
    have a: "ma_raw m a = None" "int (length bytes) = sz + 8" using f raw by (simp_all add: fresh_for_def)
    have "used (RawBlock a) = None"
    proof (rule ccontr)
      assume "used (RawBlock a) \<noteq> None"
      then show False using ma_inv_sizes(3) [OF inv, of a] a(1) by auto
    qed
    moreover have "ma_inv ?m (used(RawBlock a := Some sz))"
      using inv checksum_round_trip [of sz bytes] a(2) 3 by (auto simp: ma_inv_def buckets_other sizes_ok_def)
    ultimately show ?thesis using raw 3 a(2) checksum_round_trip(1) [of sz bytes]
      by (intro exI [of _ "RawBlock a"] exI [of _ ?m]) (simp add: ma_Alloc_def ma_consts)
  qed
qed

lemma ma_Free_ok:
  assumes inv: "ma_inv m used" and p: "used p = Some sz"
  shows "\<exists>m'. ma_Free (Some p) sz m = Inr m' \<and> ma_inv m' (used(p := None)) \<and> (\<forall>a. p = RawBlock a \<longrightarrow> ma_raw m' a = None)"
proof (cases p)
  case (SmallBlock j b)
  have j: "0 < sz" "sz \<le> 3840" "int j = ma_getBucketIndex sz SMALL_STRIDE" using ma_inv_sizes(1) [OF inv] p SmallBlock by blast+
  have "j < 15" using bucket_index_less [of sz 256 15] j by (simp add: ma_consts)
  then obtain bs where b: "bucket_Free (int j) b (ma_mSmallBuckets m) = Inr bs" "length bs = 15"
    "buckets_ok SmallBlock bs (used(SmallBlock j b := None))"
    using bucket_Free_ok [of SmallBlock "ma_mSmallBuckets m" used j b] inv p SmallBlock one_to_one_ptrs by (auto simp: ma_inv_def)
  have "ma_inv (m\<lparr>ma_mSmallBuckets := bs\<rparr>) (used(SmallBlock j b := None))"
    using inv b(2,3) by (simp add: ma_inv_def buckets_other sizes_ok_def)
  then show ?thesis using b(1) j SmallBlock
    by (intro exI [of _ "m\<lparr>ma_mSmallBuckets := bs\<rparr>"]) (simp add: ma_Free_def ma_consts Let_def)
next
  case (LargeBlock j b)
  have j: "3840 < sz" "sz \<le> 65536" "int j = ma_getBucketIndex sz LARGE_STRIDE" using ma_inv_sizes(2) [OF inv] p LargeBlock by blast+
  have "j < 16" using bucket_index_less [of sz 4096 16] j by (simp add: ma_consts)
  then obtain bs where b: "bucket_Free (int j) b (ma_mLargeBuckets m) = Inr bs" "length bs = 16"
    "buckets_ok LargeBlock bs (used(LargeBlock j b := None))"
    using bucket_Free_ok [of LargeBlock "ma_mLargeBuckets m" used j b] inv p LargeBlock one_to_one_ptrs by (auto simp: ma_inv_def)
  have "ma_inv (m\<lparr>ma_mLargeBuckets := bs\<rparr>) (used(LargeBlock j b := None))"
    using inv b(2,3) by (simp add: ma_inv_def buckets_other sizes_ok_def)
  then show ?thesis using b(1) j LargeBlock
    by (intro exI [of _ "m\<lparr>ma_mLargeBuckets := bs\<rparr>"]) (simp add: ma_Free_def ma_consts Let_def)
next
  case (RawBlock a)
  obtain bytes where a: "65536 < sz" "ma_raw m a = Some bytes" "ma_isValidChecksum bytes sz"
    using ma_inv_sizes(3) [OF inv] p RawBlock by blast
  let ?m = "m\<lparr>ma_raw := (ma_raw m)(a := None)\<rparr>"
  have "ma_inv ?m (used(RawBlock a := None))"
    using inv by (auto simp: ma_inv_def buckets_other sizes_ok_def)
  then show ?thesis using a RawBlock by (intro exI [of _ ?m]) (simp add: ma_Free_def ma_consts)
qed

text \<open>Clients allocate a positive number of bytes and free what they hold with the size they asked for.\<close>

inductive ma_step :: "MemoryAllocator \<times> (ma_ptr \<Rightarrow> int option) \<Rightarrow> MemoryAllocator \<times> (ma_ptr \<Rightarrow> int option) \<Rightarrow> bool" where
  alloc: "0 < sz \<Longrightarrow> fresh_for f1 f2 raw sz m \<Longrightarrow>
    ma_Alloc t (Some f1) (Some f2) (Some raw) sz m = Inr (Some p, m') \<Longrightarrow> ma_step (m, used) (m', used(p := Some sz))"
| free: "used p = Some sz \<Longrightarrow> ma_Free (Some p) sz m = Inr m' \<Longrightarrow> ma_step (m, used) (m', used(p := None))"

lemma ma_steps_inv: "ma_step\<^sup>*\<^sup>* (m, used) (m', used') \<Longrightarrow> ma_inv m used \<Longrightarrow> ma_inv m' used'"
proof (induction "(m', used')" arbitrary: m' used' rule: rtranclp_induct)
  case (step c)
  obtain q u where c: "c = (q, u)" by fastforce
  with step have inv: "ma_inv q u" by simp
  from step.hyps(2) [unfolded c] show ?case
  proof cases
    case (alloc sz f1 f2 raw t p)
    then show ?thesis using ma_Alloc_ok [OF inv, of sz f1 f2 raw t] by auto
  next
    case (free p sz)
    then show ?thesis using ma_Free_ok [OF inv, of p sz] by auto
  qed
qed

lemma ma_new_inv: "ma_inv (ma_new nxt sums) (\<lambda>_. None)"
proof -
  have "buckets_ok C (replicate n (mp_new nxt sums)) (\<lambda>_. None)" for C n
    using mp_new_inv [of ma_CHUNK_SIZE nxt sums] by (simp add: buckets_ok_def held_blocks_def)
  then show ?thesis by (simp add: ma_inv_def ma_new_def pool_counts sizes_ok_def)
qed

text \<open>C10: The memory allocator gives every request of a positive size a block that is at least that large and that no
  client holds, whatever was allocated and freed before, and freeing a block with the size it was allocated
  with always finds the pool or the checksum it belongs to.\<close>

theorem allocator_blocks_are_large_enough_and_exclusive:
  assumes "ma_step\<^sup>*\<^sup>* (ma_new nxt sums, \<lambda>_. None) (m, used)" "0 < sz" "fresh_for f1 f2 raw sz m"
  shows "(\<exists>p m'. ma_Alloc t (Some f1) (Some f2) (Some raw) sz m = Inr (Some p, m') \<and> used p = None \<and> sz \<le> ma_capacity p m') \<and>
    (\<forall>p n. used p = Some n \<longrightarrow> (\<exists>m'. ma_Free (Some p) n m = Inr m'))"
  using ma_Alloc_ok [OF ma_steps_inv [OF assms(1) ma_new_inv] assms(2,3), of t]
    ma_Free_ok [OF ma_steps_inv [OF assms(1) ma_new_inv]] by blast

definition demo_allocator :: MemoryAllocator where
  "demo_allocator = (ma_new (\<lambda>_. None) (\<lambda>_. 0))\<lparr>ma_raw := [9 \<mapsto> ma_setChecksum (replicate 70008 0) 70000]\<rparr>"

lemma demo_pools: "fresh_pair 1 2 (mp_new (\<lambda>_. None) (\<lambda>_. 0))"
  by (simp add: fresh_pair_def mp_new_def op_new_def)

lemma demo_allocation: "ma_step\<^sup>*\<^sup>* (ma_new (\<lambda>_. None) (\<lambda>_. 0), \<lambda>_. None) (demo_allocator, [RawBlock 9 \<mapsto> 70000])"
proof -
  let ?start = "ma_new (\<lambda>_. None) (\<lambda>_. 0)" and ?bytes = "replicate 70008 0"
  have a: "ma_Alloc 0 (Some 1) (Some 2) (Some (9, ?bytes)) 70000 ?start = Inr (Some (RawBlock 9), demo_allocator)"
    by (simp add: ma_Alloc_def ma_consts ma_new_def demo_allocator_def)
  have "fresh_for 1 2 (9, ?bytes) 70000 ?start" using demo_pools by (auto simp: fresh_for_def ma_new_def pool_counts)
  then show ?thesis using ma_step.alloc [OF _ _ a, of "\<lambda>_. None"] by auto
qed

lemma allocator_blocks_are_large_enough_and_exclusive_witness:
  "\<exists>p m' q. ma_Alloc 0 (Some 1) (Some 2) (Some (8, replicate 308 0)) 300 demo_allocator = Inr (Some p, m') \<and>
     p \<noteq> RawBlock 9 \<and> 300 \<le> ma_capacity p m' \<and> ma_Free (Some (RawBlock 9)) 70000 demo_allocator = Inr q"
proof -
  have "fresh_for 1 2 (8, replicate 308 0) 300 demo_allocator"
    using demo_pools by (auto simp: fresh_for_def ma_new_def pool_counts demo_allocator_def)
  from allocator_blocks_are_large_enough_and_exclusive [OF demo_allocation _ this, of 0]
  obtain p m' q where "ma_Alloc 0 (Some 1) (Some 2) (Some (8, replicate 308 0)) 300 demo_allocator = Inr (Some p, m')"
    "([RawBlock 9 \<mapsto> 70000] :: ma_ptr \<Rightarrow> int option) p = None" "300 \<le> ma_capacity p m'"
    "ma_Free (Some (RawBlock 9)) 70000 demo_allocator = Inr q"
    by fastforce
  then show ?thesis by (metis fun_upd_same option.distinct(1))
qed

text \<open>C12: Every pointer a client holds is of the kind that its size asks for, whatever was allocated and freed: a block of the
  small pool that rounds the size up to 256 bytes, of the large pool that rounds it up to 4096 bytes, or memory
  of its own with an intact checksum behind the data.\<close>

theorem held_pointers_are_of_their_size_class:
  assumes "ma_step\<^sup>*\<^sup>* (ma_new nxt sums, \<lambda>_. None) (m, used)" "used p = Some n"
  shows "case p of
      SmallBlock j b \<Rightarrow> 0 < n \<and> n \<le> 3840 \<and> int j = (n - 1) div 256
    | LargeBlock j b \<Rightarrow> 3840 < n \<and> n \<le> 65536 \<and> int j = (n - 1) div 4096
    | RawBlock a \<Rightarrow> 65536 < n \<and> (\<exists>bytes. ma_raw m a = Some bytes \<and> int (length bytes) = n + 8 \<and>
        take 8 (drop (nat n) bytes) = le_bytes ma_CHECKSUM_CODE)"
proof -
  have inv: "ma_inv m used" by (rule ma_steps_inv [OF assms(1) ma_new_inv])
  have index: "ma_getBucketIndex n stride = (n - 1) div stride" if "0 < n" "0 < stride" for stride
    using that by (simp add: ma_getBucketIndex_def signed_divide_int_def sgn_if)
  show ?thesis
    using ma_inv_sizes [OF inv] assms(2) index [of 256] index [of 4096]
    by (cases p) (fastforce simp: ma_consts ma_isValidChecksum_def)+
qed

lemma held_pointers_are_of_their_size_class_witness:
  "\<exists>bytes. ma_raw demo_allocator 9 = Some bytes \<and> int (length bytes) = 70008"
  using held_pointers_are_of_their_size_class [OF demo_allocation, of "RawBlock 9" 70000] by auto

text \<open>A negative size below -254 selects a bucket outside of the table: the assertion on the size is the only guard.\<close>

lemma negative_size_indexes_outside_the_table:
  assumes "sz < - 254"
  shows "ma_Alloc t f1 f2 raw sz m = Inl (BadIndex (ma_getBucketIndex sz SMALL_STRIDE)) \<and> ma_getBucketIndex sz SMALL_STRIDE < 0"
proof -
  have "256 \<le> 1 - sz" using assms by simp
  then have "1 \<le> (1 - sz) div 256" by (simp add: int_div_less_self)
  then have "ma_getBucketIndex sz SMALL_STRIDE < 0"
    using assms by (simp add: ma_getBucketIndex_def SMALL_STRIDE_def signed_divide_int_def sgn_if)
  then show ?thesis using assms by (simp add: ma_Alloc_def ma_consts bucket_Alloc_def Let_def)
qed

end
