(* ===== verification/Actors.thy ===== *)
theory Actors
  imports Engine_Prelude
begin

text \<open>
  Actor, ActorOverlapped, JobDispatcher and the message path of ActorScheduler (Actor.h, Actor.cpp,
  ActorOverlapped.cpp, JobDispatcher.cpp, ActorScheduler.h, ActorScheduler.cpp). The model follows one
  actor, the completion packets posted for it and any number of threads that post jobs to it or
  dispatch. A thread's step is one access to shared state. The job queue is the bounded list that
  LockFreeQueue implements (\<open>queue_answers_like_a_bounded_list\<close>); a job is a pointer that may be null,
  and executing it is recorded.
\<close>

subsection \<open>State and operations of an actor\<close>

record ActorOverlapped =
  ao_Internal :: int
  ao_InternalHigh :: int
  ao_Offset :: int
  ao_OffsetHigh :: int
  ao_hEvent :: bool
  ao_mpOwner :: bool

definition ao_new :: ActorOverlapped where
  "ao_new = \<lparr>ao_Internal = 0, ao_InternalHigh = 0, ao_Offset = 0, ao_OffsetHigh = 0, ao_hEvent = False, ao_mpOwner = False\<rparr>"

definition ao_GetOwner :: "ActorOverlapped \<Rightarrow> bool" where
  "ao_GetOwner o' = ao_mpOwner o'"

definition ao_SetOwner :: "ActorOverlapped \<Rightarrow> ActorOverlapped" where
  "ao_SetOwner o' = o'\<lparr>ao_mpOwner := True\<rparr>"

definition ao_ResetOwner :: "ActorOverlapped \<Rightarrow> ActorOverlapped" where
  "ao_ResetOwner o' = o'\<lparr>ao_mpOwner := False\<rparr>"

definition ao_ClearOverlapped :: "ActorOverlapped \<Rightarrow> ActorOverlapped" where
  "ao_ClearOverlapped o' =
     o'\<lparr>ao_Internal := 0, ao_InternalHigh := 0, ao_Offset := 0, ao_OffsetHigh := 0, ao_hEvent := False\<rparr>"

definition ao_Clear :: "ActorOverlapped \<Rightarrow> ActorOverlapped" where
  "ao_Clear o' = ao_ResetOwner (ao_ClearOverlapped o')"

definition ao_destroy :: "ActorOverlapped \<Rightarrow> ActorOverlapped" where
  "ao_destroy o' = ao_Clear o'"

lemmas ao_defs = ao_new_def ao_GetOwner_def ao_SetOwner_def ao_ResetOwner_def ao_ClearOverlapped_def ao_Clear_def

definition ac_DEFAULT_MAX_COUNT :: int where "ac_DEFAULT_MAX_COUNT = 65535"

record 'j Actor =
  ac_mActorOverlapped :: ActorOverlapped
  ac_mSeed :: int
  ac_mbAcquire :: bool
  ac_mJobQueue :: "'j option list"

text \<open>The constructor takes the next seed from the static counter.\<close>

definition ac_new :: "int \<Rightarrow> 'j Actor \<times> int" where
  "ac_new sSeedBase =
     (\<lparr>ac_mActorOverlapped = ao_new, ac_mSeed = sSeedBase, ac_mbAcquire = False, ac_mJobQueue = []\<rparr>, sSeedBase + 1)"

definition ac_TryAcquire :: "'j Actor \<Rightarrow> bool \<times> 'j Actor" where
  "ac_TryAcquire a = (\<not> ac_mbAcquire a, a\<lparr>ac_mbAcquire := True\<rparr>)"

definition ac_Release :: "'j Actor \<Rightarrow> 'j Actor" where
  "ac_Release a = a\<lparr>ac_mbAcquire := False\<rparr>"

definition ac_PushJob :: "'j option \<Rightarrow> 'j Actor \<Rightarrow> bool \<times> 'j Actor" where
  "ac_PushJob pJob a =
     (if ac_DEFAULT_MAX_COUNT \<le> int (length (ac_mJobQueue a)) then (False, a)
      else (True, a\<lparr>ac_mJobQueue := ac_mJobQueue a @ [pJob]\<rparr>))"

definition ac_GetJobCount :: "'j Actor \<Rightarrow> int" where
  "ac_GetJobCount a = int (length (ac_mJobQueue a))"

definition ac_GetSeed :: "'j Actor \<Rightarrow> int" where
  "ac_GetSeed a = ac_mSeed a"

text \<open>\<open>Execute\<close> returns the jobs it runs.\<close>

definition ac_Execute :: "'j Actor \<Rightarrow> 'j list \<times> 'j Actor" where
  "ac_Execute a =
     (case ac_mJobQueue a of
        [] \<Rightarrow> ([], a)
      | pJob # js \<Rightarrow> (case pJob of None \<Rightarrow> [] | Some j \<Rightarrow> [j], a\<lparr>ac_mJobQueue := js\<rparr>))"

text \<open>\<open>Actor::Flush\<close> runs every job of the queue; a null job is dereferenced.\<close>

fun ac_flush_loop :: "'j option list \<Rightarrow> 'j list option" where
  "ac_flush_loop [] = Some []"
| "ac_flush_loop (None # js) = None"
| "ac_flush_loop (Some j # js) = map_option (\<lambda>ks. j # ks) (ac_flush_loop js)"

definition ac_Flush :: "'j Actor \<Rightarrow> ('j list \<times> 'j Actor) option" where
  "ac_Flush a = map_option (\<lambda>js. (js, a\<lparr>ac_mJobQueue := []\<rparr>)) (ac_flush_loop (ac_mJobQueue a))"

definition ac_Count :: "'j Actor \<Rightarrow> int" where
  "ac_Count a = int (length (ac_mJobQueue a))"

definition ac_GetActorOverlapped :: "'j Actor \<Rightarrow> ActorOverlapped" where
  "ac_GetActorOverlapped a = ac_mActorOverlapped a"

definition ac_ClearActorOverlapped :: "'j Actor \<Rightarrow> 'j Actor" where
  "ac_ClearActorOverlapped a = a\<lparr>ac_mActorOverlapped := ao_Clear (ac_mActorOverlapped a)\<rparr>"

lemmas ac_defs = ac_TryAcquire_def ac_Release_def ac_PushJob_def ac_GetJobCount_def ac_Execute_def
  ac_ClearActorOverlapped_def

subsection \<open>Threads that post and dispatch\<close>

text \<open>
  \<open>sy_packets\<close> are the completion packets of the actor in the scheduler's port, \<open>sy_executed\<close> the jobs
  run so far.
\<close>

record 'j actor_sys =
  sy_actor :: "'j Actor"
  sy_packets :: nat
  sy_executed :: "'j list"

definition DEFAULT_EXECUTE_JOB_COUNT :: int where "DEFAULT_EXECUTE_JOB_COUNT = 50"

datatype 'j actor_pc =
    PushJob "'j option" | RegisterCheck
  | SchedClear | SchedSetOwner | SchedAcquire | SchedPost | SchedRelease
  | DispOwner | DispAcquire | DispCount | DispExecute nat | DispClear | DispRelease | Finished

definition on_actor :: "('j Actor \<Rightarrow> 'j Actor) \<Rightarrow> 'j actor_sys \<Rightarrow> 'j actor_sys" where
  "on_actor f s = s\<lparr>sy_actor := f (sy_actor s)\<rparr>"

text \<open>\<open>JobDispatcher::Post\<close>: push, and register when the push succeeded.\<close>

definition jd_Post_step :: "'j option \<Rightarrow> 'j actor_sys \<Rightarrow> 'j actor_pc \<times> 'j actor_sys" where
  "jd_Post_step pJob s =
     (case ac_PushJob pJob (sy_actor s) of
        (pushed, a) \<Rightarrow> (if \<not> pushed then Finished else RegisterCheck, s\<lparr>sy_actor := a\<rparr>))"

definition ac_Register_step :: "'j actor_sys \<Rightarrow> 'j actor_pc \<times> 'j actor_sys" where
  "ac_Register_step s = (if ac_GetJobCount (sy_actor s) > 0 then SchedClear else Finished, s)"

text \<open>\<open>posted\<close>: whether \<open>PostQueuedCompletionStatus\<close> succeeds.\<close>

fun as_Schedule_step :: "bool \<Rightarrow> 'j actor_pc \<Rightarrow> 'j actor_sys \<Rightarrow> 'j actor_pc \<times> 'j actor_sys" where
  "as_Schedule_step posted SchedClear s =
     (SchedSetOwner, on_actor (\<lambda>a. a\<lparr>ac_mActorOverlapped := ao_ClearOverlapped (ac_mActorOverlapped a)\<rparr>) s)"
| "as_Schedule_step posted SchedSetOwner s =
     (SchedAcquire, on_actor (\<lambda>a. a\<lparr>ac_mActorOverlapped := ao_SetOwner (ac_mActorOverlapped a)\<rparr>) s)"
| "as_Schedule_step posted SchedAcquire s =
     (case ac_TryAcquire (sy_actor s) of (b, a) \<Rightarrow> (if b then SchedPost else Finished, s\<lparr>sy_actor := a\<rparr>))"
| "as_Schedule_step posted SchedPost s =
     (SchedRelease, if posted then s\<lparr>sy_packets := sy_packets s + 1\<rparr> else s)"
| "as_Schedule_step posted SchedRelease s = (Finished, on_actor ac_Release s)"
| "as_Schedule_step posted pc s = (pc, s)"

text \<open>
  \<open>ActorScheduler::Dispatch\<close> from the packet on. \<open>E\<close> is \<open>mExecuteJobCount\<close>; the loop runs the number of
  jobs computed before it.
\<close>

fun as_Dispatch_step :: "int \<Rightarrow> 'j actor_pc \<Rightarrow> 'j actor_sys \<Rightarrow> 'j actor_pc \<times> 'j actor_sys" where
  "as_Dispatch_step E DispOwner s = (if ao_GetOwner (ac_mActorOverlapped (sy_actor s)) then DispAcquire else Finished, s)"
| "as_Dispatch_step E DispAcquire s =
     (case ac_TryAcquire (sy_actor s) of (b, a) \<Rightarrow> (if b then DispCount else Finished, s\<lparr>sy_actor := a\<rparr>))"
| "as_Dispatch_step E DispCount s =
     (let currentJobCount = ac_GetJobCount (sy_actor s);
          executeJobCount = (if E < currentJobCount then E else currentJobCount) in
      (DispExecute (nat executeJobCount), s))"
| "as_Dispatch_step E (DispExecute n) s =
     (case n of
        0 \<Rightarrow> (DispClear, s)
      | Suc m \<Rightarrow>
          (case ac_Execute (sy_actor s) of
             (js, a) \<Rightarrow> (DispExecute m, s\<lparr>sy_actor := a, sy_executed := sy_executed s @ js\<rparr>)))"
| "as_Dispatch_step E DispClear s = (DispRelease, on_actor ac_ClearActorOverlapped s)"
| "as_Dispatch_step E DispRelease s = (RegisterCheck, on_actor ac_Release s)"
| "as_Dispatch_step E pc s = (pc, s)"

fun actor_step :: "int \<Rightarrow> bool \<Rightarrow> 'j actor_pc \<Rightarrow> 'j actor_sys \<Rightarrow> 'j actor_pc \<times> 'j actor_sys" where
  "actor_step E posted (PushJob pJob) s = jd_Post_step pJob s"
| "actor_step E posted RegisterCheck s = ac_Register_step s"
| "actor_step E posted SchedClear s = as_Schedule_step posted SchedClear s"
| "actor_step E posted SchedSetOwner s = as_Schedule_step posted SchedSetOwner s"
| "actor_step E posted SchedAcquire s = as_Schedule_step posted SchedAcquire s"
| "actor_step E posted SchedPost s = as_Schedule_step posted SchedPost s"
| "actor_step E posted SchedRelease s = as_Schedule_step posted SchedRelease s"
| "actor_step E posted Finished s = (Finished, s)"
| "actor_step E posted pc s = as_Dispatch_step E pc s"

text \<open>
  A thread that has nothing to do may post a job or take a packet from the port. The second list of a
  run is the jobs that were accepted, in the order of their pushes.
\<close>

inductive ac_step :: "int \<Rightarrow> 'j actor_sys \<times> (nat \<Rightarrow> 'j actor_pc) \<Rightarrow> 'j option list \<Rightarrow> 'j actor_sys \<times> (nat \<Rightarrow> 'j actor_pc) \<Rightarrow> bool" for E where
  post: "pcs t = Finished \<Longrightarrow> ac_step E (s, pcs) [] (s, pcs(t := PushJob pJob))"
| take: "pcs t = Finished \<Longrightarrow> sy_packets s = Suc n \<Longrightarrow> ac_step E (s, pcs) [] (s\<lparr>sy_packets := n\<rparr>, pcs(t := DispOwner))"
| push: "pcs t = PushJob pJob \<Longrightarrow> jd_Post_step pJob s = (pc, s') \<Longrightarrow>
    ac_step E (s, pcs) (if pc = RegisterCheck then [pJob] else []) (s', pcs(t := pc))"
| run: "\<forall>pJob. pcs t \<noteq> PushJob pJob \<Longrightarrow> actor_step E posted (pcs t) s = (pc, s') \<Longrightarrow> ac_step E (s, pcs) [] (s', pcs(t := pc))"

inductive ac_run :: "int \<Rightarrow> 'j actor_sys \<times> (nat \<Rightarrow> 'j actor_pc) \<Rightarrow> 'j option list \<Rightarrow> 'j actor_sys \<times> (nat \<Rightarrow> 'j actor_pc) \<Rightarrow> bool" for E where
  start: "ac_run E c [] c"
| snoc: "ac_run E c js c' \<Longrightarrow> ac_step E c' ks c'' \<Longrightarrow> ac_run E c (js @ ks) c''"

definition ac_start :: "int \<Rightarrow> 'j actor_sys" where
  "ac_start seed = \<lparr>sy_actor = fst (ac_new seed), sy_packets = 0, sy_executed = []\<rparr>"

subsection \<open>Mutual exclusion and order\<close>

fun holds :: "'j actor_pc \<Rightarrow> bool" where
  "holds SchedPost = True" | "holds SchedRelease = True" | "holds DispCount = True" | "holds (DispExecute n) = True"
| "holds DispClear = True" | "holds DispRelease = True" | "holds pc = False"

definition excl :: "'j actor_sys \<times> (nat \<Rightarrow> 'j actor_pc) \<Rightarrow> bool" where
  "excl c \<longleftrightarrow> (ac_mbAcquire (sy_actor (fst c)) \<longleftrightarrow> (\<exists>t. holds (snd c t))) \<and>
     (\<forall>t u. holds (snd c t) \<longrightarrow> holds (snd c u) \<longrightarrow> t = u)"

definition fifo :: "'j actor_sys \<Rightarrow> 'j option list \<Rightarrow> bool" where
  "fifo s js \<longleftrightarrow> (\<exists>past. js = past @ ac_mJobQueue (sy_actor s) \<and> sy_executed s = map the (filter (\<lambda>j. j \<noteq> None) past))"

lemma exclI:
  assumes "excl (s, pcs)"
    and "holds pc \<longrightarrow> holds (pcs t) \<or> \<not> ac_mbAcquire (sy_actor s)"
    and "ac_mbAcquire (sy_actor s') \<longleftrightarrow> holds pc \<or> (ac_mbAcquire (sy_actor s) \<and> \<not> holds (pcs t))"
  shows "excl (s', pcs(t := pc))"
  using assms by (auto simp: excl_def)

lemmas step_defs = jd_Post_step_def ac_Register_step_def on_actor_def ac_defs

lemma actor_step_excl:
  assumes "excl (s, pcs)" "actor_step E posted (pcs t) s = (pc, s')"
  shows "excl (s', pcs(t := pc))"
proof -
  have flag: "holds (pcs t) \<Longrightarrow> ac_mbAcquire (sy_actor s)" using assms(1) by (auto simp: excl_def)
  show ?thesis
  proof (rule exclI [OF assms(1)])
    show "holds pc \<longrightarrow> holds (pcs t) \<or> \<not> ac_mbAcquire (sy_actor s)"
      using assms(2) by (cases "(E, posted, pcs t, s)" rule: actor_step.cases)
        (auto simp: step_defs split: if_splits nat.splits list.splits prod.splits)
    show "ac_mbAcquire (sy_actor s') \<longleftrightarrow> holds pc \<or> (ac_mbAcquire (sy_actor s) \<and> \<not> holds (pcs t))"
      using assms(2) flag by (cases "(E, posted, pcs t, s)" rule: actor_step.cases)
        (auto simp: step_defs Let_def split: if_splits nat.splits list.splits prod.splits)
  qed
qed

lemma excl_idle: "excl (s, pcs) \<Longrightarrow> ac_mbAcquire (sy_actor s') = ac_mbAcquire (sy_actor s) \<Longrightarrow> \<not> holds (pcs t) \<Longrightarrow> \<not> holds pc \<Longrightarrow>
    excl (s', pcs(t := pc))"
  by (rule exclI) auto

lemma ac_step_excl: "ac_step E c js c' \<Longrightarrow> excl c \<Longrightarrow> excl c'"
proof (induction rule: ac_step.induct)
  case (push pcs t pJob s pc s')
  then show ?case by (intro excl_idle [of s pcs]) (auto simp: jd_Post_step_def ac_PushJob_def split: if_splits)
next
  case (run pcs t posted s pc s')
  then show ?case using actor_step_excl by blast
qed (auto intro: excl_idle)

lemma actor_step_fifo:
  assumes "fifo s js" "actor_step E posted pc0 s = (pc, s')" "\<forall>pJob. pc0 \<noteq> PushJob pJob"
  shows "fifo s' js"
proof (cases "\<exists>m q qs. pc0 = DispExecute (Suc m) \<and> ac_mJobQueue (sy_actor s) = q # qs")
  case True
  then obtain m q qs where e: "pc0 = DispExecute (Suc m)" "ac_mJobQueue (sy_actor s) = q # qs" by blast
  obtain past where d: "js = past @ q # qs" "sy_executed s = map the (filter (\<lambda>j. j \<noteq> None) past)"
    using assms(1) e(2) by (auto simp: fifo_def)
  have "ac_mJobQueue (sy_actor s') = qs" "sy_executed s' = sy_executed s @ (case q of None \<Rightarrow> [] | Some j \<Rightarrow> [j])"
    using assms(2) e by (auto simp: ac_Execute_def split: prod.splits)
  then show ?thesis using d unfolding fifo_def
    by (intro exI [of _ "past @ [q]"]) (auto split: option.splits)
next
  case False
  have "ac_mJobQueue (sy_actor s') = ac_mJobQueue (sy_actor s) \<and> sy_executed s' = sy_executed s"
    using assms(2,3) False by (cases "(E, posted, pc0, s)" rule: actor_step.cases)
      (auto simp: step_defs Let_def split: if_splits nat.splits list.splits prod.splits)
  then show ?thesis using assms(1) by (simp add: fifo_def)
qed

lemma ac_step_fifo: "ac_step E c ks c' \<Longrightarrow> fifo (fst c) js \<Longrightarrow> fifo (fst c') (js @ ks)"
proof (induction rule: ac_step.induct)
  case (push pcs t pJob s pc s')
  then show ?case by (auto simp: fifo_def jd_Post_step_def ac_PushJob_def split: if_splits)
next
  case (run pcs t posted s pc s')
  then show ?case using actor_step_fifo [OF _ run(2,1)] by simp
qed (simp_all add: fifo_def)

lemma ac_run_inv:
  assumes "ac_run E (ac_start seed, \<lambda>_. Finished) js c"
  shows "excl c \<and> fifo (fst c) js"
  using assms
proof (induction "(ac_start seed :: 'a actor_sys, \<lambda>_ :: nat. Finished :: 'a actor_pc)" js c rule: ac_run.induct)
  case start
  then show ?case by (simp add: excl_def fifo_def ac_start_def ac_new_def)
next
  case (snoc js c' ks c'')
  then show ?case using ac_step_excl ac_step_fifo by blast
qed


text \<open>A schedule, to build concrete runs: thread \<open>t\<close> posts, takes a packet or makes its next step.\<close>

datatype 'j turn = Posts nat 'j | Takes nat | Runs nat

fun ac_exec1 :: "int \<Rightarrow> 'j turn \<Rightarrow> 'j actor_sys \<times> (nat \<Rightarrow> 'j actor_pc) \<Rightarrow> ('j option list \<times> 'j actor_sys \<times> (nat \<Rightarrow> 'j actor_pc)) option" where
  "ac_exec1 E (Posts t j) (s, pcs) =
     (case pcs t of Finished \<Rightarrow> Some ([], s, pcs(t := PushJob (Some j))) | _ \<Rightarrow> None)"
| "ac_exec1 E (Takes t) (s, pcs) =
     (case pcs t of
        Finished \<Rightarrow> (case sy_packets s of 0 \<Rightarrow> None | Suc n \<Rightarrow> Some ([], s\<lparr>sy_packets := n\<rparr>, pcs(t := DispOwner)))
      | _ \<Rightarrow> None)"
| "ac_exec1 E (Runs t) (s, pcs) =
     (case pcs t of
        PushJob pJob \<Rightarrow>
          (case jd_Post_step pJob s of
             (pc, s') \<Rightarrow> Some (case pc of RegisterCheck \<Rightarrow> [pJob] | _ \<Rightarrow> [], s', pcs(t := pc)))
      | _ \<Rightarrow> (case actor_step E True (pcs t) s of (pc, s') \<Rightarrow> Some ([], s', pcs(t := pc))))"

fun ac_exec :: "int \<Rightarrow> 'j turn list \<Rightarrow> 'j actor_sys \<times> (nat \<Rightarrow> 'j actor_pc) \<Rightarrow> ('j option list \<times> 'j actor_sys \<times> (nat \<Rightarrow> 'j actor_pc)) option" where
  "ac_exec E [] c = Some ([], c)"
| "ac_exec E (x # xs) c =
     (case ac_exec1 E x c of
        None \<Rightarrow> None
      | Some (ks, c') \<Rightarrow> map_option (\<lambda>(js, c''). (ks @ js, c'')) (ac_exec E xs c'))"

lemma ac_exec1_step: "ac_exec1 E x c = Some (ks, c') \<Longrightarrow> ac_step E c ks c'"
proof (cases "(E, x, c)" rule: ac_exec1.cases)
  case (3 E' t s pcs)
  assume x: "ac_exec1 E x c = Some (ks, c')"
  show ?thesis
  proof (cases "\<exists>pJob. pcs t = PushJob pJob")
    case True
    then obtain pJob where pJob: "pcs t = PushJob pJob" ..
    obtain pc s' where st: "jd_Post_step pJob s = (pc, s')" by fastforce
    have "(case pc of RegisterCheck \<Rightarrow> [pJob] | _ \<Rightarrow> []) = (if pc = RegisterCheck then [pJob] else [])"
      by (cases pc) simp_all
    then show ?thesis using x 3 pJob st ac_step.push [where pcs = pcs and t = t and E = E, OF pJob st] by simp
  next
    case False
    then have "ac_exec1 E x c = (case actor_step E True (pcs t) s of (pc, s') \<Rightarrow> Some ([], s', pcs(t := pc)))"
      using 3 by (cases "pcs t") simp_all
    then show ?thesis using x 3 False ac_step.run [of pcs t E True s] by (auto split: prod.splits)
  qed
qed (auto split: actor_pc.splits nat.splits intro: ac_step.intros)

lemma ac_run_trans: "ac_run E c' ks c'' \<Longrightarrow> ac_run E c js c' \<Longrightarrow> ac_run E c (js @ ks) c''"
proof (induction rule: ac_run.induct)
  case (snoc c' js2 c2 ks2 c3)
  then show ?case using ac_run.snoc [of E c "js @ js2" c2 ks2 c3] by simp
qed simp

lemma ac_exec_run: "ac_exec E xs c = Some (js, c') \<Longrightarrow> ac_run E c js c'"
proof (induction E xs c arbitrary: js rule: ac_exec.induct)
  case (1 E c)
  then show ?case by (auto intro: ac_run.start)
next
  case (2 E x xs c)
  then obtain ks c1 js2 where x: "ac_exec1 E x c = Some (ks, c1)" "ac_exec E xs c1 = Some (js2, c')" "js = ks @ js2"
    by (auto split: option.splits prod.splits)
  have "ac_run E c ks c1" using ac_run.snoc [OF ac_run.start ac_exec1_step [OF x(1)]] by simp
  then show ?case using ac_run_trans [OF "2.IH" [OF x(1) refl x(2)]] x(3) by simp
qed

definition lost_schedule :: "nat turn list" where
  "lost_schedule = Posts 0 7 # replicate 6 (Runs 0) @ [Takes 1, Runs 1, Runs 1, Runs 0]"


text \<open>C31: A wakeup can be lost: the packet is posted while Schedule still holds the actor, so a dispatcher that takes
  it at once fails to acquire the actor and drops it. After that every thread is idle, no packet is left, and the
  job that was accepted stays in the queue unexecuted.\<close>

theorem posted_job_can_be_stranded:
  "\<exists>s. ac_run DEFAULT_EXECUTE_JOB_COUNT (ac_start 0, \<lambda>_. Finished) [Some (7::nat)] (s, \<lambda>_. Finished) \<and>
     sy_packets s = 0 \<and> sy_executed s = [] \<and> ac_mJobQueue (sy_actor s) = [Some 7]"
proof -
  let ?c = "(ac_start 0, \<lambda>_. Finished) :: nat actor_sys \<times> (nat \<Rightarrow> nat actor_pc)"
  have "\<exists>s pcs. ac_exec DEFAULT_EXECUTE_JOB_COUNT lost_schedule ?c = Some ([Some 7], s, pcs) \<and>
     pcs 0 = Finished \<and> pcs 1 = Finished \<and> (\<forall>t. 1 < t \<longrightarrow> pcs t = Finished) \<and>
     sy_packets s = 0 \<and> sy_executed s = [] \<and> ac_mJobQueue (sy_actor s) = [Some 7]"
    by (simp add: lost_schedule_def numeral_eq_Suc ac_start_def ac_new_def ac_DEFAULT_MAX_COUNT_def step_defs ao_defs)
  then obtain s pcs where e: "ac_exec DEFAULT_EXECUTE_JOB_COUNT lost_schedule ?c = Some ([Some 7], s, pcs)"
    and idle: "pcs 0 = Finished" "pcs 1 = Finished" "\<And>t. 1 < t \<Longrightarrow> pcs t = Finished"
    and st: "sy_packets s = 0" "sy_executed s = []" "ac_mJobQueue (sy_actor s) = [Some 7]" by blast
  have "pcs t = Finished" for t by (cases "t = 0"; cases "t = 1") (use idle in auto)
  then have "pcs = (\<lambda>_. Finished)" by blast
  then show ?thesis using ac_exec_run [OF e] st by blast
qed

subsection \<open>Dispatching without interference\<close>

text \<open>
  \<open>as_Dispatch\<close> is one call of \<open>Dispatch\<close> that no other thread interferes with: it takes a packet if there
  is one and runs to the end. The fuel covers the jobs of one packet and the ten other steps.
\<close>

fun drive :: "nat \<Rightarrow> int \<Rightarrow> 'j actor_pc \<Rightarrow> 'j actor_sys \<Rightarrow> 'j actor_pc \<times> 'j actor_sys" where
  "drive 0 E pc s = (pc, s)"
| "drive (Suc k) E pc s = (case actor_step E True pc s of (pc', s') \<Rightarrow> drive k E pc' s')"

definition as_Dispatch :: "int \<Rightarrow> 'j actor_sys \<Rightarrow> 'j actor_sys" where
  "as_Dispatch E s =
     (case sy_packets s of
        0 \<Rightarrow> s
      | Suc n \<Rightarrow> snd (drive (nat E + 15) E DispOwner (s\<lparr>sy_packets := n\<rparr>)))"

text \<open>
  \<open>ready q past s\<close>: the actor is free, its queue is \<open>q\<close>, it has executed \<open>past\<close>, and if there are jobs a packet
  is posted for it.
\<close>

definition ready :: "'j option list \<Rightarrow> 'j list \<Rightarrow> 'j actor_sys \<Rightarrow> bool" where
  "ready q past s \<longleftrightarrow> \<not> ac_mbAcquire (sy_actor s) \<and> ac_mJobQueue (sy_actor s) = q \<and> sy_executed s = past \<and>
     (q \<noteq> [] \<longrightarrow> ao_mpOwner (ac_mActorOverlapped (sy_actor s)) \<and> 0 < sy_packets s)"

definition jobs :: "'j option list \<Rightarrow> 'j list" where
  "jobs q = map the (filter (\<lambda>j. j \<noteq> None) q)"

lemma jobs_simps [simp]: "jobs [] = []" "jobs (q # qs) = (case q of None \<Rightarrow> [] | Some j \<Rightarrow> [j]) @ jobs qs"
  "jobs (xs @ ys) = jobs xs @ jobs ys"
  by (auto simp: jobs_def split: option.split)

lemma drive_finished [simp]: "drive k E Finished s = (Finished, s)"
  by (induction k) simp_all

lemma drive_execute:
  "n \<le> length (ac_mJobQueue (sy_actor s)) \<Longrightarrow>
   drive (n + k) E (DispExecute n) s = drive k E (DispExecute 0)
     (s\<lparr>sy_actor := (sy_actor s)\<lparr>ac_mJobQueue := drop n (ac_mJobQueue (sy_actor s))\<rparr>,
        sy_executed := sy_executed s @ jobs (take n (ac_mJobQueue (sy_actor s)))\<rparr>)"
proof (induction n arbitrary: s)
  case (Suc n)
  obtain q qs where q: "ac_mJobQueue (sy_actor s) = q # qs" using Suc.prems by (cases "ac_mJobQueue (sy_actor s)") simp_all
  let ?s = "s\<lparr>sy_actor := (sy_actor s)\<lparr>ac_mJobQueue := qs\<rparr>,
      sy_executed := sy_executed s @ (case q of None \<Rightarrow> [] | Some j \<Rightarrow> [j])\<rparr>"
  have "drive (Suc n + k) E (DispExecute (Suc n)) s = drive (n + k) E (DispExecute n) ?s"
    using q by (simp add: ac_Execute_def)
  then show ?case using Suc.IH [of ?s] Suc.prems q by (cases q) simp_all
qed simp

lemma drive_after_jobs:
  "ready (ac_mJobQueue (sy_actor s)) (sy_executed s) (snd (drive (k + 9) E (DispExecute 0) s))"
  by (simp add: numeral_eq_Suc step_defs ao_defs ready_def)

lemma dispatch_ready:
  assumes "ready q past s" "0 < E"
  shows "ready (drop (nat E) q) (past @ jobs (take (nat E) q)) (as_Dispatch E s)"
proof (cases "sy_packets s = 0 \<or> \<not> ao_mpOwner (ac_mActorOverlapped (sy_actor s))")
  case True
  then have "q = []" using assms(1) by (auto simp: ready_def)
  then show ?thesis using True assms(1)
    by (cases "sy_packets s") (simp_all add: as_Dispatch_def ready_def numeral_eq_Suc ao_defs)
next
  case False
  then obtain n where n: "sy_packets s = Suc n" by (cases "sy_packets s") auto
  let ?q = "ac_mJobQueue (sy_actor s)" and ?s = "s\<lparr>sy_packets := n, sy_actor := (sy_actor s)\<lparr>ac_mbAcquire := True\<rparr>\<rparr>"
  define m where "m = nat (if E < int (length ?q) then E else int (length ?q))"
  have m: "m \<le> length ?q" "m \<le> nat E" "take m ?q = take (nat E) ?q" "drop m ?q = drop (nat E) ?q"
    using assms(2) by (auto simp: m_def)
  define s2 where "s2 = ?s\<lparr>sy_actor := (sy_actor ?s)\<lparr>ac_mJobQueue := drop m ?q\<rparr>, sy_executed := sy_executed s @ jobs (take m ?q)\<rparr>"
  have "drive (nat E + 15) E DispOwner (s\<lparr>sy_packets := n\<rparr>) = drive (nat E + 12) E (DispExecute m) ?s"
    using False assms(1) by (simp add: numeral_eq_Suc ao_defs ac_defs ready_def m_def Let_def)
  also have "nat E + 12 = m + ((nat E - m + 3) + 9)" using m(2) by simp
  also have "drive (m + ((nat E - m + 3) + 9)) E (DispExecute m) ?s = drive ((nat E - m + 3) + 9) E (DispExecute 0) s2"
    using m(1) by (subst drive_execute) (simp_all add: s2_def)
  finally have "as_Dispatch E s = snd (drive ((nat E - m + 3) + 9) E (DispExecute 0) s2)" by (simp add: as_Dispatch_def n)
  then have "ready (ac_mJobQueue (sy_actor s2)) (sy_executed s2) (as_Dispatch E s)" using drive_after_jobs by metis
  then show ?thesis using assms(1) m(3,4) by (simp add: s2_def ready_def)
qed

lemma dispatches_ready:
  "ready q past s \<Longrightarrow> 0 < E \<Longrightarrow> ready (drop (k * nat E) q) (past @ jobs (take (k * nat E) q)) ((as_Dispatch E ^^ k) s)"
proof (induction k)
  case (Suc k)
  have "take (Suc k * nat E) q = take (k * nat E) q @ take (nat E) (drop (k * nat E) q)"
    by (simp add: take_add [symmetric] add.commute)
  then show ?case using dispatch_ready [OF Suc.IH [OF Suc.prems] Suc.prems(2)] by (simp add: add.commute)
qed simp

text \<open>One call of \<open>JobDispatcher::Post\<close> without interference.\<close>

definition jd_Post :: "'j option \<Rightarrow> 'j actor_sys \<Rightarrow> 'j actor_sys" where
  "jd_Post pJob s = snd (drive 8 0 (PushJob pJob) s)"

lemma post_ready:
  "ready q past s \<Longrightarrow> int (length q) < ac_DEFAULT_MAX_COUNT \<Longrightarrow> ready (q @ [pJob]) past (jd_Post pJob s)"
  by (simp add: jd_Post_def numeral_eq_Suc step_defs ao_defs ready_def)

lemma posts_ready:
  "ready q past s \<Longrightarrow> int (length q + length js) \<le> ac_DEFAULT_MAX_COUNT \<Longrightarrow> ready (q @ js) past (fold jd_Post js s)"
proof (induction js arbitrary: q s)
  case (Cons j js)
  then show ?case using Cons.IH [OF post_ready [OF Cons.prems(1), of j]] by simp
qed simp

lemma start_ready: "ready [] [] (ac_start seed)"
  by (simp add: ready_def ac_start_def ac_new_def)

text \<open>When nobody interferes, posting and dispatching make progress: after up to 65535 jobs have been posted to an
  idle actor, each Dispatch runs the next mExecuteJobCount jobs and posts a packet for the rest, so
  enough calls run every job, once and in the order of the posts, and leave the queue empty.\<close>

theorem posted_jobs_run_in_order:
  assumes "length js \<le> 65535" "0 < E" "length js \<le> k * nat E"
  shows "ac_mJobQueue (sy_actor ((as_Dispatch E ^^ k) (fold jd_Post js (ac_start seed)))) = [] \<and>
    sy_executed ((as_Dispatch E ^^ k) (fold jd_Post js (ac_start seed))) = jobs js"
proof -
  have "ready js [] (fold jd_Post js (ac_start seed))"
    using posts_ready [OF start_ready, of js seed] assms(1) by (simp add: ac_DEFAULT_MAX_COUNT_def)
  then show ?thesis using dispatches_ready [of js "[]" _ E k] assms(2,3) by (simp add: ready_def)
qed

lemma posted_jobs_run_in_order_witness:
  "sy_executed ((as_Dispatch 2 ^^ 2) (fold jd_Post [Some 4, None, Some (6::nat)] (ac_start 0))) = [4, 6]"
  using posted_jobs_run_in_order [of "[Some 4, None, Some (6::nat)]" 2 2 0] by simp

end
