(* ===== verification/Scoped_Actors.thy ===== *)
theory Scoped_Actors
  imports Actors
begin

text \<open>
  ScopedActor (ScopedActor.h, ScopedActor.cpp): a job queue whose jobs run while several actors are
  held. An actor is its seed; \<open>sf_flags\<close> is \<open>mbAcquire\<close> of every actor. A call runs without
  interference, so a flag does not change while \<open>tryAcquireAll\<close> spins on it.
\<close>

subsection \<open>State and operations\<close>

definition sc_DEFAULT_SPIN_COUNT :: int where "sc_DEFAULT_SPIN_COUNT = 5000"

record 'j ScopedActor =
  sc_mActorOverlapped :: ActorOverlapped
  sc_mSpinCount :: int
  sc_mAcquireIndex :: int
  sc_mActors :: "int list"
  sc_mJobQueue :: "'j option list"

text \<open>\<open>std::unique\<close> removes equal neighbours; the sort comes after it.\<close>

definition sc_new :: "int list \<Rightarrow> 'j ScopedActor" where
  "sc_new args =
     \<lparr>sc_mActorOverlapped = ao_new, sc_mSpinCount = sc_DEFAULT_SPIN_COUNT, sc_mAcquireIndex = - 1,
      sc_mActors = sort (remdups_adj args), sc_mJobQueue = []\<rparr>"

definition sc_SetSpinCount :: "int \<Rightarrow> 'j ScopedActor \<Rightarrow> 'j ScopedActor" where
  "sc_SetSpinCount spinCount a = a\<lparr>sc_mSpinCount := spinCount\<rparr>"

definition sc_GetSpinCount :: "'j ScopedActor \<Rightarrow> int" where
  "sc_GetSpinCount a = sc_mSpinCount a"

definition sc_PushJob :: "'j option \<Rightarrow> 'j ScopedActor \<Rightarrow> bool \<times> 'j ScopedActor" where
  "sc_PushJob pJob a =
     (if ac_DEFAULT_MAX_COUNT \<le> int (length (sc_mJobQueue a)) then (False, a)
      else (True, a\<lparr>sc_mJobQueue := sc_mJobQueue a @ [pJob]\<rparr>))"

definition sc_GetJobCount :: "'j ScopedActor \<Rightarrow> int" where
  "sc_GetJobCount a = int (length (sc_mJobQueue a))"

definition sc_Execute :: "'j ScopedActor \<Rightarrow> 'j list \<times> 'j ScopedActor" where
  "sc_Execute a =
     (case sc_mJobQueue a of
        [] \<Rightarrow> ([], a)
      | pJob # js \<Rightarrow> (case pJob of None \<Rightarrow> [] | Some j \<Rightarrow> [j], a\<lparr>sc_mJobQueue := js\<rparr>))"

definition sc_Flush :: "'j ScopedActor \<Rightarrow> ('j list \<times> 'j ScopedActor) option" where
  "sc_Flush a = map_option (\<lambda>js. (js, a\<lparr>sc_mJobQueue := []\<rparr>)) (ac_flush_loop (sc_mJobQueue a))"

type_synonym flags = "int \<Rightarrow> bool"

text \<open>The inner loop of \<open>tryAcquireAll\<close> on one actor, and the outer loop from index \<open>i\<close> on.\<close>

fun sc_spin :: "nat \<Rightarrow> int \<Rightarrow> flags \<Rightarrow> bool \<times> flags" where
  "sc_spin 0 a f = (False, f)"
| "sc_spin (Suc k) a f = (if \<not> f a then (True, f(a := True)) else sc_spin k a (f(a := True)))"

fun sc_acquire_loop :: "nat \<Rightarrow> int \<Rightarrow> int list \<Rightarrow> int \<Rightarrow> flags \<Rightarrow> bool \<times> int \<times> flags" where
  "sc_acquire_loop spins i [] acquireIndex f = (True, acquireIndex, f)"
| "sc_acquire_loop spins i (a # as) acquireIndex f =
     (case sc_spin spins a f of
        (got, f') \<Rightarrow>
          (let acquireIndex' = (if got then i else acquireIndex) in
           if acquireIndex' \<noteq> i then (False, acquireIndex', f')
           else sc_acquire_loop spins (i + 1) as acquireIndex' f'))"

definition sc_tryAcquireAll :: "flags \<Rightarrow> 'j ScopedActor \<Rightarrow> bool \<times> flags \<times> 'j ScopedActor" where
  "sc_tryAcquireAll f a =
     (case sc_acquire_loop (nat (sc_GetSpinCount a)) 0 (sc_mActors a) (sc_mAcquireIndex a) f of
        (b, i, f') \<Rightarrow> (b, f', a\<lparr>sc_mAcquireIndex := i\<rparr>))"

text \<open>The loop of \<open>Release\<close>, from index \<open>n - 1\<close> down.\<close>

fun sc_release_loop :: "nat \<Rightarrow> int list \<Rightarrow> flags \<Rightarrow> flags" where
  "sc_release_loop 0 as f = f"
| "sc_release_loop (Suc n) as f = sc_release_loop n as (f(as ! n := False))"

definition sc_Release :: "flags \<Rightarrow> 'j ScopedActor \<Rightarrow> flags \<times> 'j ScopedActor" where
  "sc_Release f a = (sc_release_loop (nat (sc_mAcquireIndex a + 1)) (sc_mActors a) f, a\<lparr>sc_mAcquireIndex := - 1\<rparr>)"

definition sc_TryAcquire :: "flags \<Rightarrow> 'j ScopedActor \<Rightarrow> bool \<times> flags \<times> 'j ScopedActor" where
  "sc_TryAcquire f a =
     (case sc_tryAcquireAll f a of
        (b, f', a') \<Rightarrow> if \<not> b then (False, sc_Release f' a') else (True, f', a'))"

subsection \<open>The scheduler with a scoped actor\<close>

record 'j scoped_sys =
  sf_actor :: "'j ScopedActor"
  sf_flags :: flags
  sf_packets :: nat
  sf_executed :: "'j list"

text \<open>\<open>Register\<close> bypasses the acquisition: every call posts a packet.\<close>

definition sc_Register :: "'j scoped_sys \<Rightarrow> 'j scoped_sys" where
  "sc_Register s =
     (if sc_GetJobCount (sf_actor s) > 0 then
        s\<lparr>sf_actor := (sf_actor s)\<lparr>sc_mActorOverlapped := ao_SetOwner (ao_ClearOverlapped (sc_mActorOverlapped (sf_actor s)))\<rparr>,
          sf_packets := sf_packets s + 1\<rparr>
      else s)"

definition sc_Post :: "'j option \<Rightarrow> 'j scoped_sys \<Rightarrow> 'j scoped_sys" where
  "sc_Post pJob s =
     (case sc_PushJob pJob (sf_actor s) of
        (pushed, a) \<Rightarrow> if \<not> pushed then s\<lparr>sf_actor := a\<rparr> else sc_Register (s\<lparr>sf_actor := a\<rparr>))"

fun sc_execute_loop :: "nat \<Rightarrow> 'j scoped_sys \<Rightarrow> 'j scoped_sys" where
  "sc_execute_loop 0 s = s"
| "sc_execute_loop (Suc n) s =
     (case sc_Execute (sf_actor s) of
        (js, a) \<Rightarrow> sc_execute_loop n (s\<lparr>sf_actor := a, sf_executed := sf_executed s @ js\<rparr>))"

text \<open>\<open>ActorScheduler::Dispatch\<close> of a packet of the scoped actor; \<open>E\<close> is \<open>mExecuteJobCount\<close>.\<close>

definition sc_Dispatch :: "int \<Rightarrow> 'j scoped_sys \<Rightarrow> 'j scoped_sys" where
  "sc_Dispatch E s =
     (case sf_packets s of
        0 \<Rightarrow> s
      | Suc n \<Rightarrow>
          (let s1 = s\<lparr>sf_packets := n\<rparr> in
           if \<not> ao_GetOwner (sc_mActorOverlapped (sf_actor s1)) then s1
           else case sc_TryAcquire (sf_flags s1) (sf_actor s1) of
             (b, f, a) \<Rightarrow>
               (let s2 = s1\<lparr>sf_flags := f, sf_actor := a\<rparr> in
                if \<not> b then s2
                else
                  let currentJobCount = sc_GetJobCount (sf_actor s2);
                      s3 = sc_execute_loop (nat (if E < currentJobCount then E else currentJobCount)) s2;
                      a3 = (sf_actor s3)\<lparr>sc_mActorOverlapped := ao_Clear (sc_mActorOverlapped (sf_actor s3))\<rparr>;
                      (f4, a4) = sc_Release (sf_flags s3) a3 in
                  sc_Register (s3\<lparr>sf_flags := f4, sf_actor := a4\<rparr>))))"

subsection \<open>Acquiring and releasing\<close>

definition set_flags :: "int set \<Rightarrow> bool \<Rightarrow> flags \<Rightarrow> flags" where
  "set_flags A b f = (\<lambda>a. if a \<in> A then b else f a)"

lemma set_flags_simps [simp]: "set_flags {} b f = f"
  by (auto simp: set_flags_def)

lemma set_flags_first: "set_flags A True (f(a := True)) = set_flags (insert a A) True f"
  by (rule ext) (auto simp: set_flags_def)

lemma set_flags_single [simp]: "set_flags {a} True f = f(a := True)"
  by (rule ext) (auto simp: set_flags_def)

lemma set_flags_last: "set_flags A False (f(a := False)) = set_flags (insert a A) False f"
  by (rule ext) (auto simp: set_flags_def)

lemma spin_free: "0 < k \<Longrightarrow> \<not> f a \<Longrightarrow> sc_spin k a f = (True, f(a := True))"
  by (cases k) simp_all

lemma spin_busy: "f a \<Longrightarrow> sc_spin k a f = (False, f)"
  by (induction k) (simp_all add: fun_upd_idem)

lemma acquire_free:
  "0 < k \<Longrightarrow> distinct as \<Longrightarrow> \<forall>a \<in> set as. \<not> f a \<Longrightarrow>
   sc_acquire_loop k i as j f = (True, if as = [] then j else i + int (length as) - 1, set_flags (set as) True f)"
proof (induction as arbitrary: i j f)
  case (Cons a as)
  define g where "g = f(a := True)"
  have spin: "sc_spin k a f = (True, g)" using Cons.prems by (simp add: spin_free g_def)
  have "\<forall>b \<in> set as. \<not> g b" using Cons.prems by (auto simp: g_def)
  then have "sc_acquire_loop k (i + 1) as i g = (True, if as = [] then i else i + 1 + int (length as) - 1, set_flags (set as) True g)"
    using Cons.prems by (intro Cons.IH) simp_all
  then show ?case using spin by (simp add: Let_def) (simp add: g_def set_flags_first)
qed simp

text \<open>When an actor is busy or repeated, the loop stops there with the actors before it acquired.\<close>

lemma acquire_busy:
  "0 < k \<Longrightarrow> distinct as \<Longrightarrow> \<forall>a \<in> set as. \<not> f a \<Longrightarrow> f b \<or> b \<in> set as \<Longrightarrow> j < i \<Longrightarrow>
   sc_acquire_loop k i (as @ b # cs) j f =
     (False, if as = [] then j else i + int (length as) - 1, set_flags (set as) True f)"
proof (induction as arbitrary: i j f)
  case Nil
  then show ?case by (simp add: spin_busy Let_def)
next
  case (Cons a as)
  define g where "g = f(a := True)"
  have spin: "sc_spin k a f = (True, g)" using Cons.prems by (simp add: spin_free g_def)
  have "\<forall>c \<in> set as. \<not> g c" "g b \<or> b \<in> set as" using Cons.prems by (auto simp: g_def)
  then have "sc_acquire_loop k (i + 1) (as @ b # cs) i g =
      (False, if as = [] then i else i + 1 + int (length as) - 1, set_flags (set as) True g)"
    using Cons.prems by (intro Cons.IH) simp_all
  then show ?case using spin by (simp add: Let_def) (simp add: g_def set_flags_first)
qed

lemma release_prefix: "n \<le> length as \<Longrightarrow> sc_release_loop n as f = set_flags (set (take n as)) False f"
proof (induction n arbitrary: f)
  case (Suc n)
  then show ?case by (simp add: take_Suc_conv_app_nth set_flags_last)
qed simp

lemma first_obstacle:
  assumes "(\<exists>a \<in> set as. f a) \<or> \<not> distinct as"
  shows "\<exists>xs b ys. as = xs @ b # ys \<and> distinct xs \<and> (\<forall>a \<in> set xs. \<not> f a) \<and> (f b \<or> b \<in> set xs)"
  using assms
proof (induction as rule: rev_induct)
  case (snoc b as)
  show ?case
  proof (cases "(\<exists>a \<in> set as. f a) \<or> \<not> distinct as")
    case True
    then obtain xs c ys where "as = xs @ c # ys \<and> distinct xs \<and> (\<forall>a \<in> set xs. \<not> f a) \<and> (f c \<or> c \<in> set xs)"
      using snoc.IH by blast
    then show ?thesis by (intro exI [of _ xs] exI [of _ c] exI [of _ "ys @ [b]"]) simp
  next
    case False
    then show ?thesis using snoc.prems by (intro exI [of _ as] exI [of _ b] exI [of _ "[]"]) auto
  qed
qed simp

lemma set_flags_undo: "\<forall>a \<in> A. \<not> f a \<Longrightarrow> set_flags A False (set_flags A True f) = f"
  by (rule ext) (auto simp: set_flags_def)

text \<open>Acquisition is all or nothing.\<close>

lemma TryAcquire_free:
  assumes "0 < sc_mSpinCount a" "sc_mAcquireIndex a = - 1" "distinct (sc_mActors a)" "\<forall>x \<in> set (sc_mActors a). \<not> f x"
  shows "sc_TryAcquire f a = (True, set_flags (set (sc_mActors a)) True f, a\<lparr>sc_mAcquireIndex := int (length (sc_mActors a)) - 1\<rparr>)"
  using assms acquire_free [of "nat (sc_mSpinCount a)" "sc_mActors a" f 0 "- 1"]
  by (auto simp: sc_TryAcquire_def sc_tryAcquireAll_def sc_GetSpinCount_def)

lemma TryAcquire_busy:
  assumes "0 < sc_mSpinCount a" "sc_mAcquireIndex a = - 1" "(\<exists>x \<in> set (sc_mActors a). f x) \<or> \<not> distinct (sc_mActors a)"
  shows "sc_TryAcquire f a = (False, f, a)"
proof -
  obtain xs b ys where x: "sc_mActors a = xs @ b # ys" "distinct xs" "\<forall>x \<in> set xs. \<not> f x" "f b \<or> b \<in> set xs"
    using first_obstacle [OF assms(3)] by blast
  have "sc_acquire_loop (nat (sc_mSpinCount a)) 0 (xs @ b # ys) (- 1) f = (False, int (length xs) - 1, set_flags (set xs) True f)"
    using acquire_busy [of "nat (sc_mSpinCount a)" xs f b "- 1" 0 ys] assms(1) x by auto
  moreover have "sc_release_loop (length xs) (xs @ b # ys) (set_flags (set xs) True f) = f"
    using release_prefix [of "length xs" "xs @ b # ys" "set_flags (set xs) True f"] set_flags_undo [OF x(3)] by simp
  moreover have "a\<lparr>sc_mAcquireIndex := - 1\<rparr> = a" using assms(2) by (cases a) simp
  ultimately show ?thesis
    by (simp add: sc_TryAcquire_def sc_tryAcquireAll_def sc_GetSpinCount_def sc_Release_def assms(2) x(1))
qed

subsection \<open>Dispatching\<close>

text \<open>What executing the first \<open>n\<close> jobs runs: a null job is taken from the queue and skipped.\<close>

definition jobs_of :: "'j option list \<Rightarrow> 'j list" where
  "jobs_of js = concat (map (\<lambda>p. case p of None \<Rightarrow> [] | Some j \<Rightarrow> [j]) js)"

lemma jobs_of_simps [simp]: "jobs_of [] = []" "jobs_of (Some j # js) = j # jobs_of js" "jobs_of (None # js) = jobs_of js"
  by (simp_all add: jobs_of_def)

lemma execute_loop_result:
  "sc_execute_loop n s =
     s\<lparr>sf_actor := (sf_actor s)\<lparr>sc_mJobQueue := drop n (sc_mJobQueue (sf_actor s))\<rparr>,
       sf_executed := sf_executed s @ jobs_of (take n (sc_mJobQueue (sf_actor s)))\<rparr>"
proof (induction n arbitrary: s)
  case (Suc n)
  show ?case
    by (cases "sc_mJobQueue (sf_actor s)") (simp_all add: sc_Execute_def Suc.IH split: option.splits)
qed simp

definition sc_idle :: "'j ScopedActor \<Rightarrow> bool" where
  "sc_idle a \<longleftrightarrow> 0 < sc_mSpinCount a \<and> sc_mAcquireIndex a = - 1"

definition sc_free :: "'j scoped_sys \<Rightarrow> bool" where
  "sc_free s \<longleftrightarrow> distinct (sc_mActors (sf_actor s)) \<and> (\<forall>x \<in> set (sc_mActors (sf_actor s)). \<not> sf_flags s x)"

lemma Release_after_acquire:
  assumes "sc_mAcquireIndex a = int (length (sc_mActors a)) - 1" "\<forall>x \<in> set (sc_mActors a). \<not> f x"
  shows "sc_Release (set_flags (set (sc_mActors a)) True f) a = (f, a\<lparr>sc_mAcquireIndex := - 1\<rparr>)"
  using assms release_prefix [of "length (sc_mActors a)" "sc_mActors a" "set_flags (set (sc_mActors a)) True f"]
    set_flags_undo [OF assms(2)]
  by (simp add: sc_Release_def)

text \<open>The two outcomes of a dispatch.\<close>

lemma Dispatch_free:
  assumes "sc_idle (sf_actor s)" "ao_GetOwner (sc_mActorOverlapped (sf_actor s))" "sf_packets s = Suc n" "0 \<le> E" "sc_free s"
  shows "sc_Dispatch E s =
     sc_Register (s\<lparr>sf_packets := n,
       sf_executed := sf_executed s @ jobs_of (take (nat E) (sc_mJobQueue (sf_actor s))),
       sf_actor := (sf_actor s)\<lparr>sc_mJobQueue := drop (nat E) (sc_mJobQueue (sf_actor s)),
         sc_mActorOverlapped := ao_Clear (sc_mActorOverlapped (sf_actor s))\<rparr>\<rparr>)"
proof -
  let ?a = "sf_actor s"
  let ?q = "sc_mJobQueue ?a"
  define f where "f = sf_flags s"
  define k where "k = nat (if E < int (length ?q) then E else int (length ?q))"
  have free: "distinct (sc_mActors ?a)" "\<forall>x \<in> set (sc_mActors ?a). \<not> f x"
    using assms(5) by (simp_all add: sc_free_def f_def)
  have acq: "sc_TryAcquire f ?a =
      (True, set_flags (set (sc_mActors ?a)) True f, ?a\<lparr>sc_mAcquireIndex := int (length (sc_mActors ?a)) - 1\<rparr>)"
    using TryAcquire_free [OF _ _ free] assms(1) by (simp add: sc_idle_def)
  have k: "take k ?q = take (nat E) ?q" "drop k ?q = drop (nat E) ?q"
    by (simp_all add: k_def)
  have idx: "sc_mAcquireIndex ?a = - 1" using assms(1) by (simp add: sc_idle_def)
  let ?a3 = "?a\<lparr>sc_mAcquireIndex := int (length (sc_mActors ?a)) - 1, sc_mJobQueue := drop (nat E) ?q,
    sc_mActorOverlapped := ao_Clear (sc_mActorOverlapped ?a)\<rparr>"
  have rel: "sc_Release (set_flags (set (sc_mActors ?a)) True f) ?a3 = (f, ?a3\<lparr>sc_mAcquireIndex := - 1\<rparr>)"
    using Release_after_acquire [of ?a3 f] free(2) by simp
  have idle: "?a3\<lparr>sc_mAcquireIndex := - 1\<rparr> = ?a\<lparr>sc_mJobQueue := drop (nat E) ?q,
    sc_mActorOverlapped := ao_Clear (sc_mActorOverlapped ?a)\<rparr>"
    using idx by (cases ?a) simp
  show ?thesis
    using acq rel idle assms(2,3)
    by (simp add: sc_Dispatch_def sc_GetJobCount_def execute_loop_result k_def [symmetric] k f_def [symmetric])
       (simp add: f_def)
qed

lemma Dispatch_busy:
  assumes "sc_idle (sf_actor s)" "ao_GetOwner (sc_mActorOverlapped (sf_actor s))" "sf_packets s = Suc n" "\<not> sc_free s"
  shows "sc_Dispatch E s = s\<lparr>sf_packets := n\<rparr>"
proof -
  have "sc_TryAcquire (sf_flags s) (sf_actor s) = (False, sf_flags s, sf_actor s)"
    using TryAcquire_busy [of "sf_actor s" "sf_flags s"] assms(1,4) by (auto simp: sc_idle_def sc_free_def)
  then show ?thesis using assms(2,3) by (simp add: sc_Dispatch_def)
qed


text \<open>A scoped actor over the actors 1 and 2 with two jobs and a packet for each.\<close>

definition demo_scoped :: "flags \<Rightarrow> nat scoped_sys" where
  "demo_scoped f =
     sc_Post (Some 8) (sc_Post (Some 7) \<lparr>sf_actor = sc_new [2, 1], sf_flags = f, sf_packets = 0, sf_executed = []\<rparr>)"

lemma demo_scoped_facts:
  "sc_idle (sf_actor (demo_scoped f))" "ao_GetOwner (sc_mActorOverlapped (sf_actor (demo_scoped f)))"
  "sf_packets (demo_scoped f) = Suc 1" "sc_mJobQueue (sf_actor (demo_scoped f)) = [Some 7, Some 8]"
  "sc_mActors (sf_actor (demo_scoped f)) = [1, 2]" "sf_flags (demo_scoped f) = f"
  "sf_executed (demo_scoped f) = []"
  by (simp_all add: demo_scoped_def sc_Post_def sc_PushJob_def sc_Register_def sc_GetJobCount_def sc_new_def
      sc_idle_def ac_DEFAULT_MAX_COUNT_def ao_defs sc_DEFAULT_SPIN_COUNT_def)


subsection \<open>An actor given twice, and a second dispatcher\<close>

datatype 'j scoped_op = PostJob "'j option" | DispatchPacket int

fun sc_step :: "'j scoped_sys \<Rightarrow> 'j scoped_op \<Rightarrow> 'j scoped_sys" where
  "sc_step s (PostJob pJob) = sc_Post pJob s"
| "sc_step s (DispatchPacket E) = sc_Dispatch E s"

definition sc_run :: "'j scoped_op list \<Rightarrow> 'j scoped_sys \<Rightarrow> 'j scoped_sys" where
  "sc_run ops s = fold (\<lambda>x s. sc_step s x) ops s"

definition sc_stuck :: "flags \<Rightarrow> 'j scoped_sys \<Rightarrow> bool" where
  "sc_stuck f s \<longleftrightarrow> sc_idle (sf_actor s) \<and> \<not> distinct (sc_mActors (sf_actor s)) \<and> sf_flags s = f \<and> sf_executed s = []"

lemma step_keeps_stuck: "sc_stuck f s \<Longrightarrow> sc_stuck f (sc_step s x)"
proof (cases x)
  case (PostJob p)
  then show "sc_stuck f s \<Longrightarrow> ?thesis"
    by (auto simp: sc_stuck_def sc_Post_def sc_PushJob_def sc_Register_def sc_idle_def)
next
  case (DispatchPacket E)
  assume s: "sc_stuck f s"
  show ?thesis
  proof (cases "sf_packets s = 0 \<or> \<not> ao_GetOwner (sc_mActorOverlapped (sf_actor s))")
    case True
    then show ?thesis using s DispatchPacket by (auto simp: sc_Dispatch_def sc_stuck_def split: nat.split)
  next
    case False
    then obtain n where "sf_packets s = Suc n" by (cases "sf_packets s") simp_all
    then have "sc_Dispatch E s = s\<lparr>sf_packets := n\<rparr>"
      using Dispatch_busy [of s n E] s False by (simp add: sc_stuck_def sc_free_def)
    then show ?thesis using s DispatchPacket by (simp add: sc_stuck_def)
  qed
qed

lemma run_keeps_stuck: "sc_stuck f s \<Longrightarrow> sc_stuck f (sc_run ops s)"
  unfolding sc_run_def by (induction ops arbitrary: s) (simp_all add: step_keeps_stuck)

text \<open>The constructor removes duplicates before it sorts, so an actor given twice with another
  one in between stays twice in the list. Such a scoped actor never runs a job, whatever is posted
  and dispatched, even when every actor is free: it waits for itself.\<close>

theorem repeated_actor_never_runs:
  assumes "\<not> distinct (remdups_adj args)"
  shows "sf_executed (sc_run ops \<lparr>sf_actor = sc_new args, sf_flags = f, sf_packets = 0, sf_executed = []\<rparr>) = []"
proof -
  have "sc_stuck f \<lparr>sf_actor = sc_new args, sf_flags = f, sf_packets = 0, sf_executed = []\<rparr>"
    using assms by (simp add: sc_stuck_def sc_new_def sc_idle_def sc_DEFAULT_SPIN_COUNT_def)
  from run_keeps_stuck [OF this, of ops] show ?thesis by (simp add: sc_stuck_def)
qed

theorem repeated_actor_never_runs_witness:
  "sf_executed (sc_run [PostJob (Some (7::nat)), DispatchPacket 50, DispatchPacket 50]
     \<lparr>sf_actor = sc_new [1, 2, 1], sf_flags = \<lambda>_. False, sf_packets = 0, sf_executed = []\<rparr>) = []"
  by (rule repeated_actor_never_runs) simp

text \<open>C40: \<open>mAcquireIndex\<close> is shared by the threads that dispatch the packets of one scoped actor.
  While a thread holds all the actors and runs a job, a second one that tries to acquire succeeds as
  well when there is one actor; when there are more it fails and its \<open>Release\<close> frees every actor the
  first thread holds.\<close>

theorem second_dispatcher_breaks_exclusion:
  assumes "sc_idle a" "distinct (sc_mActors a)" "sc_mActors a \<noteq> []" "\<forall>x \<in> set (sc_mActors a). \<not> f x"
    and first: "sc_TryAcquire f a = (b, f1, a1)"
  shows "b \<and> (\<forall>x \<in> set (sc_mActors a). f1 x) \<and>
    sc_TryAcquire f1 a1 = (if length (sc_mActors a) = 1 then (True, f1, a1) else (False, f, a))"
proof -
  let ?as = "sc_mActors a"
  have a1: "b" "f1 = set_flags (set ?as) True f" "a1 = a\<lparr>sc_mAcquireIndex := int (length ?as) - 1\<rparr>"
    using TryAcquire_free [OF _ _ assms(2,4)] assms(1) first by (simp_all add: sc_idle_def)
  have held: "\<forall>x \<in> set ?as. f1 x" by (simp add: a1(2) set_flags_def)
  obtain x as where as: "?as = x # as" using assms(3) by (cases ?as) simp_all
  have spin: "sc_spin k x f1 = (False, f1)" for k using held as by (simp add: spin_busy)
  have "sc_TryAcquire f1 a1 = (if length ?as = 1 then (True, f1, a1) else (False, f, a))"
  proof (cases "as = []")
    case True
    then show ?thesis
      using as spin by (simp add: sc_TryAcquire_def sc_tryAcquireAll_def a1(3))
  next
    case False
    have rel: "sc_Release f1 a1 = (f, a)"
      using Release_after_acquire [of a1 f] assms(1,4) by (cases a) (simp add: a1 sc_idle_def)
    have "a1\<lparr>sc_mAcquireIndex := int (length as)\<rparr> = a1" by (simp add: a1(3) as)
    then show ?thesis
      using False as spin rel by (simp add: sc_TryAcquire_def sc_tryAcquireAll_def a1(3) Let_def)
  qed
  then show ?thesis using a1(1) held by simp
qed

theorem second_dispatcher_breaks_exclusion_witness:
  "let a = sf_actor (demo_scoped (\<lambda>_. False)) in
   case sc_TryAcquire (\<lambda>_. False) a of (b, f1, a1) \<Rightarrow> b \<and> f1 1 \<and> f1 2 \<and> sc_TryAcquire f1 a1 = (False, \<lambda>_. False, a)"
proof -
  let ?a = "sf_actor (demo_scoped (\<lambda>_. False))"
  obtain b f1 a1 where t: "sc_TryAcquire (\<lambda>_. False) ?a = (b, f1, a1)" by (metis prod_cases3)
  show ?thesis
    using second_dispatcher_breaks_exclusion [OF demo_scoped_facts(1) _ _ _ t] t
    by (simp add: demo_scoped_facts)
qed

end
