(* ===== verification/Concurrent_Scoped.thy ===== *)
theory Concurrent_Scoped
  imports Concurrent_Runs Scoped_Actors
begin

text \<open>
  Scoped actors and plain actors used by many threads at once: ScopedActor.cpp, JobDispatcher::Post and
  ActorScheduler::Schedule and Dispatch on scoped actors, and TryAcquire and Release of Actor.cpp. One step for each
  access to \<open>mbAcquire\<close> of an actor, and to \<open>mAcquireIndex\<close>, the job queue and the overlapped of a scoped actor.
  Scoped actors share plain actors. A scoped actor is dispatched by one thread at a time (Scoped_Actors shows what goes
  wrong otherwise), plain actors by any number. The jobs do not touch the flags.
\<close>

subsection \<open>State and program counters\<close>

text \<open>The last two members are history: the jobs accepted and the jobs executed by each scoped actor.\<close>

record 'j csc_sys =
  csc_flags :: flags
  csc_scoped :: "nat \<Rightarrow> 'j ScopedActor"
  csc_packets :: "nat \<Rightarrow> nat"
  csc_pushed :: "nat \<Rightarrow> 'j option list"
  csc_executed :: "nat \<Rightarrow> 'j list"

text \<open>
  \<open>ScSpin x spins i k\<close>: TryAcquire of the scoped actor \<open>x\<close>, with the local \<open>spinCount\<close>, at index \<open>i\<close> with \<open>k\<close>
  attempts left; \<open>ScRelease x b\<close>: Release, called by TryAcquire (\<open>b\<close> is false) or by Dispatch; \<open>ScReleaseAt x b n\<close>: its
  loop with the first \<open>n\<close> actors still to release.
\<close>

datatype 'j csc_pc =
    PlainTry int | PlainInside int
  | ScPush nat "'j option" | ScRegister nat | ScSchedClear nat | ScSchedSetOwner nat | ScSchedPost nat
  | ScOwner nat | ScSpin nat nat nat nat | ScSetIndex nat nat nat | ScCheck nat nat nat
  | ScCount nat | ScExecute nat nat | ScClear nat | ScRelease nat bool | ScReleaseAt nat bool nat

definition on_scoped :: "nat \<Rightarrow> ('j ScopedActor \<Rightarrow> 'j ScopedActor) \<Rightarrow> 'j csc_sys \<Rightarrow> 'j csc_sys" where
  "on_scoped x f s = s\<lparr>csc_scoped := (csc_scoped s)(x := f (csc_scoped s x))\<rparr>"

text \<open>TryAcquire and Release of a plain actor.\<close>

fun csc_plain_step :: "'j csc_pc \<Rightarrow> 'j csc_sys \<Rightarrow> 'j csc_pc option \<times> 'j csc_sys" where
  "csc_plain_step (PlainTry a) s =
     (if csc_flags s a then None else Some (PlainInside a), s\<lparr>csc_flags := (csc_flags s)(a := True)\<rparr>)"
| "csc_plain_step (PlainInside a) s = (None, s\<lparr>csc_flags := (csc_flags s)(a := False)\<rparr>)"
| "csc_plain_step pc s = (Some pc, s)"

text \<open>
  JobDispatcher::Post on a scoped actor: PushJob, Register and, because Register bypasses the acquisition, a
  packet from Schedule whenever there is a job; \<open>posted\<close> is the answer of PostQueuedCompletionStatus.
\<close>

fun csc_post_step :: "bool \<Rightarrow> 'j csc_pc \<Rightarrow> 'j csc_sys \<Rightarrow> 'j csc_pc option \<times> 'j csc_sys" where
  "csc_post_step posted (ScPush x pJob) s =
     (case sc_PushJob pJob (csc_scoped s x) of
        (pushed, a) \<Rightarrow> (if pushed then Some (ScRegister x) else None,
          s\<lparr>csc_scoped := (csc_scoped s)(x := a),
            csc_pushed := (csc_pushed s)(x := csc_pushed s x @ (if pushed then [pJob] else []))\<rparr>))"
| "csc_post_step posted (ScRegister x) s = (if sc_GetJobCount (csc_scoped s x) > 0 then Some (ScSchedClear x) else None, s)"
| "csc_post_step posted (ScSchedClear x) s =
     (Some (ScSchedSetOwner x), on_scoped x (\<lambda>a. a\<lparr>sc_mActorOverlapped := ao_ClearOverlapped (sc_mActorOverlapped a)\<rparr>) s)"
| "csc_post_step posted (ScSchedSetOwner x) s =
     (Some (ScSchedPost x), on_scoped x (\<lambda>a. a\<lparr>sc_mActorOverlapped := ao_SetOwner (sc_mActorOverlapped a)\<rparr>) s)"
| "csc_post_step posted (ScSchedPost x) s =
     (None, if posted then s\<lparr>csc_packets := (csc_packets s)(x := csc_packets s x + 1)\<rparr> else s)"
| "csc_post_step posted pc s = (Some pc, s)"

text \<open>Dispatch from the packet on: the owner, then TryAcquire.\<close>

fun csc_acquire_step :: "'j csc_pc \<Rightarrow> 'j csc_sys \<Rightarrow> 'j csc_pc option \<times> 'j csc_sys" where
  "csc_acquire_step (ScOwner x) s =
     (let spinCount = nat (sc_GetSpinCount (csc_scoped s x)) in
      (if ao_GetOwner (sc_mActorOverlapped (csc_scoped s x)) then Some (ScSpin x spinCount 0 spinCount) else None, s))"
| "csc_acquire_step (ScSpin x spins i k) s =
     (let actors = sc_mActors (csc_scoped s x) in
      if length actors \<le> i then (Some (ScCount x), s)
      else case k of
        0 \<Rightarrow> (Some (ScCheck x spins i), s)
      | Suc k' \<Rightarrow> (if csc_flags s (actors ! i) then Some (ScSpin x spins i k') else Some (ScSetIndex x spins i),
                   s\<lparr>csc_flags := (csc_flags s)(actors ! i := True)\<rparr>))"
| "csc_acquire_step (ScSetIndex x spins i) s = (Some (ScCheck x spins i), on_scoped x (\<lambda>a. a\<lparr>sc_mAcquireIndex := int i\<rparr>) s)"
| "csc_acquire_step (ScCheck x spins i) s =
     (if sc_mAcquireIndex (csc_scoped s x) \<noteq> int i then Some (ScRelease x False) else Some (ScSpin x spins (Suc i) spins), s)"
| "csc_acquire_step pc s = (Some pc, s)"

text \<open>The jobs of one dispatch, Release, and Register, which begins with \<open>ScRegister\<close>; \<open>E\<close> is \<open>mExecuteJobCount\<close>.\<close>

fun csc_inside_step :: "int \<Rightarrow> 'j csc_pc \<Rightarrow> 'j csc_sys \<Rightarrow> 'j csc_pc option \<times> 'j csc_sys" where
  "csc_inside_step E (ScCount x) s =
     (let currentJobCount = sc_GetJobCount (csc_scoped s x) in
      (Some (ScExecute x (nat (if E < currentJobCount then E else currentJobCount))), s))"
| "csc_inside_step E (ScExecute x n) s =
     (case n of
        0 \<Rightarrow> (Some (ScClear x), s)
      | Suc m \<Rightarrow> (case sc_Execute (csc_scoped s x) of
          (js, a) \<Rightarrow> (Some (ScExecute x m),
            s\<lparr>csc_scoped := (csc_scoped s)(x := a), csc_executed := (csc_executed s)(x := csc_executed s x @ js)\<rparr>)))"
| "csc_inside_step E (ScClear x) s =
     (Some (ScRelease x True), on_scoped x (\<lambda>a. a\<lparr>sc_mActorOverlapped := ao_Clear (sc_mActorOverlapped a)\<rparr>) s)"
| "csc_inside_step E (ScRelease x b) s = (Some (ScReleaseAt x b (nat (sc_mAcquireIndex (csc_scoped s x) + 1))), s)"
| "csc_inside_step E (ScReleaseAt x b n) s =
     (case n of
        0 \<Rightarrow> (if b then Some (ScRegister x) else None, on_scoped x (\<lambda>a. a\<lparr>sc_mAcquireIndex := - 1\<rparr>) s)
      | Suc m \<Rightarrow> (Some (ScReleaseAt x b m), s\<lparr>csc_flags := (csc_flags s)(sc_mActors (csc_scoped s x) ! m := False)\<rparr>))"
| "csc_inside_step E pc s = (Some pc, s)"

definition csc_thread_step :: "int \<Rightarrow> bool \<Rightarrow> 'j csc_pc \<Rightarrow> 'j csc_sys \<Rightarrow> 'j csc_pc option \<times> 'j csc_sys" where
  "csc_thread_step E posted pc s =
     (case pc of
        PlainTry a \<Rightarrow> csc_plain_step pc s | PlainInside a \<Rightarrow> csc_plain_step pc s
      | ScPush x pJob \<Rightarrow> csc_post_step posted pc s | ScRegister x \<Rightarrow> csc_post_step posted pc s
      | ScSchedClear x \<Rightarrow> csc_post_step posted pc s | ScSchedSetOwner x \<Rightarrow> csc_post_step posted pc s
      | ScSchedPost x \<Rightarrow> csc_post_step posted pc s
      | ScOwner x \<Rightarrow> csc_acquire_step pc s | ScSpin x spins i k \<Rightarrow> csc_acquire_step pc s | ScSetIndex x spins i \<Rightarrow> csc_acquire_step pc s
      | ScCheck x spins i \<Rightarrow> csc_acquire_step pc s
      | _ \<Rightarrow> csc_inside_step E pc s)"

subsection \<open>Runs of many threads\<close>

fun scoped_of :: "'j csc_pc option \<Rightarrow> nat option" where
  "scoped_of (Some (ScOwner x)) = Some x" | "scoped_of (Some (ScClear x)) = Some x"
| "scoped_of (Some (ScSpin x spins i k)) = Some x" | "scoped_of (Some (ScSetIndex x spins i)) = Some x"
| "scoped_of (Some (ScCheck x spins i)) = Some x" | "scoped_of (Some (ScCount x)) = Some x"
| "scoped_of (Some (ScExecute x n)) = Some x" | "scoped_of (Some (ScRelease x b)) = Some x"
| "scoped_of (Some (ScReleaseAt x b n)) = Some x" | "scoped_of pc = None"

type_synonym 'j csc_conf = "'j csc_sys \<times> (nat \<Rightarrow> 'j csc_pc option)"

inductive csc_step :: "int \<Rightarrow> 'j csc_conf \<Rightarrow> 'j csc_conf \<Rightarrow> bool" for E where
  plain: "pcs t = None \<Longrightarrow> csc_step E (s, pcs) (s, pcs(t := Some (PlainTry a)))"
| post: "pcs t = None \<Longrightarrow> csc_step E (s, pcs) (s, pcs(t := Some (ScPush x pJob)))"
| take: "pcs t = None \<Longrightarrow> csc_packets s x = Suc n \<Longrightarrow> \<forall>u. scoped_of (pcs u) \<noteq> Some x \<Longrightarrow>
    csc_step E (s, pcs) (s\<lparr>csc_packets := (csc_packets s)(x := n)\<rparr>, pcs(t := Some (ScOwner x)))"
| spin_count: "csc_step E (s, pcs) (on_scoped x (sc_SetSpinCount n) s, pcs)"
| run: "pcs t = Some pc \<Longrightarrow> csc_thread_step E posted pc s = (p, s') \<Longrightarrow> csc_step E (s, pcs) (s', pcs(t := p))"

definition csc_start :: "(nat \<Rightarrow> int list) \<Rightarrow> 'j csc_sys" where
  "csc_start args = \<lparr>csc_flags = (\<lambda>_. False), csc_scoped = (\<lambda>x. sc_new (args x)), csc_packets = (\<lambda>_. 0), csc_pushed = (\<lambda>_. []), csc_executed = (\<lambda>_. [])\<rparr>"

subsection \<open>The invariant\<close>

text \<open>The plain actors that a thread holds.\<close>

fun held :: "'j csc_sys \<Rightarrow> 'j csc_pc option \<Rightarrow> int list" where
  "held s (Some (PlainInside a)) = [a]"
| "held s (Some (ScSpin x spins i k)) = take i (sc_mActors (csc_scoped s x))"
| "held s (Some (ScSetIndex x spins i)) = take (Suc i) (sc_mActors (csc_scoped s x))"
| "held s (Some (ScCheck x spins i)) = take (nat (sc_mAcquireIndex (csc_scoped s x) + 1)) (sc_mActors (csc_scoped s x))"
| "held s (Some (ScCount x)) = sc_mActors (csc_scoped s x)"
| "held s (Some (ScExecute x n)) = sc_mActors (csc_scoped s x)"
| "held s (Some (ScClear x)) = sc_mActors (csc_scoped s x)"
| "held s (Some (ScRelease x b)) = take (nat (sc_mAcquireIndex (csc_scoped s x) + 1)) (sc_mActors (csc_scoped s x))"
| "held s (Some (ScReleaseAt x b n)) = take n (sc_mActors (csc_scoped s x))"
| "held s pc = []"

fun index_known :: "'j csc_sys \<Rightarrow> 'j csc_pc option \<Rightarrow> bool" where
  "index_known s (Some (ScSpin x spins i k)) \<longleftrightarrow> sc_mAcquireIndex (csc_scoped s x) = int i - 1 \<and> i \<le> length (sc_mActors (csc_scoped s x))"
| "index_known s (Some (ScSetIndex x spins i)) \<longleftrightarrow> sc_mAcquireIndex (csc_scoped s x) = int i - 1 \<and> i < length (sc_mActors (csc_scoped s x))"
| "index_known s (Some (ScCheck x spins i)) \<longleftrightarrow> sc_mAcquireIndex (csc_scoped s x) \<in> {int i - 1, int i} \<and> i < length (sc_mActors (csc_scoped s x))"
| "index_known s (Some (ScCount x)) \<longleftrightarrow> sc_mAcquireIndex (csc_scoped s x) = int (length (sc_mActors (csc_scoped s x))) - 1"
| "index_known s (Some (ScExecute x n)) \<longleftrightarrow> sc_mAcquireIndex (csc_scoped s x) = int (length (sc_mActors (csc_scoped s x))) - 1"
| "index_known s (Some (ScClear x)) \<longleftrightarrow> sc_mAcquireIndex (csc_scoped s x) = int (length (sc_mActors (csc_scoped s x))) - 1"
| "index_known s (Some (ScOwner x)) \<longleftrightarrow> sc_mAcquireIndex (csc_scoped s x) = - 1"
| "index_known s (Some (ScRelease x b)) \<longleftrightarrow> - 1 \<le> sc_mAcquireIndex (csc_scoped s x) \<and>
     sc_mAcquireIndex (csc_scoped s x) < int (length (sc_mActors (csc_scoped s x)))"
| "index_known s (Some (ScReleaseAt x b n)) \<longleftrightarrow> n \<le> length (sc_mActors (csc_scoped s x))"
| "index_known s pc \<longleftrightarrow> True"

definition csc_inv :: "'j csc_sys \<Rightarrow> (nat \<Rightarrow> 'j csc_pc option) \<Rightarrow> bool" where
  "csc_inv s pcs \<longleftrightarrow>
     (\<forall>a. csc_flags s a \<longleftrightarrow> (\<exists>t. a \<in> set (held s (pcs t)))) \<and>
     (\<forall>t u. t \<noteq> u \<longrightarrow> set (held s (pcs t)) \<inter> set (held s (pcs u)) = {}) \<and>
     (\<forall>t u x. t \<noteq> u \<longrightarrow> scoped_of (pcs t) = Some x \<longrightarrow> scoped_of (pcs u) \<noteq> Some x) \<and>
     (\<forall>t. distinct (held s (pcs t)) \<and> index_known s (pcs t)) \<and>
     (\<forall>x. (\<forall>t. scoped_of (pcs t) \<noteq> Some x) \<longrightarrow> sc_mAcquireIndex (csc_scoped s x) = - 1) \<and>
     (\<forall>x. \<exists>past. csc_pushed s x = past @ sc_mJobQueue (csc_scoped s x) \<and> csc_executed s x = jobs_of past)"

lemma csc_invD:
  assumes "csc_inv s pcs"
  shows "csc_flags s a \<longleftrightarrow> (\<exists>t. a \<in> set (held s (pcs t)))" "t \<noteq> u \<Longrightarrow> set (held s (pcs t)) \<inter> set (held s (pcs u)) = {}"
    "t \<noteq> u \<Longrightarrow> scoped_of (pcs t) = Some x \<Longrightarrow> scoped_of (pcs u) \<noteq> Some x"
    "distinct (held s (pcs t))" "index_known s (pcs t)"
    "(\<And>t. scoped_of (pcs t) \<noteq> Some x) \<Longrightarrow> sc_mAcquireIndex (csc_scoped s x) = - 1"
    "\<exists>past. csc_pushed s x = past @ sc_mJobQueue (csc_scoped s x) \<and> csc_executed s x = jobs_of past"
  using assms unfolding csc_inv_def by auto

text \<open>What a thread holds depends on the index and the actors of its scoped actor only.\<close>

lemma held_frame:
  assumes "\<And>x. scoped_of p = Some x \<Longrightarrow> sc_mActors (csc_scoped s' x) = sc_mActors (csc_scoped s x) \<and>
      sc_mAcquireIndex (csc_scoped s' x) = sc_mAcquireIndex (csc_scoped s x)"
  shows "held s' p = held s p" "index_known s' p = index_known s p"
  using assms by (cases p rule: scoped_of.cases; simp)+

text \<open>What one step of thread \<open>t\<close> has to keep.\<close>

lemma csc_inv_step:
  assumes inv: "csc_inv s pcs"
    and others: "\<And>x. scoped_of (pcs t) \<noteq> Some x \<Longrightarrow> sc_mActors (csc_scoped s' x) = sc_mActors (csc_scoped s x) \<and>
      sc_mAcquireIndex (csc_scoped s' x) = sc_mAcquireIndex (csc_scoped s x)"
    and flags: "\<And>a. csc_flags s' a \<longleftrightarrow> a \<in> set (held s' p) \<or> (csc_flags s a \<and> a \<notin> set (held s (pcs t)))"
    and own: "\<And>a. a \<in> set (held s' p) \<Longrightarrow> a \<in> set (held s (pcs t)) \<or> \<not> csc_flags s a"
    and p: "\<And>x u. scoped_of p = Some x \<Longrightarrow> u \<noteq> t \<Longrightarrow> scoped_of (pcs u) \<noteq> Some x" "distinct (held s' p)" "index_known s' p"
    and index: "\<And>x. scoped_of (pcs t) = Some x \<Longrightarrow> scoped_of p \<noteq> Some x \<Longrightarrow> sc_mAcquireIndex (csc_scoped s' x) = - 1"
    and fifo: "\<And>x. \<exists>past. csc_pushed s' x = past @ sc_mJobQueue (csc_scoped s' x) \<and> csc_executed s' x = jobs_of past"
  shows "csc_inv s' (pcs(t := p))"
proof -
  note D = csc_invD [OF inv]
  have same: "held s' (pcs u) = held s (pcs u)" "index_known s' (pcs u) = index_known s (pcs u)" if "u \<noteq> t" for u
    using held_frame [of "pcs u" s' s] others D(3) [OF that] by blast+
  have apart: "set (held s' p) \<inter> set (held s (pcs u)) = {}" if "u \<noteq> t" for u
    using own D(1) D(2) [OF that] by fastforce
  have 1: "csc_flags s' a \<longleftrightarrow> (\<exists>u. a \<in> set (held s' ((pcs(t := p)) u)))" for a
  proof -
    have "csc_flags s a \<and> a \<notin> set (held s (pcs t)) \<longleftrightarrow> (\<exists>u. u \<noteq> t \<and> a \<in> set (held s (pcs u)))"
    proof
      assume a: "csc_flags s a \<and> a \<notin> set (held s (pcs t))"
      then obtain u where "a \<in> set (held s (pcs u))" using D(1) by blast
      then show "\<exists>u. u \<noteq> t \<and> a \<in> set (held s (pcs u))" using a by (cases "u = t") auto
    next
      assume "\<exists>u. u \<noteq> t \<and> a \<in> set (held s (pcs u))"
      then obtain u where "u \<noteq> t" "a \<in> set (held s (pcs u))" by blast
      then show "csc_flags s a \<and> a \<notin> set (held s (pcs t))" using D(1) [of a] D(2) [of u t] by blast
    qed
    then show ?thesis unfolding flags using same(1) by (metis fun_upd_apply)
  qed
  have 2: "set (held s' ((pcs(t := p)) v)) \<inter> set (held s' ((pcs(t := p)) u)) = {}" if "v \<noteq> u" for u v
    using that apart same(1) D(2) [OF that] by (cases "v = t"; cases "u = t") auto
  have 3: "scoped_of ((pcs(t := p)) u) \<noteq> Some x" if "v \<noteq> u" "scoped_of ((pcs(t := p)) v) = Some x" for u v x
    using that p(1) [of x u] p(1) [of x v] D(3) [of v u x] by (cases "v = t"; cases "u = t"; auto)
  have 4: "sc_mAcquireIndex (csc_scoped s' x) = - 1" if "\<forall>u. scoped_of ((pcs(t := p)) u) \<noteq> Some x" for x
  proof (cases "scoped_of (pcs t) = Some x")
    case True
    then show ?thesis using index that by (metis fun_upd_same)
  next
    case False
    then have "scoped_of (pcs u) \<noteq> Some x" for u using that by (metis fun_upd_apply)
    then show ?thesis using others [OF False] D(6) by simp
  qed
  show ?thesis
    unfolding csc_inv_def
  proof (intro conjI)
    show "\<forall>u. distinct (held s' ((pcs(t := p)) u)) \<and> index_known s' ((pcs(t := p)) u)"
      using p(2,3) same D(4,5) by simp
  qed (use 1 2 3 4 fifo in blast)+
qed


lemma fifo_same:
  assumes "csc_inv s pcs" "csc_pushed s' = csc_pushed s" "csc_executed s' = csc_executed s"
    "\<And>x. sc_mJobQueue (csc_scoped s' x) = sc_mJobQueue (csc_scoped s x)"
  shows "\<exists>past. csc_pushed s' x = past @ sc_mJobQueue (csc_scoped s' x) \<and> csc_executed s' x = jobs_of past"
  using csc_invD(7) [OF assms(1), of x] assms(2-4) by simp

lemma csc_plain_inv:
  assumes inv: "csc_inv s pcs" and pc: "pcs t = Some pc" "(\<exists>a. pc = PlainTry a) \<or> (\<exists>a. pc = PlainInside a)"
    and step: "csc_plain_step pc s = (p, s')"
  shows "csc_inv s' (pcs(t := p))"
proof -
  have same: "csc_scoped s' = csc_scoped s" "csc_pushed s' = csc_pushed s" "csc_executed s' = csc_executed s"
    using step pc(2) by auto
  note fifo = fifo_same [OF inv same(2,3)]
  show ?thesis
    using pc step same by (intro csc_inv_step [OF inv] fifo) (auto split: if_splits)
qed

lemma csc_acquire_inv:
  assumes inv: "csc_inv s pcs" and pc: "pcs t = Some pc"
    "(\<exists>x. pc = ScOwner x) \<or> (\<exists>x spins i k. pc = ScSpin x spins i k) \<or> (\<exists>x spins i. pc = ScSetIndex x spins i) \<or> (\<exists>x spins i. pc = ScCheck x spins i)"
    and step: "csc_acquire_step pc s = (p, s')"
  shows "csc_inv s' (pcs(t := p))"
proof -
  note D = csc_invD [OF inv]
  have same: "csc_pushed s' = csc_pushed s" "csc_executed s' = csc_executed s" "sc_mJobQueue (csc_scoped s' x) = sc_mJobQueue (csc_scoped s x)" for x
    using step pc(2) by (auto simp: on_scoped_def Let_def split: nat.splits if_splits)
  note keep = csc_inv_step [OF inv _ _ _ _ _ _ _ fifo_same [OF inv same], of t]
  have raised: "csc_flags s a" if "a \<in> set (held s (pcs t))" for a using D(1) that by blast
  have alone: "scoped_of (pcs u) \<noteq> Some x" if "scoped_of (pcs t) = Some x" "u \<noteq> t" for u x using D(3) that by blast
  note own = raised alone D(4,5) [of t]
  show ?thesis
  proof (cases pc)
    case (ScOwner x)
    then show ?thesis using step pc(1) own
      by (cases "ao_GetOwner (sc_mActorOverlapped (csc_scoped s x))"; intro keep) (auto simp: Let_def)
  next
    case (ScSpin x spins i k)
    let ?as = "sc_mActors (csc_scoped s x)"
    have at: "pcs t = Some (ScSpin x spins i k)" using pc ScSpin by simp
    show ?thesis
    proof (cases "length ?as \<le> i")
      case True
      then have "p = Some (ScCount x)" "s' = s" using step ScSpin by auto
      then show ?thesis using True own by (intro keep) (auto simp: at)
    next
      case False
      show ?thesis
      proof (cases k)
        case 0
        then have "p = Some (ScCheck x spins i)" "s' = s" using step ScSpin False by auto
        then show ?thesis using False own by (intro keep) (auto simp: at)
      next
        case (Suc k')
        show ?thesis
        proof (cases "csc_flags s (?as ! i)")
          case True
          then have "p = Some (ScSpin x spins i k')" "s' = s" using step ScSpin False Suc by (auto simp: fun_upd_idem)
          then show ?thesis using False own by (intro keep) (auto simp: at)
        next
          case busy: False
          then have r: "p = Some (ScSetIndex x spins i)" "s' = s\<lparr>csc_flags := (csc_flags s)(?as ! i := True)\<rparr>"
            using step ScSpin False Suc by auto
          have more: "take (Suc i) ?as = take i ?as @ [?as ! i]" using False by (simp add: take_Suc_conv_app_nth)
          show ?thesis unfolding r(1)
            by (rule keep) (use False own busy in \<open>auto simp: at more r(2)\<close>)
        qed
      qed
    qed
  next
    case (ScSetIndex x spins i)
    then have at: "pcs t = Some (ScSetIndex x spins i)" using pc by simp
    have r: "p = Some (ScCheck x spins i)" "s' = on_scoped x (\<lambda>a. a\<lparr>sc_mAcquireIndex := int i\<rparr>) s" using step ScSetIndex by auto
    show ?thesis unfolding r(1) by (rule keep) (use own in \<open>auto simp: at on_scoped_def nat_add_distrib r(2)\<close>)
  next
    case (ScCheck x spins i)
    then have at: "pcs t = Some (ScCheck x spins i)" using pc by simp
    show ?thesis
    proof (cases "sc_mAcquireIndex (csc_scoped s x) = int i")
      case True
      then have "p = Some (ScSpin x spins (Suc i) spins)" "s' = s" using step ScCheck by auto
      moreover have "nat (int i + 1) = Suc i" by simp
      ultimately show ?thesis using True own by (intro keep) (auto simp: at)
    next
      case False
      then have "p = Some (ScRelease x False)" "s' = s" using step ScCheck by auto
      then show ?thesis using False own by (intro keep) (auto simp: at)
    qed
  qed (use pc in auto)
qed


lemma Execute_result:
  "sc_Execute a = (js, a') \<Longrightarrow> sc_mActors a' = sc_mActors a \<and> sc_mAcquireIndex a' = sc_mAcquireIndex a \<and>
    (\<exists>taken. sc_mJobQueue a = taken @ sc_mJobQueue a' \<and> js = jobs_of taken)"
  by (auto simp: sc_Execute_def split: list.splits option.splits intro: exI [of _ "[]"] exI [of _ "[_]"])

lemma jobs_of_append [simp]: "jobs_of (js @ ks) = jobs_of js @ jobs_of ks"
  by (simp add: jobs_of_def)

lemma csc_inside_inv:
  assumes inv: "csc_inv s pcs" and pc: "pcs t = Some pc"
    "(\<exists>x. pc = ScCount x) \<or> (\<exists>x n. pc = ScExecute x n) \<or> (\<exists>x. pc = ScClear x) \<or> (\<exists>x b. pc = ScRelease x b) \<or>
     (\<exists>x b n. pc = ScReleaseAt x b n)"
    and step: "csc_inside_step E pc s = (p, s')"
  shows "csc_inv s' (pcs(t := p))"
proof -
  note D = csc_invD [OF inv] and keep = csc_inv_step [OF inv, of t]
  have raised: "csc_flags s a" if "a \<in> set (held s (pcs t))" for a using D(1) that by blast
  have alone: "scoped_of (pcs u) \<noteq> Some x" if "scoped_of (pcs t) = Some x" "u \<noteq> t" for u x using D(3) that by blast
  note own = raised alone D(4,5) [of t] and fifo = D(7)
  show ?thesis
  proof (cases pc)
    case (ScCount x)
    then show ?thesis using step pc(1) own fifo by (intro keep) (auto simp: Let_def)
  next
    case (ScExecute x n)
    then have at: "pcs t = Some (ScExecute x n)" using pc by simp
    show ?thesis
    proof (cases n)
      case 0
      then show ?thesis using step ScExecute own fifo by (intro keep) (auto simp: at)
    next
      case (Suc m)
      obtain js a where a: "sc_Execute (csc_scoped s x) = (js, a)" by fastforce
      then have r: "p = Some (ScExecute x m)" "s' = s\<lparr>csc_scoped := (csc_scoped s)(x := a), csc_executed := (csc_executed s)(x := csc_executed s x @ js)\<rparr>"
        using step ScExecute Suc by auto
      from Execute_result [OF a] obtain taken where 1: "sc_mActors a = sc_mActors (csc_scoped s x)"
        "sc_mAcquireIndex a = sc_mAcquireIndex (csc_scoped s x)" "sc_mJobQueue (csc_scoped s x) = taken @ sc_mJobQueue a" "js = jobs_of taken" by blast
      obtain past where "csc_pushed s x = past @ sc_mJobQueue (csc_scoped s x)" "csc_executed s x = jobs_of past" using fifo by blast
      then have "\<exists>past. csc_pushed s x = past @ sc_mJobQueue a \<and> csc_executed s x @ js = jobs_of past"
        using 1(3,4) by (intro exI [of _ "past @ taken"]) simp
      then show ?thesis unfolding r(1) using own fifo by (intro keep) (auto simp: at r(2) 1(1,2))
    qed
  next
    case (ScClear x)
    then have at: "pcs t = Some (ScClear x)" using pc by simp
    have r: "p = Some (ScRelease x True)" "s' = on_scoped x (\<lambda>a. a\<lparr>sc_mActorOverlapped := ao_Clear (sc_mActorOverlapped a)\<rparr>) s"
      using step ScClear by auto
    have "\<exists>past. csc_pushed s' z = past @ sc_mJobQueue (csc_scoped s' z) \<and> csc_executed s' z = jobs_of past" for z
      using fifo [of z] by (cases "z = x") (simp_all add: r(2) on_scoped_def)
    then show ?thesis unfolding r(1) by (intro keep) (use own in \<open>auto simp: at r(2) on_scoped_def\<close>)
  next
    case (ScRelease x b)
    then show ?thesis using step pc(1) own fifo by (intro keep) (auto simp: nat_le_iff)
  next
    case (ScReleaseAt x b n)
    then have at: "pcs t = Some (ScReleaseAt x b n)" using pc by simp
    show ?thesis
    proof (cases n)
      case 0
      then have r: "p = (if b then Some (ScRegister x) else None)" "s' = on_scoped x (\<lambda>a. a\<lparr>sc_mAcquireIndex := - 1\<rparr>) s" using step ScReleaseAt by auto
      have "\<exists>past. csc_pushed s' z = past @ sc_mJobQueue (csc_scoped s' z) \<and> csc_executed s' z = jobs_of past" for z
        using fifo [of z] by (cases "z = x") (simp_all add: r(2) on_scoped_def)
      then show ?thesis unfolding r(1) by (intro keep) (use 0 own in \<open>auto simp: at r(2) on_scoped_def split: if_splits\<close>)
    next
      case (Suc m)
      let ?as = "sc_mActors (csc_scoped s x)"
      have r: "p = Some (ScReleaseAt x b m)" "s' = s\<lparr>csc_flags := (csc_flags s)(?as ! m := False)\<rparr>" using step ScReleaseAt Suc by auto
      have more: "take (Suc m) ?as = take m ?as @ [?as ! m]" using own(4) Suc by (simp add: at take_Suc_conv_app_nth)
      show ?thesis unfolding r(1) by (rule keep) (use Suc own fifo in \<open>auto simp: at more r(2)\<close>)
    qed
  qed (use pc in auto)
qed

lemma csc_post_inv:
  assumes inv: "csc_inv s pcs" and pc: "pcs t = Some pc"
    "(\<exists>x pJob. pc = ScPush x pJob) \<or> (\<exists>x. pc = ScRegister x) \<or> (\<exists>x. pc = ScSchedClear x) \<or> (\<exists>x. pc = ScSchedSetOwner x) \<or>
     (\<exists>x. pc = ScSchedPost x)"
    and step: "csc_post_step posted pc s = (p, s')"
  shows "csc_inv s' (pcs(t := p))"
proof -
  have idle: "held s (pcs t) = []" "scoped_of (pcs t) = None" "held s' p = []" "scoped_of p = None" "index_known s' p"
    using pc step by (auto split: prod.splits if_splits)
  have frame: "csc_flags s' = csc_flags s" "sc_mActors (csc_scoped s' x) = sc_mActors (csc_scoped s x)"
    "sc_mAcquireIndex (csc_scoped s' x) = sc_mAcquireIndex (csc_scoped s x)" "csc_executed s' = csc_executed s"
    "\<exists>new. csc_pushed s' x = csc_pushed s x @ new \<and> sc_mJobQueue (csc_scoped s' x) = sc_mJobQueue (csc_scoped s x) @ new" for x
    using pc(2) step by (auto simp: on_scoped_def sc_PushJob_def split: prod.splits if_splits)
  have "\<exists>past. csc_pushed s' x = past @ sc_mJobQueue (csc_scoped s' x) \<and> csc_executed s' x = jobs_of past" for x
    using csc_invD(7) [OF inv, of x] frame(4) frame(5) [of x] by force
  then show ?thesis by (intro csc_inv_step [OF inv]) (simp_all add: idle frame(1-4))
qed

lemma csc_step_inv: "csc_step E c c' \<Longrightarrow> csc_inv (fst c) (snd c) \<Longrightarrow> csc_inv (fst c') (snd c')"
proof (induction rule: csc_step.induct)
  case (plain pcs t s a)
  then have inv: "csc_inv s pcs" by simp
  show ?case unfolding fst_conv snd_conv
    by (rule csc_inv_step [OF inv]) (use plain(1) csc_invD(7) [OF inv] in auto)
next
  case (post pcs t s x pJob)
  then have inv: "csc_inv s pcs" by simp
  show ?case unfolding fst_conv snd_conv
    by (rule csc_inv_step [OF inv]) (use post(1) csc_invD(7) [OF inv] in auto)
next
  case (take pcs t s x n)
  then have inv: "csc_inv s pcs" by simp
  show ?case unfolding fst_conv snd_conv
    by (rule csc_inv_step [OF inv]) (use take(1,3) csc_invD(6,7) [OF inv] in auto)
next
  case (spin_count s pcs x n)
  then have inv: "csc_inv s pcs" by simp
  let ?s = "on_scoped x (sc_SetSpinCount n) s"
  have same: "held ?s p = held s p" "index_known ?s p = index_known s p" for p
    by (intro held_frame; simp add: on_scoped_def sc_SetSpinCount_def)+
  show ?case unfolding fst_conv snd_conv csc_inv_def same
    using csc_invD [OF inv] by (auto simp: on_scoped_def sc_SetSpinCount_def)
next
  case (run pcs t pc posted s p s')
  then show ?case unfolding fst_conv snd_conv
    using csc_plain_inv [of s pcs t pc p s'] csc_acquire_inv [of s pcs t pc p s'] csc_inside_inv [of s pcs t pc E p s']
      csc_post_inv [of s pcs t pc posted p s']
    by (cases pc) (auto simp: csc_thread_step_def
      simp del: fun_upd_apply csc_plain_step.simps csc_acquire_step.simps csc_inside_step.simps csc_post_step.simps)
qed

lemma csc_start_inv: "csc_inv (csc_start args) (\<lambda>_. None)"
  by (auto simp: csc_inv_def csc_start_def sc_new_def intro: exI [of _ "[]"])

lemma csc_steps_inv: "(csc_step E)\<^sup>*\<^sup>* (csc_start args, \<lambda>_. None) c \<Longrightarrow> csc_inv (fst c) (snd c)"
  by (induction rule: rtranclp_induct) (simp_all add: csc_start_inv csc_step_inv)

text \<open>The actors that a thread may run jobs on.\<close>

fun inside :: "'j csc_sys \<Rightarrow> 'j csc_pc option \<Rightarrow> int set" where
  "inside s (Some (PlainInside a)) = {a}"
| "inside s (Some (ScCount x)) = set (sc_mActors (csc_scoped s x))"
| "inside s (Some (ScExecute x n)) = set (sc_mActors (csc_scoped s x))"
| "inside s pc = {}"

lemma inside_held: "inside s p \<subseteq> set (held s p)"
  by (cases "(s, p)" rule: inside.cases) auto


subsection \<open>No acquisition waits for ever\<close>

text \<open>The steps a thread still needs, at most, until it is inside or has returned.\<close>

fun acquire_left :: "'j csc_sys \<Rightarrow> 'j csc_pc option \<Rightarrow> nat" where
  "acquire_left s (Some (PlainTry a)) = 1"
| "acquire_left s (Some (ScSpin x spins i k)) =
     (let n = length (sc_mActors (csc_scoped s x)) in if i < n then (n - Suc i) * (spins + 3) + (n + 4) + k + 3 else 1)"
| "acquire_left s (Some (ScSetIndex x spins i)) =
     (let n = length (sc_mActors (csc_scoped s x)) in (n - Suc i) * (spins + 3) + (n + 4) + 2)"
| "acquire_left s (Some (ScCheck x spins i)) =
     (let n = length (sc_mActors (csc_scoped s x)) in (n - Suc i) * (spins + 3) + (n + 4) + 1)"
| "acquire_left s (Some (ScRelease x b)) = length (sc_mActors (csc_scoped s x)) + 2"
| "acquire_left s (Some (ScReleaseAt x b n)) = n + 1"
| "acquire_left s pc = 0"

lemma acquire_step_down:
  assumes "csc_thread_step E posted pc s = (p, s')" "0 < acquire_left s (Some pc)" "index_known s (Some pc)"
  shows "acquire_left s' p < acquire_left s (Some pc)"
proof (cases pc)
  case (ScSpin x spins i k)
  then show ?thesis using assms
    by (cases k) (auto simp: csc_thread_step_def Let_def split: if_splits)
next
  case (ScSetIndex x spins i)
  then show ?thesis using assms by (auto simp: csc_thread_step_def on_scoped_def Let_def)
next
  case (ScCheck x spins i)
  let ?n = "length (sc_mActors (csc_scoped s x))"
  have "(?n - Suc i) * (spins + 3) = (?n - Suc (Suc i)) * (spins + 3) + spins + 3" if "Suc i < ?n"
  proof -
    from that have "?n - Suc i = Suc (?n - Suc (Suc i))" by simp
    then show ?thesis by simp
  qed
  then show ?thesis using ScCheck assms by (auto simp: csc_thread_step_def Let_def split: if_splits)
next
  case (ScRelease x b)
  then show ?thesis using assms by (auto simp: csc_thread_step_def)
next
  case (ScReleaseAt x b n)
  then show ?thesis using assms by (cases n) (auto simp: csc_thread_step_def)
qed (use assms in \<open>auto simp: csc_thread_step_def split: if_splits\<close>)


lemma actors_fixed: "csc_step E c c' \<Longrightarrow> sc_mActors (csc_scoped (fst c') x) = sc_mActors (csc_scoped (fst c) x)"
proof (induction rule: csc_step.induct)
  case (run pcs t pc posted s p s')
  show ?case
  proof (cases "\<exists>y n. pc = ScExecute y n")
    case True
    then obtain y n where pc: "pc = ScExecute y n" by blast
    obtain js a where a: "sc_Execute (csc_scoped s y) = (js, a)" by fastforce
    then show ?thesis using run(2) pc Execute_result [OF a] by (auto simp: csc_thread_step_def split: nat.splits)
  qed (use run(2) in \<open>cases pc; auto simp: csc_thread_step_def on_scoped_def sc_PushJob_def Let_def split: if_splits nat.splits\<close>)
qed (simp_all add: on_scoped_def sc_SetSpinCount_def)

lemma acquire_left_frame:
  "(\<And>x. sc_mActors (csc_scoped s' x) = sc_mActors (csc_scoped s x)) \<Longrightarrow> acquire_left s' p = acquire_left s p"
  by (cases "(s, p)" rule: acquire_left.cases) auto

text \<open>A run in which thread \<open>t\<close> makes \<open>n\<close> steps and is neither inside nor has returned before the last of them.\<close>

inductive csc_tries :: "int \<Rightarrow> nat \<Rightarrow> nat \<Rightarrow> 'j csc_conf \<Rightarrow> 'j csc_conf \<Rightarrow> bool" for E t where
  start: "csc_tries E t 0 c c"
| other: "csc_tries E t n c c' \<Longrightarrow> csc_step E c' c'' \<Longrightarrow> snd c'' t = snd c' t \<Longrightarrow> csc_tries E t n c c''"
| own: "csc_tries E t n c (s, pcs) \<Longrightarrow> pcs t = Some pc \<Longrightarrow> 0 < acquire_left s (Some pc) \<Longrightarrow> csc_thread_step E posted pc s = (p, s') \<Longrightarrow>
    csc_tries E t (Suc n) c (s', pcs(t := p))"

lemma tries_bound:
  assumes "csc_tries E t n c c'" "csc_inv (fst c) (snd c)"
  shows "csc_inv (fst c') (snd c') \<and> n + acquire_left (fst c') (snd c' t) \<le> acquire_left (fst c) (snd c t)"
  using assms
proof (induction rule: csc_tries.induct)
  case (other n c c' c'')
  then show ?case using csc_step_inv [OF other(2)] acquire_left_frame [OF actors_fixed [OF other(2)]] by simp
next
  case (own n c s pcs pc posted p s')
  have "csc_inv s' (pcs(t := p))"
    using csc_step_inv [OF csc_step.run [of pcs t pc E posted s p s']] own by simp
  moreover have "index_known s (Some pc)" using csc_invD(5) [of s pcs t] own by simp
  ultimately show ?case using acquire_step_down [OF own(4,3)] own by (simp del: fun_upd_apply add: fun_upd_same)
qed simp


subsection \<open>One thread alone\<close>

text \<open>Without interference the steps of a thread are the calls of Scoped_Actors.\<close>

inductive csc_alone :: "int \<Rightarrow> 'j csc_pc option \<times> 'j csc_sys \<Rightarrow> 'j csc_pc option \<times> 'j csc_sys \<Rightarrow> bool" for E where
  step: "csc_thread_step E True pc s = (p, s') \<Longrightarrow> csc_alone E (Some pc, s) (p, s')"

lemma alone_run:
  assumes "(csc_alone E)\<^sup>*\<^sup>* (pcs t, s) (p, s')" shows "(csc_step E)\<^sup>*\<^sup>* (s, pcs) (s', pcs(t := p))"
  using assms
proof (induction rule: rtranclp_induct2)
  case refl
  then show ?case by simp
next
  case (step q u p v)
  from step(2) obtain pc where pc: "q = Some pc" "csc_thread_step E True pc u = (p, v)" by cases auto
  then have "csc_step E (u, pcs(t := q)) (v, (pcs(t := q))(t := p))" by (intro csc_step.run) simp_all
  with step(3) show ?case unfolding fun_upd_upd by (rule rtranclp.rtrancl_into_rtrancl)
qed

lemma alone_spin:
  assumes "i < length (sc_mActors (csc_scoped s x))" "sc_spin k (sc_mActors (csc_scoped s x) ! i) (csc_flags s) = (got, f)"
  shows "(csc_alone E)\<^sup>*\<^sup>* (Some (ScSpin x spins i k), s) (Some (if got then ScSetIndex x spins i else ScCheck x spins i), s\<lparr>csc_flags := f\<rparr>)"
  using assms
proof (induction k arbitrary: s)
  case 0
  then show ?case by (intro r_into_rtranclp csc_alone.step) (simp add: csc_thread_step_def)
next
  case (Suc k)
  let ?a = "sc_mActors (csc_scoped s x) ! i" and ?s = "s\<lparr>csc_flags := (csc_flags s)(sc_mActors (csc_scoped s x) ! i := True)\<rparr>"
  have one: "csc_alone E (Some (ScSpin x spins i (Suc k)), s) (if csc_flags s ?a then Some (ScSpin x spins i k) else Some (ScSetIndex x spins i), ?s)"
    using Suc.prems by (intro csc_alone.step) (simp add: csc_thread_step_def Let_def)
  show ?case
  proof (cases "csc_flags s ?a")
    case True
    have "(csc_alone E)\<^sup>*\<^sup>* (Some (ScSpin x spins i k), ?s) (Some (if got then ScSetIndex x spins i else ScCheck x spins i), ?s\<lparr>csc_flags := f\<rparr>)"
      by (rule Suc.IH) (use Suc.prems True in \<open>simp_all del: fun_upd_apply\<close>)
    then show ?thesis using one True by (simp add: converse_rtranclp_into_rtranclp)
  next
    case False
    then have "got" "f = (csc_flags s)(?a := True)" using Suc.prems by auto
    then show ?thesis using one False by (simp del: fun_upd_apply)
  qed
qed


lemma alone_acquire:
  assumes "sc_acquire_loop spins (int i) (drop i (sc_mActors (csc_scoped s x))) (int i - 1) (csc_flags s) = (b, j, f)"
    and "sc_mAcquireIndex (csc_scoped s x) = int i - 1" "i \<le> length (sc_mActors (csc_scoped s x))"
  shows "(csc_alone E)\<^sup>*\<^sup>* (Some (ScSpin x spins i spins), s)
    (Some (if b then ScCount x else ScRelease x False), on_scoped x (\<lambda>a. a\<lparr>sc_mAcquireIndex := j\<rparr>) (s\<lparr>csc_flags := f\<rparr>))"
  using assms
proof (induction "length (sc_mActors (csc_scoped s x)) - i" arbitrary: i s)
  case 0
  then have "b" "j = int i - 1" "f = csc_flags s" by auto
  moreover have "on_scoped x (\<lambda>a. a\<lparr>sc_mAcquireIndex := int i - 1\<rparr>) (s\<lparr>csc_flags := csc_flags s\<rparr>) = s"
    using 0(3) by (simp add: on_scoped_def fun_upd_idem)
  moreover have "csc_thread_step E True (ScSpin x spins i spins) s = (Some (ScCount x), s)"
    using 0 by (simp add: csc_thread_step_def)
  ultimately show ?case using csc_alone.step [of E "ScSpin x spins i spins" s] by (simp add: r_into_rtranclp)
next
  case (Suc n)
  let ?as = "sc_mActors (csc_scoped s x)"
  have i: "i < length ?as" using Suc.hyps(2) by simp
  then have drop: "drop i ?as = ?as ! i # drop (Suc i) ?as" by (simp add: Cons_nth_drop_Suc)
  obtain got g where spin: "sc_spin spins (?as ! i) (csc_flags s) = (got, g)" by fastforce
  note first = alone_spin [OF i spin, of E spins]
  let ?s = "s\<lparr>csc_flags := g\<rparr>" and ?t = "on_scoped x (\<lambda>a. a\<lparr>sc_mAcquireIndex := int i\<rparr>) (s\<lparr>csc_flags := g\<rparr>)"
  show ?case
  proof (cases got)
    case False
    then have r: "\<not> b" "j = int i - 1" "f = g" using Suc.prems(1) spin by (auto simp: drop)
    have "on_scoped x (\<lambda>a. a\<lparr>sc_mAcquireIndex := int i - 1\<rparr>) ?s = ?s"
      using Suc.prems(2) by (simp add: on_scoped_def fun_upd_idem)
    moreover have "csc_alone E (Some (ScCheck x spins i), ?s) (Some (ScRelease x False), ?s)"
      by (intro csc_alone.step) (simp add: csc_thread_step_def Suc.prems(2))
    ultimately show ?thesis using first False r by (simp add: rtranclp.rtrancl_into_rtrancl)
  next
    case True
    have rest: "sc_acquire_loop spins (int i + 1) (drop (Suc i) ?as) (int i) g = (b, j, f)"
      using Suc.prems(1) True unfolding drop by (simp only: sc_acquire_loop.simps spin prod.case Let_def if_True) simp
    have "csc_alone E (Some (ScSetIndex x spins i), ?s) (Some (ScCheck x spins i), ?t)"
      by (intro csc_alone.step) (simp add: csc_thread_step_def)
    moreover have "csc_alone E (Some (ScCheck x spins i), ?t) (Some (ScSpin x spins (Suc i) spins), ?t)"
      by (intro csc_alone.step) (simp add: csc_thread_step_def on_scoped_def)
    moreover have "(csc_alone E)\<^sup>*\<^sup>* (Some (ScSpin x spins (Suc i) spins), ?t)
        (Some (if b then ScCount x else ScRelease x False), on_scoped x (\<lambda>a. a\<lparr>sc_mAcquireIndex := j\<rparr>) (?t\<lparr>csc_flags := f\<rparr>))"
    proof (rule Suc.hyps(1))
      show "sc_acquire_loop spins (int (Suc i)) (drop (Suc i) (sc_mActors (csc_scoped ?t x))) (int (Suc i) - 1) (csc_flags ?t) = (b, j, f)"
        using rest by (simp add: on_scoped_def add.commute)
    qed (use Suc.hyps(2) i in \<open>simp_all add: on_scoped_def\<close>)
    moreover have "on_scoped x (\<lambda>a. a\<lparr>sc_mAcquireIndex := j\<rparr>) (?t\<lparr>csc_flags := f\<rparr>) =
        on_scoped x (\<lambda>a. a\<lparr>sc_mAcquireIndex := j\<rparr>) (s\<lparr>csc_flags := f\<rparr>)" by (simp add: on_scoped_def)
    ultimately have "(csc_alone E)\<^sup>*\<^sup>* (Some (ScSetIndex x spins i), ?s)
        (Some (if b then ScCount x else ScRelease x False), on_scoped x (\<lambda>a. a\<lparr>sc_mAcquireIndex := j\<rparr>) (s\<lparr>csc_flags := f\<rparr>))"
      by (metis converse_rtranclp_into_rtranclp)
    with first True show ?thesis by simp
  qed
qed

lemma alone_release:
  "(csc_alone E)\<^sup>*\<^sup>* (Some (ScReleaseAt x b n), s)
    (if b then Some (ScRegister x) else None,
     on_scoped x (\<lambda>a. a\<lparr>sc_mAcquireIndex := - 1\<rparr>) (s\<lparr>csc_flags := sc_release_loop n (sc_mActors (csc_scoped s x)) (csc_flags s)\<rparr>))"
proof (induction n arbitrary: s)
  case 0
  show ?case by (intro r_into_rtranclp csc_alone.step) (simp add: csc_thread_step_def)
next
  case (Suc n)
  let ?s = "s\<lparr>csc_flags := (csc_flags s)(sc_mActors (csc_scoped s x) ! n := False)\<rparr>"
  have "csc_alone E (Some (ScReleaseAt x b (Suc n)), s) (Some (ScReleaseAt x b n), ?s)"
    by (intro csc_alone.step) (simp add: csc_thread_step_def)
  then show ?case using Suc.IH [of ?s] by (simp add: converse_rtranclp_into_rtranclp del: fun_upd_apply)
qed

lemma alone_TryAcquire:
  assumes "sc_TryAcquire (csc_flags s) (csc_scoped s x) = (b, f, a)" "sc_mAcquireIndex (csc_scoped s x) = - 1"
    and "spins = nat (sc_GetSpinCount (csc_scoped s x))"
  shows "(csc_alone E)\<^sup>*\<^sup>* (Some (ScSpin x spins 0 spins), s)
    (if b then Some (ScCount x) else None, s\<lparr>csc_flags := f, csc_scoped := (csc_scoped s)(x := a)\<rparr>)"
proof -
  let ?a = "csc_scoped s x"
  obtain b1 j g where loop: "sc_acquire_loop spins 0 (sc_mActors ?a) (- 1) (csc_flags s) = (b1, j, g)" by (metis prod_cases3)
  let ?s = "on_scoped x (\<lambda>a. a\<lparr>sc_mAcquireIndex := j\<rparr>) (s\<lparr>csc_flags := g\<rparr>)"
  have first: "(csc_alone E)\<^sup>*\<^sup>* (Some (ScSpin x spins 0 spins), s) (Some (if b1 then ScCount x else ScRelease x False), ?s)"
    by (rule alone_acquire) (use loop assms(2) in simp_all)
  have TryAcquire: "sc_TryAcquire (csc_flags s) ?a =
      (if b1 then (True, g, ?a\<lparr>sc_mAcquireIndex := j\<rparr>) else (False, sc_Release g (?a\<lparr>sc_mAcquireIndex := j\<rparr>)))"
    using loop assms(2,3) by (simp add: sc_TryAcquire_def sc_tryAcquireAll_def)
  show ?thesis
  proof (cases b1)
    case True
    then show ?thesis using first TryAcquire assms(1) by (auto simp: on_scoped_def simp del: fun_upd_apply)
  next
    case False
    have "csc_alone E (Some (ScRelease x False), ?s) (Some (ScReleaseAt x False (nat (j + 1))), ?s)"
      by (intro csc_alone.step) (simp add: csc_thread_step_def on_scoped_def)
    then have "(csc_alone E)\<^sup>*\<^sup>* (Some (ScSpin x spins 0 spins), s) (Some (ScReleaseAt x False (nat (j + 1))), ?s)"
      using first False by (simp add: rtranclp.rtrancl_into_rtrancl)
    from rtranclp_trans [OF this alone_release] show ?thesis
      using False TryAcquire assms(1) by (auto simp: on_scoped_def sc_Release_def)
  qed
qed


subsection \<open>A run\<close>

text \<open>A scoped actor over the actors 1 and 2 with one job.\<close>

definition demo_start :: "string csc_sys" where
  "demo_start = csc_start (\<lambda>_. [1, 2])"

lemmas csc_eval = csc_thread_step_def on_scoped_def sc_PushJob_def sc_GetJobCount_def sc_GetSpinCount_def sc_new_def
  ac_DEFAULT_MAX_COUNT_def sc_DEFAULT_SPIN_COUNT_def ao_GetOwner_def ao_SetOwner_def ao_ClearOverlapped_def

lemma demo_dispatch:
  obtains s where "(csc_step E)\<^sup>*\<^sup>* (demo_start, \<lambda>_. None) (s, (\<lambda>_. None)(0 := Some (ScSpin 0 5000 0 5000)))"
    "sc_mJobQueue (csc_scoped s 0) = [Some ''job'']" "sc_mActors (csc_scoped s 0) = [1, 2]" "sc_mSpinCount (csc_scoped s 0) = 5000"
    "sc_mAcquireIndex (csc_scoped s 0) = - 1" "csc_flags s = (\<lambda>_. False)" "csc_executed s = (\<lambda>_. [])"
proof -
  let ?at = "\<lambda>pc. (\<lambda>_. None)(0 := Some pc)"
  let ?a = "(sc_new [1, 2])\<lparr>sc_mJobQueue := [Some ''job''], sc_mActorOverlapped := ao_SetOwner (ao_ClearOverlapped ao_new)\<rparr>"
  let ?s = "demo_start\<lparr>csc_scoped := (csc_scoped demo_start)(0 := ?a), csc_packets := (\<lambda>_. 0)(0 := 1),
    csc_pushed := (csc_pushed demo_start)(0 := [Some ''job''])\<rparr>"
  obtain s1 where 1: "csc_thread_step E True (ScPush 0 (Some ''job'')) demo_start = (Some (ScRegister 0), s1)"
    "csc_thread_step E True (ScRegister 0) s1 = (Some (ScSchedClear 0), s1)"
    and s1: "s1 = demo_start\<lparr>csc_scoped := (csc_scoped demo_start)(0 := (sc_new [1, 2])\<lparr>sc_mJobQueue := [Some ''job'']\<rparr>),
      csc_pushed := (csc_pushed demo_start)(0 := [Some ''job''])\<rparr>"
    by (simp add: csc_eval demo_start_def csc_start_def)
  obtain s2 s3 where 2: "csc_thread_step E True (ScSchedClear 0) s1 = (Some (ScSchedSetOwner 0), s2)"
    "csc_thread_step E True (ScSchedSetOwner 0) s2 = (Some (ScSchedPost 0), s3)" "csc_thread_step E True (ScSchedPost 0) s3 = (None, ?s)"
    by (simp add: csc_thread_step_def on_scoped_def s1 sc_new_def demo_start_def csc_start_def)
  note steps = csc_alone.step [OF 1(1)] csc_alone.step [OF 1(2)] csc_alone.step [OF 2(1)] csc_alone.step [OF 2(2)] csc_alone.step [OF 2(3)]
  have "(csc_alone E)\<^sup>*\<^sup>* (Some (ScPush 0 (Some ''job'')), demo_start) (None, ?s)"
    using steps by (meson converse_rtranclp_into_rtranclp rtranclp.rtrancl_refl)
  then have "(csc_step E)\<^sup>*\<^sup>* (demo_start, ?at (ScPush 0 (Some ''job''))) (?s, (?at (ScPush 0 (Some ''job'')))(0 := None))"
    by (intro alone_run) (simp only: fun_upd_same)
  then have "(csc_step E)\<^sup>*\<^sup>* (demo_start, ?at (ScPush 0 (Some ''job''))) (?s, \<lambda>_. None)"
    unfolding fun_upd_upd fun_upd_idem [of "\<lambda>_. None" 0 None, OF refl] .
  moreover have "csc_step E (demo_start, \<lambda>_. None) (demo_start, ?at (ScPush 0 (Some ''job'')))" by (rule csc_step.post) simp
  ultimately have "(csc_step E)\<^sup>*\<^sup>* (demo_start, \<lambda>_. None) (?s, \<lambda>_. None)" by (rule converse_rtranclp_into_rtranclp [rotated])
  also have "csc_step E (?s, \<lambda>_. None) (?s\<lparr>csc_packets := (csc_packets ?s)(0 := 0)\<rparr>, ?at (ScOwner 0))" by (rule csc_step.take) simp_all
  also have "csc_step E (?s\<lparr>csc_packets := (csc_packets ?s)(0 := 0)\<rparr>, ?at (ScOwner 0))
      (?s\<lparr>csc_packets := (csc_packets ?s)(0 := 0)\<rparr>, (?at (ScOwner 0))(0 := Some (ScSpin 0 5000 0 5000)))"
    by (rule csc_step.run [where posted = True and pc = "ScOwner 0"]) (simp_all add: csc_eval)
  finally show ?thesis unfolding fun_upd_upd
    by (rule that) (simp_all add: demo_start_def csc_start_def sc_new_def sc_DEFAULT_SPIN_COUNT_def)
qed



end
