(* ===== verification/Concurrent_Wheel.thy ===== *)
theory Concurrent_Wheel
  imports Concurrent_Runs Timing_Wheel
begin

text \<open>
  TimingWheel (TimingWheel.cpp) used by any number of threads: the workers of the scheduler call \<open>Tick\<close>, posts
  with a delay call \<open>AddTiming\<close>, and holders of a handle call \<open>Cancel\<close>. One step for each access to what the
  threads share: \<open>mbTicking\<close>, a cancellation flag, and a section under \<open>mLock\<close>, which is a single step
  because it holds no other lock and calls nobody. A call of the wheel from inside a callback is the call of
  another thread in this model, since no lock is held while callbacks run.
\<close>

subsection \<open>State and program counters\<close>

text \<open>
  The clock is part of the state. The members after \<open>ctw_flags\<close> are history: the flags that have been
  allocated (addresses are not reused), the handles returned to clients, the tick and the flag of every
  filed node, every executed node with the time of its execution, and the callbacks with their flags.
\<close>

record 'cb shared_wheel =
  ctw_mTimingWheel :: "'cb TimingWheel"
  ctw_clock :: int
  ctw_flags :: cancel_flags
  ctw_allocated :: "flag_addr set"
  ctw_handles :: "flag_addr set"
  ctw_filed :: "(nat \<times> flag_addr) multiset"
  ctw_executed :: "(int \<times> 'cb TimingNode) list"
  ctw_called :: "(flag_addr \<times> 'cb) list"

definition ctw_new :: "uint64 \<Rightarrow> int \<Rightarrow> 'cb shared_wheel" where
  "ctw_new tickInterval now =
     \<lparr>ctw_mTimingWheel = tw_new tickInterval now, ctw_clock = now, ctw_flags = (\<lambda>_. False),
      ctw_allocated = {}, ctw_handles = {}, ctw_filed = {#}, ctw_executed = [], ctw_called = []\<rparr>"

text \<open>
  \<open>AddNode\<close> is AddTiming after its handle has been made. \<open>ProcessTick\<close> has the tick count, the loop
  counter \<open>i\<close> and \<open>executeList\<close>; \<open>GiveUp\<close> is the early return of Tick.
\<close>

datatype 'cb ctw_pc =
    AddNode "'cb option" uint64 flag_addr
  | TryTick | ReadClock | GiveUp | ProcessTick uint64 uint32 "'cb TimingNode list"
  | LowerTicking "'cb TimingNode list" | ExecuteNodes "'cb TimingNode list"

datatype 'cb ctw_next = WhlGoto "'cb ctw_pc" | WhlReturn | WhlThrow

subsection \<open>The steps of the operations\<close>

fun ctw_AddTiming_step :: "'cb ctw_pc \<Rightarrow> 'cb shared_wheel \<Rightarrow> 'cb ctw_next \<times> 'cb shared_wheel" where
  "ctw_AddTiming_step (AddNode cb delayMs f) s =
     (case tw_AddTiming cb delayMs f (ctw_mTimingWheel s) of
        Inl e \<Rightarrow> (WhlThrow, s)
      | Inr (called, w) \<Rightarrow> (WhlReturn, s\<lparr>ctw_mTimingWheel := w, ctw_handles := insert f (ctw_handles s),
          ctw_filed := (if delayMs = 0 then {#}
             else {#(tick (ctw_mTimingWheel s) + delay_ticks (ctw_mTimingWheel s) delayMs, f)#}) + ctw_filed s,
          ctw_called := ctw_called s @ (case called of None \<Rightarrow> [] | Some c \<Rightarrow> [(f, c)])\<rparr>))"
| "ctw_AddTiming_step pc s = (WhlGoto pc, s)"

fun ctw_Tick_step :: "'cb ctw_pc \<Rightarrow> 'cb shared_wheel \<Rightarrow> 'cb ctw_next \<times> 'cb shared_wheel" where
  "ctw_Tick_step TryTick s =
     (if tw_mbTicking (ctw_mTimingWheel s) then WhlReturn else WhlGoto ReadClock,
      s\<lparr>ctw_mTimingWheel := (ctw_mTimingWheel s)\<lparr>tw_mbTicking := True\<rparr>\<rparr>)"
| "ctw_Tick_step ReadClock s =
     (let w = ctw_mTimingWheel s; i = tw_mTickIntervalMs w;
          elapsedMs = (word_of_int ((ctw_clock s - tw_mLastTickTime w) sdiv 1000000) :: uint64) in
      if elapsedMs < i then (WhlGoto GiveUp, s)
      else (WhlGoto (ProcessTick (elapsedMs div i) 0 []),
            s\<lparr>ctw_mTimingWheel := w\<lparr>tw_mLastTickTime := tw_mLastTickTime w + uint (elapsedMs div i * i) * 1000000\<rparr>\<rparr>))"
| "ctw_Tick_step GiveUp s = (WhlReturn, s\<lparr>ctw_mTimingWheel := (ctw_mTimingWheel s)\<lparr>tw_mbTicking := False\<rparr>\<rparr>)"
| "ctw_Tick_step (ProcessTick tickCount i executeList) s =
     (if ucast i < tickCount then
        (let (w, executeList') = tw_advance (ctw_mTimingWheel s) executeList
         in (WhlGoto (ProcessTick tickCount (i + 1) executeList'), s\<lparr>ctw_mTimingWheel := w\<rparr>))
      else (WhlGoto (LowerTicking executeList), s))"
| "ctw_Tick_step (LowerTicking executeList) s =
     (WhlGoto (ExecuteNodes executeList), s\<lparr>ctw_mTimingWheel := (ctw_mTimingWheel s)\<lparr>tw_mbTicking := False\<rparr>\<rparr>)"
| "ctw_Tick_step (ExecuteNodes []) s = (WhlReturn, s)"
| "ctw_Tick_step (ExecuteNodes (node # nodes)) s =
     (WhlGoto (ExecuteNodes nodes),
      s\<lparr>ctw_executed := ctw_executed s @ [(ctw_clock s, node)],
        ctw_called := ctw_called s @ (case tn_Execute (ctw_flags s) node of
            None \<Rightarrow> [] | Some c \<Rightarrow> [(the (tn_mpCancelFlag node), c)])\<rparr>)"
| "ctw_Tick_step pc s = (WhlGoto pc, s)"

definition ctw_thread_step :: "'cb ctw_pc \<Rightarrow> 'cb shared_wheel \<Rightarrow> 'cb ctw_next \<times> 'cb shared_wheel" where
  "ctw_thread_step pc s = (case pc of AddNode cb delayMs f \<Rightarrow> ctw_AddTiming_step pc s | _ \<Rightarrow> ctw_Tick_step pc s)"

subsection \<open>Runs of many threads\<close>

fun ctw_goto :: "'cb ctw_next \<Rightarrow> 'cb ctw_pc option" where
  "ctw_goto (WhlGoto pc) = Some pc" | "ctw_goto WhlReturn = None" | "ctw_goto WhlThrow = None"

type_synonym 'cb ctw_conf = "'cb shared_wheel \<times> (nat \<Rightarrow> 'cb ctw_pc option)"

inductive ctw_step :: "'cb ctw_conf \<Rightarrow> 'cb ctw_conf \<Rightarrow> bool" where
  call_AddTiming: "pcs t = None \<Longrightarrow> f \<notin> ctw_allocated s \<Longrightarrow> th_new f (ctw_flags s) = (Some f, flags) \<Longrightarrow>
    ctw_step (s, pcs) (s\<lparr>ctw_flags := flags, ctw_allocated := insert f (ctw_allocated s)\<rparr>,
      pcs(t := Some (AddNode cb delayMs f)))"
| call_Tick: "pcs t = None \<Longrightarrow> ctw_step (s, pcs) (s, pcs(t := Some TryTick))"
| call_Cancel: "f \<in> ctw_handles s \<Longrightarrow> ctw_step (s, pcs) (s\<lparr>ctw_flags := th_Cancel (Some f) (ctw_flags s)\<rparr>, pcs)"
| time: "ctw_clock s \<le> now \<Longrightarrow> ctw_step (s, pcs) (s\<lparr>ctw_clock := now\<rparr>, pcs)"
| run: "pcs t = Some pc \<Longrightarrow> ctw_thread_step pc s = (r, s') \<Longrightarrow> ctw_step (s, pcs) (s', pcs(t := ctw_goto r))"

subsection \<open>The invariant\<close>

fun ticking :: "'cb ctw_pc option \<Rightarrow> bool" where
  "ticking (Some ReadClock) = True" | "ticking (Some GiveUp) = True" | "ticking (Some (ProcessTick k i ns)) = True"
| "ticking (Some (LowerTicking ns)) = True" | "ticking pc = False"

fun carried :: "'cb ctw_pc option \<Rightarrow> 'cb TimingNode list" where
  "carried (Some (ProcessTick k i ns)) = ns" | "carried (Some (LowerTicking ns)) = ns"
| "carried (Some (ExecuteNodes ns)) = ns" | "carried pc = []"

text \<open>How many ticks the thread that holds \<open>mbTicking\<close> still has to make.\<close>

fun left_over :: "'cb ctw_pc option \<Rightarrow> nat" where
  "left_over (Some (ProcessTick k i ns)) = unat k - unat i" | "left_over pc = 0"

definition last_is :: "int \<Rightarrow> nat \<Rightarrow> 'cb TimingWheel \<Rightarrow> bool" where
  "last_is t0 c w \<longleftrightarrow> tw_mLastTickTime w = t0 + int c * uint (tw_mTickIntervalMs w) * 1000000"

fun in_loop :: "'cb ctw_pc option \<Rightarrow> bool" where
  "in_loop (Some (ProcessTick k i ns)) \<longleftrightarrow> unat i \<le> unat k \<and> unat k < 2 ^ 32" | "in_loop pc \<longleftrightarrow> True"

definition ctw_inv :: "int \<Rightarrow> 'cb shared_wheel \<Rightarrow> (nat \<Rightarrow> 'cb ctw_pc option) \<Rightarrow> bool" where
  "ctw_inv t0 s pcs \<longleftrightarrow> (let w = ctw_mTimingWheel s in
     tw_wf w \<and> 0 < tw_mTickIntervalMs w \<and> unat (tw_mTickIntervalMs w) < 2 ^ 32 \<and>
     threads_in ticking pcs = of_bool (tw_mbTicking w) \<and>
     last_is t0 (tick w + gathered left_over pcs) w \<and> tw_mLastTickTime w \<le> ctw_clock s \<and>
     ctw_filed s = image_mset node_key (mset (map snd (ctw_executed s)) + gathered (mset \<circ> carried) pcs + tw_abs w) \<and>
     (\<forall>t. in_loop (pcs t) \<and> sorted (map expire (carried (pcs t))) \<and> (\<forall>n \<in> set (carried (pcs t)). expire n < tick w)) \<and>
     (\<forall>(at, n) \<in> set (ctw_executed s). expire n < due_ticks t0 (tw_mTickIntervalMs w) at \<and> at \<le> ctw_clock s \<and> expire n < tick w))"


abbreviation ctw_ticks :: "'cb shared_wheel \<Rightarrow> nat" where
  "ctw_ticks s \<equiv> tick (ctw_mTimingWheel s)"

lemma not_at_wheel [simp]: "\<not> ticking None" "carried None = []" "left_over None = 0" "in_loop None" "(mset \<circ> carried) None = {#}"
  by simp_all

lemma ctw_invD:
  assumes "ctw_inv t0 s pcs"
  shows "tw_wf (ctw_mTimingWheel s)" "0 < tw_mTickIntervalMs (ctw_mTimingWheel s)"
    "unat (tw_mTickIntervalMs (ctw_mTimingWheel s)) < 2 ^ 32"
    "threads_in ticking pcs = of_bool (tw_mbTicking (ctw_mTimingWheel s))"
    "last_is t0 (ctw_ticks s + gathered left_over pcs) (ctw_mTimingWheel s)"
    "tw_mLastTickTime (ctw_mTimingWheel s) \<le> ctw_clock s"
    "ctw_filed s = image_mset node_key (mset (map snd (ctw_executed s)) + gathered (mset \<circ> carried) pcs + tw_abs (ctw_mTimingWheel s))"
    "in_loop (pcs t)" "sorted (map expire (carried (pcs t)))" "n \<in> set (carried (pcs t)) \<Longrightarrow> expire n < ctw_ticks s"
    "(at, n) \<in> set (ctw_executed s) \<Longrightarrow>
       expire n < due_ticks t0 (tw_mTickIntervalMs (ctw_mTimingWheel s)) at \<and> at \<le> ctw_clock s \<and> expire n < ctw_ticks s"
  using assms unfolding ctw_inv_def Let_def by auto

text \<open>What one step of thread \<open>t\<close> has to keep.\<close>

lemma ctw_inv_step:
  fixes s s' :: "'cb shared_wheel"
  defines "w \<equiv> ctw_mTimingWheel s" and "w' \<equiv> ctw_mTimingWheel s'"
  assumes inv: "ctw_inv t0 s pcs" and fin: "finite_loops pcs"
    and wheel: "tw_wf w'" "tw_mTickIntervalMs w' = tw_mTickIntervalMs w" "ctw_clock s' = ctw_clock s"
    and flag: "of_bool (ticking p) + of_bool (tw_mbTicking w) = of_bool (ticking (pcs t)) + (of_bool (tw_mbTicking w') :: nat)"
    and last: "last_is t0 (tick w + gathered left_over pcs) w \<Longrightarrow>
      last_is t0 (tick w' + (gathered left_over pcs - left_over (pcs t) + left_over p)) w'" "tw_mLastTickTime w' \<le> ctw_clock s"
    and ticks: "tick w \<le> tick w'"
    and filed: "ctw_filed s' + image_mset node_key (mset (map snd (ctw_executed s)) + mset (carried (pcs t)) + tw_abs w) =
      ctw_filed s + image_mset node_key (mset (map snd (ctw_executed s')) + mset (carried p) + tw_abs w')"
    and own: "in_loop p" "sorted (map expire (carried p))" "\<forall>n \<in> set (carried p). expire n < tick w'"
    and new: "\<forall>(at, n) \<in> set (ctw_executed s') - set (ctw_executed s). at = ctw_clock s \<and> n \<in> set (carried (pcs t))"
    and due: "tick w \<le> due_ticks t0 (tw_mTickIntervalMs w) (ctw_clock s)"
  shows "ctw_inv t0 s' (pcs(t := p))"
proof -
  note D = ctw_invD [OF inv, folded w_def]
  have "threads_in ticking (pcs(t := p)) = of_bool (tw_mbTicking w')"
    using threads_in_upd [OF fin, of ticking t p] flag D(4) by simp
  moreover have "gathered left_over (pcs(t := p)) = gathered left_over pcs - left_over (pcs t) + left_over p"
    using gathered_upd [OF fin, of left_over t p] gathered_upd [OF fin, of left_over t None] by simp
  then have "last_is t0 (tick w' + gathered left_over (pcs(t := p))) w'" using last(1) [OF D(5)] by simp
  moreover have "ctw_filed s' = image_mset node_key
      (mset (map snd (ctw_executed s')) + gathered (mset \<circ> carried) (pcs(t := p)) + tw_abs w')"
  proof -
    have eq: "gathered (mset \<circ> carried) (pcs(t := p)) + mset (carried (pcs t)) = gathered (mset \<circ> carried) pcs + mset (carried p)"
      using gathered_upd [OF fin, of "mset \<circ> carried" t p] by simp
    let ?X = "image_mset node_key (mset (map snd (ctw_executed s)) + mset (carried (pcs t)) + tw_abs w)"
    have "ctw_filed s' + ?X = image_mset node_key (mset (map snd (ctw_executed s')) + gathered (mset \<circ> carried) (pcs(t := p)) + tw_abs w') + ?X"
      unfolding filed D(7) using arg_cong [OF eq, of "image_mset node_key"] by (simp add: ac_simps)
    then show ?thesis by (rule add_right_imp_eq)
  qed
  moreover have "in_loop ((pcs(t := p)) u) \<and> sorted (map expire (carried ((pcs(t := p)) u))) \<and>
      (\<forall>n \<in> set (carried ((pcs(t := p)) u)). expire n < tick w')" for u
    using own D(8) [of u] D(9) [of u] D(10) [of _ u] ticks by (cases "u = t") (auto intro: less_le_trans)
  moreover have "expire n < due_ticks t0 (tw_mTickIntervalMs w') at \<and> at \<le> ctw_clock s' \<and> expire n < tick w'"
    if "(at, n) \<in> set (ctw_executed s')" for at n
  proof (cases "(at, n) \<in> set (ctw_executed s)")
    case True
    then show ?thesis using D(11) [of at n] wheel(2,3) ticks by simp
  next
    case False
    then have "at = ctw_clock s" "n \<in> set (carried (pcs t))" using new that by auto
    then show ?thesis using D(10) [of n t] due wheel(2,3) ticks by simp
  qed
  ultimately show ?thesis using D(2,3) wheel last(2) unfolding ctw_inv_def Let_def w'_def [symmetric] by auto
qed

lemma clock_covers:
  assumes inv: "ctw_inv t0 s pcs"
  shows "ctw_ticks s + gathered left_over pcs \<le> due_ticks t0 (tw_mTickIntervalMs (ctw_mTimingWheel s)) (ctw_clock s)"
proof -
  let ?w = "ctw_mTimingWheel s" and ?c = "ctw_ticks s + gathered left_over pcs"
  let ?i = "uint (tw_mTickIntervalMs ?w)"
  note D = ctw_invD [OF inv]
  have i0: "0 < ?i" using D(2) by (simp add: word_less_def)
  have "int ?c * ?i * 1000000 \<le> ctw_clock s - t0" using D(5,6) by (simp add: last_is_def)
  then have "int ?c * ?i * 1000000 div 1000000 \<le> (ctw_clock s - t0) div 1000000" by (rule zdiv_mono1) simp
  then have "int ?c * ?i \<le> (ctw_clock s - t0) div 1000000" by simp
  then have "int ?c * ?i div ?i \<le> (ctw_clock s - t0) div 1000000 div ?i" using i0 by (intro zdiv_mono1) simp_all
  then have "int ?c \<le> (ctw_clock s - t0) div 1000000 div ?i" using i0 by (simp only: nonzero_mult_div_cancel_right)
  then show ?thesis unfolding due_ticks_def by linarith
qed

lemma due_ticks_mono: "0 < i \<Longrightarrow> now \<le> now' \<Longrightarrow> due_ticks t0 i now \<le> due_ticks t0 i now'"
  unfolding due_ticks_def word_less_def by (intro nat_mono zdiv_mono1) auto


lemma AddTiming_frame:
  assumes "tw_AddTiming cb delayMs f w = Inr (called, w')"
  shows "tw_mLastTickTime w' = tw_mLastTickTime w" "tw_mbTicking w' = tw_mbTicking w"
    "tw_mTickIntervalMs w' = tw_mTickIntervalMs w" "tw_mCurrentTick w' = tw_mCurrentTick w"
  using assms by (auto simp: tw_AddTiming_def Let_def split: if_splits option.splits)

lemma ctw_AddTiming_inv:
  fixes s :: "'cb shared_wheel"
  assumes inv: "ctw_inv t0 s pcs" and fin: "finite_loops pcs" and pc: "pcs t = Some (AddNode cb delayMs f)"
    and step: "ctw_AddTiming_step (AddNode cb delayMs f) s = (r, s')"
    and bound: "due_ticks t0 (tw_mTickIntervalMs (ctw_mTimingWheel s)) (ctw_clock s) < 2 ^ 32"
  shows "ctw_inv t0 s' (pcs(t := ctw_goto r))"
proof -
  let ?w = "ctw_mTimingWheel s"
  note D = ctw_invD [OF inv] and tick = order.trans [OF le_add1 clock_covers [OF inv]]
  have none: "ctw_goto r = None" using step by (auto split: sum.splits)
  show ?thesis
  proof (cases "delayMs = 0")
    case True
    then have s': "ctw_mTimingWheel s' = ?w" "ctw_clock s' = ctw_clock s" "ctw_filed s' = ctw_filed s" "ctw_executed s' = ctw_executed s"
      using step by (auto simp: tw_AddTiming_def split: option.splits)
    show ?thesis unfolding none by (rule ctw_inv_step [OF inv fin]) (use D(1,6) tick in \<open>simp_all add: s' pc\<close>)
  next
    case False
    have "ctw_ticks s + 2 ^ 23 < 2 ^ 64" using tick bound by simp
    moreover have "unat (tw_mTickIntervalMs ?w) * 2 ^ 23 < 2 ^ 64" using D(3) by simp
    ultimately obtain n w' where 1: "tw_AddTiming cb delayMs f ?w = Inr (None, w')"
      "expire n = ctw_ticks s + delay_ticks ?w delayMs" "tn_mpCancelFlag n = Some f"
      "tw_abs w' = add_mset n (tw_abs ?w)" "tw_wf w'"
      using tw_AddTiming_files [OF D(1,2) _ _ False] by meson
    note 2 = AddTiming_frame [OF 1(1)]
    have s': "ctw_mTimingWheel s' = w'" "ctw_clock s' = ctw_clock s" "ctw_executed s' = ctw_executed s"
      "ctw_filed s' = add_mset (node_key n) (ctw_filed s)"
      using step 1(1-3) False by auto
    show ?thesis unfolding none
      by (rule ctw_inv_step [OF inv fin]) (use D(6) tick 1(4,5) in \<open>simp_all add: s' pc 2 last_is_def\<close>)
  qed
qed

lemma unat_ucast64: "unat (ucast i :: uint64) = unat i" for i :: uint32
proof -
  have "unat i < 2 ^ LENGTH(32)" by (rule unsigned_less)
  then have "unat i < 2 ^ 64" by simp
  then show ?thesis by (simp add: unsigned_ucast_eq take_bit_nat_eq_self)
qed

lemma no_left_over:
  assumes "finite_loops pcs" "threads_in ticking pcs = 0"
  shows "gathered left_over pcs = 0"
proof -
  have "\<not> ticking (pcs t)" for t using threads_in_pos [OF assms(1), of ticking t] assms(2) by auto
  then have "left_over (pcs t) = 0" for t by (metis left_over.simps ticking.simps(3) ticking.elims(3))
  then show ?thesis by (simp add: gathered_def)
qed

lemma one_ticks:
  assumes inv: "ctw_inv t0 s pcs" and fin: "finite_loops pcs" and t: "ticking (pcs t)"
  shows "tw_mbTicking (ctw_mTimingWheel s)" "gathered left_over pcs = left_over (pcs t)"
proof -
  have "threads_in ticking (pcs(t := None)) + 1 = threads_in ticking pcs"
    using threads_in_upd [OF fin, of ticking t None] t by simp
  then have one: "threads_in ticking (pcs(t := None)) = 0" "tw_mbTicking (ctw_mTimingWheel s)"
    using ctw_invD(4) [OF inv] by (cases "tw_mbTicking (ctw_mTimingWheel s)"; simp)+
  then show "tw_mbTicking (ctw_mTimingWheel s)" by simp
  show "gathered left_over pcs = left_over (pcs t)"
    using no_left_over [OF finite_loops_upd [OF fin] one(1)] gathered_upd [OF fin, of left_over t None] by simp
qed

lemma ctw_Tick_inv:
  fixes s :: "'cb shared_wheel"
  assumes inv: "ctw_inv t0 s pcs" and fin: "finite_loops pcs" and pc: "pcs t = Some pc" "\<And>cb delayMs f. pc \<noteq> AddNode cb delayMs f"
    and step: "ctw_Tick_step pc s = (r, s')"
    and bound: "due_ticks t0 (tw_mTickIntervalMs (ctw_mTimingWheel s)) (ctw_clock s) < 2 ^ 32"
  shows "ctw_inv t0 s' (pcs(t := ctw_goto r))"
proof -
  let ?w = "ctw_mTimingWheel s"
  note D = ctw_invD [OF inv] and tick = order.trans [OF le_add1 clock_covers [OF inv]]
  note keep = ctw_inv_step [OF inv fin, where t = t]
  note hold = one_ticks [OF inv fin, of t]
  have aligned: "tw_aligned t0 ?w" if "ticking (pcs t)" "left_over (pcs t) = 0"
    using D(5) hold(2) [OF that(1)] that(2) by (simp add: tw_aligned_def last_is_def)
  show ?thesis
  proof (cases pc)
    case TryTick
    then show ?thesis using step D(1,5,6) tick
      by (cases "tw_mbTicking ?w"; intro keep) (auto simp: pc last_is_def)
  next
    case ReadClock
    define E where "E = (word_of_int ((ctw_clock s - tw_mLastTickTime ?w) sdiv 1000000) :: uint64)"
    have "tw_aligned t0 ?w" using aligned pc ReadClock by simp
    note clock = clock_reading [OF this D(2,3,6) bound, folded E_def]
    show ?thesis
    proof (cases "E < tw_mTickIntervalMs ?w")
      case True
      then have "r = WhlGoto GiveUp" "s' = s" using step ReadClock by (auto simp: E_def Let_def)
      then show ?thesis using D(1,5,6) tick ReadClock by (intro keep) (auto simp: pc last_is_def)
    next
      case False
      let ?k = "E div tw_mTickIntervalMs ?w"
      have r: "r = WhlGoto (ProcessTick ?k 0 [])" "s' = s\<lparr>ctw_mTimingWheel := ?w\<lparr>tw_mLastTickTime := tw_mLastTickTime ?w
          + uint (?k * tw_mTickIntervalMs ?w) * 1000000\<rparr>\<rparr>"
        using step ReadClock False by (auto simp: E_def Let_def)
      show ?thesis unfolding r
      proof (rule keep)
        show "last_is t0 (ctw_ticks s + gathered left_over pcs) ?w \<Longrightarrow> last_is t0 (tick (ctw_mTimingWheel (s\<lparr>ctw_mTimingWheel :=
            ?w\<lparr>tw_mLastTickTime := tw_mLastTickTime ?w + uint (?k * tw_mTickIntervalMs ?w) * 1000000\<rparr>\<rparr>)) +
            (gathered left_over pcs - left_over (pcs t) + left_over (ctw_goto (WhlGoto (ProcessTick ?k 0 [])))))
          (ctw_mTimingWheel (s\<lparr>ctw_mTimingWheel :=
            ?w\<lparr>tw_mLastTickTime := tw_mLastTickTime ?w + uint (?k * tw_mTickIntervalMs ?w) * 1000000\<rparr>\<rparr>))"
          using clock(3) hold(2) ReadClock unfolding last_is_def by (simp add: pc)
      qed (use D(1) clock(1,4) bound tick ReadClock in \<open>auto simp: pc\<close>)
    qed
  next
    case GiveUp
    then show ?thesis using step D(1,5,6) tick hold
      by (intro keep) (auto simp: pc last_is_def)
  next
    case (ProcessTick k i ns)
    then have p: "pcs t = Some (ProcessTick k i ns)" using pc by simp
    have left: "gathered left_over pcs = unat k - unat i" "unat i \<le> unat k" "unat k < 2 ^ 32" using hold(2) D(8) [of t] by (simp_all add: p)
    show ?thesis
    proof (cases "ucast i < k")
      case False
      then have "r = WhlGoto (LowerTicking ns)" "s' = s" using step ProcessTick by auto
      moreover from False have "unat k \<le> unat i" by (simp add: word_less_nat_alt unat_ucast64)
      ultimately show ?thesis using D(1,5,6) D(9) [of t] D(10) [of _ t] tick left by (intro keep) (auto simp: p last_is_def)
    next
      case True
      then have lt: "unat i < unat k" by (simp add: word_less_nat_alt unat_ucast64)
      have small: "ctw_ticks s + (unat k - unat i) < 2 ^ 32" using clock_covers [OF inv] bound left(1) by simp
      then have "ctw_ticks s + 1 < 2 ^ 64" by simp
      from tw_advance_exact [OF D(1) this, of ns] obtain L w' where 1: "tw_advance ?w ns = (w', ns @ L)"
        "mset L = filter_mset (\<lambda>n. expire n = ctw_ticks s) (tw_abs ?w)"
        "tw_abs w' = filter_mset (\<lambda>n. expire n \<noteq> ctw_ticks s) (tw_abs ?w)"
        "tw_wf w'" "tick w' = ctw_ticks s + 1" "tw_mTickIntervalMs w' = tw_mTickIntervalMs ?w" by blast
      note 2 = tw_advance_last [OF 1(1)]
      have r: "r = WhlGoto (ProcessTick k (i + 1) (ns @ L))" "s' = s\<lparr>ctw_mTimingWheel := w'\<rparr>"
        using step ProcessTick True 1(1) by auto
      have i1: "unat (i + 1) = unat i + 1" using lt left(3) by (simp add: unat_plus_if')
      have split: "mset L + tw_abs w' = tw_abs ?w" unfolding 1(2,3) by (rule multiset_eqI) auto
      have keys: "image_mset node_key (tw_abs ?w) = image_mset node_key (mset L) + image_mset node_key (tw_abs w')"
        unfolding split [symmetric] by simp
      have due: "expire n = ctw_ticks s" if "n \<in> set L" for n
        using that by (metis (mono_tags, lifting) 1(2) filter_mset_eq_conv set_mset_mset mem_Collect_eq set_mset_filter)
      have "map expire L = replicate (length L) (ctw_ticks s)" using due by (intro replicate_eqI) auto
      then have "sorted (map expire L)" by simp
      then have own: "sorted (map expire (ns @ L))" "\<forall>n \<in> set (ns @ L). expire n < ctw_ticks s + 1"
        using due D(9) [of t] D(10) [of _ t] by (auto simp: p sorted_append intro: less_imp_le less_SucI)
      show ?thesis unfolding r
      proof (rule keep)
        show "in_loop (ctw_goto (WhlGoto (ProcessTick k (i + 1) (ns @ L))))" using i1 lt left(3) by simp
      qed (use D(5,6) 1(4-6) 2 tick left own i1 keys small lt in \<open>simp_all add: p last_is_def\<close>)
    qed
  next
    case (LowerTicking ns)
    then show ?thesis using step D(1,5,6) D(9) [of t] D(10) [of _ t] tick hold
      by (intro keep) (auto simp: pc last_is_def)
  next
    case (ExecuteNodes ns)
    show ?thesis
    proof (cases ns)
      case Nil
      then show ?thesis using step ExecuteNodes D(1,5,6) tick by (intro keep) (auto simp: pc last_is_def)
    next
      case (Cons n rest)
      then have r: "r = WhlGoto (ExecuteNodes rest)" "ctw_mTimingWheel s' = ?w" "ctw_clock s' = ctw_clock s"
        "ctw_filed s' = ctw_filed s" "ctw_executed s' = ctw_executed s @ [(ctw_clock s, n)]"
        using step ExecuteNodes by auto
      have p: "pcs t = Some (ExecuteNodes (n # rest))" using pc ExecuteNodes Cons by simp
      show ?thesis unfolding r(1)
        by (rule keep) (use D(1,5,6) D(9) [of t] D(10) [of _ t] tick in \<open>auto simp: p r(2-5) last_is_def\<close>)
    qed
  qed (use pc in simp)
qed

text \<open>Steps that change neither the wheel nor the history.\<close>

lemma ctw_inv_call:
  assumes inv: "ctw_inv t0 s pcs" and fin: "finite_loops pcs" and t: "pcs t = None" and p: "\<not> ticking p" "carried p = []" "left_over p = 0" "in_loop p"
    and same: "ctw_mTimingWheel s' = ctw_mTimingWheel s" "ctw_clock s' = ctw_clock s" "ctw_filed s' = ctw_filed s" "ctw_executed s' = ctw_executed s"
  shows "ctw_inv t0 s' (pcs(t := p))"
  by (rule ctw_inv_step [OF inv fin])
    (use ctw_invD(1,5,6) [OF inv] order.trans [OF le_add1 clock_covers [OF inv]] in \<open>simp_all add: t p same\<close>)

abbreviation in_time :: "int \<Rightarrow> 'cb shared_wheel \<Rightarrow> bool" where
  "in_time t0 s \<equiv> due_ticks t0 (tw_mTickIntervalMs (ctw_mTimingWheel s)) (ctw_clock s) < 2 ^ 32"

lemma thread_step_frame:
  assumes "ctw_thread_step pc s = (r, s')"
  shows "ctw_clock s' = ctw_clock s" "tw_mTickIntervalMs (ctw_mTimingWheel s') = tw_mTickIntervalMs (ctw_mTimingWheel s)"
proof -
  have "ctw_clock s' = ctw_clock s \<and> tw_mTickIntervalMs (ctw_mTimingWheel s') = tw_mTickIntervalMs (ctw_mTimingWheel s)"
  proof (cases pc)
    case (AddNode cb delayMs f)
    then show ?thesis using assms AddTiming_frame(3) by (auto simp: ctw_thread_step_def split: sum.splits)
  next
    case (ProcessTick k i ns)
    then show ?thesis using assms by (auto simp: ctw_thread_step_def split: if_splits prod.splits dest!: tw_advance_last)
  next
    case (ExecuteNodes ns)
    then show ?thesis using assms by (cases ns) (auto simp: ctw_thread_step_def)
  qed (use assms in \<open>auto simp: ctw_thread_step_def Let_def split: if_splits\<close>)
  then show "ctw_clock s' = ctw_clock s" "tw_mTickIntervalMs (ctw_mTimingWheel s') = tw_mTickIntervalMs (ctw_mTimingWheel s)"
    by simp_all
qed

lemma ctw_step_inv:
  assumes "ctw_step c c'" "in_time t0 (fst c')" "finite_loops (snd c) \<and> ctw_inv t0 (fst c) (snd c)"
  shows "finite_loops (snd c') \<and> ctw_inv t0 (fst c') (snd c')"
  using assms
proof (induction rule: ctw_step.induct)
  case (call_AddTiming pcs t f s flags cb delayMs)
  then show ?case unfolding fst_conv snd_conv by (intro conjI ctw_inv_call [where s = s] finite_loops_upd) auto
next
  case (call_Tick pcs t s)
  then show ?case unfolding fst_conv snd_conv by (intro conjI ctw_inv_call [where s = s] finite_loops_upd) auto
next
  case (call_Cancel f s pcs)
  then show ?case by (simp add: ctw_inv_def)
next
  case (time s now pcs)
  then show ?case by (fastforce simp: ctw_inv_def Let_def)
next
  case (run pcs t pc s r s')
  then have inv: "ctw_inv t0 s pcs" and fin: "finite_loops pcs" and bound: "in_time t0 s"
    using thread_step_frame [OF run(2)] by auto
  have "ctw_inv t0 s' (pcs(t := ctw_goto r))"
    using ctw_AddTiming_inv [OF inv fin _ _ bound, of t] ctw_Tick_inv [OF inv fin run(1) _ _ bound] run(1,2)
    by (cases pc) (auto simp: ctw_thread_step_def)
  then show ?case using fin finite_loops_upd [OF fin, of t] unfolding fst_conv snd_conv by blast
qed


lemma ctw_new_inv:
  assumes "unat interval < 2 ^ 32"
  shows "ctw_inv t0 (ctw_new interval t0 :: 'cb shared_wheel) (\<lambda>_. None)"
proof -
  have "tw_mLastTickTime (tw_new interval t0 :: 'cb TimingWheel) = t0" by (simp add: tw_new_def)
  then show ?thesis
    using tw_new_ready [OF assms, of t0, where ?'a = 'cb]
    by (simp add: ctw_inv_def ctw_new_def Let_def wheel_ready_def tw_aligned_def last_is_def tw_new_abs)
qed

lemma in_time_back:
  assumes "ctw_step c c'" "0 < tw_mTickIntervalMs (ctw_mTimingWheel (fst c))" "in_time t0 (fst c')"
  shows "in_time t0 (fst c)"
  using assms
proof (induction rule: ctw_step.induct)
  case (time s now pcs)
  then show ?case using due_ticks_mono [OF time(2)[unfolded fst_conv] time(1), of t0] by simp
qed (auto simp: thread_step_frame)

lemma interval_kept:
  "ctw_step c c' \<Longrightarrow> tw_mTickIntervalMs (ctw_mTimingWheel (fst c')) = tw_mTickIntervalMs (ctw_mTimingWheel (fst c))"
  by (induction rule: ctw_step.induct) (auto simp: thread_step_frame)

lemma interval_of_run:
  "ctw_step\<^sup>*\<^sup>* (ctw_new interval t0, \<lambda>_. None) c \<Longrightarrow>
    tw_mTickIntervalMs (ctw_mTimingWheel (fst c)) = max interval DEFAULT_TICK_INTERVAL"
  by (induction rule: rtranclp_induct) (simp_all add: interval_kept, simp add: ctw_new_def tw_new_def)

lemma ctw_steps_inv:
  assumes "ctw_step\<^sup>*\<^sup>* (ctw_new interval t0, \<lambda>_. None) c" "unat interval < 2 ^ 32" "in_time t0 (fst c)"
  shows "finite_loops (snd c) \<and> ctw_inv t0 (fst c) (snd c)"
  using assms(1,3)
proof (induction rule: rtranclp_induct)
  case base
  then show ?case using ctw_new_inv [OF assms(2), of t0] by (simp add: finite_loops_def)
next
  case (step c d)
  have "0 < tw_mTickIntervalMs (ctw_mTimingWheel (fst c))"
    unfolding interval_of_run [OF step.hyps(1)] by (simp add: max_def DEFAULT_TICK_INTERVAL_def word_le_nat_alt word_less_nat_alt)
  then show ?case using step in_time_back [OF step.hyps(2)] ctw_step_inv [OF step.hyps(2)] by blast
qed

text \<open>C2: Whatever threads add timers, cancel them and call Tick at the same time, at most one thread is inside the
  tick loop, no timer is executed twice, and none before the clock has passed its tick; and none is lost:
  when every call has returned, the executed timers are exactly the filed ones whose tick the wheel has
  passed, and the wheel is aligned with the clock.\<close>

theorem concurrent_timers_fire_once_when_due:
  assumes "ctw_step\<^sup>*\<^sup>* (ctw_new interval t0, \<lambda>_. None) (s, pcs)" "unat interval < 2 ^ 32"
    and "due_ticks t0 (max interval DEFAULT_TICK_INTERVAL) (ctw_clock s) < 2 ^ 32"
  shows "threads_in ticking pcs \<le> 1 \<and>
    image_mset node_key (mset (map snd (ctw_executed s))) \<subseteq># ctw_filed s \<and>
    (\<forall>(at, n) \<in> set (ctw_executed s). expire n < due_ticks t0 (max interval DEFAULT_TICK_INTERVAL) at) \<and>
    ((\<forall>t. pcs t = None) \<longrightarrow> \<not> tw_mbTicking (ctw_mTimingWheel s) \<and> tw_aligned t0 (ctw_mTimingWheel s) \<and>
      image_mset node_key (mset (map snd (ctw_executed s))) =
        filter_mset (\<lambda>key. fst key < ctw_ticks s) (ctw_filed s))"
proof -
  let ?w = "ctw_mTimingWheel s" and ?done = "mset (map snd (ctw_executed s))"
  have i: "tw_mTickIntervalMs ?w = max interval DEFAULT_TICK_INTERVAL" using interval_of_run [OF assms(1)] by simp
  then have inv: "ctw_inv t0 s pcs" using ctw_steps_inv [OF assms(1,2)] assms(3) by simp
  note D = ctw_invD [OF inv]
  have "\<not> tw_mbTicking ?w \<and> tw_aligned t0 ?w \<and> image_mset node_key ?done = filter_mset (\<lambda>key. fst key < ctw_ticks s) (ctw_filed s)"
    if "\<forall>t. pcs t = None"
  proof -
    have none: "pcs = (\<lambda>_. None)" using that by auto
    have "image_mset node_key (?done + tw_abs ?w) = ctw_filed s" using D(7) by (simp add: none)
    moreover have "\<forall>n \<in># ?done. expire n < ctw_ticks s" using D(11) by auto
    moreover have "\<forall>n \<in># tw_abs ?w. \<not> expire n < ctw_ticks s" using tw_abs_future [OF D(1)] by (auto simp: not_less)
    ultimately have "image_mset node_key ?done = filter_mset (\<lambda>key. fst key < ctw_ticks s) (ctw_filed s)"
      by (intro fired_keys) auto
    then show ?thesis using D(4,5) by (auto simp: none last_is_def tw_aligned_def)
  qed
  moreover have "image_mset node_key ?done \<subseteq># ctw_filed s" unfolding D(7) image_mset_union add.assoc by simp
  moreover have "threads_in ticking pcs \<le> 1" using D(4) by simp
  moreover have "\<forall>(at, n) \<in> set (ctw_executed s). expire n < due_ticks t0 (max interval DEFAULT_TICK_INTERVAL) at"
    using D(11) unfolding i by blast
  ultimately show ?thesis by blast
qed

subsection \<open>One thread alone\<close>

text \<open>At most \<open>n\<close> steps of one thread.\<close>

fun ctw_solo :: "nat \<Rightarrow> 'cb ctw_pc option \<Rightarrow> 'cb shared_wheel \<Rightarrow> 'cb ctw_pc option \<times> 'cb shared_wheel" where
  "ctw_solo 0 p s = (p, s)"
| "ctw_solo (Suc n) None s = (None, s)"
| "ctw_solo (Suc n) (Some pc) s = (case ctw_thread_step pc s of (r, s') \<Rightarrow> ctw_solo n (ctw_goto r) s')"

lemma ctw_solo_run:
  "ctw_solo n (pcs t) s = (p, s') \<Longrightarrow> ctw_step\<^sup>*\<^sup>* (s, pcs) (s', pcs(t := p))"
proof (induction n arbitrary: pcs s)
  case 0
  then have "pcs(t := p) = pcs" by (auto simp: fun_upd_idem)
  with 0 show ?case by simp
next
  case (Suc n)
  show ?case
  proof (cases "pcs t")
    case None
    then have "pcs(t := p) = pcs" "s' = s" using Suc.prems by (auto simp: fun_upd_idem)
    then show ?thesis by simp
  next
    case (Some pc)
    obtain r s1 where step: "ctw_thread_step pc s = (r, s1)" by fastforce
    have "ctw_step (s, pcs) (s1, pcs(t := ctw_goto r))" using ctw_step.run [of pcs t pc s r s1] Some step by simp
    moreover have "ctw_step\<^sup>*\<^sup>* (s1, pcs(t := ctw_goto r)) (s', (pcs(t := ctw_goto r))(t := p))"
      by (rule Suc.IH) (use Suc.prems Some step in simp)
    ultimately show ?thesis unfolding fun_upd_upd by (rule converse_rtranclp_into_rtranclp)
  qed
qed

lemmas ctw_eval = ctw_thread_step_def ctw_new_def tw_AddTiming_def tw_GetMaxDelayMs_def tw_addNode_def tw_advance_def
  tw_processTick_def tw_cascades_def push_back_def level_values DEFAULT_TICK_INTERVAL_def

abbreviation no_calls :: "nat \<Rightarrow> string ctw_pc option" where
  "no_calls \<equiv> \<lambda>_. None"

lemma solo_call:
  assumes "ctw_solo n p a = (None, b)" shows "ctw_step\<^sup>*\<^sup>* (a, no_calls(0 := p)) (b, no_calls)"
proof -
  have "ctw_solo n ((no_calls(0 := p)) 0) a = (None, b)" using assms by (simp only: fun_upd_same)
  from ctw_solo_run [of n "no_calls(0 := p)" 0 a None b, OF this] show ?thesis
    unfolding fun_upd_upd fun_upd_idem [of no_calls 0 None, OF refl] .
qed

lemma demo_add:
  obtains s where "ctw_step\<^sup>*\<^sup>* (ctw_new 16 0, no_calls) (s, no_calls)"
    "ctw_mTimingWheel s = (tw_new 16 0)\<lparr>tw_mWheel0 := (replicate 256 [])[0 := [tn_new 0 (Some 7) (Some ''ping'')]]\<rparr>"
    "ctw_clock s = 0" "ctw_executed s = []" "ctw_called s = []" "ctw_handles s = {7}" "\<not> ctw_flags s 7"
proof -
  let ?s = "(ctw_new 16 0 :: string shared_wheel)\<lparr>ctw_flags := (\<lambda>_. False)(7 := False), ctw_allocated := {7}\<rparr>"
  obtain s where s: "ctw_solo 1 (Some (AddNode (Some ''ping'') 5 7)) ?s = (None, s)"
    "ctw_mTimingWheel s = (tw_new 16 0)\<lparr>tw_mWheel0 := (replicate 256 [])[0 := [tn_new 0 (Some 7) (Some ''ping'')]]\<rparr>"
    "ctw_clock s = 0" "ctw_executed s = []" "ctw_called s = []" "ctw_handles s = {7}" "\<not> ctw_flags s 7"
    by (simp add: ctw_eval tw_new_def)
  have "ctw_step (ctw_new 16 0, no_calls) (?s, no_calls(0 := Some (AddNode (Some ''ping'') 5 7)))"
    using ctw_step.call_AddTiming [of no_calls 0 7 "ctw_new 16 0" "(\<lambda>_. False)(7 := False)" "Some ''ping''" 5]
    by (simp add: ctw_new_def th_new_def)
  also have "ctw_step\<^sup>*\<^sup>* (?s, no_calls(0 := Some (AddNode (Some ''ping'') 5 7))) (s, no_calls)" by (rule solo_call [OF s(1)])
  finally show ?thesis using that s(2-) by blast
qed

lemma demo_tick:
  assumes "ctw_mTimingWheel s = (tw_new 16 0)\<lparr>tw_mWheel0 := (replicate 256 [])[0 := [tn_new 0 (Some 7) (Some ''ping'')]]\<rparr>"
    "ctw_clock s = 0" "ctw_executed s = []"
  obtains s' where "ctw_step\<^sup>*\<^sup>* (s, no_calls) (s', no_calls)" "ctw_clock s' = 20000000"
    "map snd (ctw_executed s') = [tn_new 0 (Some 7) (Some ''ping'')]"
    "ctw_called s' = ctw_called s @ (if ctw_flags s 7 then [] else [(7, ''ping'')])"
proof -
  define s1 where "s1 = s\<lparr>ctw_clock := 20000000\<rparr>"
  obtain s2 where s2: "ctw_solo (Suc (Suc 0)) (Some TryTick) s1 = (Some (ProcessTick 1 0 []), s2)"
    "ctw_mTimingWheel s2 = (tw_new 16 0)\<lparr>tw_mbTicking := True, tw_mLastTickTime := 16000000,
        tw_mWheel0 := (replicate 256 [])[0 := [tn_new 0 (Some 7) (Some ''ping'')]]\<rparr>"
    "ctw_clock s2 = 20000000" "ctw_executed s2 = []" "ctw_called s2 = ctw_called s" "ctw_flags s2 = ctw_flags s"
    using assms by (simp add: ctw_thread_step_def s1_def tw_new_def signed_divide_int_def DEFAULT_TICK_INTERVAL_def)
  obtain s3 where s3: "ctw_solo (Suc (Suc (Suc (Suc (Suc 0))))) (Some (ProcessTick 1 0 [])) s2 = (None, s3)"
    "ctw_clock s3 = 20000000" "map snd (ctw_executed s3) = [tn_new 0 (Some 7) (Some ''ping'')]"
    "ctw_called s3 = ctw_called s @ (if ctw_flags s 7 then [] else [(7, ''ping'')])"
    using s2(2-) by (simp add: ctw_eval tw_new_def tn_Execute_def)
  have "ctw_step\<^sup>*\<^sup>* (s, no_calls) (s1, no_calls)"
    unfolding s1_def by (rule r_into_rtranclp, rule ctw_step.time) (simp add: assms(2))
  also have "ctw_step (s1, no_calls) (s1, no_calls(0 := Some TryTick))" by (rule ctw_step.call_Tick) simp
  also have "ctw_step\<^sup>*\<^sup>* (s1, no_calls(0 := Some TryTick)) (s2, no_calls(0 := Some (ProcessTick 1 0 [])))"
    using ctw_solo_run [of "Suc (Suc 0)" "no_calls(0 := Some TryTick)" 0 s1 _ s2] s2(1) by simp
  also have "ctw_step\<^sup>*\<^sup>* (s2, no_calls(0 := Some (ProcessTick 1 0 []))) (s3, no_calls)" by (rule solo_call [OF s3(1)])
  finally show ?thesis using that s3(2-) by simp
qed

lemma concurrent_timers_fire_once_when_due_witness:
  "\<exists>s. ctw_step\<^sup>*\<^sup>* (ctw_new 16 0, \<lambda>_. None) (s, \<lambda>_. None) \<and> ctw_called s = [(7, ''ping'')] \<and>
     {#(0, 7)#} = filter_mset (\<lambda>key. fst key < ctw_ticks s) (ctw_filed s)"
proof -
  obtain s1 where s1: "ctw_step\<^sup>*\<^sup>* (ctw_new 16 0, no_calls) (s1, no_calls)"
    "ctw_mTimingWheel s1 = (tw_new 16 0)\<lparr>tw_mWheel0 := (replicate 256 [])[0 := [tn_new 0 (Some 7) (Some ''ping'')]]\<rparr>"
    "ctw_clock s1 = 0" "ctw_executed s1 = []" "ctw_called s1 = []" "\<not> ctw_flags s1 7" using demo_add by blast
  obtain s where s: "ctw_step\<^sup>*\<^sup>* (s1, no_calls) (s, no_calls)" "ctw_clock s = 20000000"
    "map snd (ctw_executed s) = [tn_new 0 (Some 7) (Some ''ping'')]" "ctw_called s = [(7, ''ping'')]"
    using demo_tick [OF s1(2-4)] s1(5,6) by auto
  have "due_ticks 0 (max 16 DEFAULT_TICK_INTERVAL) (ctw_clock s) < 2 ^ 32"
    by (simp add: s(2) due_ticks_def DEFAULT_TICK_INTERVAL_def)
  from concurrent_timers_fire_once_when_due [OF rtranclp_trans [OF s1(1) s(1)] _ this] s(3,4) rtranclp_trans [OF s1(1) s(1)]
  show ?thesis by auto
qed

subsection \<open>Cancellation\<close>

text \<open>A handle is returned by the one call that allocated its flag.\<close>

fun flag_made :: "'cb ctw_pc option \<Rightarrow> flag_addr option" where
  "flag_made (Some (AddNode cb delayMs f)) = Some f" | "flag_made pc = None"

definition handles_ok :: "'cb shared_wheel \<Rightarrow> (nat \<Rightarrow> 'cb ctw_pc option) \<Rightarrow> bool" where
  "handles_ok s pcs \<longleftrightarrow> ctw_handles s \<subseteq> ctw_allocated s \<and>
     (\<forall>t f. flag_made (pcs t) = Some f \<longrightarrow> f \<in> ctw_allocated s - ctw_handles s \<and> (\<forall>u. flag_made (pcs u) = Some f \<longrightarrow> u = t))"

lemma Tick_step_handles:
  "ctw_Tick_step pc s = (r, s') \<Longrightarrow> (\<forall>cb delayMs f. pc \<noteq> AddNode cb delayMs f) \<Longrightarrow> ctw_allocated s' = ctw_allocated s \<and>
    ctw_handles s' = ctw_handles s \<and> ctw_flags s' = ctw_flags s \<and> flag_made (ctw_goto r) = None \<and>
    (\<exists>new. ctw_called s' = ctw_called s @ new \<and> (\<forall>(f, c) \<in> set new. \<not> ctw_flags s f))"
  by (cases "(pc, s)" rule: ctw_Tick_step.cases)
    (auto simp: Let_def tn_Execute_def split: if_splits prod.splits option.splits)

lemma handles_step:
  assumes "ctw_step c c'" "handles_ok (fst c) (snd c)"
  shows "handles_ok (fst c') (snd c') \<and> ctw_handles (fst c) \<subseteq> ctw_handles (fst c') \<and>
    (f \<in> ctw_handles (fst c) \<and> ctw_flags (fst c) f \<longrightarrow> ctw_flags (fst c') f \<and>
      filter (\<lambda>(g, cb). g = f) (ctw_called (fst c')) = filter (\<lambda>(g, cb). g = f) (ctw_called (fst c)))"
  using assms
proof (induction rule: ctw_step.induct)
  case (run pcs t pc s r s')
  show ?case
  proof (cases "\<exists>cb delayMs f. pc = AddNode cb delayMs f")
    case True
    then obtain cb delayMs g where pc: "pc = AddNode cb delayMs g" by blast
    have ok: "ctw_handles s \<subseteq> ctw_allocated s" "\<And>u h. flag_made (pcs u) = Some h \<Longrightarrow> h \<in> ctw_allocated s - ctw_handles s"
      "\<And>u v h. flag_made (pcs u) = Some h \<Longrightarrow> flag_made (pcs v) = Some h \<Longrightarrow> v = u"
      using run(3) unfolding handles_ok_def fst_conv snd_conv by blast+
    have made: "flag_made (pcs t) = Some g" using run(1) pc by simp
    have r: "ctw_goto r = None" "ctw_allocated s' = ctw_allocated s" "ctw_flags s' = ctw_flags s"
      "ctw_handles s' = ctw_handles s \<or> ctw_handles s' = insert g (ctw_handles s)"
      "\<exists>new. ctw_called s' = ctw_called s @ new \<and> set new \<subseteq> {g} \<times> UNIV"
      using run(2) pc by (auto simp: ctw_thread_step_def split: sum.splits option.splits)
    have "handles_ok s' (pcs(t := None))"
      unfolding handles_ok_def
    proof (intro conjI allI impI)
      show "ctw_handles s' \<subseteq> ctw_allocated s'" using ok(1) ok(2) [OF made] r(2,4) by auto
      fix u h assume "flag_made ((pcs(t := None)) u) = Some h"
      then have u: "u \<noteq> t" "flag_made (pcs u) = Some h" by (auto split: if_splits)
      then have "h \<noteq> g" using ok(3) [OF made] by auto
      then show "h \<in> ctw_allocated s' - ctw_handles s'" using ok(2) [OF u(2)] r(2,4) by auto
      show "v = u" if "flag_made ((pcs(t := None)) v) = Some h" for v
        using ok(3) [OF u(2)] that by (auto split: if_splits)
    qed
    moreover have "filter (\<lambda>(g, cb). g = f) (ctw_called s') = filter (\<lambda>(g, cb). g = f) (ctw_called s)" if "f \<in> ctw_handles s"
      using r(5) ok(2) [OF made] that by (auto simp: filter_empty_conv)
    ultimately show ?thesis unfolding r(1) fst_conv snd_conv using r(3,4) by (auto simp del: fun_upd_apply)
  next
    case False
    then have "ctw_Tick_step pc s = (r, s')" using run(2) by (cases pc) (auto simp: ctw_thread_step_def)
    from Tick_step_handles [OF this] False obtain new where 1: "ctw_allocated s' = ctw_allocated s"
      "ctw_handles s' = ctw_handles s" "ctw_flags s' = ctw_flags s" "flag_made (ctw_goto r) = None"
      "ctw_called s' = ctw_called s @ new" "\<forall>(f, c) \<in> set new. \<not> ctw_flags s f" by blast
    have "handles_ok s' (pcs(t := ctw_goto r))" using run(3) 1(1,2,4) by (auto simp: handles_ok_def)
    moreover have "filter (\<lambda>(g, cb). g = f) new = []" if "ctw_flags s f" using 1(6) that by (auto simp: filter_empty_conv)
    ultimately show ?thesis by (simp add: 1 del: fun_upd_apply)
  qed
qed (auto simp: handles_ok_def th_new_def th_Cancel_def)




end
