(* ===== verification/Job_Queues.thy ===== *)
theory Job_Queues
  imports Lock_Free_Queue Scoped_Actors
begin

text \<open>
  The job queue of Actor and ScopedActor is a LockFreeQueue of job pointers (Actor.cpp, ScopedActor.cpp). Actors and
  Scoped_Actors keep it as the list of its contents; here the member functions are written over the queue
  itself, and each is shown to be the operation of those theories on the contents. \<open>counted_queue\<close> is what they
  need of a queue; LockFreeQueue provides it.
\<close>

subsection \<open>The member functions over a queue\<close>

definition jq_PushJob :: "('q \<Rightarrow> 'j option \<Rightarrow> ('e, bool \<times> 'q) outcome) \<Rightarrow> 'j option \<Rightarrow> 'q \<Rightarrow> ('e, bool \<times> 'q) outcome" where
  "jq_PushJob enq pJob q = enq q pJob"

definition jq_Execute :: "('q \<Rightarrow> ('e, 'j option option \<times> 'q) outcome) \<Rightarrow> 'q \<Rightarrow> ('e, 'j list \<times> 'q) outcome" where
  "jq_Execute deq q =
     (case deq q of
        None \<Rightarrow> None
      | Some (Inl e) \<Rightarrow> Some (Inl e)
      | Some (Inr (r, q')) \<Rightarrow>
          Some (Inr (case r of None \<Rightarrow> [] | Some pJob \<Rightarrow> (case pJob of None \<Rightarrow> [] | Some j \<Rightarrow> [j]), q')))"

text \<open>
  The loop of \<open>Flush\<close>; the inner None is a null job that is dereferenced. The fuel is the number of rounds.
\<close>

fun jq_Flush :: "('q \<Rightarrow> ('e, 'j option option \<times> 'q) outcome) \<Rightarrow> nat \<Rightarrow> 'q \<Rightarrow> ('e, ('j list \<times> 'q) option) outcome" where
  "jq_Flush deq 0 q = None"
| "jq_Flush deq (Suc n) q =
     (case deq q of
        None \<Rightarrow> None
      | Some (Inl e) \<Rightarrow> Some (Inl e)
      | Some (Inr (None, q')) \<Rightarrow> Some (Inr (Some ([], q')))
      | Some (Inr (Some None, q')) \<Rightarrow> Some (Inr None)
      | Some (Inr (Some (Some j), q')) \<Rightarrow>
          (case jq_Flush deq n q' of
             None \<Rightarrow> None
           | Some (Inl e) \<Rightarrow> Some (Inl e)
           | Some (Inr r) \<Rightarrow> Some (Inr (map_option (\<lambda>(js, q''). (j # js, q'')) r))))"

definition jq_Clear :: "('q \<Rightarrow> ('e, 'q) outcome) \<Rightarrow> 'q \<Rightarrow> ('e, 'q) outcome" where
  "jq_Clear clear q = clear q"

subsection \<open>What they need of the queue\<close>

locale counted_queue = fifo_queue wf contents bound enq deq
  for wf :: "'q \<Rightarrow> bool" and contents :: "'q \<Rightarrow> 'j option list" and bound :: "'q \<Rightarrow> int"
    and enq :: "'q \<Rightarrow> 'j option \<Rightarrow> ('e, bool \<times> 'q) outcome" and deq :: "'q \<Rightarrow> ('e, 'j option option \<times> 'q) outcome" +
  fixes count :: "'q \<Rightarrow> int"
  assumes count_contents: "wf q \<Longrightarrow> count q = int (length (contents q))"
begin

lemma push_refines:
  assumes "wf q" "bound q = ac_DEFAULT_MAX_COUNT"
  shows "\<exists>b q'. jq_PushJob enq pJob q = Some (Inr (b, q')) \<and> wf q' \<and> bound q' = bound q \<and>
    ac_PushJob pJob (a\<lparr>ac_mJobQueue := contents q\<rparr>) = (b, a\<lparr>ac_mJobQueue := contents q'\<rparr>)"
proof (cases "int (length (contents q)) < bound q")
  case True
  then show ?thesis using enq_room [OF assms(1) True, of pJob] assms(2) by (auto simp: jq_PushJob_def ac_PushJob_def)
next
  case False
  then show ?thesis using enq_full [OF assms(1), of pJob] assms by (auto simp: jq_PushJob_def ac_PushJob_def)
qed

lemma execute_refines:
  assumes "wf q"
  shows "\<exists>js q'. jq_Execute deq q = Some (Inr (js, q')) \<and> wf q' \<and> bound q' = bound q \<and>
    ac_Execute (a\<lparr>ac_mJobQueue := contents q\<rparr>) = (js, a\<lparr>ac_mJobQueue := contents q'\<rparr>)"
proof (cases "contents q")
  case Nil
  then show ?thesis using deq_empty [OF assms] assms by (auto simp: jq_Execute_def ac_Execute_def)
next
  case (Cons pJob js)
  then show ?thesis using deq_first [OF assms Cons] by (auto simp: jq_Execute_def ac_Execute_def)
qed

lemma flush_refines:
  "wf q \<Longrightarrow> length (contents q) < n \<Longrightarrow>
   \<exists>r. jq_Flush deq n q = Some (Inr r) \<and>
     map_option fst r = ac_flush_loop (contents q) \<and> (\<forall>js q'. r = Some (js, q') \<longrightarrow> wf q' \<and> contents q' = [])"
proof (induction n arbitrary: q)
  case (Suc n)
  show ?case
  proof (cases "contents q")
    case Nil
    then show ?thesis using deq_empty [OF Suc.prems(1)] Suc.prems(1) by auto
  next
    case (Cons pJob js)
    obtain q' where q': "deq q = Some (Inr (Some pJob, q'))" "wf q'" "contents q' = js"
      using deq_first [OF Suc.prems(1) Cons] by blast
    show ?thesis
    proof (cases pJob)
      case (Some j)
      obtain r where r: "jq_Flush deq n q' = Some (Inr r)" "ac_flush_loop (contents q') = map_option fst r"
        "\<forall>js q''. r = Some (js, q'') \<longrightarrow> wf q'' \<and> contents q'' = []"
        using Suc.IH [OF q'(2)] Suc.prems(2) Cons q'(3) by (metis length_Cons Suc_less_SucD)
      then show ?thesis using Some Cons q'(1,3) by (cases r) auto
    qed (use q' Cons in simp)
  qed
qed simp

end

interpretation jq: counted_queue lq_wf lq_abs lq_mMaxCount lq_TryEnqueue lq_TryDequeue lq_Count
proof
  fix q :: "'a option LockFreeQueue"
  assume "lq_wf q"
  then obtain ns where "lq_rest q ns" by (auto simp: lq_wf_def)
  then show "lq_Count q = int (length (lq_abs q))" using length_lq_abs [of q ns] by (simp add: lq_Count_def)
qed

subsection \<open>The queue of an actor\<close>

text \<open>On a LockFreeQueue the member functions of an actor return, touch allocated nodes only, and do to the
  contents what Actors says.\<close>

lemma actor_queue_is_its_contents:
  assumes "lq_wf q" "lq_MaxCount q = ac_DEFAULT_MAX_COUNT"
  shows "\<exists>b q'. jq_PushJob lq_TryEnqueue pJob q = Some (Inr (b, q')) \<and> lq_wf q' \<and>
      ac_PushJob pJob (a\<lparr>ac_mJobQueue := lq_abs q\<rparr>) = (b, a\<lparr>ac_mJobQueue := lq_abs q'\<rparr>)"
    "\<exists>js q'. jq_Execute lq_TryDequeue q = Some (Inr (js, q')) \<and> lq_wf q' \<and>
      ac_Execute (a\<lparr>ac_mJobQueue := lq_abs q\<rparr>) = (js, a\<lparr>ac_mJobQueue := lq_abs q'\<rparr>)"
    "lq_Count q = ac_GetJobCount (a\<lparr>ac_mJobQueue := lq_abs q\<rparr>)"
  using jq.push_refines [OF assms(1), of pJob a] jq.execute_refines [OF assms(1), of a] jq.count_contents [OF assms(1)] assms(2)
  by (auto simp: lq_MaxCount_def ac_GetJobCount_def)

lemma actor_flush_returns:
  assumes "lq_wf q" "length (lq_abs q) < n"
  shows "\<exists>r. jq_Flush lq_TryDequeue n q = Some (Inr r) \<and> map_option fst r = map_option fst (ac_Flush (a\<lparr>ac_mJobQueue := lq_abs q\<rparr>))"
  using jq.flush_refines [OF assms] by (auto simp: ac_Flush_def option.map_comp comp_def option.map_ident)

text \<open>Clear (\<open>Actor::Clear\<close>, which nothing calls) frees the nodes but the count stays: the actor still reports its jobs, and the
  next post writes to a freed node.\<close>

lemma cleared_actor_is_unusable:
  assumes "lq_wf q" "lq_Count q < lq_MaxCount q"
  shows "\<exists>q'. jq_Clear lq_Clear q = Some (Inr q') \<and> lq_Count q' = lq_Count q \<and>
    jq_PushJob lq_TryEnqueue pJob q' = Some (Inl BadNode)"
  using Clear_rest [OF assms(1)] enq_after_Clear [OF assms, of pJob] by (simp add: jq_Clear_def jq_PushJob_def lq_Count_def)

end
