(* ===== verification/Actor_Timers.thy ===== *)
theory Actor_Timers
  imports Timing_Wheel Actors
begin

text \<open>
  ActorScheduler with its timing wheel, and JobDispatcher::PostDelay (ActorScheduler.h,
  ActorScheduler.cpp, JobDispatcher.cpp). A callback of the wheel is the job it posts to the actor.
  Calls run without interference: \<open>jd_Post\<close> and \<open>as_Dispatch\<close> are those of Actors, the wheel is that of
  Timing_Wheel, and a dispatch ends with \<open>Tick\<close>.
\<close>

subsection \<open>State and operations\<close>

definition DEFAULT_TIME_SLICE_MS :: int where "DEFAULT_TIME_SLICE_MS = 16"
definition DEFAULT_TICK_INTERVAL_MS :: int where "DEFAULT_TICK_INTERVAL_MS = 10"
definition WAIT_TIMEOUT :: int where "WAIT_TIMEOUT = 258"

record 'j ActorScheduler =
  sh_mTimeSliceMs :: int
  sh_mExecuteJobCount :: int
  sh_mTimingWheel :: "'j option TimingWheel"
  sh_sys :: "'j actor_sys"
  sh_flags :: cancel_flags
  sh_errors :: "int list"

text \<open>
  The constructor ends the process when \<open>CreateIoCompletionPort\<close> fails (\<open>port\<close> is its success).
  The tick interval is an \<open>int64\<close> that becomes the \<open>uint64\<close> of the wheel.
\<close>

definition as_new :: "bool \<Rightarrow> int \<Rightarrow> int \<Rightarrow> int \<Rightarrow> int \<Rightarrow> 'j actor_sys \<Rightarrow> 'j ActorScheduler option" where
  "as_new port now timeSliceMs executeJobCount tickIntervalMs sys =
     (if \<not> port then None
      else Some \<lparr>sh_mTimeSliceMs = timeSliceMs, sh_mExecuteJobCount = executeJobCount,
                 sh_mTimingWheel = tw_new (word_of_int tickIntervalMs) now,
                 sh_sys = sys, sh_flags = \<lambda>_. False, sh_errors = []\<rparr>)"

definition run_callback :: "'j option \<Rightarrow> 'j ActorScheduler \<Rightarrow> 'j ActorScheduler" where
  "run_callback pJob s = s\<lparr>sh_sys := jd_Post pJob (sh_sys s)\<rparr>"

text \<open>\<open>f\<close> is the address of the cancellation flag that the new handle allocates.\<close>

definition as_ScheduleDelay :: "'j option \<Rightarrow> uint64 \<Rightarrow> flag_addr \<Rightarrow> 'j ActorScheduler \<Rightarrow> timer_error + 'j ActorScheduler" where
  "as_ScheduleDelay pJob delayMs f s =
     (let s1 = s\<lparr>sh_flags := (sh_flags s)(f := False)\<rparr> in
      case tw_AddTiming (Some pJob) delayMs f (sh_mTimingWheel s1) of
        Inl e \<Rightarrow> Inl e
      | Inr (cb, w) \<Rightarrow>
          (let s2 = s1\<lparr>sh_mTimingWheel := w\<rparr> in
           Inr (case cb of None \<Rightarrow> s2 | Some job \<Rightarrow> run_callback job s2)))"

definition jd_PostDelay :: "'j option \<Rightarrow> int \<Rightarrow> flag_addr \<Rightarrow> 'j ActorScheduler \<Rightarrow> timer_error + 'j ActorScheduler" where
  "jd_PostDelay pJob delayMs f s = as_ScheduleDelay pJob (word_of_int delayMs) f s"

definition as_Cancel :: "flag_addr option \<Rightarrow> 'j ActorScheduler \<Rightarrow> 'j ActorScheduler" where
  "as_Cancel handle s = s\<lparr>sh_flags := th_Cancel handle (sh_flags s)\<rparr>"

text \<open>
  One call of \<open>Dispatch\<close>: the packet, if there is one within the time slice, else the error code
  \<open>errorCode\<close> of \<open>GetQueuedCompletionStatus\<close>; then \<open>Tick\<close> at the clock reading \<open>now\<close>.
\<close>

definition as_DispatchTick :: "int \<Rightarrow> int \<Rightarrow> 'j ActorScheduler \<Rightarrow> 'j ActorScheduler option" where
  "as_DispatchTick errorCode now s =
     (let s1 = (case sy_packets (sh_sys s) of
                  0 \<Rightarrow> if errorCode \<noteq> WAIT_TIMEOUT then s\<lparr>sh_errors := sh_errors s @ [errorCode]\<rparr> else s
                | Suc n \<Rightarrow> s\<lparr>sh_sys := as_Dispatch (sh_mExecuteJobCount s) (sh_sys s)\<rparr>)
      in case tw_Tick now (sh_mTimingWheel s1) of
           None \<Rightarrow> None
         | Some (nodes, w) \<Rightarrow> Some (tn_execute_all run_callback sh_flags nodes (s1\<lparr>sh_mTimingWheel := w\<rparr>)))"

lemma flush_runs_the_queue:
  "ac_Flush a = (if None \<in> set (ac_mJobQueue a) then None else Some (jobs (ac_mJobQueue a), a\<lparr>ac_mJobQueue := []\<rparr>))"
proof -
  have "ac_flush_loop js = (if None \<in> set js then None else Some (jobs js))" for js :: "'a option list"
    by (induction js rule: ac_flush_loop.induct) simp_all
  then show ?thesis by (simp add: ac_Flush_def)
qed

subsection \<open>The jobs that a batch of timers posts\<close>

text \<open>The jobs of the nodes that are not cancelled, in the order of the nodes.\<close>

definition posted_by :: "cancel_flags \<Rightarrow> 'j option TimingNode list \<Rightarrow> 'j option list" where
  "posted_by flags nodes = concat (map (\<lambda>n. case tn_Execute flags n of None \<Rightarrow> [] | Some pJob \<Rightarrow> [pJob]) nodes)"

lemma length_posted_by: "length (posted_by flags nodes) \<le> length nodes"
  by (induction nodes) (auto simp: posted_by_def split: option.split)

lemma run_callback_simps [simp]:
  "sh_flags (run_callback pJob s) = sh_flags s" "sh_sys (run_callback pJob s) = jd_Post pJob (sh_sys s)"
  "(run_callback pJob s)\<lparr>sh_sys := x\<rparr> = s\<lparr>sh_sys := x\<rparr>"
  by (simp_all add: run_callback_def)

lemma execute_all_posts:
  "tn_execute_all run_callback sh_flags nodes s = s\<lparr>sh_sys := fold jd_Post (posted_by (sh_flags s) nodes) (sh_sys s)\<rparr>"
proof (induction nodes arbitrary: s)
  case (Cons n nodes)
  show ?case by (cases "tn_Execute (sh_flags s) n") (simp_all add: Cons.IH posted_by_def)
qed (simp add: posted_by_def)

definition scheduler_ready :: "int \<Rightarrow> 'j option list \<Rightarrow> 'j list \<Rightarrow> 'j ActorScheduler \<Rightarrow> bool" where
  "scheduler_ready t0 q past s \<longleftrightarrow> wheel_ready t0 (sh_mTimingWheel s) \<and> ready q past (sh_sys s) \<and>
     int (length q) + int (size (tw_abs (sh_mTimingWheel s))) \<le> ac_DEFAULT_MAX_COUNT"

lemma dispatch_part:
  assumes "ready q past sys" "0 < E"
  shows "ready (drop (nat E) q) (past @ jobs (take (nat E) q)) (case sy_packets sys of 0 \<Rightarrow> sys | Suc n \<Rightarrow> as_Dispatch E sys)"
proof (cases "sy_packets sys")
  case 0
  then have "q = []" using assms(1) by (auto simp: ready_def)
  then show ?thesis using assms(1) 0 by simp
qed (use dispatch_ready [OF assms] in simp)

lemma none_mset: "\<forall>x \<in># M. \<not> P x \<Longrightarrow> filter_mset P M = {#}"
  by (induction M) auto

lemma all_mset: "\<forall>x \<in># M. P x \<Longrightarrow> filter_mset P M = M"
  by (induction M) auto

lemma size_split: "size (filter_mset (\<lambda>n. f n < (d :: nat)) M) + size (filter_mset (\<lambda>n. d \<le> f n) M) = size M"
  by (induction M) auto

text \<open>The wheel part of a dispatch: what fires is what is due.\<close>

lemma tick_part:
  assumes "wheel_ready t0 w" "tw_mLastTickTime w \<le> now" "due_ticks t0 (tw_mTickIntervalMs w) now < 2 ^ 32"
  shows "\<exists>L w'. tw_Tick now w = Some (L, w') \<and> wheel_ready t0 w' \<and> sorted (map expire L) \<and>
    mset L = filter_mset (\<lambda>n. expire n < due_ticks t0 (tw_mTickIntervalMs w) now) (tw_abs w) \<and>
    tw_abs w' = filter_mset (\<lambda>n. due_ticks t0 (tw_mTickIntervalMs w) now \<le> expire n) (tw_abs w) \<and>
    tw_mLastTickTime w' \<le> now \<and> tw_mTickIntervalMs w' = tw_mTickIntervalMs w"
proof -
  obtain L w' where 1: "tw_Tick now w = Some (L, w')" "wheel_ready t0 w'" "sorted (map expire L)"
      "tick w' = due_ticks t0 (tw_mTickIntervalMs w) now" "mset L + tw_abs w' = tw_abs w"
      "\<forall>n \<in> set L. expire n < tick w'" "tw_mLastTickTime w' \<le> now" "tw_mTickIntervalMs w' = tw_mTickIntervalMs w"
    using ready_tick [OF assms] by blast
  have later: "\<forall>n \<in># tw_abs w'. tick w' \<le> expire n"
    using 1(2) tw_abs_future by (auto simp: wheel_ready_def)
  have "filter_mset (\<lambda>n. expire n < tick w') (mset L) = mset L" "filter_mset (\<lambda>n. tick w' \<le> expire n) (mset L) = {#}"
    using 1(6) by (auto intro!: none_mset all_mset)
  moreover have "filter_mset (\<lambda>n. expire n < tick w') (tw_abs w') = {#}" "filter_mset (\<lambda>n. tick w' \<le> expire n) (tw_abs w') = tw_abs w'"
    using later by (auto intro!: none_mset all_mset)
  ultimately have "mset L = filter_mset (\<lambda>n. expire n < tick w') (tw_abs w)" "tw_abs w' = filter_mset (\<lambda>n. tick w' \<le> expire n) (tw_abs w)"
    using 1(5) by (metis add_0 add.right_neutral filter_union_mset)+
  then show ?thesis using 1(1-4,7,8) by auto
qed

text \<open>
  The clock reading \<open>now\<close> is not before the last tick, and less than \<open>2 ^ 32\<close> ticks after the start.
\<close>

definition clock_ok :: "int \<Rightarrow> int \<Rightarrow> 'j ActorScheduler \<Rightarrow> bool" where
  "clock_ok t0 now s \<longleftrightarrow> tw_mLastTickTime (sh_mTimingWheel s) \<le> now \<and>
     due_ticks t0 (tw_mTickIntervalMs (sh_mTimingWheel s)) now < 2 ^ 32"

definition due_by :: "int \<Rightarrow> int \<Rightarrow> 'j ActorScheduler \<Rightarrow> nat" where
  "due_by t0 now s = due_ticks t0 (tw_mTickIntervalMs (sh_mTimingWheel s)) now"

abbreviation pending :: "'j ActorScheduler \<Rightarrow> 'j option TimingNode multiset" where
  "pending s \<equiv> tw_abs (sh_mTimingWheel s)"

lemma DispatchTick_effect:
  assumes "scheduler_ready t0 q past s" "0 < sh_mExecuteJobCount s" "clock_ok t0 now s"
  defines "E \<equiv> nat (sh_mExecuteJobCount s)"
  shows "\<exists>L s'. as_DispatchTick WAIT_TIMEOUT now s = Some s' \<and>
    mset L = filter_mset (\<lambda>n. expire n < due_by t0 now s) (pending s) \<and> sorted (map expire L) \<and>
    pending s' = filter_mset (\<lambda>n. due_by t0 now s \<le> expire n) (pending s) \<and>
    scheduler_ready t0 (drop E q @ posted_by (sh_flags s) L) (past @ jobs (take E q)) s' \<and>
    clock_ok t0 now s' \<and> due_by t0 now s' = due_by t0 now s \<and> sh_mExecuteJobCount s' = sh_mExecuteJobCount s \<and>
    sh_flags s' = sh_flags s"
proof -
  let ?w = "sh_mTimingWheel s"
  define sys where "sys = (case sy_packets (sh_sys s) of 0 \<Rightarrow> sh_sys s | Suc n \<Rightarrow> as_Dispatch (sh_mExecuteJobCount s) (sh_sys s))"
  have sys: "ready (drop E q) (past @ jobs (take E q)) sys"
    using dispatch_part [of q past "sh_sys s"] assms(1,2) by (simp add: scheduler_ready_def sys_def E_def)
  obtain L w' where w: "tw_Tick now ?w = Some (L, w')" "wheel_ready t0 w'" "sorted (map expire L)"
      "mset L = filter_mset (\<lambda>n. expire n < due_by t0 now s) (tw_abs ?w)"
      "tw_abs w' = filter_mset (\<lambda>n. due_by t0 now s \<le> expire n) (tw_abs ?w)"
      "tw_mLastTickTime w' \<le> now" "tw_mTickIntervalMs w' = tw_mTickIntervalMs ?w"
    using tick_part [of t0 ?w now] assms(1,3) by (auto simp: scheduler_ready_def due_by_def clock_ok_def)
  let ?js = "posted_by (sh_flags s) L"
  have "size (mset L) + size (tw_abs w') = size (tw_abs ?w)" unfolding w(4,5) by (rule size_split)
  then have "int (length q) + int (length L) + int (size (tw_abs w')) \<le> ac_DEFAULT_MAX_COUNT"
    using assms(1) by (simp add: scheduler_ready_def)
  moreover have "length ?js \<le> length L" by (rule length_posted_by)
  ultimately have fits: "int (length (drop E q) + length ?js) + int (size (tw_abs w')) \<le> ac_DEFAULT_MAX_COUNT" by simp
  define s' where "s' = s\<lparr>sh_sys := fold jd_Post ?js sys, sh_mTimingWheel := w'\<rparr>"
  have "as_DispatchTick WAIT_TIMEOUT now s = Some s'"
    by (cases "sy_packets (sh_sys s)") (simp_all add: as_DispatchTick_def w(1) execute_all_posts sys_def s'_def)
  moreover have "scheduler_ready t0 (drop E q @ ?js) (past @ jobs (take E q)) s'"
    using posts_ready [OF sys, of ?js] fits w(2) by (simp add: scheduler_ready_def s'_def)
  moreover have "clock_ok t0 now s'" "due_by t0 now s' = due_by t0 now s"
    using assms(3) w(6,7) by (simp_all add: clock_ok_def due_by_def s'_def)
  ultimately show ?thesis using w(3-5) by (intro exI [of _ L] exI [of _ s']) (simp add: s'_def)
qed

text \<open>\<open>PostDelay\<close> with a delay other than 0 files one timer.\<close>

lemma PostDelay_files:
  assumes "scheduler_ready t0 q past s" "(word_of_int delayMs :: uint64) \<noteq> 0"
    and "int (length q) + int (size (pending s)) < ac_DEFAULT_MAX_COUNT"
  shows "\<exists>n s'. jd_PostDelay pJob delayMs f s = Inr s' \<and> scheduler_ready t0 q past s' \<and>
    pending s' = add_mset n (pending s) \<and> tn_mpCancelFlag n = Some f \<and> tn_mpCallback n = Some pJob \<and>
    expire n = tick (sh_mTimingWheel s) + delay_ticks (sh_mTimingWheel s) (word_of_int delayMs) \<and>
    sh_flags s' = (sh_flags s)(f := False) \<and> sh_mExecuteJobCount s' = sh_mExecuteJobCount s \<and>
    clock_ok t0 now s' = clock_ok t0 now s \<and> due_by t0 now s' = due_by t0 now s"
proof -
  let ?w = "sh_mTimingWheel s"
  have r: "wheel_ready t0 ?w" using assms(1) by (simp add: scheduler_ready_def)
  obtain n w' where 1: "tw_AddTiming (Some pJob) (word_of_int delayMs) f ?w = Inr (None, w')" "wheel_ready t0 w'"
      "tw_mTickIntervalMs w' = tw_mTickIntervalMs ?w" "tw_mLastTickTime w' = tw_mLastTickTime ?w" "tw_abs w' = add_mset n (tw_abs ?w)"
    using ready_add [OF r assms(2), of "Some pJob" f] by blast
  obtain m where 2: "expire m = tick ?w + delay_ticks ?w (word_of_int delayMs)" "tn_mpCancelFlag m = Some f"
      "tn_mpCallback m = Some pJob" "tw_abs w' = add_mset m (tw_abs ?w)"
    using tw_AddTiming_files [of ?w "word_of_int delayMs" "Some pJob" f] r 1(1) assms(2) by (auto simp: wheel_ready_def)
  then show ?thesis
    using 1 assms(1,3) by (intro exI [of _ m]) (auto simp: jd_PostDelay_def as_ScheduleDelay_def scheduler_ready_def clock_ok_def due_by_def Let_def)
qed

subsection \<open>Properties\<close>

text \<open>one call of \<open>Dispatch\<close> on a scheduler at rest first runs the next \<open>mExecuteJobCount\<close> jobs of the
  actor, then fires exactly the pending timers whose tick the clock has passed, in the order of their
  ticks, and posts the jobs of those that are not cancelled behind the jobs that remain; the other
  timers stay pending. When there are jobs afterwards a packet is posted for them.\<close>

theorem dispatch_posts_the_due_jobs:
  assumes "scheduler_ready t0 q past s" "0 < sh_mExecuteJobCount s" "clock_ok t0 now s"
  defines "E \<equiv> nat (sh_mExecuteJobCount s)"
  shows "\<exists>L s'. as_DispatchTick WAIT_TIMEOUT now s = Some s' \<and>
    mset L = filter_mset (\<lambda>n. expire n < due_by t0 now s) (pending s) \<and> sorted (map expire L) \<and>
    pending s' = filter_mset (\<lambda>n. due_by t0 now s \<le> expire n) (pending s) \<and>
    scheduler_ready t0 (drop E q @ posted_by (sh_flags s) L) (past @ jobs (take E q)) s'"
  using DispatchTick_effect [OF assms(1-3)] unfolding E_def by blast

definition demo_scheduler :: "nat ActorScheduler" where
  "demo_scheduler = the (as_new True 0 DEFAULT_TIME_SLICE_MS DEFAULT_EXECUTE_JOB_COUNT DEFAULT_TICK_INTERVAL_MS (ac_start 0))"

lemma demo_scheduler_facts:
  "scheduler_ready 0 [] [] demo_scheduler" "sh_mExecuteJobCount demo_scheduler = 50" "pending demo_scheduler = {#}"
  "clock_ok 0 200000000 demo_scheduler" "due_by 0 200000000 demo_scheduler = 12"
  "tick (sh_mTimingWheel demo_scheduler) = 0" "tw_mTickIntervalMs (sh_mTimingWheel demo_scheduler) = 16"
proof -
  have w: "sh_mTimingWheel demo_scheduler = tw_new 10 0"
    by (simp add: demo_scheduler_def as_new_def DEFAULT_TICK_INTERVAL_MS_def)
  have i: "tw_mTickIntervalMs (tw_new 10 0 :: nat option TimingWheel) = 16"
    by (simp add: tw_new_def DEFAULT_TICK_INTERVAL_def)
  have "wheel_ready 0 (tw_new 10 0 :: nat option TimingWheel)" by (rule tw_new_ready) simp
  then show "scheduler_ready 0 [] [] demo_scheduler"
    using start_ready [of 0] by (simp add: scheduler_ready_def w tw_new_abs ac_DEFAULT_MAX_COUNT_def)
       (simp add: demo_scheduler_def as_new_def)
  show "sh_mExecuteJobCount demo_scheduler = 50" by (simp add: demo_scheduler_def as_new_def DEFAULT_EXECUTE_JOB_COUNT_def)
  show "pending demo_scheduler = {#}" by (simp add: w tw_new_abs)
  show "clock_ok 0 200000000 demo_scheduler" "due_by 0 200000000 demo_scheduler = 12"
    by (simp_all add: clock_ok_def due_by_def w i due_ticks_def)
       (simp_all add: tw_new_def DEFAULT_TICK_INTERVAL_def)
  show "tick (sh_mTimingWheel demo_scheduler) = 0" by (simp add: w tw_new_def)
  show "tw_mTickIntervalMs (sh_mTimingWheel demo_scheduler) = 16" by (simp add: w i)
qed

theorem dispatch_posts_the_due_jobs_witness:
  "\<exists>s1 s2. jd_PostDelay (Some 7) 100 3 demo_scheduler = Inr s1 \<and>
     as_DispatchTick WAIT_TIMEOUT 200000000 s1 = Some s2 \<and> scheduler_ready 0 [Some 7] [] s2 \<and> pending s2 = {#}"
proof -
  obtain n s1 where 1: "jd_PostDelay (Some 7) 100 3 demo_scheduler = Inr s1" "scheduler_ready 0 [] [] s1" "pending s1 = {#n#}"
      "tn_mpCancelFlag n = Some 3" "tn_mpCallback n = Some (Some 7)" "expire n = 6" "\<not> sh_flags s1 3"
      "sh_mExecuteJobCount s1 = 50" "clock_ok 0 200000000 s1" "due_by 0 200000000 s1 = 12"
    using PostDelay_files [OF demo_scheduler_facts(1), of 100 "Some 7" 3 200000000]
    by (auto simp: demo_scheduler_facts ac_DEFAULT_MAX_COUNT_def delay_ticks_def)
  have "\<exists>L s2. as_DispatchTick WAIT_TIMEOUT 200000000 s1 = Some s2 \<and> mset L = {#n#} \<and> pending s2 = {#} \<and>
      scheduler_ready 0 (posted_by (sh_flags s1) L) [] s2"
    using dispatch_posts_the_due_jobs [OF 1(2) _ 1(9)] by (auto simp: 1(3,6,8,10))
  then show ?thesis using 1(1,4,5,7) by (auto simp: posted_by_def tn_Execute_def)
qed

lemma int_delay: "0 < d \<Longrightarrow> int (min (nat d) (k * 2 ^ 23) div k) = min d (int k * 2 ^ 23) div int k"
  by (simp add: zdiv_int of_nat_min)



end
