(* ===== verification/Jobs.thy ===== *)
theory Jobs
  imports Actor_Timers Scoped_Actors
begin

text \<open>
  Job (Job.h) and the posting templates of Actor and ScopedActor (Actor.h, ScopedActor.cpp). The world that the
  callbacks change is a type variable \<open>'w\<close>; a job's function maps it to the world after the call. A member
  function gets its owner and the captured arguments and returns a value that is dropped. A job runs once, so
  that forwarding moves out of the captured arguments plays no part.
\<close>

subsection \<open>Jobs\<close>

record 'w Job = jb_mJobFunc :: "('w \<Rightarrow> 'w) option"

definition jb_new :: "('w \<Rightarrow> 'w) option \<Rightarrow> 'w Job" where
  "jb_new func = \<lparr>jb_mJobFunc = func\<rparr>"

definition jb_new_member :: "'o \<Rightarrow> ('o \<Rightarrow> 'a \<Rightarrow> 'w \<Rightarrow> 'r \<times> 'w) \<Rightarrow> 'a \<Rightarrow> 'w Job" where
  "jb_new_member pOwner pMemFunc capArgs = \<lparr>jb_mJobFunc = Some (\<lambda>w. snd (pMemFunc pOwner capArgs w))\<rparr>"

definition jb_new_const_member :: "'o \<Rightarrow> ('o \<Rightarrow> 'a \<Rightarrow> 'w \<Rightarrow> 'r \<times> 'w) \<Rightarrow> 'a \<Rightarrow> 'w Job" where
  "jb_new_const_member pOwner pMemFunc capArgs = \<lparr>jb_mJobFunc = Some (\<lambda>w. snd (pMemFunc pOwner capArgs w))\<rparr>"

definition jb_Execute :: "'w Job \<Rightarrow> 'w \<Rightarrow> 'w" where
  "jb_Execute job w = (case jb_mJobFunc job of None \<Rightarrow> w | Some f \<Rightarrow> f w)"

lemmas jb_defs = jb_new_def jb_new_member_def jb_new_const_member_def jb_Execute_def

subsection \<open>Posting\<close>

text \<open>\<open>pOwner\<close> is the actor itself, as \<open>shared_from_this\<close> gives it to the job.\<close>

definition ac_Post :: "('w \<Rightarrow> 'w) option \<Rightarrow> 'w Job actor_sys \<Rightarrow> 'w Job actor_sys" where
  "ac_Post callback s = jd_Post (Some (jb_new callback)) s"

definition ac_Post_member :: "'o \<Rightarrow> ('o \<Rightarrow> 'a \<Rightarrow> 'w \<Rightarrow> 'r \<times> 'w) \<Rightarrow> 'a \<Rightarrow> 'w Job actor_sys \<Rightarrow> 'w Job actor_sys" where
  "ac_Post_member pOwner pMemFunc args s = jd_Post (Some (jb_new_member pOwner pMemFunc args)) s"

definition ac_Post_const_member :: "'o \<Rightarrow> ('o \<Rightarrow> 'a \<Rightarrow> 'w \<Rightarrow> 'r \<times> 'w) \<Rightarrow> 'a \<Rightarrow> 'w Job actor_sys \<Rightarrow> 'w Job actor_sys" where
  "ac_Post_const_member pOwner pMemFunc args s = jd_Post (Some (jb_new_const_member pOwner pMemFunc args)) s"

definition ac_PostDelay :: "int \<Rightarrow> ('w \<Rightarrow> 'w) option \<Rightarrow> flag_addr \<Rightarrow> 'w Job ActorScheduler \<Rightarrow> timer_error + 'w Job ActorScheduler" where
  "ac_PostDelay delayMs callback f s = jd_PostDelay (Some (jb_new callback)) delayMs f s"

definition ac_PostDelay_member :: "int \<Rightarrow> 'o \<Rightarrow> ('o \<Rightarrow> 'a \<Rightarrow> 'w \<Rightarrow> 'r \<times> 'w) \<Rightarrow> 'a \<Rightarrow> flag_addr \<Rightarrow> 'w Job ActorScheduler
    \<Rightarrow> timer_error + 'w Job ActorScheduler" where
  "ac_PostDelay_member delayMs pOwner pMemFunc args f s = jd_PostDelay (Some (jb_new_member pOwner pMemFunc args)) delayMs f s"

definition ac_PostDelay_const_member :: "int \<Rightarrow> 'o \<Rightarrow> ('o \<Rightarrow> 'a \<Rightarrow> 'w \<Rightarrow> 'r \<times> 'w) \<Rightarrow> 'a \<Rightarrow> flag_addr \<Rightarrow> 'w Job ActorScheduler
    \<Rightarrow> timer_error + 'w Job ActorScheduler" where
  "ac_PostDelay_const_member delayMs pOwner pMemFunc args f s =
     jd_PostDelay (Some (jb_new_const_member pOwner pMemFunc args)) delayMs f s"

definition sc_PostCallback :: "('w \<Rightarrow> 'w) option \<Rightarrow> 'w Job scoped_sys \<Rightarrow> 'w Job scoped_sys" where
  "sc_PostCallback callback s = sc_Post (Some (jb_new callback)) s"

subsection \<open>Posted calls act like calls\<close>

datatype ('o, 'a, 'r, 'w) call =
    Callback "('w \<Rightarrow> 'w) option" | Member 'o "'o \<Rightarrow> 'a \<Rightarrow> 'w \<Rightarrow> 'r \<times> 'w" 'a | ConstMember 'o "'o \<Rightarrow> 'a \<Rightarrow> 'w \<Rightarrow> 'r \<times> 'w" 'a

fun post_call :: "('o, 'a, 'r, 'w) call \<Rightarrow> 'w Job actor_sys \<Rightarrow> 'w Job actor_sys" where
  "post_call (Callback callback) s = ac_Post callback s"
| "post_call (Member pOwner f args) s = ac_Post_member pOwner f args s"
| "post_call (ConstMember pOwner f args) s = ac_Post_const_member pOwner f args s"

text \<open>The specification: the call itself, made at once.\<close>

fun call_now :: "('o, 'a, 'r, 'w) call \<Rightarrow> 'w \<Rightarrow> 'w" where
  "call_now (Callback callback) w = (case callback of None \<Rightarrow> w | Some f \<Rightarrow> f w)"
| "call_now (Member pOwner f args) w = snd (f pOwner args w)"
| "call_now (ConstMember pOwner f args) w = snd (f pOwner args w)"

fun job_of_call :: "('o, 'a, 'r, 'w) call \<Rightarrow> 'w Job" where
  "job_of_call (Callback callback) = jb_new callback"
| "job_of_call (Member pOwner f args) = jb_new_member pOwner f args"
| "job_of_call (ConstMember pOwner f args) = jb_new_const_member pOwner f args"

lemma post_call_job: "post_call c s = jd_Post (Some (job_of_call c)) s"
  by (cases c) (simp_all add: ac_Post_def ac_Post_member_def ac_Post_const_member_def)

lemma job_acts_like_call: "jb_Execute (job_of_call c) w = call_now c w"
  by (cases c) (simp_all add: jb_defs)

lemma posts_are_jobs: "fold post_call cs s = fold jd_Post (map (\<lambda>c. Some (job_of_call c)) cs) s"
  by (simp add: fold_map o_def post_call_job [abs_def])

lemma jobs_map_Some: "jobs (map (\<lambda>c. Some (f c)) cs) = map f cs"
  by (induction cs) simp_all

text \<open>C27: Posting callbacks and member function calls to an idle actor and then dispatching is, for the world they act on,
  making these calls one after the other in the order of the posts, with the owners and arguments they
  were posted with; enough dispatches make all of them and leave the queue empty.\<close>

theorem posted_calls_act_in_order:
  fixes seed :: int
  assumes "length cs \<le> 65535" "0 < E" "length cs \<le> k * nat E"
  defines "s \<equiv> (as_Dispatch E ^^ k) (fold post_call cs (ac_start seed))"
  shows "fold jb_Execute (sy_executed s) w = fold call_now cs w \<and> ac_mJobQueue (sy_actor s) = []"
proof -
  have "sy_executed s = map job_of_call cs" "ac_mJobQueue (sy_actor s) = []"
    using posted_jobs_run_in_order [of "map (\<lambda>c. Some (job_of_call c)) cs" E k seed] assms(1-3)
    by (simp_all add: s_def posts_are_jobs jobs_map_Some)
  then show ?thesis by (simp add: fold_map o_def job_acts_like_call [abs_def])
qed

lemma posted_calls_act_in_order_witness:
  "fold jb_Execute (sy_executed ((as_Dispatch 1 ^^ 3) (fold post_call [Callback (Some Suc), Member 10 (\<lambda>o' a w. ((), o' * w + a)) 3,
     ConstMember 2 (\<lambda>o' a w. ((), w - o')) 0] (ac_start 0)))) (4 :: nat) = 51"
  using posted_calls_act_in_order [of "[Callback (Some Suc), Member 10 (\<lambda>o' a w. ((), o' * w + a)) 3,
     ConstMember 2 (\<lambda>o' a w. ((), w - o')) 0]" 1 3 0 "4 :: nat"] by simp

end
