(* ===== verification/Actor_Lifetime.thy ===== *)
theory Actor_Lifetime
  imports Job_Queues Jobs
begin

text \<open>
  What a LockFreeQueue keeps alive, and what that means for an actor (LockFreeQueue.h, Actor.h, Job.h).
  TryDequeue copies the element out of the node that becomes the dummy and leaves it there, so for shared
  pointers the queue goes on to own the last element it has handed out. A job made from a member function
  captures a shared pointer to its owner, the actor whose queue it was in.
\<close>

subsection \<open>The elements that a queue refers to\<close>

text \<open>One for every allocated node, the dummy included.\<close>

definition lq_refs :: "'a LockFreeQueue \<Rightarrow> 'a multiset" where
  "lq_refs q = image_mset (\<lambda>a. nd_data (the (lq_heap q a))) (mset_set (dom (lq_heap q)))"

definition lq_residue :: "'a LockFreeQueue \<Rightarrow> 'a" where
  "lq_residue q = nd_data (the (lq_heap q (the (n16_pNode (lq_mHead q)))))"

text \<open>The last element that a history of answers has handed out.\<close>

fun last_dequeued :: "'a \<Rightarrow> 'a queue_result list \<Rightarrow> 'a" where
  "last_dequeued x [] = x"
| "last_dequeued x (Dequeued (Some y) # rs) = last_dequeued y rs"
| "last_dequeued x (r # rs) = last_dequeued x rs"

locale retaining_queue = fifo_queue wf contents bound enq deq
  for wf :: "'q \<Rightarrow> bool" and contents :: "'q \<Rightarrow> 'a list" and bound :: "'q \<Rightarrow> int"
    and enq :: "'q \<Rightarrow> 'a \<Rightarrow> ('e, bool \<times> 'q) outcome" and deq :: "'q \<Rightarrow> ('e, 'a option \<times> 'q) outcome" +
  fixes refs :: "'q \<Rightarrow> 'a multiset" and residue :: "'q \<Rightarrow> 'a"
  assumes refs_contents: "wf q \<Longrightarrow> refs q = add_mset (residue q) (mset (contents q))"
    and enq_residue: "wf q \<Longrightarrow> enq q x = Some (Inr (b, q')) \<Longrightarrow> residue q' = residue q"
    and deq_residue: "wf q \<Longrightarrow> deq q = Some (Inr (r, q')) \<Longrightarrow> residue q' = (case r of None \<Rightarrow> residue q | Some x \<Rightarrow> x)"
begin

lemma enq_returns: "wf q \<Longrightarrow> \<exists>b q'. enq q x = Some (Inr (b, q')) \<and> wf q'"
  using enq_full [of q x] enq_room [of q x] by (metis not_less)

lemma deq_returns: "wf q \<Longrightarrow> \<exists>r q'. deq q = Some (Inr (r, q')) \<and> wf q'"
  using deq_empty [of q] deq_first [of q] by (metis list.exhaust)

lemma run_residue:
  "wf q \<Longrightarrow> \<exists>rs q'. queue_run enq deq ops q = Some (Inr (rs, q')) \<and> wf q' \<and> residue q' = last_dequeued (residue q) rs"
proof (induction ops arbitrary: q)
  case (Cons op ops)
  show ?case
  proof (cases op)
    case (Enq x)
    obtain b q1 where 1: "enq q x = Some (Inr (b, q1))" "wf q1" using enq_returns [OF Cons.prems] by blast
    then show ?thesis using Cons.IH [OF 1(2)] enq_residue [OF Cons.prems 1(1)] Enq by fastforce
  next
    case Deq
    obtain r q1 where 1: "deq q = Some (Inr (r, q1))" "wf q1" using deq_returns [OF Cons.prems] by blast
    then show ?thesis using Cons.IH [OF 1(2)] deq_residue [OF Cons.prems 1(1)] Deq by (cases r) fastforce+
  qed
qed simp

lemma run_refs:
  assumes "wf q"
  shows "\<exists>rs q'. queue_run enq deq ops q = Some (Inr (rs, q')) \<and> refs q' = add_mset (last_dequeued (residue q) rs) (mset (contents q'))"
  using run_residue [OF assms, of ops] refs_contents by metis

end

lemma refs_rest:
  assumes "lq_rest q ns"
  shows "lq_refs q = add_mset (lq_residue q) (mset (lq_abs q))"
proof -
  note r = lq_restD [OF assms]
  have "lq_refs q = mset (chain_data (lq_heap q) ns)"
    using r(2) by (simp add: lq_refs_def r(3) chain_data_def mset_set_set)
  then show ?thesis
    using r(4,5) by (cases ns) (simp_all add: lq_residue_def lq_abs_rest [OF assms] chain_data_def)
qed

interpretation lr: retaining_queue lq_wf lq_abs lq_mMaxCount lq_TryEnqueue lq_TryDequeue lq_refs lq_residue
proof
  fix q q' :: "'a LockFreeQueue" and x b r
  assume "lq_wf q"
  then obtain ns where rest: "lq_rest q ns" by (auto simp: lq_wf_def)
  note R = lq_restD [OF rest]
  show "lq_refs q = add_mset (lq_residue q) (mset (lq_abs q))" by (rule refs_rest [OF rest])
  show "lq_residue q' = lq_residue q" if enq: "lq_TryEnqueue q x = Some (Inr (b, q'))"
  proof (cases "lq_mCount q < lq_mMaxCount q")
    case True
    obtain q1 where q1: "lq_TryEnqueue q x = Some (Inr (True, q1))"
      "lq_rest q1 (ns @ [lq_fresh q])" "\<forall>a \<in> set ns. nd_data (the (lq_heap q1 a)) = nd_data (the (lq_heap q a))"
      by (rule enqueue_rest [OF rest True])
    have "q' = q1" using q1(1) enq by simp
    moreover have "hd (ns @ [lq_fresh q]) = hd ns" "hd ns \<in> set ns" using R(4) by simp_all
    ultimately show ?thesis using q1(3) lq_restD(5) [OF q1(2)] R(5) by (simp add: lq_residue_def)
  qed (use enq in \<open>auto simp: lq_TryEnqueue_def\<close>)
  show "lq_residue q' = (case r of None \<Rightarrow> lq_residue q | Some x \<Rightarrow> x)" if deq: "lq_TryDequeue q = Some (Inr (r, q'))"
  proof (cases "tl ns")
    case Nil
    then have "lq_mCount q \<le> 0" using R(4,7) by (cases ns) simp_all
    then show ?thesis using deq by (auto simp: lq_TryDequeue_def lq_residue_def)
  next
    case (Cons y ys)
    then have ns: "hd ns # y # ys = ns" using R(4) by (metis list.collapse)
    obtain q1 where q1: "lq_TryDequeue q = Some (Inr (Some (nd_data (the (lq_heap q y))), q1))" "lq_rest q1 (y # ys)"
      "lq_heap q1 y = lq_heap q y" by (rule dequeue_rest [of q "hd ns" y ys]) (use rest ns in simp_all)
    then show ?thesis using deq lq_restD(5) [OF q1(2)] by (simp add: lq_residue_def)
  qed
qed

text \<open>After any history of calls on a new queue the nodes of the queue refer to its contents and, besides, to the
  last element that a dequeue has returned: an element that has been taken out stays referenced until the next
  one is taken out.\<close>

theorem queue_keeps_the_last_element:
  "\<exists>rs q'. queue_run lq_TryEnqueue lq_TryDequeue ops (lq_new dflt maxCount) = Some (Inr (rs, q')) \<and>
     lq_refs q' = add_mset (last_dequeued dflt rs) (mset (lq_abs q'))"
proof -
  have "lq_residue (lq_new dflt maxCount) = dflt" by (simp add: lq_residue_def lq_new_def)
  with lr.run_refs [OF lq_new_wf, of ops dflt maxCount] show ?thesis by simp
qed

subsection \<open>An actor that owns itself\<close>

text \<open>The objects that the captures of jobs own; what a callback captures is not known here.\<close>

fun owner_of :: "('o, 'a, 'r, 'w) call option \<Rightarrow> 'o option" where
  "owner_of (Some (Member pOwner f args)) = Some pOwner"
| "owner_of (Some (ConstMember pOwner f args)) = Some pOwner"
| "owner_of pJob = None"

definition owned_by :: "('o, 'a, 'r, 'w) call option LockFreeQueue \<Rightarrow> 'o set" where
  "owned_by q = {pOwner. Some pOwner \<in> owner_of ` set_mset (lq_refs q)}"

text \<open>When the last job an actor has taken from its queue was posted as a member call on the actor, the queue owns the actor that
  owns the queue, even when no job is left: the reference count of the actor cannot reach 0 any more.\<close>

lemma actor_owns_itself:
  fixes q :: "('o, 'a, 'r, 'w) call option LockFreeQueue"
  assumes "queue_run lq_TryEnqueue lq_TryDequeue ops (lq_new None lq_DEFAULT_MAX_COUNT) = Some (Inr (rs, q))"
    and "owner_of (last_dequeued None rs) = Some pOwner"
  shows "pOwner \<in> owned_by q"
proof -
  have "lq_residue (lq_new None lq_DEFAULT_MAX_COUNT :: ('o, 'a, 'r, 'w) call option LockFreeQueue) = None"
    by (simp add: lq_residue_def lq_new_def)
  with lr.run_refs [OF lq_new_wf, of ops "None :: ('o, 'a, 'r, 'w) call option" lq_DEFAULT_MAX_COUNT] assms(1)
  have "lq_refs q = add_mset (last_dequeued None rs) (mset (lq_abs q))" by simp
  then show ?thesis using assms(2) by (auto simp: owned_by_def)
qed

end
