(* ===== verification/Net_Sockets.thy ===== *)
theory Net_Sockets
  imports Engine_Prelude
begin

text \<open>
  NetAddress and SocketUtils (NetAddress.h, NetAddress.cpp, SocketUtils.h, SocketUtils.cpp). The
  results of the Winsock calls are arguments. \<open>winsock\<close> is the state of the library that the calls
  change: the open sockets, the options set on them, and the pointers and the flag that
  \<open>SocketUtils::Init\<close> keeps in static variables. Address parsing and printing (InetPtonW, InetNtopW)
  are the functions \<open>pton\<close> and \<open>ntop\<close>.
\<close>

subsection \<open>Addresses\<close>

definition AF_INET :: int where "AF_INET = 2"

record SOCKADDR_IN =
  sin_family :: int
  sin_port :: uint16
  sin_addr :: uint32

text \<open>The byte order functions on a little-endian machine.\<close>

definition htons :: "uint16 \<Rightarrow> uint16" where
  "htons w = push_bit 8 w OR drop_bit 8 w"

definition htonl :: "uint32 \<Rightarrow> uint32" where
  "htonl w = push_bit 24 w OR push_bit 8 (w AND 0xFF00) OR (drop_bit 8 w AND 0xFF00) OR drop_bit 24 w"

text \<open>\<open>pton\<close> is None when the text is not an address; the output is then left alone.\<close>

definition na_IpToAddress :: "(string \<Rightarrow> uint32 option) \<Rightarrow> string \<Rightarrow> uint32" where
  "na_IpToAddress pton ip = (case pton ip of None \<Rightarrow> 0 | Some a \<Rightarrow> a)"

record NetAddress = na_mSockAddr :: SOCKADDR_IN

definition na_new :: "SOCKADDR_IN \<Rightarrow> NetAddress" where
  "na_new sockAddr = \<lparr>na_mSockAddr = sockAddr\<rparr>"

definition na_new_ip :: "(string \<Rightarrow> uint32 option) \<Rightarrow> string \<Rightarrow> uint16 \<Rightarrow> NetAddress" where
  "na_new_ip pton ip port =
     \<lparr>na_mSockAddr = \<lparr>sin_family = AF_INET, sin_port = htons port, sin_addr = na_IpToAddress pton ip\<rparr>\<rparr>"

definition na_GetSockAddr :: "NetAddress \<Rightarrow> SOCKADDR_IN" where
  "na_GetSockAddr a = na_mSockAddr a"

definition na_GetIpAddress :: "(uint32 \<Rightarrow> string) \<Rightarrow> NetAddress \<Rightarrow> string" where
  "na_GetIpAddress ntop a = ntop (sin_addr (na_mSockAddr a))"

definition na_GetPort :: "NetAddress \<Rightarrow> uint16" where
  "na_GetPort a = htons (sin_port (na_mSockAddr a))"

definition na_SetSocketAddr :: "SOCKADDR_IN \<Rightarrow> NetAddress \<Rightarrow> NetAddress" where
  "na_SetSocketAddr sockAddr a = a\<lparr>na_mSockAddr := sockAddr\<rparr>"

lemma htons_htons [simp]: "htons (htons w) = w"
  unfolding htons_def
  by (rule bit_word_eqI) (auto simp: bit_simps)

subsection \<open>Sockets\<close>

type_synonym SOCKET = uint64

definition INVALID_SOCKET :: SOCKET where "INVALID_SOCKET = NOT 0"
definition SOCKET_ERROR :: int where "SOCKET_ERROR = - 1"

datatype sock_opt =
    SO_LINGER uint16 uint16 | SO_REUSEADDR bool | KEEPALIVE_VALS uint32 uint32 | SO_RCVBUF int | SO_SNDBUF int
  | TCP_NODELAY bool | SO_UPDATE_ACCEPT_CONTEXT SOCKET

record winsock =
  ws_open :: "SOCKET set"
  ws_options :: "(SOCKET \<times> sock_opt) list"
  ws_bound :: "(SOCKET \<times> SOCKADDR_IN) list"
  ws_acceptEx :: bool
  ws_connectEx :: bool
  ws_disconnectEx :: bool
  ws_isInit :: bool

text \<open>\<open>created\<close>: the socket that WSASocket returns, None for INVALID_SOCKET.\<close>

definition su_CreateTcpSocket :: "SOCKET option \<Rightarrow> winsock \<Rightarrow> bool \<times> SOCKET \<times> winsock" where
  "su_CreateTcpSocket created w =
     (case created of
        None \<Rightarrow> (False, INVALID_SOCKET, w)
      | Some s \<Rightarrow> (True, s, w\<lparr>ws_open := insert s (ws_open w)\<rparr>))"

definition closesocket :: "SOCKET \<Rightarrow> winsock \<Rightarrow> winsock" where
  "closesocket s w = w\<lparr>ws_open := ws_open w - {s}\<rparr>"

text \<open>\<open>Close\<close> calls closesocket when the socket is invalid.\<close>

definition su_Close :: "SOCKET \<Rightarrow> winsock \<Rightarrow> SOCKET \<times> winsock" where
  "su_Close s w = (INVALID_SOCKET, if INVALID_SOCKET = s then closesocket s w else w)"

text \<open>The option setters: \<open>r\<close> is what setsockopt or WSAIoctl returns.\<close>

definition su_SetSockOpt :: "int \<Rightarrow> SOCKET \<Rightarrow> sock_opt \<Rightarrow> winsock \<Rightarrow> bool \<times> winsock" where
  "su_SetSockOpt r s opt w =
     (if r = SOCKET_ERROR then (False, w) else (True, w\<lparr>ws_options := ws_options w @ [(s, opt)]\<rparr>))"

definition su_SetLinger :: "int \<Rightarrow> SOCKET \<Rightarrow> uint16 \<Rightarrow> uint16 \<Rightarrow> winsock \<Rightarrow> bool \<times> winsock" where
  "su_SetLinger r s onOff linger w = su_SetSockOpt r s (SO_LINGER onOff linger) w"

definition su_SetReuseAddress :: "int \<Rightarrow> SOCKET \<Rightarrow> bool \<Rightarrow> winsock \<Rightarrow> bool \<times> winsock" where
  "su_SetReuseAddress r s flag w = su_SetSockOpt r s (SO_REUSEADDR flag) w"

definition su_SetKeepAlive :: "int \<Rightarrow> SOCKET \<Rightarrow> uint32 \<Rightarrow> uint32 \<Rightarrow> winsock \<Rightarrow> bool \<times> winsock" where
  "su_SetKeepAlive r s timeMs intervalMs w = su_SetSockOpt r s (KEEPALIVE_VALS timeMs intervalMs) w"

definition su_SetRecvBufferSize :: "int \<Rightarrow> SOCKET \<Rightarrow> int \<Rightarrow> winsock \<Rightarrow> bool \<times> winsock" where
  "su_SetRecvBufferSize r s sz w = su_SetSockOpt r s (SO_RCVBUF sz) w"

definition su_SetSendBufferSize :: "int \<Rightarrow> SOCKET \<Rightarrow> int \<Rightarrow> winsock \<Rightarrow> bool \<times> winsock" where
  "su_SetSendBufferSize r s sz w = su_SetSockOpt r s (SO_SNDBUF sz) w"

definition su_SetTcpNoDelay :: "int \<Rightarrow> SOCKET \<Rightarrow> bool \<Rightarrow> winsock \<Rightarrow> bool \<times> winsock" where
  "su_SetTcpNoDelay r s flag w = su_SetSockOpt r s (TCP_NODELAY flag) w"

definition su_SetUpdateAcceptSocket :: "int \<Rightarrow> SOCKET \<Rightarrow> SOCKET \<Rightarrow> winsock \<Rightarrow> bool \<times> winsock" where
  "su_SetUpdateAcceptSocket r s listenSocket w = su_SetSockOpt r s (SO_UPDATE_ACCEPT_CONTEXT listenSocket) w"

definition su_Bind :: "int \<Rightarrow> SOCKET \<Rightarrow> SOCKADDR_IN \<Rightarrow> winsock \<Rightarrow> bool \<times> winsock" where
  "su_Bind r s sockAddr w =
     (if r = SOCKET_ERROR then (False, w) else (True, w\<lparr>ws_bound := ws_bound w @ [(s, sockAddr)]\<rparr>))"

definition su_BindAnyAddress :: "int \<Rightarrow> SOCKET \<Rightarrow> uint16 \<Rightarrow> winsock \<Rightarrow> bool \<times> winsock" where
  "su_BindAnyAddress r s port w =
     (let myAddress = \<lparr>sin_family = AF_INET, sin_port = htons port, sin_addr = htonl 0\<rparr> in
      if r = SOCKET_ERROR then (False, w) else (True, w\<lparr>ws_bound := ws_bound w @ [(s, myAddress)]\<rparr>))"

definition su_Listen :: "int \<Rightarrow> bool" where
  "su_Listen r \<longleftrightarrow> SOCKET_ERROR \<noteq> r"

text \<open>
  The extension functions are called through the pointers that \<open>Init\<close> has bound; before that the
  pointer is null, which is None.
\<close>

definition su_AcceptEx :: "int \<Rightarrow> winsock \<Rightarrow> bool option" where
  "su_AcceptEx r w = (if \<not> ws_acceptEx w then None else Some (r = 1))"

definition su_ConnectEx :: "int \<Rightarrow> winsock \<Rightarrow> bool option" where
  "su_ConnectEx r w = (if \<not> ws_connectEx w then None else Some (r \<noteq> 0))"

definition su_DisconnectEx :: "int \<Rightarrow> winsock \<Rightarrow> bool option" where
  "su_DisconnectEx r w = (if \<not> ws_disconnectEx w then None else Some (r \<noteq> 0))"

definition su_WsaSend :: "int \<Rightarrow> bool" where
  "su_WsaSend r \<longleftrightarrow> SOCKET_ERROR \<noteq> r"

definition su_WsaReceive :: "int \<Rightarrow> bool" where
  "su_WsaReceive r \<longleftrightarrow> SOCKET_ERROR \<noteq> r"

definition su_bindWindowsFunction :: "int \<Rightarrow> bool" where
  "su_bindWindowsFunction r \<longleftrightarrow> SOCKET_ERROR \<noteq> r"

text \<open>
  \<open>Init\<close>: \<open>startup\<close> is the result of WSAStartup, \<open>created\<close> the dummy socket, \<open>rc\<close>, \<open>rd\<close> and \<open>ra\<close> the
  results of the three lookups.
\<close>

definition su_Init :: "int \<Rightarrow> SOCKET option \<Rightarrow> int \<Rightarrow> int \<Rightarrow> int \<Rightarrow> winsock \<Rightarrow> bool \<times> winsock" where
  "su_Init startup created rc rd ra w =
     (if ws_isInit w then (True, w)
      else if startup = SOCKET_ERROR then (False, w)
      else case su_CreateTcpSocket created w of
             (b, dummySocket, w1) \<Rightarrow>
               if \<not> b then (False, w1)
               else if \<not> su_bindWindowsFunction rc then (False, w1)
               else let w2 = w1\<lparr>ws_connectEx := True\<rparr> in
                 if \<not> su_bindWindowsFunction rd then (False, w2)
                 else let w3 = w2\<lparr>ws_disconnectEx := True\<rparr> in
                   if \<not> su_bindWindowsFunction ra then (False, w3)
                   else let (_, w4) = su_Close dummySocket (w3\<lparr>ws_acceptEx := True\<rparr>) in
                     (True, w4\<lparr>ws_isInit := True\<rparr>))"

definition ws_start :: winsock where
  "ws_start = \<lparr>ws_open = {}, ws_options = [], ws_bound = [], ws_acceptEx = False, ws_connectEx = False,
     ws_disconnectEx = False, ws_isInit = False\<rparr>"

subsection \<open>Facts\<close>

lemma Close_facts: "su_Close s w = (INVALID_SOCKET, w') \<Longrightarrow> s \<noteq> INVALID_SOCKET \<Longrightarrow> w' = w"
  by (simp add: su_Close_def)

lemma Init_success_binds_all:
  assumes "su_Init startup created rc rd ra w = (True, w')" "\<not> ws_isInit w"
  shows "ws_isInit w' \<and> ws_acceptEx w' \<and> ws_connectEx w' \<and> ws_disconnectEx w'"
  using assms by (auto simp: su_Init_def su_CreateTcpSocket_def su_Close_def closesocket_def Let_def split: if_splits option.splits)

datatype su_call = Create "SOCKET option" | CloseSocket SOCKET

fun su_step :: "su_call \<Rightarrow> winsock \<Rightarrow> winsock" where
  "su_step (Create created) w = snd (snd (su_CreateTcpSocket created w))"
| "su_step (CloseSocket s) w = snd (su_Close s w)"

definition su_run :: "su_call list \<Rightarrow> winsock \<Rightarrow> winsock" where
  "su_run calls w = fold su_step calls w"

text \<open>\<open>SocketUtils::Close\<close> tests for the wrong condition and closes only the invalid socket: whatever
  sequence of creations and closes runs, every socket that was ever created is still open at its end.\<close>

theorem close_closes_no_socket:
  assumes "Create (Some INVALID_SOCKET) \<notin> set calls" "INVALID_SOCKET \<notin> ws_open w"
  shows "ws_open (su_run calls w) = ws_open w \<union> {s. Create (Some s) \<in> set calls}"
  using assms unfolding su_run_def
proof (induction calls arbitrary: w)
  case (Cons c calls)
  have "ws_open (su_step c w) = ws_open w \<union> {s. c = Create (Some s)}" "INVALID_SOCKET \<notin> ws_open (su_step c w)"
    using Cons.prems by (cases c; auto simp: su_CreateTcpSocket_def su_Close_def closesocket_def split: option.splits)+
  then show ?case using Cons.IH [of "su_step c w"] Cons.prems by auto
qed simp

theorem close_closes_no_socket_witness:
  "ws_open (su_run [Create (Some 100), Create (Some 104), CloseSocket 100, CloseSocket 104] ws_start) = {100, 104}"
proof -
  have "(100 :: SOCKET) \<noteq> INVALID_SOCKET" "(104 :: SOCKET) \<noteq> INVALID_SOCKET" by (simp_all add: INVALID_SOCKET_def)
  then show ?thesis
    using close_closes_no_socket [of "[Create (Some 100), Create (Some 104), CloseSocket 100, CloseSocket 104]" ws_start]
    by (auto simp: ws_start_def)
qed

text \<open>An address built from a text and a port gives them back, when the text is what InetNtopW prints; a
  text that is not an address becomes 0.0.0.0.\<close>

lemma net_address_roundtrip:
  assumes "\<And>a. pton (ntop a) = Some a"
  shows "na_GetPort (na_new_ip pton ip port) = port" "na_GetIpAddress ntop (na_new_ip pton (ntop a) port) = ntop a"
    "pton ip = None \<Longrightarrow> na_GetIpAddress ntop (na_new_ip pton ip port) = ntop 0"
  using assms by (simp_all add: na_GetPort_def na_new_ip_def na_GetIpAddress_def na_IpToAddress_def)

end
