(* ===== verification/Acceptors.thy ===== *)
theory Acceptors
  imports Service_Safety Net_Sockets
begin

text \<open>
  IocpEvent and IocpAcceptEvent (IocpEvent.h, IocpEvent.cpp), Acceptor (Acceptor.h, Acceptor.cpp), Listener
  (Listener.h, Listener.cpp) and ServerService::Start (Service.cpp). The results of the Winsock calls
  are arguments. A session is its index in the service, an owner or service pointer is a flag, and a
  null pointer that is dereferenced is a fault.
\<close>

subsection \<open>Events\<close>

record IocpEvent =
  ie_Internal :: int
  ie_InternalHigh :: int
  ie_Offset :: int
  ie_OffsetHigh :: int
  ie_hEvent :: bool
  ie_mEventType :: eIocpEventType
  ie_mpOwner :: bool

definition ie_new :: "eIocpEventType \<Rightarrow> IocpEvent" where
  "ie_new eventType =
     \<lparr>ie_Internal = 0, ie_InternalHigh = 0, ie_Offset = 0, ie_OffsetHigh = 0, ie_hEvent = False,
      ie_mEventType = eventType, ie_mpOwner = False\<rparr>"

definition ie_ClearOverlapped :: "'a IocpEvent_scheme \<Rightarrow> 'a IocpEvent_scheme" where
  "ie_ClearOverlapped e =
     e\<lparr>ie_Internal := 0, ie_InternalHigh := 0, ie_Offset := 0, ie_OffsetHigh := 0, ie_hEvent := False\<rparr>"

definition ie_GetEventType :: "'a IocpEvent_scheme \<Rightarrow> eIocpEventType" where
  "ie_GetEventType e = ie_mEventType e"

definition ie_GetOwner :: "'a IocpEvent_scheme \<Rightarrow> bool" where
  "ie_GetOwner e = ie_mpOwner e"

definition ie_SetOwner :: "'a IocpEvent_scheme \<Rightarrow> 'a IocpEvent_scheme" where
  "ie_SetOwner e = e\<lparr>ie_mpOwner := True\<rparr>"

definition ie_ResetOwner :: "'a IocpEvent_scheme \<Rightarrow> 'a IocpEvent_scheme" where
  "ie_ResetOwner e = e\<lparr>ie_mpOwner := False\<rparr>"

record IocpAcceptEvent = IocpEvent +
  ae_mAcceptorIndex :: int
  ae_mpClientSession :: "nat option"

definition ae_new :: "int \<Rightarrow> IocpAcceptEvent" where
  "ae_new acceptorIndex =
     IocpEvent.extend (ie_new AcceptEvent) \<lparr>ae_mAcceptorIndex = acceptorIndex, ae_mpClientSession = None\<rparr>"

definition ae_GetAcceptorIndex :: "IocpAcceptEvent \<Rightarrow> int" where
  "ae_GetAcceptorIndex e = ae_mAcceptorIndex e"

definition ae_ResetSession :: "IocpAcceptEvent \<Rightarrow> IocpAcceptEvent" where
  "ae_ResetSession e = e\<lparr>ae_mpClientSession := None\<rparr>"

definition ae_SetSession :: "nat option \<Rightarrow> IocpAcceptEvent \<Rightarrow> IocpAcceptEvent" where
  "ae_SetSession pSession e = e\<lparr>ae_mpClientSession := pSession\<rparr>"

definition ae_GetClientSession :: "IocpAcceptEvent \<Rightarrow> nat option" where
  "ae_GetClientSession e = ae_mpClientSession e"

text \<open>The other events, with the buffers that are being sent in the send event.\<close>

record IocpSendEvent = IocpEvent +
  se_mSendPendingBuffer :: "NetSendBuffer list"

definition ce_new :: IocpEvent where "ce_new = ie_new ConnectEvent"

definition de_new :: IocpEvent where "de_new = ie_new DisconnectEvent"

definition re_new :: IocpEvent where "re_new = ie_new ReceiveEvent"

definition se_new :: IocpSendEvent where
  "se_new = IocpEvent.extend (ie_new SendEvent) \<lparr>se_mSendPendingBuffer = []\<rparr>"

definition se_GetSendPendingBuffer :: "IocpSendEvent \<Rightarrow> NetSendBuffer list" where
  "se_GetSendPendingBuffer e = se_mSendPendingBuffer e"

lemmas event_defs = ie_new_def ie_ClearOverlapped_def ie_GetEventType_def ie_GetOwner_def ie_SetOwner_def
  ie_ResetOwner_def ae_new_def ae_GetAcceptorIndex_def ae_ResetSession_def ae_SetSession_def ae_GetClientSession_def
  IocpEvent.extend_def

subsection \<open>Acceptors\<close>

record Acceptor =
  ap_mpOwner :: bool
  ap_mpService :: bool
  ap_mAcceptEvent :: IocpAcceptEvent

definition ap_new :: "int \<Rightarrow> Acceptor" where
  "ap_new acceptorIndex = \<lparr>ap_mpOwner = False, ap_mpService = False, ap_mAcceptEvent = ae_new acceptorIndex\<rparr>"

definition ap_SetOwner :: "Acceptor \<Rightarrow> Acceptor" where
  "ap_SetOwner a = a\<lparr>ap_mpOwner := True, ap_mAcceptEvent := ie_SetOwner (ap_mAcceptEvent a)\<rparr>"

definition ap_SetService :: "Acceptor \<Rightarrow> Acceptor" where
  "ap_SetService a = a\<lparr>ap_mpService := True\<rparr>"

definition ap_Clear :: "Acceptor \<Rightarrow> Acceptor" where
  "ap_Clear a =
     a\<lparr>ap_mpOwner := False, ap_mpService := False,
       ap_mAcceptEvent := ie_ResetOwner (ie_ClearOverlapped (ap_mAcceptEvent a))\<rparr>"

definition ap_destroy :: "Acceptor \<Rightarrow> Acceptor" where
  "ap_destroy a = ap_Clear a"

lemmas ap_defs = ap_new_def ap_SetOwner_def ap_SetService_def ap_Clear_def

text \<open>
  What an acceptor works with: the service, the codes given to the listener's error handle and the
  addresses of the sessions.
\<close>

record accept_world =
  aw_service :: Service
  aw_errors :: "int list"
  aw_address :: "nat \<Rightarrow> SOCKADDR_IN option"

record accept_env =
  ap_registered :: bool
  ap_acceptEx :: io_result
  ap_updateAccept :: bool
  ap_getpeername :: "SOCKADDR_IN option"
  ap_io :: io_env
  ap_alive :: "nat \<Rightarrow> bool"

definition ap_Register :: "accept_env \<Rightarrow> Acceptor \<Rightarrow> accept_world \<Rightarrow> (fault, Acceptor \<times> accept_world) outcome" where
  "ap_Register env a w =
     (if \<not> ap_mpService a then Some (Inl NullService)
      else
        obind (sv_CreateSession (ap_registered env) (aw_service w)) (\<lambda>(pSession, v).
          (let w1 = w\<lparr>aw_service := v\<rparr> in
           case pSession of
             None \<Rightarrow> ok (ap_Clear a, w1)
           | Some i \<Rightarrow>
               (let a1 = a\<lparr>ap_mAcceptEvent := ie_ClearOverlapped (ae_SetSession (Some i) (ap_mAcceptEvent a))\<rparr> in
                if \<not> ap_mpOwner a1 then Some (Inl NullOwner)
                else case ap_acceptEx env of
                       IoFailed code \<Rightarrow>
                         obind (ss_Clear (sv_sessions v i)) (\<lambda>s.
                           ok (ap_Clear a1, w1\<lparr>aw_service := sv_upd i (\<lambda>_. s) v, aw_errors := aw_errors w1 @ [code]\<rparr>))
                     | _ \<Rightarrow> ok (a1, w1)))))"

definition ss_setNetAddress :: "nat \<Rightarrow> SOCKADDR_IN \<Rightarrow> accept_world \<Rightarrow> accept_world" where
  "ss_setNetAddress i address w = w\<lparr>aw_address := (aw_address w)(i := Some address)\<rparr>"

definition ss_GetAddress :: "nat \<Rightarrow> accept_world \<Rightarrow> SOCKADDR_IN option" where
  "ss_GetAddress i w = aw_address w i"

definition ap_Process :: "accept_env \<Rightarrow> Acceptor \<Rightarrow> accept_world \<Rightarrow> (fault, Acceptor \<times> accept_world) outcome" where
  "ap_Process env a w =
     (let pSession = ae_GetClientSession (ap_mAcceptEvent a);
          a1 = a\<lparr>ap_mAcceptEvent := ae_ResetSession (ap_mAcceptEvent a)\<rparr> in
      case pSession of
        None \<Rightarrow> Some (Inl NullSession)
      | Some i \<Rightarrow>
          if \<not> ap_mpOwner a1 then Some (Inl NullOwner)
          else if \<not> ap_updateAccept env then ok (ap_Clear a1, w)
          else case ap_getpeername env of
                 None \<Rightarrow> ok (ap_Clear a1, w)
               | Some sockAddr \<Rightarrow>
                   (let w1 = ss_setNetAddress i sockAddr w in
                    obind (ss_processConnect (ap_io env) (ap_alive env) i (aw_service w1)) (\<lambda>v.
                      ap_Register env a1 (w1\<lparr>aw_service := v\<rparr>))))"

text \<open>A session whose accept is completed has the address of its peer, whatever becomes of the next accept.\<close>

lemma obind_okD: "obind m f = ok y \<Longrightarrow> \<exists>x. m = ok x \<and> f x = ok y"
  by (auto simp: obind_def ok_def split: option.splits sum.splits)

lemma Register_keeps_addresses:
  assumes "ap_Register env a w = ok (a', w')"
  shows "aw_address w' = aw_address w"
  using assms unfolding ap_Register_def Let_def
  by (auto dest!: obind_okD split: if_splits option.splits io_result.splits)

lemma accepted_session_has_its_address:
  assumes "ap_Process env a w = ok (a', w')" "ae_GetClientSession (ap_mAcceptEvent a) = Some i"
    and "ap_updateAccept env" "ap_getpeername env = Some sockAddr"
  shows "ss_GetAddress i w' = Some sockAddr"
  using assms unfolding ap_Process_def Let_def
  by (auto dest!: obind_okD Register_keeps_addresses simp: ss_GetAddress_def ss_setNetAddress_def split: if_splits)

subsection \<open>The listener\<close>

record Listener =
  li_mSocket :: SOCKET
  li_mAcceptCount :: int
  li_mAcceptors :: "Acceptor list"
  li_world :: accept_world

definition li_new :: "int \<Rightarrow> Service \<Rightarrow> Listener" where
  "li_new acceptCount v =
     \<lparr>li_mSocket = INVALID_SOCKET, li_mAcceptCount = acceptCount, li_mAcceptors = [],
      li_world = \<lparr>aw_service = v, aw_errors = [], aw_address = \<lambda>_. None\<rparr>\<rparr>"

text \<open>The event comes from acceptor \<open>k\<close>; an index outside of the vector is a fault.\<close>

definition li_Dispatch :: "accept_env \<Rightarrow> IocpAcceptEvent \<Rightarrow> Listener \<Rightarrow> (fault, Listener) outcome" where
  "li_Dispatch env iocpEvent l =
     (if ie_GetEventType iocpEvent \<noteq> AcceptEvent then ok l
      else
        (let k = ae_GetAcceptorIndex iocpEvent in
         if k < 0 \<or> k \<ge> int (length (li_mAcceptors l)) then Some (Inl OutOfBounds)
         else obind (ap_Process env (li_mAcceptors l ! nat k) (li_world l)) (\<lambda>(a, w).
           ok (l\<lparr>li_mAcceptors := (li_mAcceptors l)[nat k := a], li_world := w\<rparr>))))"

definition li_GetSocket :: "Listener \<Rightarrow> SOCKET" where
  "li_GetSocket l = li_mSocket l"

text \<open>A socket is used as a handle.\<close>

definition li_GetHandle :: "Listener \<Rightarrow> SOCKET" where
  "li_GetHandle l = li_mSocket l"

definition li_destroy :: "winsock \<Rightarrow> Listener \<Rightarrow> winsock" where
  "li_destroy ws l = snd (su_Close (li_mSocket l) ws)"

definition li_CloseAccept :: "winsock \<Rightarrow> Listener \<Rightarrow> Listener \<times> winsock" where
  "li_CloseAccept ws l = (case su_Close (li_mSocket l) ws of (s, ws') \<Rightarrow> (l\<lparr>li_mSocket := s\<rparr>, ws'))"

text \<open>The loop of \<open>StartAccept\<close> over the acceptors; an environment for each of them.\<close>

fun li_accept_loop :: "int \<Rightarrow> accept_env list \<Rightarrow> Listener \<Rightarrow> (fault, Listener) outcome" where
  "li_accept_loop i [] l = ok l"
| "li_accept_loop i (env # envs) l =
     (let pAcceptor = ap_SetService (ap_SetOwner (ap_new i)) in
      obind (ap_Register env pAcceptor (li_world l)) (\<lambda>(a, w).
        li_accept_loop (i + 1) envs (l\<lparr>li_mAcceptors := li_mAcceptors l @ [a], li_world := w\<rparr>)))"

text \<open>
  \<open>StartAccept\<close>: the outer None is a crash of the process on a failed setup call.
\<close>

record listen_env =
  le_createSocket :: "SOCKET option"
  le_register :: bool
  le_reuse :: int
  le_keepAlive :: int
  le_linger :: int
  le_bind :: int
  le_listen :: int

definition li_StartAccept :: "bool \<Rightarrow> listen_env \<Rightarrow> SOCKADDR_IN \<Rightarrow> accept_env list \<Rightarrow> winsock \<Rightarrow> Listener
    \<Rightarrow> ((fault, bool \<times> Listener) outcome \<times> winsock) option" where
  "li_StartAccept hasService env addr envs ws l =
     (if \<not> hasService then None
      else case su_CreateTcpSocket (le_createSocket env) ws of
        (created, sock, ws1) \<Rightarrow>
          if \<not> created then None
          else if \<not> le_register env then None
          else case su_SetReuseAddress (le_reuse env) sock True ws1 of
            (b2, ws2) \<Rightarrow> if \<not> b2 then None
          else case su_SetKeepAlive (le_keepAlive env) sock 30000 1000 ws2 of
            (b3, ws3) \<Rightarrow> if \<not> b3 then None
          else case su_SetLinger (le_linger env) sock 1 0 ws3 of
            (b4, ws4) \<Rightarrow> if \<not> b4 then None
          else case su_Bind (le_bind env) sock addr ws4 of
            (b5, ws5) \<Rightarrow> if \<not> b5 then None
          else if \<not> su_Listen (le_listen env) then None
          else Some (obind (li_accept_loop 0 (take (nat (li_mAcceptCount l)) envs) (l\<lparr>li_mSocket := sock\<rparr>))
                 (\<lambda>l'. ok (True, l')), ws5))"

text \<open>\<open>ServerService::Start\<close>: false without a listener.\<close>

definition svs_Start :: "bool \<Rightarrow> listen_env \<Rightarrow> SOCKADDR_IN \<Rightarrow> accept_env list \<Rightarrow> winsock \<Rightarrow> Listener
    \<Rightarrow> ((fault, bool \<times> Listener) outcome \<times> winsock) option" where
  "svs_Start hasListener env addr envs ws l =
     (if \<not> hasListener then Some (ok (False, l), ws) else li_StartAccept True env addr envs ws l)"

text \<open>\<open>IocpCore::Dispatch\<close> of the completion of acceptor \<open>k\<close>: nothing happens when its event has lost its owner.\<close>

definition li_completion :: "accept_env \<Rightarrow> nat \<Rightarrow> Listener \<Rightarrow> (fault, Listener) outcome" where
  "li_completion env k l =
     (let e = ap_mAcceptEvent (li_mAcceptors l ! k) in
      if ie_GetOwner e then li_Dispatch env e l else ok l)"

end
