(* ===== verification/Accept_Slots.thy ===== *)
theory Accept_Slots
  imports Acceptors
begin

text \<open>
  What the acceptors of a listener keep true while their accepts complete, with any results, between the
  other handlers of the server: no null pointer is met, and an acceptor whose accept failed is lost.
\<close>

subsection \<open>A session that waits for its accept\<close>

definition awaiting :: "nat \<Rightarrow> Service \<Rightarrow> bool" where
  "awaiting i v \<longleftrightarrow> i < sv_count v \<and> ss_mpService (sv_sessions v i) \<and> cn_mpOwner (ss_mConnector (sv_sessions v i))"

definition fresh_from :: "Service \<Rightarrow> bool" where
  "fresh_from v \<longleftrightarrow> (\<forall>i \<ge> sv_count v. \<exists>mem dflt. sv_sessions v i = ss_new mem dflt)"

lemma service_flag:
  "ss_mpService (emit e s) = ss_mpService s" "ss_mpService (dc_Clear s) = ss_mpService s"
  "ss_mpService (ss_Disconnect env reason s) = ss_mpService s"
  "ss_mpService (sn_SetOwner s) = ss_mpService s" "ss_mpService (rc_SetOwner s) = ss_mpService s"
  "ss_mpService (cn_Process s) = ss_mpService s"
  by (simp_all add: session_defs ss_Disconnect_def dc_Register_def Let_def split: prod.split io_result.split)

lemma AddSession_flag:
  assumes inv: "sv_inv v" and new: "newcomer i v"
  shows "ss_mpService (sv_sessions (snd (sv_AddSession env alive i v)) i) = ss_mpService (sv_sessions v i)"
proof (cases "sm_AddSession i (sv_mSessionManager v)")
  case (Pair added m)
  show ?thesis
  proof (cases added)
    case True
    then show ?thesis using AddSession_member(1) [OF inv new, of m] Pair by (simp add: service_flag)
  next
    case False
    show ?thesis
    proof (cases "\<forall>w. sv_mWaitQueueManager v = Some w \<longrightarrow> fst (wq_EnterWaitQueue w i) = None")
      case True
      then show ?thesis using AddSession_refused [of i v m] Pair False by simp
    next
      case waits: False
      then obtain w t w' where "sv_mWaitQueueManager v = Some w" "wq_EnterWaitQueue w i = (Some t, w')"
        by (auto simp: prod_eq_iff)
      then show ?thesis using AddSession_waits(1) [OF inv new, of m w t w'] Pair False by (simp add: service_flag)
    qed
  qed
qed

lemma processConnect_returns:
  assumes inv: "sv_inv v" and i: "awaiting i v"
  shows "\<exists>v'. ss_processConnect env alive i v = ok v'"
proof -
  define v1 where "v1 = sv_upd i (\<lambda>s. sn_SetOwner (rc_SetOwner (cn_Process s))) v"
  have fresh: "cn_mpOwner (ss_mConnector (sv_sessions v i))" using i by (simp add: awaiting_def)
  note k = sess_okD(6) [OF inv_session [OF inv] fresh]
  have same: "ss_events (sn_SetOwner (rc_SetOwner (cn_Process s))) = ss_events s"
    "ss_mSessionState (sn_SetOwner (rc_SetOwner (cn_Process s))) = ss_mSessionState s"
    "\<not> cn_mpOwner (ss_mConnector (sn_SetOwner (rc_SetOwner (cn_Process s))))" for s
    by (simp_all add: session_defs)
  have "sv_inv v1"
    unfolding v1_def using inv_session [OF inv, of i] k same
    by (intro inv_upd [OF inv]) (simp add: sess_ok_def disconnect_pending_def)
  moreover have "newcomer i v1" using i k same by (simp add: newcomer_def v1_def awaiting_def)
  ultimately have "ss_mpService (sv_sessions (snd (sv_AddSession env alive i v1)) i)"
    using AddSession_flag [of v1 i env alive] i by (simp add: v1_def awaiting_def service_flag)
  moreover have "ss_mpService (sv_sessions v1 i)" using i by (simp add: v1_def awaiting_def service_flag)
  ultimately show ?thesis
    unfolding ss_processConnect_def v1_def [symmetric] Let_def by (auto split: prod.split bool.split)
qed

text \<open>The other handlers leave the sessions that are not created yet alone.\<close>

lemma step_frame:
  assumes "sv_step v v'" "sv_inv v"
  shows "sv_count v \<le> sv_count v' \<and> (\<forall>j \<ge> sv_count v'. sv_sessions v' j = sv_sessions v j)"
  using assms
proof (induction rule: sv_step.induct)
  case (create registered v p v')
  then show ?case using CreateSession_inv [of v registered p v'] by auto
next
  case (connect i v env alive v')
  then show ?case using processConnect_inv [of v i env alive v'] by auto
next
  case (in_game i v b v')
  then show ?case using in_game_upd [of i v b v'] by auto
next
  case (disconnected v i env alive v')
  have "i < sv_count v" using sess_okD(9) [OF inv_session [OF disconnected(3), of i]] disconnected(1)
    by (cases "i < sv_count v") (auto simp: disconnect_pending_def)
  then show ?case using processDisconnect_inv [of v i env alive v'] disconnected by auto
next
  case (reap i v env now a lastMs r v')
  then show ?case using reap_cases [OF reap(2)] by (auto simp: sv_RegisterSessionReap_def)
qed auto

lemma step_fresh: "sv_step v v' \<Longrightarrow> sv_inv v \<Longrightarrow> fresh_from v \<Longrightarrow> fresh_from v'"
  using step_frame [of v v'] by (fastforce simp: fresh_from_def)

lemma Clear_fresh: "\<exists>s'. ss_Clear (ss_setSessionEvent (ss_setService (ss_new mem dflt))) = ok s'"
proof -
  have "lq_wf (lq_new dflt lq_DEFAULT_MAX_COUNT)" unfolding lq_wf_def by (rule exI [of _ "[0]"]) (rule lq_new_rest)
  then show ?thesis
    using Clear_rest [of "lq_new dflt lq_DEFAULT_MAX_COUNT"] by (simp add: ss_Clear_def sn_Clear_def session_defs ss_setSessionEvent_def ss_setService_def ss_new_def)
qed

subsection \<open>Creating a session and posting its accept\<close>

lemma CreateSession_returns:
  assumes "sv_inv v" "fresh_from v"
  shows "\<exists>v'. sv_CreateSession registered v = ok (if registered then Some (sv_count v) else None, v') \<and>
    sv_inv v' \<and> fresh_from v' \<and> sv_count v' = sv_count v + 1 \<and> (\<forall>j < sv_count v. sv_sessions v' j = sv_sessions v j) \<and>
    (registered \<longrightarrow> (\<exists>mem dflt. sv_sessions v' (sv_count v) = ss_setSessionEvent (ss_setService (ss_new mem dflt))))"
proof -
  obtain mem dflt where s: "sv_sessions v (sv_count v) = ss_new mem dflt" using assms(2) by (auto simp: fresh_from_def)
  obtain s' where s': "ss_Clear (ss_setSessionEvent (ss_setService (ss_new mem dflt))) = ok s'" using Clear_fresh by blast
  obtain v' where run: "sv_CreateSession registered v = ok (if registered then Some (sv_count v) else None, v')"
    "registered \<longrightarrow> sv_sessions v' (sv_count v) = ss_setSessionEvent (ss_setService (ss_new mem dflt))"
    using s s' by (cases registered) (auto simp: sv_CreateSession_def Let_def)
  note c = CreateSession_inv [OF assms(1) run(1)]
  have "fresh_from v'" using assms(2) c(4,5) by (auto simp: fresh_from_def)
  then show ?thesis using run c by (intro exI [of _ v']) auto
qed

definition accept_ok :: "accept_env \<Rightarrow> bool" where
  "accept_ok env \<longleftrightarrow> ap_registered env \<and> (\<forall>code. ap_acceptEx env \<noteq> IoFailed code)"

definition completion_ok :: "accept_env \<Rightarrow> bool" where
  "completion_ok env \<longleftrightarrow> ap_updateAccept env \<and> ap_getpeername env \<noteq> None \<and> accept_ok env"

text \<open>The acceptor at index \<open>k\<close> either has an accept pending for a session of its own or is cleared.\<close>

definition slot_ok :: "nat \<Rightarrow> Acceptor \<Rightarrow> Service \<Rightarrow> bool" where
  "slot_ok k a v \<longleftrightarrow>
     ie_mEventType (ap_mAcceptEvent a) = AcceptEvent \<and> ae_mAcceptorIndex (ap_mAcceptEvent a) = int k \<and>
     ie_mpOwner (ap_mAcceptEvent a) = ap_mpOwner a \<and> ap_mpService a = ap_mpOwner a \<and>
     (ap_mpOwner a \<longrightarrow> (\<exists>i. ae_mpClientSession (ap_mAcceptEvent a) = Some i \<and> awaiting i v))"

lemma Clear_slot: "ie_mEventType (ap_mAcceptEvent a) = AcceptEvent \<Longrightarrow> ae_mAcceptorIndex (ap_mAcceptEvent a) = int k \<Longrightarrow> slot_ok k (ap_Clear a) v"
  "\<not> ap_mpOwner (ap_Clear a)"
  by (simp_all add: slot_ok_def ap_Clear_def event_defs)

lemma ClearSession_inv:
  assumes "sv_inv v" "ss_Clear (sv_sessions v i) = ok s'"
  shows "sv_inv (sv_upd i (\<lambda>_. s') v)"
proof -
  have "sess_ok (members v) (waiters v) (sv_count v) i s'"
    using inv_session [OF assms(1), of i] ss_Clear_same [OF assms(2)] by (auto simp: sess_ok_def disconnect_pending_def)
  then show ?thesis by (intro inv_upd [OF assms(1)])
qed

lemma Register_returns:
  assumes inv: "sv_inv (aw_service w)" "fresh_from (aw_service w)"
    and a: "ap_mpOwner a" "ap_mpService a" "ie_mpOwner (ap_mAcceptEvent a)"
    "ie_mEventType (ap_mAcceptEvent a) = AcceptEvent" "ae_mAcceptorIndex (ap_mAcceptEvent a) = int k"
  shows "\<exists>a' w'. ap_Register env a w = ok (a', w') \<and> sv_inv (aw_service w') \<and> fresh_from (aw_service w') \<and>
    sv_count (aw_service w') = sv_count (aw_service w) + 1 \<and>
    (\<forall>j < sv_count (aw_service w). sv_sessions (aw_service w') j = sv_sessions (aw_service w) j) \<and>
    slot_ok k a' (aw_service w') \<and> ap_mpOwner a' = accept_ok env \<and>
    (ap_mpOwner a' \<longrightarrow> ae_mpClientSession (ap_mAcceptEvent a') = Some (sv_count (aw_service w)))"
proof -
  let ?v = "aw_service w" let ?i = "sv_count (aw_service w)"
  obtain v' where c: "sv_CreateSession (ap_registered env) ?v = ok (if ap_registered env then Some ?i else None, v')"
    "sv_inv v'" "fresh_from v'" "sv_count v' = ?i + 1" "\<forall>j < ?i. sv_sessions v' j = sv_sessions ?v j"
    "ap_registered env \<longrightarrow> (\<exists>mem dflt. sv_sessions v' ?i = ss_setSessionEvent (ss_setService (ss_new mem dflt)))"
    using CreateSession_returns [OF inv] by blast
  define a1 where "a1 = a\<lparr>ap_mAcceptEvent := ie_ClearOverlapped (ae_SetSession (Some ?i) (ap_mAcceptEvent a))\<rparr>"
  have a1: "ap_mpOwner a1" "ie_mEventType (ap_mAcceptEvent a1) = AcceptEvent" "ae_mAcceptorIndex (ap_mAcceptEvent a1) = int k"
    "ie_mpOwner (ap_mAcceptEvent a1)" "ap_mpService a1" "ae_mpClientSession (ap_mAcceptEvent a1) = Some ?i"
    using a by (simp_all add: a1_def event_defs)
  show ?thesis
  proof (cases "ap_registered env")
    case False
    then have "ap_Register env a w = ok (ap_Clear a, w\<lparr>aw_service := v'\<rparr>)"
      using c(1) a(2) by (simp add: ap_Register_def Let_def)
    then show ?thesis
      using c(2-5) Clear_slot(1) [OF a(4,5)] Clear_slot(2) False by (intro exI [of _ "ap_Clear a"] exI [of _ "w\<lparr>aw_service := v'\<rparr>"]) (simp add: accept_ok_def)
  next
    case reg: True
    then obtain mem dflt where s: "sv_sessions v' ?i = ss_setSessionEvent (ss_setService (ss_new mem dflt))" using c(6) by blast
    then have "awaiting ?i v'"
      using c(4) by (simp add: awaiting_def ss_setSessionEvent_def ss_setService_def session_defs)
    then have slot: "slot_ok k a1 v'" using a1 by (simp add: slot_ok_def)
    show ?thesis
    proof (cases "\<exists>code. ap_acceptEx env = IoFailed code")
      case True
      then obtain code where code: "ap_acceptEx env = IoFailed code" ..
      obtain s' where s': "ss_Clear (sv_sessions v' ?i) = ok s'" using Clear_fresh s by metis
      let ?v2 = "sv_upd ?i (\<lambda>_. s') v'"
      let ?w = "w\<lparr>aw_service := ?v2, aw_errors := aw_errors w @ [code]\<rparr>"
      have "ap_Register env a w = ok (ap_Clear a1, ?w)"
        using c(1) a(2) reg code s' a1(1) by (simp add: ap_Register_def Let_def a1_def [symmetric])
      moreover have "sv_inv ?v2" by (rule ClearSession_inv [OF c(2) s'])
      moreover have "fresh_from ?v2" using c(3,4) by (auto simp: fresh_from_def)
      moreover have "\<forall>j < ?i. sv_sessions ?v2 j = sv_sessions ?v j" using c(5) by auto
      ultimately show ?thesis
        using c(4) Clear_slot(1) [OF a1(2,3)] Clear_slot(2) code by (intro exI [of _ "ap_Clear a1"] exI [of _ ?w]) (simp add: accept_ok_def)
    next
      case False
      then have "ap_Register env a w = ok (a1, w\<lparr>aw_service := v'\<rparr>)"
        using c(1) a(2) reg a1(1) by (cases "ap_acceptEx env") (simp_all add: ap_Register_def Let_def a1_def [symmetric])
      then show ?thesis
        using c(2-5) slot a1 reg False by (intro exI [of _ a1] exI [of _ "w\<lparr>aw_service := v'\<rparr>"]) (simp add: accept_ok_def)
    qed
  qed
qed

subsection \<open>All the acceptors of a listener\<close>

definition pending_of :: "Acceptor \<Rightarrow> nat option" where
  "pending_of a = (if ap_mpOwner a then ae_mpClientSession (ap_mAcceptEvent a) else None)"

definition own_sessions :: "Acceptor list \<Rightarrow> bool" where
  "own_sessions as \<longleftrightarrow> (\<forall>k < length as. \<forall>k' < length as. \<forall>i.
     pending_of (as ! k) = Some i \<longrightarrow> pending_of (as ! k') = Some i \<longrightarrow> k = k')"

lemma own_sessionsD:
  "own_sessions as \<Longrightarrow> k < length as \<Longrightarrow> k' < length as \<Longrightarrow> pending_of (as ! k) = Some i \<Longrightarrow> pending_of (as ! k') = Some i \<Longrightarrow> k = k'"
  unfolding own_sessions_def by blast

definition slots_ok :: "Listener \<Rightarrow> bool" where
  "slots_ok l \<longleftrightarrow> sv_inv (aw_service (li_world l)) \<and> fresh_from (aw_service (li_world l)) \<and> own_sessions (li_mAcceptors l) \<and>
     (\<forall>k < length (li_mAcceptors l). slot_ok k (li_mAcceptors l ! k) (aw_service (li_world l)))"

definition open_slots :: "Listener \<Rightarrow> nat" where
  "open_slots l = length (filter ap_mpOwner (li_mAcceptors l))"

lemma filter_update:
  assumes "k < length xs" "P (xs ! k)"
  shows "length (filter P (xs[k := y])) + (if P y then 0 else 1) = length (filter P xs)"
proof -
  have "length (filter P xs) = length (filter P (take k xs)) + 1 + length (filter P (drop (Suc k) xs))"
    using assms by (subst id_take_nth_drop [OF assms(1)]) simp
  then show ?thesis using assms(1) by (simp add: upd_conv_take_nth_drop)
qed

lemma slot_pending: "slot_ok k a v \<Longrightarrow> pending_of a = Some i \<Longrightarrow> awaiting i v"
  by (auto simp: slot_ok_def pending_of_def split: if_splits)

lemma slot_mono: "slot_ok k a v \<Longrightarrow> (\<And>i. pending_of a = Some i \<Longrightarrow> awaiting i v \<Longrightarrow> awaiting i v') \<Longrightarrow> slot_ok k a v'"
  by (auto simp: slot_ok_def pending_of_def)

lemma awaiting_same: "awaiting i v \<Longrightarrow> sv_sessions v' i = sv_sessions v i \<Longrightarrow> sv_count v \<le> sv_count v' \<Longrightarrow> awaiting i v'"
  by (simp add: awaiting_def)

lemma own_update:
  assumes "own_sessions as" "k < length as"
    and new: "\<And>i. pending_of a = Some i \<Longrightarrow> n \<le> i" and old: "\<And>j i. j < length as \<Longrightarrow> pending_of (as ! j) = Some i \<Longrightarrow> i < n"
  shows "own_sessions (as[k := a])"
  unfolding own_sessions_def
proof (intro allI impI)
  fix j j' i
  assume j: "j < length (as[k := a])" "j' < length (as[k := a])"
    and p: "pending_of (as[k := a] ! j) = Some i" "pending_of (as[k := a] ! j') = Some i"
  show "j = j'"
  proof (rule ccontr)
    assume ne: "j \<noteq> j'"
    consider "j = k" | "j' = k" | "j \<noteq> k" "j' \<noteq> k" by blast
    then show False
    proof cases
      case 1
      then have "n \<le> i" "i < n" using new old j p ne by auto
      then show False by simp
    next
      case 2
      then have "n \<le> i" "i < n" using new old j p ne by auto
      then show False by simp
    next
      case 3
      then show False using own_sessionsD [OF assms(1), of j j' i] j p ne by simp
    qed
  qed
qed

text \<open>Replacing one acceptor, when the sessions of the others are left alone.\<close>

lemma slots_update:
  assumes ok: "slots_ok l" and k: "k < length (li_mAcceptors l)" and v: "sv_inv (aw_service w)" "fresh_from (aw_service w)"
    and a: "slot_ok k a (aw_service w)"
    and new: "\<And>i. pending_of a = Some i \<Longrightarrow> sv_count (aw_service (li_world l)) \<le> i"
    and others: "\<And>i. awaiting i (aw_service (li_world l)) \<Longrightarrow> pending_of (li_mAcceptors l ! k) \<noteq> Some i \<Longrightarrow> awaiting i (aw_service w)"
  shows "slots_ok (l\<lparr>li_mAcceptors := (li_mAcceptors l)[k := a], li_world := w\<rparr>)"
proof -
  have s: "slot_ok j (li_mAcceptors l ! j) (aw_service (li_world l))" if "j < length (li_mAcceptors l)" for j
    using ok that by (simp add: slots_ok_def)
  have o: "own_sessions (li_mAcceptors l)" using ok by (simp add: slots_ok_def)
  have "i < sv_count (aw_service (li_world l))" if "j < length (li_mAcceptors l)" "pending_of (li_mAcceptors l ! j) = Some i" for i j
    using slot_pending [OF s [OF that(1)] that(2)] by (simp add: awaiting_def)
  then have "own_sessions ((li_mAcceptors l)[k := a])"
    by (intro own_update [OF o k new]) auto
  moreover have "slot_ok j ((li_mAcceptors l)[k := a] ! j) (aw_service w)" if j: "j < length (li_mAcceptors l)" for j
  proof (cases "j = k")
    case False
    have "awaiting i (aw_service w)" if p: "pending_of (li_mAcceptors l ! j) = Some i" "awaiting i (aw_service (li_world l))" for i
      using others [OF p(2)] own_sessionsD [OF o j k p(1)] False by blast
    then show ?thesis using slot_mono [OF s [OF j]] False by simp
  qed (use a k in simp)
  ultimately show ?thesis using v by (simp add: slots_ok_def)
qed

text \<open>The completion of a pending accept.\<close>

lemma completion_returns:
  assumes ok: "slots_ok l" and k: "k < length (li_mAcceptors l)" and own: "ap_mpOwner (li_mAcceptors l ! k)"
  shows "\<exists>l'. li_completion env k l = ok l' \<and> slots_ok l' \<and> length (li_mAcceptors l') = length (li_mAcceptors l) \<and>
    open_slots l' + (if completion_ok env then 0 else 1) = open_slots l"
proof -
  let ?a = "li_mAcceptors l ! k" let ?w = "li_world l" let ?v = "aw_service (li_world l)"
  have s: "slot_ok k ?a ?v" and inv: "sv_inv ?v" "fresh_from ?v" using ok k by (simp_all add: slots_ok_def)
  obtain i where i: "ae_mpClientSession (ap_mAcceptEvent ?a) = Some i" "awaiting i ?v" "pending_of ?a = Some i"
    using s own by (auto simp: slot_ok_def pending_of_def)
  define a1 where "a1 = ?a\<lparr>ap_mAcceptEvent := ae_ResetSession (ap_mAcceptEvent ?a)\<rparr>"
  have a1: "ap_mpOwner a1" "ap_mpService a1" "ie_mpOwner (ap_mAcceptEvent a1)" "ie_mEventType (ap_mAcceptEvent a1) = AcceptEvent"
    "ae_mAcceptorIndex (ap_mAcceptEvent a1) = int k"
    using s own by (simp_all add: a1_def slot_ok_def event_defs)
  have e: "li_completion env k l = obind (ap_Process env ?a ?w) (\<lambda>(a, w). ok (l\<lparr>li_mAcceptors := (li_mAcceptors l)[k := a], li_world := w\<rparr>))"
    using s own k by (simp add: li_completion_def li_Dispatch_def slot_ok_def event_defs Let_def)
  have result: "\<exists>a' w'. ap_Process env ?a ?w = ok (a', w') \<and> slot_ok k a' (aw_service w') \<and> sv_inv (aw_service w') \<and>
    fresh_from (aw_service w') \<and> (\<forall>j. pending_of a' = Some j \<longrightarrow> sv_count ?v \<le> j) \<and> ap_mpOwner a' = completion_ok env \<and>
    (\<forall>j. awaiting j ?v \<longrightarrow> j \<noteq> i \<longrightarrow> awaiting j (aw_service w'))"
  proof (cases "ap_updateAccept env \<and> ap_getpeername env \<noteq> None")
    case False
    then have "ap_Process env ?a ?w = ok (ap_Clear a1, ?w)"
      using i(1) a1(1) by (auto simp: ap_Process_def Let_def event_defs a1_def [symmetric] split: option.split)
        (simp_all add: a1_def event_defs)
    then show ?thesis
      using Clear_slot(1) [OF a1(4,5)] Clear_slot(2) [of a1] inv False
      by (intro exI [of _ "ap_Clear a1"] exI [of _ ?w]) (auto simp: completion_ok_def pending_of_def)
  next
    case True
    then obtain sockAddr where addr: "ap_getpeername env = Some sockAddr" by auto
    define w1 where "w1 = ss_setNetAddress i sockAddr ?w"
    have v1: "aw_service w1 = ?v" by (simp add: w1_def ss_setNetAddress_def)
    obtain v2 where pc: "ss_processConnect (ap_io env) (ap_alive env) i ?v = ok v2"
      using processConnect_returns [OF inv(1) i(2)] by blast
    have cn: "i < sv_count ?v" "cn_mpOwner (ss_mConnector (sv_sessions ?v i))" using i(2) by (simp_all add: awaiting_def)
    note p = processConnect_inv [OF inv(1) cn pc]
    define w2 where "w2 = w1\<lparr>aw_service := v2\<rparr>"
    have inv2: "sv_inv (aw_service w2)" "fresh_from (aw_service w2)"
      using p(1,4,5) inv(2) cn(1) by (auto simp: w2_def fresh_from_def)
    obtain a' w' where r: "ap_Register env a1 w2 = ok (a', w')" "sv_inv (aw_service w')" "fresh_from (aw_service w')"
      "sv_count (aw_service w') = sv_count (aw_service w2) + 1"
      "\<forall>j < sv_count (aw_service w2). sv_sessions (aw_service w') j = sv_sessions (aw_service w2) j"
      "slot_ok k a' (aw_service w')" "ap_mpOwner a' = accept_ok env"
      "ap_mpOwner a' \<longrightarrow> ae_mpClientSession (ap_mAcceptEvent a') = Some (sv_count (aw_service w2))"
      using Register_returns [OF inv2 a1] by blast
    have "ap_Process env ?a ?w = ap_Register env a1 w2"
      using i(1) a1(1) True addr pc by (simp add: ap_Process_def ss_setNetAddress_def Let_def event_defs a1_def w1_def w2_def)
    moreover have "awaiting j (aw_service w')" if "awaiting j ?v" "j \<noteq> i" for j
      using that r(4,5) p(4,5) by (auto simp: w2_def awaiting_def)
    moreover have "ap_mpOwner a' = completion_ok env" using r(7) True by (simp add: completion_ok_def)
    moreover have "\<forall>j. pending_of a' = Some j \<longrightarrow> sv_count ?v \<le> j"
      using r(8) p(4) by (auto simp: pending_of_def w2_def)
    ultimately show ?thesis using r by (intro exI [of _ a'] exI [of _ w']) simp
  qed
  then obtain a' w' where r: "ap_Process env ?a ?w = ok (a', w')" "slot_ok k a' (aw_service w')" "sv_inv (aw_service w')"
    "fresh_from (aw_service w')" "\<forall>j. pending_of a' = Some j \<longrightarrow> sv_count ?v \<le> j" "ap_mpOwner a' = completion_ok env"
    "\<forall>j. awaiting j ?v \<longrightarrow> j \<noteq> i \<longrightarrow> awaiting j (aw_service w')" by blast
  have "slots_ok (l\<lparr>li_mAcceptors := (li_mAcceptors l)[k := a'], li_world := w'\<rparr>)"
    using r i(3) by (intro slots_update [OF ok k]) auto
  then show ?thesis
    using e r(1) filter_update [of k "li_mAcceptors l" ap_mpOwner a'] k own r(6)
    by (simp add: open_slots_def)
qed

subsection \<open>Starting the listener\<close>

lemma slots_append:
  assumes ok: "slots_ok l" and v: "sv_inv (aw_service w)" "fresh_from (aw_service w)"
    and a: "slot_ok (length (li_mAcceptors l)) a (aw_service w)"
    and new: "\<And>i. pending_of a = Some i \<Longrightarrow> sv_count (aw_service (li_world l)) \<le> i"
    and others: "\<And>i. awaiting i (aw_service (li_world l)) \<Longrightarrow> awaiting i (aw_service w)"
  shows "slots_ok (l\<lparr>li_mAcceptors := li_mAcceptors l @ [a], li_world := w\<rparr>)"
proof -
  let ?as = "li_mAcceptors l"
  have s: "slot_ok j (?as ! j) (aw_service (li_world l))" if "j < length ?as" for j
    using ok that by (simp add: slots_ok_def)
  have lt: "i < sv_count (aw_service (li_world l))" if "j < length ?as" "pending_of (?as ! j) = Some i" for i j
    using slot_pending [OF s [OF that(1)] that(2)] by (simp add: awaiting_def)
  have "own_sessions (?as @ [a])"
    unfolding own_sessions_def
  proof (intro allI impI)
    fix j j' i
    assume j: "j < length (?as @ [a])" "j' < length (?as @ [a])"
      and p: "pending_of ((?as @ [a]) ! j) = Some i" "pending_of ((?as @ [a]) ! j') = Some i"
    consider "j < length ?as" "j' < length ?as" | "j < length ?as" "j' = length ?as" | "j = length ?as" "j' < length ?as"
      | "j = length ?as" "j' = length ?as" using j by (auto simp: less_Suc_eq)
    then show "j = j'"
    proof cases
      case 1
      then show ?thesis using own_sessionsD [of ?as j j' i] ok p by (simp add: slots_ok_def nth_append)
    next
      case 2
      then show ?thesis using lt [of j i] new [of i] p by (simp add: nth_append)
    next
      case 3
      then show ?thesis using lt [of j' i] new [of i] p by (simp add: nth_append)
    qed simp
  qed
  moreover have "slot_ok j ((?as @ [a]) ! j) (aw_service w)" if "j < Suc (length ?as)" for j
    using that a slot_mono [OF s] others by (cases "j = length ?as") (auto simp: nth_append)
  ultimately show ?thesis using v by (simp add: slots_ok_def)
qed

lemma accept_loop_returns:
  assumes "slots_ok l"
  shows "\<exists>l'. li_accept_loop (int (length (li_mAcceptors l))) envs l = ok l' \<and> slots_ok l' \<and>
    length (li_mAcceptors l') = length (li_mAcceptors l) + length envs \<and>
    open_slots l' = open_slots l + length (filter accept_ok envs)"
  using assms
proof (induction envs arbitrary: l)
  case (Cons env envs)
  let ?k = "length (li_mAcceptors l)" let ?v = "aw_service (li_world l)"
  define a where "a = ap_SetService (ap_SetOwner (ap_new (int ?k)))"
  have a: "ap_mpOwner a" "ap_mpService a" "ie_mpOwner (ap_mAcceptEvent a)"
    "ie_mEventType (ap_mAcceptEvent a) = AcceptEvent" "ae_mAcceptorIndex (ap_mAcceptEvent a) = int ?k"
    by (simp_all add: a_def ap_defs event_defs)
  have inv: "sv_inv ?v" "fresh_from ?v" using Cons.prems by (simp_all add: slots_ok_def)
  obtain a' w' where r: "ap_Register env a (li_world l) = ok (a', w')" "sv_inv (aw_service w')" "fresh_from (aw_service w')"
    "sv_count (aw_service w') = sv_count ?v + 1" "\<forall>j < sv_count ?v. sv_sessions (aw_service w') j = sv_sessions ?v j"
    "slot_ok ?k a' (aw_service w')" "ap_mpOwner a' = accept_ok env"
    "ap_mpOwner a' \<longrightarrow> ae_mpClientSession (ap_mAcceptEvent a') = Some (sv_count ?v)"
    using Register_returns [OF inv a] by blast
  define l1 where "l1 = l\<lparr>li_mAcceptors := li_mAcceptors l @ [a'], li_world := w'\<rparr>"
  have "slots_ok l1"
    unfolding l1_def using r by (intro slots_append [OF Cons.prems]) (auto simp: pending_of_def awaiting_def split: if_splits)
  from Cons.IH [OF this] obtain l' where l': "li_accept_loop (int (length (li_mAcceptors l1))) envs l1 = ok l'" "slots_ok l'"
    "length (li_mAcceptors l') = length (li_mAcceptors l1) + length envs"
    "open_slots l' = open_slots l1 + length (filter accept_ok envs)" by blast
  have "li_accept_loop (int ?k) (env # envs) l = ok l'"
    using r(1) l'(1) by (simp add: a_def l1_def add.commute)
  then show ?case using l'(2-4) r(7) by (simp add: l1_def open_slots_def)
qed simp

lemma new_slots: "sv_inv v \<Longrightarrow> fresh_from v \<Longrightarrow> slots_ok (li_new n v)" "open_slots (li_new n v) = 0"
  by (simp_all add: slots_ok_def li_new_def own_sessions_def open_slots_def)

lemma start_fresh: "fresh_sessions factory \<Longrightarrow> fresh_from (sv_start m w r factory)"
  by (simp add: fresh_from_def fresh_sessions_def sv_start_def sv_new_def)

lemma Start_slots:
  assumes run: "svs_Start True env addr envs ws (li_new n v) = Some (r, ws')" and v: "sv_inv v" "fresh_from v"
  shows "\<exists>l. r = ok (True, l) \<and> slots_ok l \<and> open_slots l = length (filter accept_ok (take (nat n) envs)) \<and>
    length (li_mAcceptors l) = length (take (nat n) envs)"
proof -
  obtain sock where r: "r = obind (li_accept_loop 0 (take (nat n) envs) ((li_new n v)\<lparr>li_mSocket := sock\<rparr>)) (\<lambda>l'. ok (True, l'))"
    using run by (auto simp: svs_Start_def li_StartAccept_def li_new_def split: prod.splits if_splits)
  have "slots_ok ((li_new n v)\<lparr>li_mSocket := sock\<rparr>)" using new_slots(1) [OF v, of n] by (simp add: slots_ok_def)
  from accept_loop_returns [OF this, of "take (nat n) envs"] show ?thesis
    using r by (auto simp: li_new_def open_slots_def)
qed

subsection \<open>Running\<close>

text \<open>
  Accepts complete, with any result, between steps of the other handlers of the server; those do not
  touch a session whose accept is pending. The list of a run says which completions succeeded.
\<close>

inductive accept_step :: "Listener \<Rightarrow> bool list \<Rightarrow> Listener \<Rightarrow> bool" where
  complete: "k < length (li_mAcceptors l) \<Longrightarrow> ie_GetOwner (ap_mAcceptEvent (li_mAcceptors l ! k)) \<Longrightarrow>
    li_completion env k l = ok l' \<Longrightarrow> accept_step l [completion_ok env] l'"
| handler: "sv_step (aw_service (li_world l)) v' \<Longrightarrow>
    \<forall>a \<in> set (li_mAcceptors l). \<forall>i. pending_of a = Some i \<longrightarrow> sv_sessions v' i = sv_sessions (aw_service (li_world l)) i \<Longrightarrow>
    accept_step l [] (l\<lparr>li_world := (li_world l)\<lparr>aw_service := v'\<rparr>\<rparr>)"

inductive accept_run :: "Listener \<Rightarrow> bool list \<Rightarrow> Listener \<Rightarrow> bool" where
  start: "accept_run l [] l"
| snoc: "accept_run l bs l' \<Longrightarrow> accept_step l' cs l'' \<Longrightarrow> accept_run l (bs @ cs) l''"

lemma handler_slots:
  assumes ok: "slots_ok l" and st: "sv_step (aw_service (li_world l)) v'"
    and keep: "\<forall>a \<in> set (li_mAcceptors l). \<forall>i. pending_of a = Some i \<longrightarrow> sv_sessions v' i = sv_sessions (aw_service (li_world l)) i"
  shows "slots_ok (l\<lparr>li_world := (li_world l)\<lparr>aw_service := v'\<rparr>\<rparr>)"
proof -
  let ?v = "aw_service (li_world l)"
  have inv: "sv_inv ?v" "fresh_from ?v" using ok by (simp_all add: slots_ok_def)
  have "slot_ok k (li_mAcceptors l ! k) v'" if k: "k < length (li_mAcceptors l)" for k
  proof (rule slot_mono)
    show "slot_ok k (li_mAcceptors l ! k) ?v" using ok k by (simp add: slots_ok_def)
    show "awaiting i v'" if p: "pending_of (li_mAcceptors l ! k) = Some i" and w: "awaiting i ?v" for i
    proof (rule awaiting_same [OF w])
      show "sv_sessions v' i = sv_sessions ?v i" using keep nth_mem [OF k] p by blast
      show "sv_count ?v \<le> sv_count v'" using step_frame [OF st inv(1)] by blast
    qed
  qed
  then show ?thesis using ok sv_step_inv [OF st inv(1)] step_fresh [OF st inv] by (simp add: slots_ok_def)
qed

lemma run_slots:
  assumes "accept_run l bs l'" "slots_ok l"
  shows "slots_ok l' \<and> open_slots l' + length (filter Not bs) = open_slots l"
  using assms
proof (induction rule: accept_run.induct)
  case (snoc l bs l' cs l'')
  then have ok: "slots_ok l'" "open_slots l' + length (filter Not bs) = open_slots l" by blast+
  from snoc(2) show ?case
  proof (cases rule: accept_step.cases)
    case (complete k env)
    have "slot_ok k (li_mAcceptors l' ! k) (aw_service (li_world l'))" using ok(1) complete(2) by (simp add: slots_ok_def)
    then have "ap_mpOwner (li_mAcceptors l' ! k)" using complete(3) by (simp add: slot_ok_def event_defs)
    then show ?thesis using completion_returns [OF ok(1) complete(2), of env] complete(1,4) ok(2) by (auto split: if_splits)
  next
    case (handler v')
    then show ?thesis using handler_slots [OF ok(1) handler(3,4)] ok(2) by (simp add: open_slots_def)
  qed
qed simp

text \<open>C18: a server that has started answers every accept completion without meeting a null pointer, but
  an acceptor is never registered again after a failure: the accepts that are pending are those posted
  at the start less the completions that failed. After as many failures as accepts (a client that
  resets its connection before the server asks for its address is one), nobody is accepted any more.\<close>

theorem every_failed_accept_loses_a_slot:
  assumes start: "svs_Start True env addr envs ws (li_new n (sv_start maxSessions maxWait hasReaper factory)) = Some (r, ws')"
    and fresh: "fresh_sessions factory"
  shows "\<exists>l0. r = ok (True, l0) \<and> open_slots l0 = length (filter accept_ok (take (nat n) envs)) \<and>
    (\<forall>oks l. accept_run l0 oks l \<longrightarrow>
       open_slots l + length (filter Not oks) = open_slots l0 \<and>
       (\<forall>cenv k. k < length (li_mAcceptors l) \<longrightarrow> (\<exists>l'. li_completion cenv k l = ok l')) \<and>
       (length (filter Not oks) = open_slots l0 \<longrightarrow> (\<forall>a \<in> set (li_mAcceptors l). \<not> ie_GetOwner (ap_mAcceptEvent a))))"
proof -
  obtain l0 where l0: "r = ok (True, l0)" "slots_ok l0" "open_slots l0 = length (filter accept_ok (take (nat n) envs))"
    using Start_slots [OF start sv_start_inv [OF fresh] start_fresh [OF fresh]] by blast
  have "open_slots l + length (filter Not oks) = open_slots l0 \<and>
      (\<forall>cenv k. k < length (li_mAcceptors l) \<longrightarrow> (\<exists>l'. li_completion cenv k l = ok l')) \<and>
      (length (filter Not oks) = open_slots l0 \<longrightarrow> (\<forall>a \<in> set (li_mAcceptors l). \<not> ie_GetOwner (ap_mAcceptEvent a)))"
    if run: "accept_run l0 oks l" for oks l
  proof -
    note s = run_slots [OF run l0(2)]
    have slot: "slot_ok k (li_mAcceptors l ! k) (aw_service (li_world l))" if "k < length (li_mAcceptors l)" for k
      using s that by (simp add: slots_ok_def)
    have "\<exists>l'. li_completion cenv k l = ok l'" if k: "k < length (li_mAcceptors l)" for cenv k
    proof (cases "ap_mpOwner (li_mAcceptors l ! k)")
      case True
      then show ?thesis using completion_returns s k by blast
    next
      case False
      then show ?thesis using slot [OF k] by (simp add: li_completion_def slot_ok_def event_defs Let_def)
    qed
    moreover have "\<not> ie_GetOwner (ap_mAcceptEvent a)" if "length (filter Not oks) = open_slots l0" "a \<in> set (li_mAcceptors l)" for a
    proof -
      have "open_slots l = 0" using s that(1) by simp
      then have "\<not> ap_mpOwner a" using that(2) by (simp add: open_slots_def filter_empty_conv)
      then show ?thesis using slot that(2) by (auto simp: in_set_conv_nth slot_ok_def event_defs)
    qed
    ultimately show ?thesis using s by blast
  qed
  then show ?thesis using l0 by blast
qed

text \<open>A listener with one acceptor, whose accept then fails because the peer is gone.\<close>

definition demo_accept :: accept_env where
  "demo_accept = \<lparr>ap_registered = True, ap_acceptEx = IoPending, ap_updateAccept = True, ap_getpeername = None,
     ap_io = demo_env, ap_alive = (\<lambda>_. True)\<rparr>"

definition demo_listen :: listen_env where
  "demo_listen = \<lparr>le_createSocket = Some 100, le_register = True, le_reuse = 0, le_keepAlive = 0, le_linger = 0,
     le_bind = 0, le_listen = 0\<rparr>"

theorem every_failed_accept_loses_a_slot_witness:
  "\<exists>l0 l ws'. svs_Start True demo_listen \<lparr>sin_family = 2, sin_port = 0, sin_addr = 0\<rparr> [demo_accept] ws_start
       (li_new 1 (sv_start 10 None False (\<lambda>_. demo_session))) = Some (ok (True, l0), ws') \<and>
     open_slots l0 = 1 \<and> li_completion demo_accept 0 l0 = ok l \<and> (\<forall>a \<in> set (li_mAcceptors l). \<not> ie_GetOwner (ap_mAcceptEvent a))"
proof -
  let ?l = "li_new 1 (sv_start 10 None False (\<lambda>_. demo_session))"
  obtain r ws' where start: "svs_Start True demo_listen \<lparr>sin_family = 2, sin_port = 0, sin_addr = 0\<rparr> [demo_accept] ws_start ?l = Some (r, ws')"
    by (simp add: svs_Start_def li_StartAccept_def demo_listen_def su_CreateTcpSocket_def su_SetReuseAddress_def su_SetKeepAlive_def
        su_SetLinger_def su_SetSockOpt_def su_Bind_def su_Listen_def SOCKET_ERROR_def)
  obtain l0 where l0: "r = ok (True, l0)" "slots_ok l0" "open_slots l0 = 1" "length (li_mAcceptors l0) = 1"
    using Start_slots [OF start sv_start_inv [OF demo_fresh] start_fresh [OF demo_fresh]]
    by (auto simp: accept_ok_def demo_accept_def)
  have own: "ap_mpOwner (li_mAcceptors l0 ! 0)"
    using l0(3,4) by (cases "li_mAcceptors l0") (auto simp: open_slots_def split: if_splits)
  obtain l where l: "li_completion demo_accept 0 l0 = ok l"
    using completion_returns [OF l0(2) _ own] l0(4) by auto
  have "ie_GetOwner (ap_mAcceptEvent (li_mAcceptors l0 ! 0))"
    using l0(2,4) own by (simp add: slots_ok_def slot_ok_def event_defs)
  then have run: "accept_run l0 [False] l"
    using accept_run.snoc [OF accept_run.start accept_step.complete [OF _ _ l]] l0(4) by (simp add: completion_ok_def demo_accept_def)
  obtain l1 where l1: "r = ok (True, l1)"
    "\<And>oks l. accept_run l1 oks l \<Longrightarrow> length (filter Not oks) = open_slots l1 \<Longrightarrow>
      \<forall>a \<in> set (li_mAcceptors l). \<not> ie_GetOwner (ap_mAcceptEvent a)"
    using every_failed_accept_loses_a_slot [OF start demo_fresh] by blast
  have "l1 = l0" using l0(1) l1(1) by simp
  then have "\<forall>a \<in> set (li_mAcceptors l). \<not> ie_GetOwner (ap_mAcceptEvent a)" using l1(2) [OF _ , of "[False]" l] run l0(3) by simp
  then show ?thesis using start l0(1,3) l by blast
qed

end
