(* ===== verification/Smart_Pointers.thy ===== *)
theory Smart_Pointers
  imports Memory_Allocator Send_Buffer
begin

text \<open>
  The typed allocation interfaces over MemoryAllocator: ObjectAllocator (ObjectAllocator.h), UniquePtrUtils (UniquePtrUtils.h), SharedPtrAllocator
  (SharedPtrUtils.h), StlAllocator (StlTypes.h) and the functions of AllocatorUtils.h. A type is
  described by its size, by whether it is a class, by whether its default constructor is trivial and
  by which of its constructor calls throw. The constructions and destructions are a list of events.
\<close>

subsection \<open>Objects\<close>

datatype object_event = Construct nat | Destroy nat

text \<open>A constructor call outside of the block is a fault; the index says which one.\<close>

datatype pointer_fault = Allocator ma_fault | Overrun nat

record cpp_type =
  ty_sizeof :: nat
  ty_is_class :: bool
  ty_trivial :: bool
  ty_throws :: "nat \<Rightarrow> bool"

text \<open>A size is computed in \<open>uint64\<close> and converted to the \<open>int64\<close> parameter of \<open>Alloc\<close> and \<open>Free\<close>.\<close>

definition alloc_bytes :: "cpp_type \<Rightarrow> uint64 \<Rightarrow> uint64" where
  "alloc_bytes T number = of_nat (ty_sizeof T) * number"

subsection \<open>UniquePtrUtils\<close>

datatype 'p made = Threw "object_event list" | Made 'p "object_event list"

text \<open>
  \<open>UniquePtrUtils<T>::Alloc\<close>. When the constructor throws, the memory stays allocated and nobody has the pointer.
\<close>

definition up_Alloc :: "nat \<Rightarrow> nat option \<Rightarrow> nat option \<Rightarrow> (nat \<times> byte list) option \<Rightarrow> cpp_type \<Rightarrow> MemoryAllocator
    \<Rightarrow> pointer_fault + (ma_ptr option made \<times> MemoryAllocator)" where
  "up_Alloc t fresh1 fresh2 raw T m =
     (let memSize = of_nat (ty_sizeof T) :: uint64 in
      case ma_Alloc t fresh1 fresh2 raw (sint memSize) m of
        Inl e \<Rightarrow> Inl (Allocator e)
      | Inr (memPtr, m1) \<Rightarrow>
          if ty_throws T 0 then Inr (Threw [], m1) else Inr (Made memPtr [Construct 0], m1))"

definition up_Deleter :: "cpp_type \<Rightarrow> ma_ptr option \<Rightarrow> MemoryAllocator \<Rightarrow> object_event list \<times> (ma_fault + MemoryAllocator)" where
  "up_Deleter T ptr m =
     ((if ty_is_class T then [Destroy 0] else []), ma_Free ptr (sint (of_nat (ty_sizeof T) :: uint64)) m)"

record unique_array =
  ua_ptr :: "ma_ptr option"
  ua_mSize :: uint64

text \<open>The loop of placement new from index \<open>i\<close>, with \<open>left\<close> elements to go, in a block of \<open>cap\<close> bytes.\<close>

fun ua_construct :: "cpp_type \<Rightarrow> int \<Rightarrow> nat \<Rightarrow> nat \<Rightarrow> pointer_fault + (bool \<times> object_event list)" where
  "ua_construct T cap i 0 = Inr (True, [])"
| "ua_construct T cap i (Suc left) =
     (if cap < int ((i + 1) * ty_sizeof T) then Inl (Overrun i)
      else if ty_throws T i then Inr (False, [])
      else case ua_construct T cap (i + 1) left of
             Inl e \<Rightarrow> Inl e
           | Inr (finished, es) \<Rightarrow> Inr (finished, Construct i # es))"

definition ua_Alloc :: "nat \<Rightarrow> nat option \<Rightarrow> nat option \<Rightarrow> (nat \<times> byte list) option \<Rightarrow> cpp_type \<Rightarrow> uint64 \<Rightarrow> MemoryAllocator
    \<Rightarrow> pointer_fault + (unique_array made \<times> MemoryAllocator)" where
  "ua_Alloc t fresh1 fresh2 raw T number m =
     (let sz = alloc_bytes T number in
      case ma_Alloc t fresh1 fresh2 raw (sint sz) m of
        Inl e \<Rightarrow> Inl (Allocator e)
      | Inr (typePtr, m1) \<Rightarrow>
          let a = \<lparr>ua_ptr = typePtr, ua_mSize = sz\<rparr>;
              cap = (case typePtr of None \<Rightarrow> 0 | Some p \<Rightarrow> ma_capacity p m1) in
          if ty_trivial T then Inr (Made a [], m1)
          else (case ua_construct T cap 0 (unat number) of
                  Inl e \<Rightarrow> Inl e
                | Inr (finished, es) \<Rightarrow> Inr (if finished then Made a es else Threw es, m1)))"

definition ua_ArrayDeleter :: "cpp_type \<Rightarrow> unique_array \<Rightarrow> MemoryAllocator \<Rightarrow> object_event list \<times> (ma_fault + MemoryAllocator)" where
  "ua_ArrayDeleter T a m =
     (let number = unat (ua_mSize a div of_nat (ty_sizeof T)) in
      ((if ty_is_class T then map (\<lambda>i. Destroy (number - 1 - i)) [0..<number] else []),
       ma_Free (ua_ptr a) (sint (ua_mSize a)) m))"

subsection \<open>The allocators of the standard containers\<close>

definition sp_allocate :: "nat \<Rightarrow> nat option \<Rightarrow> nat option \<Rightarrow> (nat \<times> byte list) option \<Rightarrow> cpp_type \<Rightarrow> uint64 \<Rightarrow> MemoryAllocator
    \<Rightarrow> ma_fault + (ma_ptr option \<times> MemoryAllocator)" where
  "sp_allocate t fresh1 fresh2 raw T n m =
     (let sharedPtrSize = alloc_bytes T n in ma_Alloc t fresh1 fresh2 raw (sint sharedPtrSize) m)"

definition sp_deallocate :: "cpp_type \<Rightarrow> ma_ptr option \<Rightarrow> uint64 \<Rightarrow> MemoryAllocator \<Rightarrow> ma_fault + MemoryAllocator" where
  "sp_deallocate T ptr n m = (let objSize = alloc_bytes T n in ma_Free ptr (sint objSize) m)"

definition stl_allocate :: "nat \<Rightarrow> nat option \<Rightarrow> nat option \<Rightarrow> (nat \<times> byte list) option \<Rightarrow> cpp_type \<Rightarrow> uint64 \<Rightarrow> MemoryAllocator
    \<Rightarrow> ma_fault + (ma_ptr option \<times> MemoryAllocator)" where
  "stl_allocate t fresh1 fresh2 raw T n m = ma_Alloc t fresh1 fresh2 raw (sint (n * of_nat (ty_sizeof T))) m"

definition stl_deallocate :: "cpp_type \<Rightarrow> ma_ptr option \<Rightarrow> uint64 \<Rightarrow> MemoryAllocator \<Rightarrow> ma_fault + MemoryAllocator" where
  "stl_deallocate T pData n m = ma_Free pData (sint (n * of_nat (ty_sizeof T))) m"

subsection \<open>ObjectAllocator\<close>

definition oa_Alloc :: "nat \<Rightarrow> nat \<Rightarrow> nat option \<Rightarrow> nat option \<Rightarrow> TlsObjectPool
    \<Rightarrow> pool_fault + (block option \<times> TlsObjectPool)" where
  "oa_Alloc CHUNK_SIZE t fresh1 fresh2 a = tp_Alloc CHUNK_SIZE t fresh1 fresh2 a"

definition oa_Free :: "nat \<Rightarrow> block option \<Rightarrow> TlsObjectPool \<Rightarrow> pool_fault + TlsObjectPool" where
  "oa_Free CHUNK_SIZE pData a = tp_Free CHUNK_SIZE pData a"

definition oa_AllocCount :: "TlsObjectPool \<Rightarrow> int" where
  "oa_AllocCount a = tp_AllocCount a"

definition oa_new :: "(nat \<Rightarrow> nat option) \<Rightarrow> (nat \<Rightarrow> uint64) \<Rightarrow> TlsObjectPool" where
  "oa_new nxt sums = tp_new nxt sums"

subsection \<open>AllocatorUtils\<close>

definition cne_NewObject :: "nat \<Rightarrow> nat \<Rightarrow> nat option \<Rightarrow> nat option \<Rightarrow> TlsObjectPool
    \<Rightarrow> pool_fault + (block option \<times> TlsObjectPool)" where
  "cne_NewObject CHUNK_SIZE t fresh1 fresh2 p = oa_Alloc CHUNK_SIZE t fresh1 fresh2 p"

definition cne_DeleteObject :: "nat \<Rightarrow> block option \<Rightarrow> TlsObjectPool \<Rightarrow> pool_fault + TlsObjectPool" where
  "cne_DeleteObject CHUNK_SIZE pData p = oa_Free CHUNK_SIZE pData p"

definition cne_RawAlloc :: "nat \<Rightarrow> nat option \<Rightarrow> nat option \<Rightarrow> (nat \<times> byte list) option \<Rightarrow> int \<Rightarrow> MemoryAllocator
    \<Rightarrow> ma_fault + (ma_ptr option \<times> MemoryAllocator)" where
  "cne_RawAlloc t fresh1 fresh2 raw sz m = ma_Alloc t fresh1 fresh2 raw sz m"

definition cne_MakeSendBuffer :: "int \<Rightarrow> byte list \<Rightarrow> NetSendBuffer option" where
  "cne_MakeSendBuffer sz mem = sba_Alloc sz mem"

definition cne_MakeUnique :: "nat \<Rightarrow> nat option \<Rightarrow> nat option \<Rightarrow> (nat \<times> byte list) option \<Rightarrow> cpp_type \<Rightarrow> MemoryAllocator
    \<Rightarrow> pointer_fault + (ma_ptr option made \<times> MemoryAllocator)" where
  "cne_MakeUnique t fresh1 fresh2 raw T m = up_Alloc t fresh1 fresh2 raw T m"

text \<open>The \<open>int32\<close> number is converted to \<open>uint64\<close>.\<close>

definition cne_MakeUniqueArray :: "nat \<Rightarrow> nat option \<Rightarrow> nat option \<Rightarrow> (nat \<times> byte list) option \<Rightarrow> cpp_type \<Rightarrow> int \<Rightarrow> MemoryAllocator
    \<Rightarrow> pointer_fault + (unique_array made \<times> MemoryAllocator)" where
  "cne_MakeUniqueArray t fresh1 fresh2 raw T number m = ua_Alloc t fresh1 fresh2 raw T (of_int number) m"

subsection \<open>Arithmetic of the sizes\<close>

lemma alloc_bytes_exact:
  assumes "ty_sizeof T * unat number < 2 ^ 63"
  shows "unat (alloc_bytes T number) = ty_sizeof T * unat number" "sint (alloc_bytes T number) = int (ty_sizeof T * unat number)"
proof -
  show n: "unat (alloc_bytes T number) = ty_sizeof T * unat number"
  proof (cases "unat number = 0")
    case False
    then have "ty_sizeof T < 2 ^ 63" using assms by (metis (no_types) dual_order.strict_trans2 mult.right_neutral mult_le_mono2 One_nat_def Suc_leI neq0_conv)
    then have "unat (of_nat (ty_sizeof T) :: uint64) = ty_sizeof T" by (simp add: unsigned_of_nat take_bit_eq_mod)
    then show ?thesis using assms by (simp add: alloc_bytes_def unat_word_ariths)
  qed (simp add: alloc_bytes_def unat_word_ariths)
  have "sint (of_nat k :: uint64) = int k" if "k < 2 ^ 63" for k
    using that by (simp add: signed_of_nat signed_take_bit_int_eq_self)
  moreover have "alloc_bytes T number = of_nat (ty_sizeof T * unat number)" by (simp flip: n)
  ultimately show "sint (alloc_bytes T number) = int (ty_sizeof T * unat number)" using assms by metis
qed

lemma construct_fits:
  assumes "int ((i + n) * ty_sizeof T) \<le> cap" "\<forall>k. \<not> ty_throws T k"
  shows "ua_construct T cap i n = Inr (True, map Construct [i..<i + n])"
  using assms
proof (induction n arbitrary: i)
  case (Suc n)
  have "(i + 1) * ty_sizeof T \<le> (i + Suc n) * ty_sizeof T" by (intro mult_le_mono1) simp
  then have "\<not> cap < int ((i + 1) * ty_sizeof T)" using Suc.prems(1) by linarith
  moreover have "[i..<i + Suc n] = i # [Suc i..<Suc i + n]" by (simp add: upt_rec)
  ultimately show ?case using Suc.IH [of "i + 1"] Suc.prems by simp
qed simp

lemma construct_overruns:
  assumes "\<forall>k. \<not> ty_throws T k" "\<forall>k < j. int ((k + 1) * ty_sizeof T) \<le> cap" "cap < int ((j + 1) * ty_sizeof T)"
    "i \<le> j" "j < i + n"
  shows "ua_construct T cap i n = Inl (Overrun j)"
  using assms(4,5)
proof (induction n arbitrary: i)
  case (Suc n)
  then show ?case using assms(1-3) Suc.IH [of "i + 1"] by (cases "i = j") (auto simp: not_less)
qed simp

lemma deleter_count:
  assumes "0 < ty_sizeof T" "0 < number" "ty_sizeof T * unat number < 2 ^ 63"
  shows "unat (alloc_bytes T number div of_nat (ty_sizeof T)) = unat number"
proof -
  have "unat number \<noteq> 0" using assms(2) by (simp add: unat_eq_0)
  then have "ty_sizeof T < 2 ^ 64" using assms(3) by (cases "unat number") auto
  then have "unat (of_nat (ty_sizeof T) :: uint64) = ty_sizeof T" by (simp add: unsigned_of_nat take_bit_eq_mod)
  then show ?thesis using assms by (simp add: unat_div_distrib alloc_bytes_exact)
qed

lemma destroy_order: "map (\<lambda>i. Destroy (n - Suc i)) [0..<n] = map Destroy (rev [0..<n])"
  by (rule nth_equalityI) (simp_all add: rev_nth)

subsection \<open>Properties\<close>

text \<open>C11: A unique array of \<open>number\<close> elements whose byte size does not overflow gets a block that nobody holds and that is
  large enough, its elements are constructed once each in order inside it, and whatever the other clients
  allocate and free in between, deleting it destroys the elements in reverse order and gives the block back.\<close>

theorem unique_array_round_trip:
  fixes number :: uint64
  assumes run: "ma_step\<^sup>*\<^sup>* (ma_new nxt sums, \<lambda>_. None) (m, used)"
    and fits: "0 < ty_sizeof T" "0 < number" "ty_sizeof T * unat number < 2 ^ 63"
    and fresh: "fresh_for f1 f2 raw (int (ty_sizeof T * unat number)) m" and ctor: "\<forall>i. \<not> ty_throws T i"
  shows "\<exists>p a m1. ua_Alloc t (Some f1) (Some f2) (Some raw) T number m =
      Inr (Made a (if ty_trivial T then [] else map Construct [0..<unat number]), m1) \<and>
    ua_ptr a = Some p \<and> used p = None \<and> int (ty_sizeof T * unat number) \<le> ma_capacity p m1 \<and>
    (\<forall>m2 used2. ma_step\<^sup>*\<^sup>* (m1, used(p \<mapsto> int (ty_sizeof T * unat number))) (m2, used2) \<longrightarrow>
       used2 p = Some (int (ty_sizeof T * unat number)) \<longrightarrow>
       (\<exists>m3. ua_ArrayDeleter T a m2 = (if ty_is_class T then map Destroy (rev [0..<unat number]) else [], Inr m3) \<and>
          ma_step (m2, used2) (m3, used2(p := None))))"
proof -
  define N where "N = int (ty_sizeof T * unat number)"
  have N: "sint (alloc_bytes T number) = N" using alloc_bytes_exact [OF fits(3)] by (simp add: N_def)
  have "0 < ty_sizeof T * unat number" using fits(1,2) by (simp add: unat_gt_0)
  then have pos: "0 < N" by (simp only: N_def of_nat_0_less_iff)
  have inv: "ma_inv m used" by (rule ma_steps_inv [OF run ma_new_inv])
  obtain p m1 where a: "ma_Alloc t (Some f1) (Some f2) (Some raw) N m = Inr (Some p, m1)" "used p = None"
    "N \<le> ma_capacity p m1" "ma_inv m1 (used(p := Some N))"
    using ma_Alloc_ok [OF inv pos fresh [folded N_def], of t] by blast
  let ?a = "\<lparr>ua_ptr = Some p, ua_mSize = alloc_bytes T number\<rparr>"
  have "ua_construct T (ma_capacity p m1) 0 (unat number) = Inr (True, map Construct [0..<unat number])"
    using construct_fits [of 0 "unat number" T "ma_capacity p m1"] a(3) ctor by (simp add: N_def mult.commute)
  then have made: "ua_Alloc t (Some f1) (Some f2) (Some raw) T number m =
      Inr (Made ?a (if ty_trivial T then [] else map Construct [0..<unat number]), m1)"
    using a(1) by (simp add: ua_Alloc_def N Let_def)
  have "\<exists>m3. ua_ArrayDeleter T ?a m2 = (if ty_is_class T then map Destroy (rev [0..<unat number]) else [], Inr m3) \<and>
      ma_step (m2, used2) (m3, used2(p := None))"
    if later: "ma_step\<^sup>*\<^sup>* (m1, used(p \<mapsto> N)) (m2, used2)" and held: "used2 p = Some N" for m2 used2
  proof -
    have "ma_inv m2 used2" by (rule ma_steps_inv [OF later a(4)])
    then obtain m3 where m3: "ma_Free (Some p) N m2 = Inr m3"
      using ma_Free_ok [of m2 used2 p N] held by blast
    then show ?thesis using ma_step.free [of used2 p N m2 m3, OF held m3]
      by (simp add: ua_ArrayDeleter_def N deleter_count [OF fits] destroy_order Let_def)
  qed
  then show ?thesis using made a(2,3) unfolding N_def by (intro exI [of _ p] exI [of _ ?a] exI [of _ m1]) simp
qed

lemma negative_bytes:
  assumes "ty_sizeof T * n \<le> 2 ^ 63"
  shows "sint (alloc_bytes T (of_int (- int n))) = - int (ty_sizeof T * n)"
proof -
  have "alloc_bytes T (of_int (- int n)) = of_int (- int (ty_sizeof T * n))" by (simp add: alloc_bytes_def)
  moreover have "sint (of_int k :: uint64) = k" if "- (2 ^ 63) \<le> k" "k \<le> 0" for k
    using that by (simp add: signed_of_int signed_take_bit_int_eq_self)
  ultimately show ?thesis using assms by (metis neg_le_0_iff_le neg_le_iff_le of_nat_0_le_iff of_nat_le_iff of_nat_numeral of_nat_power)
qed

text \<open>A negative element count is not refused. The byte size is negative as an \<open>int64\<close>: when it is -254 or more the
  caller gets a 256-byte block, for an array of almost \<open>2 ^ 64\<close> elements (constructing them runs past the
  block), and otherwise the bucket table is indexed below its start.\<close>

theorem negative_array_count_is_not_refused:
  fixes t :: nat and raw :: "(nat \<times> byte list) option"
  assumes run: "ma_step\<^sup>*\<^sup>* (ma_new nxt sums, \<lambda>_. None) (m, used)"
    and sz: "0 < ty_sizeof T" "0 < n" "n \<le> 2 ^ 31" "ty_sizeof T * n \<le> 2 ^ 63"
    and fresh: "\<forall>p \<in> set (ma_mSmallBuckets m). fresh_pair f1 f2 p" and ctor: "\<forall>i. \<not> ty_throws T i"
  defines "result \<equiv> cne_MakeUniqueArray t (Some f1) (Some f2) raw T (- int n) m"
  shows "if 254 < ty_sizeof T * n
    then result = Inl (Allocator (BadIndex (ma_getBucketIndex (- int (ty_sizeof T * n)) SMALL_STRIDE)))
    else if \<not> ty_trivial T then result = Inl (Overrun (256 div ty_sizeof T))
    else \<exists>b m'. result = Inr (Made \<lparr>ua_ptr = Some (SmallBlock 0 b), ua_mSize = alloc_bytes T (of_int (- int n))\<rparr> [], m') \<and>
      ma_capacity (SmallBlock 0 b) m' = 256"
proof (cases "254 < ty_sizeof T * n")
  case True
  then have "- int (ty_sizeof T * n) < - 254" by linarith
  from negative_size_indexes_outside_the_table [OF this] show ?thesis
    using True by (simp only: result_def cne_MakeUniqueArray_def ua_Alloc_def negative_bytes [OF sz(4)] Let_def) simp
next
  case False
  let ?sz = "- int (ty_sizeof T * n)"
  define k :: uint64 where "k = of_int (- int n)"
  have inv: "ma_inv m used" by (rule ma_steps_inv [OF run ma_new_inv])
  have "0 < ty_sizeof T * n" using sz(1,2) by simp
  then have neg: "- 254 \<le> ?sz" "?sz < 0" using False by linarith+
  then have index: "ma_getBucketIndex ?sz SMALL_STRIDE = 0"
    by (simp only: ma_getBucketIndex_def SMALL_STRIDE_def signed_divide_int_def) (simp add: div_pos_pos_trivial)
  have "ma_mSmallBuckets m \<noteq> []" using inv by (auto simp: ma_inv_def)
  then obtain b bs where b: "bucket_Alloc 0 t (Some f1) (Some f2) (ma_mSmallBuckets m) = Inr (Some b, bs)"
    using bucket_Alloc_ok [of SmallBlock "ma_mSmallBuckets m" used 0 f1 f2 t 1] inv fresh one_to_one_ptrs
    by (auto simp: ma_inv_def)
  let ?m = "m\<lparr>ma_mSmallBuckets := bs\<rparr>"
  have "ma_Alloc t (Some f1) (Some f2) raw z m = Inr (Some (SmallBlock 0 b), ?m)"
    if "z < 0" "ma_getBucketIndex z SMALL_STRIDE = 0" for z
    using that b by (simp add: ma_Alloc_def ma_consts Let_def)
  note alloc = this [OF neg(2) index]
  have "ua_construct T 256 0 (unat k) = Inl (Overrun (256 div ty_sizeof T))"
  proof (rule construct_overruns [OF ctor])
    let ?s = "ty_sizeof T"
    have "(k + 1) * ?s \<le> 256" if "k < 256 div ?s" for k
      using that by (metis Suc_eq_plus1 Suc_leI div_times_less_eq_dividend dual_order.trans mult_le_mono1)
    then show "\<forall>k < 256 div ?s. int ((k + 1) * ?s) \<le> 256" by (metis of_nat_le_iff of_nat_numeral)
    have "256 < (256 div ?s + 1) * ?s" using dividend_less_div_times [OF sz(1), of 256] by simp
    then show "256 < int ((256 div ?s + 1) * ?s)" by (metis of_nat_less_iff of_nat_numeral)
    have "unat k = nat ((- int n) mod 2 ^ 64)"
      by (simp only: k_def unsigned_of_int take_bit_eq_mod) simp
    moreover have "(- int n) mod 2 ^ 64 = 2 ^ 64 - int n" using sz(2,3) by (simp add: zmod_zminus1_eq_if)
    ultimately have "256 < unat k" using sz(3) by simp
    moreover have "256 div ?s \<le> 256" by simp
    ultimately show "256 div ?s < 0 + unat k" by linarith
  qed simp
  then show ?thesis using False alloc negative_bytes [OF sz(4), folded k_def]
    unfolding result_def cne_MakeUniqueArray_def ua_Alloc_def k_def [symmetric]
    by (simp add: Let_def SMALL_STRIDE_def)
qed

definition demo_type :: "nat \<Rightarrow> bool \<Rightarrow> cpp_type" where
  "demo_type n trivial = \<lparr>ty_sizeof = n, ty_is_class = True, ty_trivial = trivial, ty_throws = \<lambda>_. False\<rparr>"

lemma unique_array_round_trip_witness:
  "\<exists>a m1 m3. ua_Alloc 0 (Some 1) (Some 2) (Some (9, replicate 38 0)) (demo_type 10 False) 3 (ma_new (\<lambda>_. None) (\<lambda>_. 0)) =
     Inr (Made a [Construct 0, Construct 1, Construct 2], m1) \<and>
     ua_ArrayDeleter (demo_type 10 False) a m1 = ([Destroy 2, Destroy 1, Destroy 0], Inr m3)"
proof -
  have "fresh_for 1 2 (9, replicate 38 0) 30 (ma_new (\<lambda>_. None) (\<lambda>_. 0))"
    using demo_pools by (auto simp: fresh_for_def ma_new_def pool_counts)
  then have "fresh_for 1 2 (9, replicate 38 0) (int (ty_sizeof (demo_type 10 False) * unat (3 :: uint64))) (ma_new (\<lambda>_. None) (\<lambda>_. 0))"
    by (simp add: demo_type_def)
  note trip = unique_array_round_trip [OF rtranclp.rtrancl_refl _ _ _ this, of 0]
  obtain p a m1 where a: "ua_Alloc 0 (Some 1) (Some 2) (Some (9, replicate 38 0)) (demo_type 10 False) 3 (ma_new (\<lambda>_. None) (\<lambda>_. 0)) =
      Inr (Made a (map Construct [0..<3]), m1)"
    "\<exists>m3. ua_ArrayDeleter (demo_type 10 False) a m1 = (map Destroy (rev [0..<3]), Inr m3)"
    using trip by (fastforce simp: demo_type_def)
  then show ?thesis by (auto simp: upt_rec)
qed

lemma negative_array_count_is_not_refused_witness:
  "(\<exists>b m'. cne_MakeUniqueArray 0 (Some 1) (Some 2) None (demo_type 1 True) (- 1) (ma_new (\<lambda>_. None) (\<lambda>_. 0)) =
     Inr (Made \<lparr>ua_ptr = Some (SmallBlock 0 b), ua_mSize = - 1\<rparr> [], m')) \<and>
   cne_MakeUniqueArray 0 (Some 1) (Some 2) None (demo_type 10 False) (- 2) (ma_new (\<lambda>_. None) (\<lambda>_. 0)) = Inl (Overrun 25)"
proof -
  have f: "\<forall>p \<in> set (ma_mSmallBuckets (ma_new (\<lambda>_. None) (\<lambda>_. 0))). fresh_pair 1 2 p"
    using demo_pools by (simp add: ma_new_def pool_counts)
  note n = negative_array_count_is_not_refused [OF rtranclp.rtrancl_refl _ _ _ _ f, of _ _ 0 None]
  show ?thesis
    using n [of "demo_type 1 True" 1] n [of "demo_type 10 False" 2] by (simp add: demo_type_def alloc_bytes_def)
qed

end
