(* ===== verification/Thread_Manager.thy ===== *)
theory Thread_Manager
  imports Engine_Prelude
begin

text \<open>
  ThreadManager (ThreadManager.h, ThreadManager.cpp): the launched threads and the thread ids. A thread is a
  number, \<open>sTlsThreadId\<close> a function of the thread. \<open>Launch\<close> runs under \<open>mLock\<close>, so it is one step; the
  new thread takes its id, runs its callback and drops its id in steps of its own.
\<close>

subsection \<open>State and operations\<close>

datatype thread_phase = Unborn | Launched | Running | Ended

record ThreadManager =
  tm_mThreads :: "nat list"
  tm_sThreadId :: uint32
  tm_sTlsThreadId :: "nat \<Rightarrow> uint32"
  tm_phase :: "nat \<Rightarrow> thread_phase"

definition tm_InitTls :: "nat \<Rightarrow> ThreadManager \<Rightarrow> ThreadManager" where
  "tm_InitTls n m =
     m\<lparr>tm_sTlsThreadId := (tm_sTlsThreadId m)(n := tm_sThreadId m), tm_sThreadId := tm_sThreadId m + 1\<rparr>"

definition tm_DestroyTls :: "nat \<Rightarrow> ThreadManager \<Rightarrow> ThreadManager" where
  "tm_DestroyTls n m = m\<lparr>tm_sTlsThreadId := (tm_sTlsThreadId m)(n := 0)\<rparr>"

definition tm_GetThreadId :: "nat \<Rightarrow> ThreadManager \<Rightarrow> uint32 \<times> ThreadManager" where
  "tm_GetThreadId n m =
     (let m1 = (if tm_sTlsThreadId m n = 0 then tm_InitTls n m else m) in (tm_sTlsThreadId m1 n, m1))"

text \<open>The constructor runs in the thread that asks for the instance first.\<close>

definition tm_new :: "nat \<Rightarrow> ThreadManager" where
  "tm_new creator =
     tm_InitTls creator \<lparr>tm_mThreads = [], tm_sThreadId = 1, tm_sTlsThreadId = \<lambda>_. 0, tm_phase = (\<lambda>_. Unborn)(creator := Running)\<rparr>"

definition tm_Launch :: "nat \<Rightarrow> ThreadManager \<Rightarrow> ThreadManager" where
  "tm_Launch n m = m\<lparr>tm_mThreads := tm_mThreads m @ [n], tm_phase := (tm_phase m)(n := Launched)\<rparr>"

text \<open>What the launched thread does before and after its callback.\<close>

definition tm_thread_begin :: "nat \<Rightarrow> ThreadManager \<Rightarrow> ThreadManager" where
  "tm_thread_begin n m = (tm_InitTls n m)\<lparr>tm_phase := (tm_phase m)(n := Running)\<rparr>"

definition tm_thread_end :: "nat \<Rightarrow> ThreadManager \<Rightarrow> ThreadManager" where
  "tm_thread_end n m = (tm_DestroyTls n m)\<lparr>tm_phase := (tm_phase m)(n := Ended)\<rparr>"

text \<open>\<open>JoinWithClear\<close> waits for every thread; None while one of them has not ended.\<close>

definition tm_JoinWithClear :: "ThreadManager \<Rightarrow> ThreadManager option" where
  "tm_JoinWithClear m =
     (if \<forall>n \<in> set (tm_mThreads m). tm_phase m n = Ended then Some (m\<lparr>tm_mThreads := []\<rparr>) else None)"

lemmas tm_defs = tm_InitTls_def tm_DestroyTls_def tm_GetThreadId_def tm_new_def tm_Launch_def tm_thread_begin_def
  tm_thread_end_def tm_JoinWithClear_def

subsection \<open>The steps of the threads\<close>

text \<open>\<open>returns n\<close>: the callback of thread \<open>n\<close> ends. The second component counts the calls of \<open>InitTls\<close>.\<close>

inductive tm_step :: "(nat \<Rightarrow> bool) \<Rightarrow> ThreadManager \<times> nat \<Rightarrow> ThreadManager \<times> nat \<Rightarrow> bool" for returns where
  launch: "tm_phase m n = Unborn \<Longrightarrow> tm_step returns (m, k) (tm_Launch n m, k)"
| start: "tm_phase m n = Launched \<Longrightarrow> tm_step returns (m, k) (tm_thread_begin n m, Suc k)"
| get_id: "tm_phase m n = Running \<Longrightarrow> tm_GetThreadId n m = (i, m') \<Longrightarrow>
    tm_step returns (m, k) (m', if tm_sTlsThreadId m n = 0 then Suc k else k)"
| finish: "tm_phase m n = Running \<Longrightarrow> returns n \<Longrightarrow> tm_step returns (m, k) (tm_thread_end n m, k)"
| join: "tm_JoinWithClear m = Some m' \<Longrightarrow> tm_step returns (m, k) (m', k)"

definition ids_ok :: "ThreadManager \<Rightarrow> nat \<Rightarrow> bool" where
  "ids_ok m k \<longleftrightarrow> k < 2 ^ 32 \<longrightarrow>
     tm_sThreadId m = of_nat (Suc k) \<and>
     (\<forall>n. tm_phase m n = Running \<longrightarrow> 0 < unat (tm_sTlsThreadId m n) \<and> unat (tm_sTlsThreadId m n) \<le> k) \<and>
     inj_on (tm_sTlsThreadId m) {n. tm_phase m n = Running}"

lemma ids_okD:
  assumes "ids_ok m k" "k < 2 ^ 32"
  shows "tm_sThreadId m = of_nat (Suc k)"
    "tm_phase m n = Running \<Longrightarrow> 0 < unat (tm_sTlsThreadId m n)" "tm_phase m n = Running \<Longrightarrow> unat (tm_sTlsThreadId m n) \<le> k"
    "inj_on (tm_sTlsThreadId m) {n. tm_phase m n = Running}"
  using assms by (simp_all add: ids_ok_def)

lemma begin_ids:
  assumes ok: "ids_ok m k"
  shows "ids_ok (tm_thread_begin n m) (Suc k)"
  unfolding ids_ok_def
proof (intro impI)
  assume k: "Suc k < 2 ^ 32"
  then have "k < 2 ^ 32" by simp
  note i = ids_okD [OF ok this]
  have "unat (of_nat j :: uint32) = j" if "j < 2 ^ 32" for j
    using that by (simp add: unsigned_of_nat take_bit_eq_mod)
  then have new: "unat (tm_sThreadId m) = Suc k" using k by (simp only: i(1))
  have "tm_sTlsThreadId m j \<noteq> tm_sThreadId m" if "tm_phase m j = Running" for j
    using i(3) [OF that] new by auto
  then show "tm_sThreadId (tm_thread_begin n m) = of_nat (Suc (Suc k)) \<and>
    (\<forall>j. tm_phase (tm_thread_begin n m) j = Running \<longrightarrow>
       0 < unat (tm_sTlsThreadId (tm_thread_begin n m) j) \<and> unat (tm_sTlsThreadId (tm_thread_begin n m) j) \<le> Suc k) \<and>
    inj_on (tm_sTlsThreadId (tm_thread_begin n m)) {j. tm_phase (tm_thread_begin n m) j = Running}"
    using i new by (auto simp: tm_thread_begin_def tm_InitTls_def inj_on_def le_Suc_eq) blast+
qed

lemma tm_step_ids: "tm_step returns c c' \<Longrightarrow> ids_ok (fst c) (snd c) \<Longrightarrow> ids_ok (fst c') (snd c')"
proof (induction rule: tm_step.induct)
  case (start m n k)
  then show ?case using begin_ids by simp
next
  case (get_id m n i m' k)
  then have "tm_sTlsThreadId m n \<noteq> 0" if "k < 2 ^ 32" using ids_okD(2) [of m k n] that by auto
  then show ?case using get_id by (auto simp: tm_GetThreadId_def Let_def ids_ok_def split: if_splits)
qed (auto simp: ids_ok_def tm_Launch_def tm_thread_end_def tm_DestroyTls_def tm_JoinWithClear_def inj_on_def split: if_splits)

text \<open>While \<open>InitTls\<close> has been called fewer than \<open>2 ^ 32\<close> times, whatever threads are launched, ended and joined, all
  running threads have thread ids that are different and not 0, and asking for an id changes nothing.\<close>

theorem running_threads_have_distinct_ids:
  assumes "(tm_step returns)\<^sup>*\<^sup>* (tm_new creator, 1) (m, k)" "k < 2 ^ 32"
    and "tm_phase m a = Running" "tm_phase m b = Running" "a \<noteq> b"
  shows "tm_sTlsThreadId m a \<noteq> tm_sTlsThreadId m b \<and> tm_GetThreadId a m = (tm_sTlsThreadId m a, m) \<and> tm_sTlsThreadId m a \<noteq> 0"
proof -
  have "ids_ok (fst c) (snd c)" if "(tm_step returns)\<^sup>*\<^sup>* (tm_new creator, 1) c" for c
    using that
  proof (induction rule: rtranclp_induct)
    case base
    show ?case by (auto simp: ids_ok_def tm_new_def tm_InitTls_def inj_on_def)
  qed (auto intro: tm_step_ids)
  note i = ids_okD [OF this [OF assms(1), unfolded fst_conv snd_conv] assms(2)]
  have "tm_sTlsThreadId m a \<noteq> tm_sTlsThreadId m b" using inj_onD [OF i(4), of a b] assms(3-5) by blast
  moreover have "tm_sTlsThreadId m a \<noteq> 0" using i(2) [OF assms(3)] by auto
  ultimately show ?thesis by (simp add: tm_GetThreadId_def)
qed

lemma running_threads_have_distinct_ids_witness:
  "\<exists>m. (tm_step (\<lambda>_. True))\<^sup>*\<^sup>* (tm_new 0, 1) (m, 2) \<and> tm_sTlsThreadId m 0 = 1 \<and> tm_sTlsThreadId m 1 \<noteq> tm_sTlsThreadId m 0"
proof -
  let ?m = "tm_thread_begin 1 (tm_Launch 1 (tm_new 0))"
  have "tm_step (\<lambda>_. True) (tm_new 0, 1) (tm_Launch 1 (tm_new 0), 1)"
    by (rule tm_step.launch) (simp add: tm_defs)
  moreover have "tm_step (\<lambda>_. True) (tm_Launch 1 (tm_new 0), 1) (?m, 2)"
    using tm_step.start [of "tm_Launch 1 (tm_new 0)" 1 "\<lambda>_. True" 1] by (simp add: tm_defs numeral_2_eq_2)
  ultimately have run: "(tm_step (\<lambda>_. True))\<^sup>*\<^sup>* (tm_new 0, 1) (?m, 2)"
    by (rule converse_rtranclp_into_rtranclp [OF _ r_into_rtranclp])
  then show ?thesis
    using running_threads_have_distinct_ids [OF run, of 0 1] by (intro exI [of _ ?m]) (simp add: tm_defs)
qed

text \<open>The id counter wraps: the thread whose id would be 0 is given the id 1, which the creator of the manager may still have.\<close>

lemma wrapped_thread_id_is_not_unique:
  assumes "tm_sThreadId m = 0" "tm_sTlsThreadId m a = 1" "a \<noteq> b"
  shows "fst (tm_GetThreadId b (tm_thread_begin b m)) = tm_sTlsThreadId m a"
  using assms by (simp add: tm_thread_begin_def tm_GetThreadId_def tm_InitTls_def Let_def)

text \<open>A launched thread whose callback does not return keeps \<open>JoinWithClear\<close> waiting for ever.\<close>

lemma endless_thread_blocks_join:
  assumes "(tm_step returns)\<^sup>*\<^sup>* (m, k) (m', k')" "n \<in> set (tm_mThreads m)" "\<not> returns n" "tm_phase m n \<noteq> Ended"
    "tm_phase m n \<noteq> Unborn"
  shows "tm_JoinWithClear m' = None"
proof -
  have "n \<in> set (tm_mThreads (fst c)) \<and> tm_phase (fst c) n \<noteq> Ended \<and> tm_phase (fst c) n \<noteq> Unborn"
    if "(tm_step returns)\<^sup>*\<^sup>* (m, k) c" for c
    using that
  proof (induction rule: rtranclp_induct)
    case (step c d)
    from step.hyps(2) step.IH show ?case
      by (cases rule: tm_step.cases) (use assms(3) in \<open>auto simp: tm_defs Let_def split: if_splits\<close>)
  qed (use assms in simp)
  from this [OF assms(1)] show ?thesis by (auto simp: tm_JoinWithClear_def)
qed

end
