(* ===== verification/Game_Sessions.thy ===== *)
theory Game_Sessions
  imports Session_Receive Session_Send
begin

text \<open>
  The sessions of the two programs: GameSession of the game server (GameServer/GameSession.cpp) and of the dummy
  client (DummyClient/GameSession.cpp). What they print is an event of the session. The message classes are
  parameters as in the packet handlers: \<open>echo_req\<close> builds a \<open>C2S_ECHO_REQ\<close> with a text, \<open>parseEcho\<close>
  parses one to its text. \<open>OnActivityUpdate\<close> changes the timeout tracker only, which is not part of the Session record.
\<close>

subsection \<open>GameSession of the server\<close>

fun decimal :: "nat \<Rightarrow> string" where
  "decimal n = (if n < 10 then [char_of (48 + n)] else decimal (n div 10) @ [char_of (48 + n mod 10)])"

declare decimal.simps [simp del]

definition newline :: string where "newline = [CHR 0x0A]"

definition gs_new :: "byte list \<Rightarrow> NetSendBuffer \<Rightarrow> Session" where
  "gs_new mem dflt = emit (Print (''GameSession Created'' @ newline)) (ss_new mem dflt)"

definition gs_delete :: "Session \<Rightarrow> Session" where
  "gs_delete s = emit (Print (''GameSession Destroyed'' @ newline)) s"

definition gs_OnConnected :: "Session \<Rightarrow> Session" where
  "gs_OnConnected s = emit (Print (''Client Connect'' @ newline)) s"

definition gs_OnEnterWaitQueue :: "uint64 \<Rightarrow> Session \<Rightarrow> Session" where
  "gs_OnEnterWaitQueue myTicket s = s"

definition gs_OnDisconnecting :: "eDisconnectReason \<Rightarrow> Session \<Rightarrow> Session" where
  "gs_OnDisconnecting reason s =
     emit (Print (''On Disconnecting : '' @ decimal (unat (reason_code reason)) @ newline)) s"

text \<open>\<open>use_count\<close> is the reference count that \<open>shared_ptr\<close> reports.\<close>

definition gs_OnDisconnected :: "nat \<Rightarrow> Session \<Rightarrow> Session" where
  "gs_OnDisconnected use_count s = emit (Print (''Client Disconnect '' @ decimal use_count @ newline)) s"

definition gs_OnSend :: "int \<Rightarrow> Session \<Rightarrow> Session" where
  "gs_OnSend len s = s"

definition gs_OnError :: "int \<Rightarrow> Session \<Rightarrow> Session" where
  "gs_OnError errorCode s = s"

text \<open>A receive completion of the server: \<open>PacketSession::OnReceive\<close> with \<open>GameSession::OnRecvPacket\<close>.\<close>

definition gs_receive :: "io_env \<Rightarrow> (byte list \<Rightarrow> string option) \<Rightarrow> (byte list \<Rightarrow> 'l option) \<Rightarrow> byte list \<Rightarrow> Session
    \<Rightarrow> (fault, Session) outcome" where
  "gs_receive env parseEcho parseLogin bytes s =
     recv_bytes env id (gs_OnRecvPacket (ss_Disconnect env) (server_table parseEcho parseLogin (\<lambda>msg. emit (Print msg)))) bytes s"

subsection \<open>GameSession of the dummy client\<close>

datatype program_fault = BuildFault build_error | SessionFault fault

definition hello_world :: string where
  "hello_world = ''Hello World'' @ newline"

definition dgs_new :: "byte list \<Rightarrow> NetSendBuffer \<Rightarrow> Session" where
  "dgs_new mem dflt = emit (Print (''GameSession Created'' @ newline)) (ss_new mem dflt)"

definition dgs_delete :: "Session \<Rightarrow> Session" where
  "dgs_delete s = emit (Print (''GameSession Destroyed'' @ newline)) s"

definition dgs_OnConnected :: "(string \<Rightarrow> 'p) \<Rightarrow> ('p \<Rightarrow> nat) \<Rightarrow> ('p \<Rightarrow> int \<Rightarrow> byte list option) \<Rightarrow> byte list \<Rightarrow> io_env \<Rightarrow> Session
    \<Rightarrow> (program_fault, Session) outcome" where
  "dgs_OnConnected echo_req byteSize serialize mem env s =
     (case dlph_MakeSendBuffer byteSize serialize mem (echo_req hello_world) ID_C2S_ECHO_REQ of
        Inl e \<Rightarrow> Some (Inl (BuildFault e))
      | Inr pSendBuffer \<Rightarrow> map_option (map_sum SessionFault id) (ss_Send env pSendBuffer s))"

definition dgs_OnEnterWaitQueue :: "uint64 \<Rightarrow> Session \<Rightarrow> Session" where
  "dgs_OnEnterWaitQueue myTicket s = s"

definition dgs_OnSend :: "int \<Rightarrow> Session \<Rightarrow> Session" where
  "dgs_OnSend len s = s"

definition dgs_OnError :: "int \<Rightarrow> Session \<Rightarrow> Session" where
  "dgs_OnError errorCode s = s"

definition dgs_OnDisconnecting :: "eDisconnectReason \<Rightarrow> Session \<Rightarrow> Session" where
  "dgs_OnDisconnecting reason s = s"

definition dgs_OnDisconnected :: "Session \<Rightarrow> Session" where
  "dgs_OnDisconnected s = s"

text \<open>A receive completion of the client.\<close>

definition dgs_receive :: "io_env \<Rightarrow> (byte list \<Rightarrow> 'm option) \<Rightarrow> (byte list \<Rightarrow> 'l option) \<Rightarrow> byte list \<Rightarrow> Session
    \<Rightarrow> (fault, Session) outcome" where
  "dgs_receive env parseEcho parseLogin bytes s =
     recv_bytes env id (dgs_OnRecvPacket (ss_Disconnect env) (client_table parseEcho parseLogin)) bytes s"

subsection \<open>From the client to the server\<close>

lemma echo_packet_prints:
  assumes "parseEcho body = Some msg" "packet_fits body"
  shows "gs_OnRecvPacket disconnect (server_table parseEcho parseLogin print) (packet_bytes ID_C2S_ECHO_REQ body) n s = print msg s"
  using assms(1)
  by (simp add: service_dispatch ParseAndHandle_packet [OF assms(2)] gs_OnRecvPacket_def server_table_def lph_HandlePacket_def lph_Init_def lph_HANDLE_C2S_ECHO_REQ_def)

text \<open>The first send of an idle session is posted at once.\<close>

lemma first_send_is_posted:
  assumes "ss_mSessionState c = Connected" "sn_mpOwner (ss_mSender c)" "\<not> sn_mbSendRegistered (ss_mSender c)"
    "sn_queue c = lq_new dflt lq_DEFAULT_MAX_COUNT" "sends_ok env"
  shows "\<exists>c'. ss_Send env b c = ok c' \<and> ss_events c' = ss_events c @ [PostSend [sb_wsabuf b]] \<and> \<not> ss_IsDisconnected c'"
proof -
  have wf: "lq_wf (sn_queue c)" "lq_abs (sn_queue c) = []" "lq_mMaxCount (sn_queue c) = lq_DEFAULT_MAX_COUNT"
    using assms(4) lq_new_wf lq_new_abs by (simp_all add: lq_new_def)
  have open_c: "\<not> ss_IsDisconnected c" using assms(1) by (simp add: ss_IsDisconnected_def IsDisconnected_def)
  obtain q where q: "lq_TryEnqueue (sn_queue c) b = Some (Inr (True, q))" "lq_wf q" "lq_abs q = [b]"
    using lq.enq_room [OF wf(1), of b] wf(2,3) by (auto simp: lq_DEFAULT_MAX_COUNT_def)
  let ?c = "c\<lparr>ss_mSender := ss_mSender c\<lparr>sn_mSendQueue := q\<rparr>\<rparr>"
  have send: "ss_Send env b c = sn_Register env ?c"
    using assms(2) open_c q(1) by (simp add: ss_Send_def sn_Send_def Let_def)
  have "sn_mpOwner (ss_mSender ?c)" "\<not> ss_IsDisconnected ?c" "\<not> sn_mbSendRegistered (ss_mSender ?c)" "lq_wf (sn_queue ?c)"
    "lq_abs (sn_queue ?c) = [b]" "ss_events ?c = ss_events c"
    using assms(2,3) open_c q by (simp_all add: sn_queue_def ss_IsDisconnected_def)
  then show ?thesis unfolding send using Register_idle_posts [of ?c env] assms(5) by auto
qed

text \<open>One packet into an empty buffer, for a handler that only changes the session by an event.\<close>

lemma one_packet_received:
  assumes s: "receiving s" and env: "receives_ok env" and empty: "rb_abs (rc_buffer s) = []" and fits: "packet_fits body"
    and room: "int (6 + length body) \<le> rb_GetFreeSize (rc_buffer s)"
    and linear: "rb_mReadPos (rc_buffer s) + int (6 + length body) \<le> rb_DEFAULT_BUFFER_SIZE"
    and own: "reads_own_packet onP" and step: "\<And>s. onP (packet_bytes pid body) (6 + int (length body)) s = emit e s"
  shows "\<exists>s' ws. recv_bytes env id onP (packet_bytes pid body) s = ok s' \<and> ss_events s' = ss_events s @ [e, PostReceive ws] \<and>
    \<not> ss_IsDisconnected s' \<and> rb_abs (rc_buffer s') = []"
proof -
  have f: "frames (packet_bytes pid body) = ([packet_bytes pid body], [], False)"
    using frames_packet [OF fits, of "[]" "[]" "[]" False pid] frames_None [of "[]"] by (simp add: ph_read_def SIZEOF_HEADER_def)
  have eff: "frame_effects id onP [packet_bytes pid body] t = emit e t" for t
    using step by (simp add: frame_effects_def)
  then have quiet: "\<forall>t. rc_buffer (frame_effects id onP [packet_bytes pid body] t) = rc_buffer t"
    by (simp add: emit_def rc_buffer_def)
  have "packet_bytes pid body \<noteq> []" by (simp add: packet_bytes_def ph_bytes_def)
  then obtain b where b: "recv_bytes env id onP (packet_bytes pid body) s = ok (rc_Register env (rc_set_buffer b (emit e
      (rc_set_buffer (rb_received (rc_buffer s) (packet_bytes pid body)) s))))" "rb_wf b" "rb_abs b = []" "rb_mMaxBufferSize b = rb_DEFAULT_BUFFER_SIZE"
    using recv_into_empty_buffer [OF s _ _ empty _ own f quiet, of env] room linear by (auto simp: Let_def eff)
  let ?s = "rc_set_buffer b (emit e (rc_set_buffer (rb_received (rc_buffer s) (packet_bytes pid body)) s))"
  have ev: "ss_events ?s = ss_events s @ [e]" "rc_mpOwner (ss_mReceiver ?s)" "\<not> ss_IsDisconnected ?s" "rc_buffer ?s = b"
    using s by (simp_all add: receiving_def emit_def rc_set_buffer_def rc_buffer_def ss_IsDisconnected_def)
  have "rb_GetFreeSize b \<noteq> 0"
    using b(3,4) length_rb_abs [OF b(2)] unfolding rb_free_use by (simp add: rb_DEFAULT_BUFFER_SIZE_def)
  then have "rc_Register env ?s = emit (PostReceive (rc_wsabufs b)) ?s"
    using ev env by (auto simp: rc_Register_def receives_ok_def split: io_result.split)
  moreover have "ss_events (emit e' ?s) = ss_events s @ [e, e']" "\<not> ss_IsDisconnected (emit e' ?s)" "rc_buffer (emit e' ?s) = b" for e'
    using ev by (simp_all add: emit_def ss_IsDisconnected_def rc_buffer_def)
  ultimately show ?thesis using b(1,3) by (intro exI [of _ "emit (PostReceive (rc_wsabufs b)) ?s"] exI [of _ "rc_wsabufs b"]) simp
qed

text \<open>C23: The two programs together: the dummy client's OnConnected posts exactly one send, of one packet, and when the
  server receives these bytes in one completion it prints Hello World once, posts the next receive, keeps
  the connection and has nothing left over.\<close>

theorem hello_world_reaches_the_server:
  assumes proto: "serializes byteSize serialize wire" "parseEcho (wire (echo_req hello_world)) = Some hello_world"
    and mem: "65536 \<le> length mem"
    and client: "ss_mSessionState c = Connected" "sn_mpOwner (ss_mSender c)" "\<not> sn_mbSendRegistered (ss_mSender c)"
      "sn_queue c = lq_new dflt lq_DEFAULT_MAX_COUNT" "sends_ok client_env"
    and server: "receiving s" "receives_ok server_env" "rb_abs (rc_buffer s) = []"
      "int (6 + byteSize (echo_req hello_world)) \<le> rb_GetFreeSize (rc_buffer s)"
      "rb_mReadPos (rc_buffer s) + int (6 + byteSize (echo_req hello_world)) \<le> rb_DEFAULT_BUFFER_SIZE"
  shows "\<exists>c' bytes s' ws. dgs_OnConnected echo_req byteSize serialize mem client_env c = ok c' \<and>
    ss_events c' = ss_events c @ [PostSend [bytes]] \<and>
    gs_receive server_env parseEcho parseLogin bytes s = ok s' \<and>
    ss_events s' = ss_events s @ [Print hello_world, PostReceive ws] \<and>
    \<not> ss_IsDisconnected s' \<and> rb_abs (rc_buffer s') = []"
proof -
  let ?body = "wire (echo_req hello_world)"
  have len: "length ?body = byteSize (echo_req hello_world)" by (rule serializesD(1) [OF proto(1)])
  have "rb_GetFreeSize (rc_buffer s) \<le> 65534"
    using rb_free_bounds [of "rc_buffer s"] server(1) by (auto simp: receiving_def rb_DEFAULT_BUFFER_SIZE_def)
  then have size: "byteSize (echo_req hello_world) \<le> 65529" using server(4) by simp
  obtain b where b: "lph_MakeSendBuffer byteSize serialize mem (echo_req hello_world) ID_C2S_ECHO_REQ = Inr b"
    "sb_wsabuf b = packet_bytes ID_C2S_ECHO_REQ ?body"
    using MakeSendBuffer_packet [OF proto(1) size mem] by blast
  obtain c' where c': "ss_Send client_env b c = ok c'" "ss_events c' = ss_events c @ [PostSend [packet_bytes ID_C2S_ECHO_REQ ?body]]"
    using first_send_is_posted [OF client] b(2) by metis
  have fits: "packet_fits ?body" using size len by (simp add: packet_fits_def)
  let ?onP = "gs_OnRecvPacket (ss_Disconnect server_env) (server_table parseEcho parseLogin (\<lambda>msg. emit (Print msg)))"
  obtain s' ws where "recv_bytes server_env id ?onP (packet_bytes ID_C2S_ECHO_REQ ?body) s = ok s'"
    "ss_events s' = ss_events s @ [Print hello_world, PostReceive ws]" "\<not> ss_IsDisconnected s'" "rb_abs (rc_buffer s') = []"
    using one_packet_received [OF server(1-3) fits _ _ OnRecvPacket_reads_own_packet echo_packet_prints [of parseEcho ?body hello_world, OF proto(2) fits]]
      server(4,5) len by metis
  then show ?thesis using b(1) c' by (auto simp: dgs_OnConnected_def gs_receive_def ok_def)
qed

definition demo_wire :: "string \<Rightarrow> byte list" where
  "demo_wire msg = map (\<lambda>c. of_nat (of_char c)) msg"

definition demo_parse :: "byte list \<Rightarrow> string option" where
  "demo_parse bytes = Some (map (\<lambda>w. char_of (unat w)) bytes)"

definition demo_serialize :: "string \<Rightarrow> int \<Rightarrow> byte list option" where
  "demo_serialize msg n = (if n < int (length msg) then None else Some (demo_wire msg))"

definition demo_client :: Session where
  "demo_client = (ss_new [] (sb_new 0 []))\<lparr>ss_mSessionState := Connected,
     ss_mSender := ss_mSender (sn_SetOwner (ss_new [] (sb_new 0 [])))\<rparr>"

lemma hello_world_reaches_the_server_witness:
  "\<exists>c' bytes s' ws. dgs_OnConnected id length demo_serialize (replicate 65536 0) demo_env demo_client = ok c' \<and>
     ss_events c' = [PostSend [bytes]] \<and> gs_receive demo_env demo_parse (\<lambda>b. None :: nat option) bytes (demo_session 0) = ok s' \<and>
     ss_events s' = [Print hello_world, PostReceive ws]"
proof -
  have ser: "serializes length demo_serialize demo_wire"
    by (simp add: serializes_def demo_serialize_def demo_wire_def)
  have parse: "demo_parse (demo_wire (id hello_world)) = Some hello_world"
    by (simp add: demo_parse_def demo_wire_def hello_world_def newline_def char_of_def bit_0)
  have client: "ss_mSessionState demo_client = Connected" "sn_mpOwner (ss_mSender demo_client)"
    "\<not> sn_mbSendRegistered (ss_mSender demo_client)" "sn_queue demo_client = lq_new (sb_new 0 []) lq_DEFAULT_MAX_COUNT"
    "ss_events demo_client = []"
    by (simp_all add: demo_client_def ss_new_def sn_SetOwner_def sn_queue_def)
  have env: "sends_ok demo_env" "receives_ok demo_env"
    by (simp_all add: sends_ok_def receives_ok_def demo_env_def io_env.defs)
  note d = demo_receiving [of 0, simplified]
  have n: "length hello_world = 12" by (simp add: hello_world_def newline_def)
  have e: "ss_events (demo_session 0) = []" by (simp add: demo_session_def ss_new_def)
  show ?thesis
    using hello_world_reaches_the_server [of length demo_serialize demo_wire demo_parse id "replicate 65536 0" demo_client
        "sb_new 0 []" demo_env "demo_session 0" demo_env "\<lambda>b. None :: nat option", OF ser parse _ client(1-4) env(1) d(1) env(2) d(2)]
    by (fastforce simp: d n client(5) e rb_DEFAULT_BUFFER_SIZE_def)
qed

end
