(* ===== verification/Refused_Clients.thy ===== *)
theory Refused_Clients
  imports Service_Safety
begin

text \<open>
  What becomes of a client that is refused. AddSession returns false when the manager is full and the wait queue
  takes nobody (with \<open>WaitQueueManager(0)\<close>, as the game server has it, never anybody), and
  \<open>Session::processConnect\<close> then calls \<open>Disconnect(ServerFull)\<close>; but the state of a session that was
  never added is already Disconnected, and Disconnect does nothing in that state.
\<close>

definition left_alone :: "nat \<Rightarrow> bool \<Rightarrow> Service \<Rightarrow> bool" where
  "left_alone i socket v \<longleftrightarrow> sv_inv v \<and> i < sv_count v \<and> i \<notin> members v \<and>
     ss_mSessionState (sv_sessions v i) = Disconnected \<and> \<not> cn_mpOwner (ss_mConnector (sv_sessions v i)) \<and>
     ss_socketValid (sv_sessions v i) = socket \<and> set (ss_events (sv_sessions v i)) \<subseteq> {ReapScheduled}"

lemma left_alone_quiet:
  assumes "left_alone i socket v"
  shows "\<not> disconnect_pending (sv_sessions v i)" "i \<notin> waiters v"
proof -
  have quiet: "posts es = 0 \<and> \<not> entered es" if "set es \<subseteq> {ReapScheduled}" for es
    using that by (induction es rule: posts.induct) auto
  then show "\<not> disconnect_pending (sv_sessions v i)" using assms by (simp add: left_alone_def disconnect_pending_def)
  show "i \<notin> waiters v"
    using sess_okD(7) [OF inv_session [of v i]] quiet assms by (auto simp: left_alone_def)
qed

lemma left_alone_upd:
  assumes "left_alone i socket v" "sv_inv (sv_upd j f v)"
    and "j = i \<Longrightarrow> ss_mSessionState (f (sv_sessions v i)) = Disconnected \<and> \<not> cn_mpOwner (ss_mConnector (f (sv_sessions v i))) \<and>
      ss_socketValid (f (sv_sessions v i)) = socket \<and> set (ss_events (f (sv_sessions v i))) \<subseteq> {ReapScheduled}"
  shows "left_alone i socket (sv_upd j f v)"
  using assms by (auto simp: left_alone_def)

lemma sv_step_left_alone: "sv_step v v' \<Longrightarrow> left_alone k socket v \<Longrightarrow> left_alone k socket v'"
proof (induction rule: sv_step.induct)
  case (create registered v p v')
  then have "sv_inv v" "k \<noteq> sv_count v" by (auto simp: left_alone_def)
  then show ?case using CreateSession_inv [OF _ create(1)] create(2) by (auto simp: left_alone_def)
next
  case (connect i v env alive v')
  then have inv: "sv_inv v" "k \<noteq> i" by (auto simp: left_alone_def)
  then show ?case using processConnect_inv [OF inv(1) connect(1-3)] connect(4) by (auto simp: left_alone_def)
next
  case (in_game i v b v')
  have "sv_inv v'" using sv_step_inv [OF sv_step.in_game [OF in_game(1,2)]] in_game(3) by (simp add: left_alone_def)
  then show ?case unfolding in_game_upd [OF in_game(2)] using in_game(3)
    by (intro left_alone_upd) (auto simp: left_alone_def SetSessionInGame_def cas_state_def)
next
  case (disconnect i v env reason)
  have "sv_inv (sv_upd i (ss_Disconnect env reason) v)"
    using sv_step_inv [OF sv_step.disconnect [OF disconnect(1)]] disconnect(2) by (auto simp: left_alone_def)
  then show ?case using disconnect(2) by (intro left_alone_upd) (auto simp: left_alone_def Disconnect_same)
next
  case (disconnected v i env alive v')
  then have "sv_inv v" "k \<noteq> i" using left_alone_quiet(1) [of k socket v] by (auto simp: left_alone_def)
  then show ?case using processDisconnect_inv [OF _ disconnected(1,2)] disconnected(3) by (auto simp: left_alone_def)
next
  case (reap i v env now a lastMs r v')
  have "sv_inv v'" using sv_step_inv [OF sv_step.reap [OF reap(1,2)]] reap(3) by (simp add: left_alone_def)
  then show ?case using reap_cases [OF reap(2)] reap(3)
    by (auto simp: sv_RegisterSessionReap_def left_alone_def Disconnect_same emit_def
        intro!: left_alone_upd split: if_splits)
qed

text \<open>C17: A client that the server refuses is left connected and without an answer: when the manager is full and the wait
  queue takes nobody, completing its accept neither disconnects it nor posts a receive nor calls a callback,
  its socket stays as it was, and no later step of the server, not even another Disconnect, changes that.\<close>

theorem refused_client_is_left_open:
  assumes start: "sv_step\<^sup>*\<^sup>* (sv_start maxSessions maxWait hasReaper factory) v" "fresh_sessions factory"
    and i: "i < sv_count v" "cn_mpOwner (ss_mConnector (sv_sessions v i))" "ss_events (sv_sessions v i) = []"
    and full: "\<not> fst (sm_AddSession i (sv_mSessionManager v))"
      "\<forall>w. sv_mWaitQueueManager v = Some w \<longrightarrow> fst (wq_EnterWaitQueue w i) = None"
    and connect: "ss_processConnect env alive i v = ok v1" and later: "sv_step\<^sup>*\<^sup>* v1 v2"
  shows "ss_mSessionState (sv_sessions v2 i) = Disconnected \<and> set (ss_events (sv_sessions v2 i)) \<subseteq> {ReapScheduled} \<and>
    ss_socketValid (sv_sessions v2 i) = ss_socketValid (sv_sessions v i) \<and> i \<notin> sm_mSessions (sv_mSessionManager v2)"
proof -
  let ?v = "sv_upd i (\<lambda>s. sn_SetOwner (rc_SetOwner (cn_Process s))) v"
  have inv: "sv_inv v" using sv_steps_inv [OF start(1) sv_start_inv [OF start(2)]] by simp
  obtain m where m: "sm_AddSession i (sv_mSessionManager ?v) = (False, m)"
    using full(1) by (cases "sm_AddSession i (sv_mSessionManager v)") auto
  have "sv_AddSession env alive i ?v = (False, ?v)"
    using full(2) by (intro AddSession_refused [OF m]) simp
  then have v1: "v1 = sv_upd i (ss_Disconnect env ServerFull) ?v"
    using connect by (auto simp: ss_processConnect_def Let_def split: if_splits)
  have i_out: "i \<notin> members v" "ss_mSessionState (sv_sessions v i) = Disconnected"
    using sess_okD(2,6) [OF inv_session [OF inv, of i]] i(2) by auto
  have "left_alone i (ss_socketValid (sv_sessions v i)) v1"
    using processConnect_inv(1,4) [OF inv i(1,2) connect] i i_out
    by (simp add: left_alone_def v1 Disconnect_same session_defs)
  with later have "left_alone i (ss_socketValid (sv_sessions v i)) v2"
    by (induction rule: rtranclp_induct) (auto intro: sv_step_left_alone)
  then show ?thesis by (simp add: left_alone_def members_def)
qed

text \<open>The game server's parameters (one session, a wait queue of size 0) and two clients.\<close>

lemma demo_first_client:
  "\<exists>v. ss_processConnect demo_env (\<lambda>_. True) 0
      (sv_upd 0 (\<lambda>s. ss_setSessionEvent (ss_setService s)) ((sv_start 1 (Some 0) True (\<lambda>_. demo_session))\<lparr>sv_count := 1\<rparr>)) = ok v \<and>
    sv_count v = 1 \<and> sv_mWaitQueueManager v = Some (wq_new 0) \<and> sm_mCurrentSessionCount (sv_mSessionManager v) = 1 \<and>
    sm_mMaxSessionCount (sv_mSessionManager v) = 1 \<and> sv_sessions v 1 = demo_session"
  by (simp add: demo_defs ss_processConnect_def sv_AddSession_def sv_cas_def setSessionConnected_def
      cas_state_def Let_def sv_RegisterSessionReap_def ss_registerReceive_def rc_Register_def sv_upd_def
      rb_new_def rb_GetFreeSize_def rb_GetUseSize_def rb_DEFAULT_BUFFER_SIZE_def)

lemma refused_client_is_left_open_witness:
  "\<exists>v v1. sv_step\<^sup>*\<^sup>* (sv_start 1 (Some 0) True (\<lambda>_. demo_session)) v \<and> cn_mpOwner (ss_mConnector (sv_sessions v 1)) \<and>
     ss_processConnect demo_env (\<lambda>_. True) 1 v = ok v1 \<and> ss_mSessionState (sv_sessions v1 1) = Disconnected \<and>
     set (ss_events (sv_sessions v1 1)) \<subseteq> {ReapScheduled} \<and> ss_socketValid (sv_sessions v1 1)"
proof -
  let ?start = "sv_start 1 (Some 0) True (\<lambda>_. demo_session)"
  let ?new = "\<lambda>s. ss_setSessionEvent (ss_setService s)"
  let ?a = "sv_upd 0 ?new (?start\<lparr>sv_count := 1\<rparr>)"
  obtain b where b: "ss_processConnect demo_env (\<lambda>_. True) 0 ?a = ok b" "sv_count b = 1" "sv_mWaitQueueManager b = Some (wq_new 0)"
    "sm_mCurrentSessionCount (sv_mSessionManager b) = 1" "sm_mMaxSessionCount (sv_mSessionManager b) = 1" "sv_sessions b 1 = demo_session"
    using demo_first_client by blast
  let ?c = "sv_upd 1 ?new (b\<lparr>sv_count := 2\<rparr>)"
  have "sv_step ?start ?a" by (rule sv_step.create [of True _ "Some 0"]) (simp add: sv_CreateSession_def sv_start_def sv_new_def)
  moreover have "sv_step ?a b" by (rule sv_step.connect [OF _ _ b(1)]) (simp_all add: demo_defs)
  moreover have "sv_step b ?c" by (rule sv_step.create [of True _ "Some 1"]) (simp add: sv_CreateSession_def b(2) numeral_2_eq_2)
  ultimately have run: "sv_step\<^sup>*\<^sup>* ?start ?c" by (meson converse_rtranclp_into_rtranclp rtranclp.rtrancl_refl)
  have s: "sv_sessions ?c 1 = ?new demo_session" using b(6) by simp
  have own: "cn_mpOwner (ss_mConnector (sv_sessions ?c 1))" "ss_events (sv_sessions ?c 1) = []" "ss_socketValid (sv_sessions ?c 1)"
    unfolding s by (simp_all add: demo_defs)
  have full: "\<not> fst (sm_AddSession 1 (sv_mSessionManager ?c))"
    "\<forall>w. sv_mWaitQueueManager ?c = Some w \<longrightarrow> fst (wq_EnterWaitQueue w 1) = None"
    using b(3-5) by (simp_all add: sm_AddSession_def wq_EnterWaitQueue_def wq_new_def)
  obtain v1 where v1: "ss_processConnect demo_env (\<lambda>_. True) 1 ?c = ok v1"
  proof -
    have "sv_AddSession demo_env (\<lambda>_. True) 1 w = (False, w)"
      if "sv_mSessionManager w = sv_mSessionManager ?c" "sv_mWaitQueueManager w = sv_mWaitQueueManager ?c" for w
      using full that by (intro AddSession_refused [of 1 w "sv_mSessionManager w"]) (simp_all add: sm_AddSession_def b(4,5))
    then show thesis using that s by (simp add: ss_processConnect_def Let_def b(6) session_defs ss_setSessionEvent_def ss_setService_def)
  qed
  have "1 < sv_count ?c" by simp
  from refused_client_is_left_open [OF run demo_fresh this own(1,2) full v1 rtranclp.rtrancl_refl] show ?thesis
    using run own(1,3) v1 by blast
qed

end
