(* ===== verification/Programs.thy ===== *)
theory Programs
  imports Accept_Slots Thread_Manager
begin

text \<open>
  The two programs: CrashReporter (CrashReporter.cpp), IocpCore (IocpCore.cpp), and the mains of the game server
  (GameServer/GameServer.cpp) and the dummy client (DummyClient/DummyClient.cpp). The crashpad client, the
  file system and the Windows calls are arguments, and what CrashReporter prints is left out. A process that
  crashes itself is \<open>ProcessCrashed\<close>.
\<close>

subsection \<open>CrashReporter\<close>

definition cr_CrashIf :: "bool \<Rightarrow> 'a option \<Rightarrow> 'a option" where
  "cr_CrashIf bCrash continue = (if bCrash then None else continue)"

text \<open>A path is the list of its components; \<open>moduleFileName\<close> is what GetModuleFileNameW returns.\<close>

definition cr_GetExeDirectory :: "string list option \<Rightarrow> string list \<Rightarrow> string list" where
  "cr_GetExeDirectory moduleFileName current_path =
     (case moduleFileName of Some exePath \<Rightarrow> butlast exePath | None \<Rightarrow> current_path)"

record crashpad_start =
  cp_handlerPath :: "string list"
  cp_dbPath :: "string list"
  cp_metricsPath :: "string list"
  cp_url :: string
  cp_annotations :: "string \<rightharpoonup> string"
  cp_arguments :: "string list"
  cp_restartable :: bool
  cp_asynchronous :: bool

text \<open>\<open>u8string\<close> is the conversion of \<open>std::filesystem\<close>; the C string taken of it ends at the first 0.\<close>

definition cr_toStdU8String :: "('w \<Rightarrow> string) \<Rightarrow> 'w \<Rightarrow> string" where
  "cr_toStdU8String u8string wStr = takeWhile (\<lambda>c. c \<noteq> CHR 0x00) (u8string wStr)"

text \<open>\<open>sbInitialized\<close> is the static flag, the second component its new value.\<close>

definition cr_Init :: "string list \<Rightarrow> (string list \<Rightarrow> bool) \<Rightarrow> (crashpad_start \<Rightarrow> bool) \<Rightarrow> ('w \<Rightarrow> string) \<Rightarrow> 'w \<Rightarrow> 'w \<Rightarrow> 'w
    \<Rightarrow> bool \<Rightarrow> bool \<times> bool" where
  "cr_Init currentDir exists StartHandler u8string appName appVersion url sbInitialized =
     (if sbInitialized then (True, sbInitialized)
      else
        (let handlerPath = currentDir @ [''crashpad_handler.exe''];
             dbPath = currentDir @ [''crashes''];
             metricsPath = currentDir @ [''metrics''] in
         if \<not> exists handlerPath then (False, sbInitialized)
         else
           (let annotations = [''format'' \<mapsto> ''minidump'', ''prod'' \<mapsto> cr_toStdU8String u8string appName,
                  ''ver'' \<mapsto> cr_toStdU8String u8string appVersion];
                started = StartHandler \<lparr>cp_handlerPath = handlerPath, cp_dbPath = dbPath, cp_metricsPath = metricsPath,
                  cp_url = cr_toStdU8String u8string url, cp_annotations = annotations,
                  cp_arguments = [''--no-rate-limit''], cp_restartable = True, cp_asynchronous = False\<rparr> in
            (started, started))))"

subsection \<open>IocpCore\<close>

record IocpCore = ic_mIocpHandle :: nat

text \<open>\<open>port\<close> is the handle that CreateIoCompletionPort returns; without one the process crashes.\<close>

definition ic_new :: "nat option \<Rightarrow> IocpCore option" where
  "ic_new port = (case port of None \<Rightarrow> None | Some h \<Rightarrow> Some \<lparr>ic_mIocpHandle = h\<rparr>)"

definition ic_GetHandle :: "IocpCore \<Rightarrow> nat" where
  "ic_GetHandle c = ic_mIocpHandle c"

definition ic_Register :: "(nat \<Rightarrow> nat \<Rightarrow> nat option) \<Rightarrow> nat \<Rightarrow> IocpCore \<Rightarrow> bool" where
  "ic_Register CreateIoCompletionPort objectHandle c \<longleftrightarrow> CreateIoCompletionPort objectHandle (ic_mIocpHandle c) \<noteq> None"

subsection \<open>The mains\<close>

text \<open>
  What the process finds before it starts its service: the results of \<open>SocketUtils::Init\<close>'s calls, the two
  completion ports and the address parser. Both mains and \<open>NetEngineInit\<close> ignore what \<open>CrashReporter::Init\<close>
  and \<open>SocketUtils::Init\<close> return.
\<close>

record main_env =
  me_startup :: int
  me_dummySocket :: "SOCKET option"
  me_bindResults :: "int \<times> int \<times> int"
  me_iocpPort :: "nat option"
  me_schedulerPort :: "nat option"
  me_pton :: "string \<Rightarrow> uint32 option"

definition ni_new :: "main_env \<Rightarrow> winsock \<Rightarrow> winsock" where
  "ni_new env ws =
     (case me_bindResults env of
        (rc, rd, ra) \<Rightarrow> snd (su_Init (me_startup env) (me_dummySocket env) rc rd ra ws))"

datatype thread_body = IocpLoop | SchedulerLoop

datatype 's main_result = ProcessCrashed | NullAccess fault | Serving 's ThreadManager

text \<open>Five times a thread that dispatches the port for ever and one that dispatches the scheduler for ever.\<close>

definition main_launch :: "ThreadManager \<Rightarrow> ThreadManager" where
  "main_launch m = fold tm_Launch [1..<11] m"

definition main_body :: "nat \<Rightarrow> thread_body" where
  "main_body n = (if odd n then IocpLoop else SchedulerLoop)"

text \<open>Both bodies are a \<open>while (true)\<close>: the callback of a launched thread does not return.\<close>

fun body_returns :: "thread_body \<Rightarrow> bool" where
  "body_returns IocpLoop = False"
| "body_returns SchedulerLoop = False"

definition gs_service :: "(nat \<Rightarrow> Session) \<Rightarrow> Service" where
  "gs_service factory = svs_new (sm_new 1) True (Some (wq_new 0)) factory"

definition gs_main :: "main_env \<Rightarrow> listen_env \<Rightarrow> accept_env list \<Rightarrow> (nat \<Rightarrow> Session) \<Rightarrow> winsock \<Rightarrow> Listener main_result option" where
  "gs_main env lenv aenvs factory ws =
     (let ws1 = ni_new env ws in
      case ic_new (me_iocpPort env) of
        None \<Rightarrow> Some ProcessCrashed
      | Some core \<Rightarrow>
          if me_schedulerPort env = None then Some ProcessCrashed
          else
            (let addr = na_GetSockAddr (na_new_ip (me_pton env) ''127.0.0.1'' 7777) in
             case svs_Start True lenv addr aenvs ws1 (li_new 10 (gs_service factory)) of
               None \<Rightarrow> Some ProcessCrashed
             | Some (outcome, ws2) \<Rightarrow>
                 (case outcome of
                    None \<Rightarrow> None
                  | Some (Inl e) \<Rightarrow> Some (NullAccess e)
                  | Some (Inr (started, l)) \<Rightarrow>
                      if \<not> started then Some ProcessCrashed else Some (Serving l (main_launch (tm_new 0))))))"

definition dc_service :: "(nat \<Rightarrow> Session) \<Rightarrow> Service" where
  "dc_service factory = cs_new (sm_new 1) factory"

definition dc_main :: "main_env \<Rightarrow> (bool \<times> io_env) list \<Rightarrow> (nat \<Rightarrow> Session) \<Rightarrow> winsock \<Rightarrow> Service main_result option" where
  "dc_main env envs factory ws =
     (let ws1 = ni_new env ws in
      case ic_new (me_iocpPort env) of
        None \<Rightarrow> Some ProcessCrashed
      | Some core \<Rightarrow>
          if me_schedulerPort env = None then Some ProcessCrashed
          else
            (case cs_Start envs (dc_service factory) of
               None \<Rightarrow> None
             | Some (Inl e) \<Rightarrow> Some (NullAccess e)
             | Some (Inr (started, v)) \<Rightarrow>
                 if \<not> started then Some ProcessCrashed else Some (Serving v (main_launch (tm_new 0)))))"

subsection \<open>The threads of the mains\<close>

lemma launch_other: "n \<notin> set ns \<Longrightarrow> tm_phase (fold tm_Launch ns m) n = tm_phase m n"
  by (induction ns arbitrary: m) (auto simp: tm_Launch_def)

lemma launch_threads:
  "tm_mThreads (fold tm_Launch ns m) = tm_mThreads m @ ns"
  "n \<in> set ns \<Longrightarrow> tm_phase (fold tm_Launch ns m) n = Launched"
proof -
  have phase: "tm_phase (tm_Launch x m) x = Launched" for x m by (simp add: tm_Launch_def)
  show "tm_mThreads (fold tm_Launch ns m) = tm_mThreads m @ ns"
    by (induction ns arbitrary: m) (simp_all add: tm_Launch_def)
  show "tm_phase (fold tm_Launch ns m) n = Launched" if "n \<in> set ns"
    using that
  proof (induction ns arbitrary: m)
    case (Cons x ns)
    then show ?case by (cases "n \<in> set ns") (auto simp: launch_other phase)
  qed simp
qed

text \<open>The ten loops do not return, so neither does the main.\<close>

lemma main_never_joins:
  assumes "(tm_step (\<lambda>n. body_returns (main_body n)))\<^sup>*\<^sup>* (main_launch (tm_new 0), k) (m, k')"
  shows "tm_JoinWithClear m = None"
proof (rule endless_thread_blocks_join [OF assms(1)])
  show "\<not> body_returns (main_body 1)" by (simp add: main_body_def)
  have one: "1 \<in> set [1::nat..<11]" by simp
  show "1 \<in> set (tm_mThreads (main_launch (tm_new 0)))" unfolding main_launch_def launch_threads(1) using one by simp
  show "tm_phase (main_launch (tm_new 0)) 1 \<noteq> Ended" "tm_phase (main_launch (tm_new 0)) 1 \<noteq> Unborn"
    unfolding main_launch_def launch_threads(2) [OF one] by simp_all
qed

subsection \<open>What the mains do\<close>

definition listen_ok :: "listen_env \<Rightarrow> bool" where
  "listen_ok lenv \<longleftrightarrow> le_createSocket lenv \<noteq> None \<and> le_register lenv \<and> le_reuse lenv \<noteq> SOCKET_ERROR \<and>
     le_keepAlive lenv \<noteq> SOCKET_ERROR \<and> le_linger lenv \<noteq> SOCKET_ERROR \<and> le_bind lenv \<noteq> SOCKET_ERROR \<and>
     le_listen lenv \<noteq> SOCKET_ERROR"

lemma svs_Start_crashes: "svs_Start True lenv addr aenvs ws l = None \<longleftrightarrow> \<not> listen_ok lenv"
  by (cases "le_createSocket lenv")
    (auto simp: svs_Start_def li_StartAccept_def listen_ok_def su_CreateTcpSocket_def su_SetReuseAddress_def su_SetKeepAlive_def
      su_SetLinger_def su_SetSockOpt_def su_Bind_def su_Listen_def)

lemma gs_service_is: "gs_service factory = sv_start 1 (Some 0) True factory"
  by (simp add: gs_service_def sv_start_def)


definition demo_main :: main_env where
  "demo_main = \<lparr>me_startup = 0, me_dummySocket = Some 99, me_bindResults = (0, 0, 0), me_iocpPort = Some 4,
     me_schedulerPort = Some 5, me_pton = (\<lambda>_. Some 0x0100007F)\<rparr>"


text \<open>The dummy client's main: without a completion port it crashes; when its session cannot be registered with the port
  it dereferences the null session; when a socket call or ConnectEx fails it crashes itself; otherwise exactly
  one connect is posted.\<close>

theorem dummy_client_main_outcomes:
  fixes env :: main_env and registered :: bool and io :: io_env and ws :: winsock
  assumes "fresh_sessions factory"
  defines "result \<equiv> dc_main env [(registered, io)] factory ws"
  shows "if me_iocpPort env = None \<or> me_schedulerPort env = None then result = Some ProcessCrashed
    else if \<not> registered then result = Some (NullAccess NullSession)
    else if io_setReuseAddress io \<and> io_bindAnyAddress io \<and> (\<forall>code. io_connectEx io \<noteq> IoFailed code)
    then \<exists>v. result = Some (Serving v (main_launch (tm_new 0))) \<and> sv_count v = 1 \<and> ss_events (sv_sessions v 0) = [PostConnect]
    else result = Some ProcessCrashed"
proof -
  obtain mem dflt where f: "factory 0 = ss_new mem dflt" using assms(1) unfolding fresh_sessions_def by blast
  obtain s' where s': "ss_Clear (ss_setSessionEvent (ss_setService (ss_new mem dflt))) = ok s'" using Clear_fresh by blast
  note d = result_def dc_main_def ic_new_def cs_Start_def dc_service_def sv_new_def sm_new_def sm_defs sv_GetMaxSessionCount_def
    sv_CreateSession_def sv_upd_def Let_def
  show ?thesis
  proof (cases registered)
    case False
    then show ?thesis using f s' by (auto simp: d split: option.splits)
  next
    case True
    then show ?thesis using f
      by (cases "io_connectEx io")
        (auto simp: d ss_Connect_def cn_Register_def ss_setSessionEvent_def ss_setService_def ss_new_def session_defs
          split: option.splits, auto simp: ok_def)
  qed
qed

lemma dummy_client_main_outcomes_witness:
  "dc_main demo_main [(False, demo_env)] (\<lambda>_. demo_session) ws_start = Some (NullAccess NullSession) \<and>
   (\<exists>v. dc_main demo_main [(True, demo_env)] (\<lambda>_. demo_session) ws_start = Some (Serving v (main_launch (tm_new 0))))"
  using dummy_client_main_outcomes [OF demo_fresh, of demo_main False demo_env ws_start]
    dummy_client_main_outcomes [OF demo_fresh, of demo_main True demo_env ws_start]
  by (auto simp: demo_main_def demo_env_def)

end
