(* ===== verification/Spec2Isabelle.thy ===== *)
theory Spec2Isabelle
  imports Engine_Prelude Receive_Buffer Timing_Wheel Send_Buffer Session_State Packets Packet_Handlers
    Fifo_Interface Lock_Free_Queue Wait_Queue Sessions Session_Send Session_Receive Session_Manager Services Service_Safety
    Concurrent_Runs Concurrent_Queue Concurrent_Sender Queue_Invariant Queue_Threads Tagged_Stack Lock_Free_Stack Object_Pool Memory_Pools Memory_Allocator Actors Scoped_Actors
    Concurrent_Scoped Concurrent_Wheel Job_Queues Actor_Timers Jobs Actor_Lifetime Net_Sockets Acceptors Accept_Slots Smart_Pointers Thread_Manager Game_Sessions Refused_Clients
    Programs
begin

text \<open>
  CppNetEngine: a C++ server engine on Windows I/O completion ports (src/CppNetEngine), with its two
  programs (src/GameServer, src/DummyClient).

  \<^bold>\<open>The program.\<close> A Service creates Sessions. A ServerService has a Listener whose Acceptors keep one
  AcceptEx pending each; a ClientService connects its sessions itself. A Session owns a Connector, a
  Disconnector, a Receiver with a NetReceiveBuffer and a Sender with a LockFreeQueue of NetSendBuffers.
  Worker threads call IocpCore::Dispatch, which hands a completion to the object that owns the event:
  the listener (accept) or the session (connect, disconnect, send, receive). PacketSession cuts the
  received bytes into packets and the generated handlers dispatch these by service and packet id. The
  SessionManager counts the places of a service, the WaitQueueManager queues the clients for which
  there is none, the SessionReaper disconnects idle sessions. Game logic runs in Actors: jobs are
  posted to a LockFreeQueue of the actor and run by ActorScheduler::Dispatch in whichever thread takes
  the completion packet; a ScopedActor runs its jobs while it holds several actors; delayed jobs wait
  in the scheduler's TimingWheel. Memory comes from MemoryAllocator over MemoryPool, TlsObjectPool and
  ObjectPool, which share the tagged-pointer stack of LockFreeStack. The mains of the two programs set the
  service up and give it ten threads of the ThreadManager, five for each completion port.

  \<^bold>\<open>Theories and code.\<close>

  \<^item> Engine_Prelude: Types.h; machine words, C++ division and array copies.
  \<^item> Receive_Buffer: NetReceiveBuffer, a record and a definition \<open>rb_\<close> for every member function.
  \<^item> Send_Buffer: NetSendBuffer (\<open>sb_\<close>) and SendBufferAllocator (\<open>sba_\<close>).
  \<^item> Timing_Wheel: TimingWheel (\<open>tw_\<close>), its nodes (\<open>tn_\<close>) and TimerHandle (\<open>th_\<close>); Concurrent_Wheel: the wheel
    (\<open>ctw_\<close>) used by many threads, one step for each access to \<open>mbTicking\<close>, a flag or the state under \<open>mLock\<close>.
  \<^item> Packets, Packet_Handlers: PacketSession (\<open>ps_\<close>), SessionTimeoutTracker (\<open>tt_\<close>), the generated handlers.
  \<^item> Fifo_Interface, Lock_Free_Queue: LockFreeQueue (\<open>lq_\<close>) on an explicit heap of nodes, one call at a time.
  \<^item> Concurrent_Runs, Concurrent_Queue, Queue_Invariant, Queue_Threads: LockFreeQueue (\<open>cq_\<close>) run by many
    threads, one step for each access to shared memory; its invariant, its guarantees and the runs that break it.
  \<^item> Tagged_Stack, Lock_Free_Stack, Object_Pool: the push and pop loops that LockFreeStack (\<open>ls_\<close>) and
    ObjectPool (\<open>op_\<close>) share, one step for each access to shared memory, and the two classes.
  \<^item> Memory_Pools, Memory_Allocator: MemoryPool (\<open>mp_\<close>), TlsObjectPool (\<open>tp_\<close>), their chunks (\<open>ch_\<close>), MemoryAllocator (\<open>ma_\<close>).
  \<^item> Smart_Pointers: UniquePtrUtils (\<open>up_\<close>, \<open>ua_\<close>), SharedPtrAllocator (\<open>sp_\<close>), StlAllocator (\<open>stl_\<close>), AllocatorUtils (\<open>cne_\<close>).
  \<^item> Session_State, Sessions: the atomic state of a Session and its transitions; Session (\<open>ss_\<close>),
    Connector (\<open>cn_\<close>), Disconnector (\<open>dc_\<close>), Receiver (\<open>rc_\<close>) and Sender (\<open>sn_\<close>).
  \<^item> Session_Send, Session_Receive: what a sender and a receiver do over sequences of calls and completions;
    Concurrent_Sender: Sender (\<open>csn_\<close>) used by many threads at once, one step for each access to what they share.
  \<^item> Session_Manager (\<open>sm_\<close>), Wait_Queue (\<open>wq_\<close>), Services: Service (\<open>sv_\<close>), ClientService (\<open>cs_\<close>), SessionReaper
    (\<open>sr_\<close>), the session's handlers and IocpCore::Dispatch; Service_Safety: the life of the sessions of a server;
    Refused_Clients: those for which there is no place.
  \<^item> Net_Sockets: NetAddress (\<open>na_\<close>) and SocketUtils (\<open>su_\<close>).
  \<^item> Acceptors, Accept_Slots: IocpEvent (\<open>ie_\<close>, \<open>ae_\<close>), Acceptor (\<open>ap_\<close>), Listener (\<open>li_\<close>), ServerService::Start.
  \<^item> Actors, Job_Queues, Scoped_Actors, Actor_Timers: ActorOverlapped (\<open>ao_\<close>), Actor (\<open>ac_\<close>), JobDispatcher
    (\<open>jd_\<close>), ActorScheduler (\<open>as_\<close>), ScopedActor (\<open>sc_\<close>); Concurrent_Scoped: plain and scoped actors (\<open>csc_\<close>)
    posted to and dispatched by many threads; Jobs: Job (\<open>jb_\<close>) and the posting templates of the actors;
    Actor_Lifetime: what the nodes of a queue refer to, and which jobs keep their actor alive.
  \<^item> Thread_Manager: ThreadManager (\<open>tm_\<close>). Game_Sessions: GameSession of the server (\<open>gs_\<close>) and of the client (\<open>dgs_\<close>).
  \<^item> Programs: CrashReporter (\<open>cr_\<close>), IocpCore (\<open>ic_\<close>), NetEngineInit (\<open>ni_\<close>) and the mains (\<open>gs_main\<close>, \<open>dc_main\<close>).

  A class is a record of its members, a handler or member function one definition that returns the new
  state. A failure is a value: None or an \<open>Inl\<close> where the code dereferences null or freed memory or
  leaves an array, the outer None of an \<open>outcome\<close> where a call does not return.

  \<^bold>\<open>What is shown.\<close>

  \<^item> Data: the ring buffer is a byte stream, the framing loop delivers whole packets and stays inside
    the buffer, MakeSendBuffer builds the packet that the framing takes apart, the timing wheel fires
    exactly the due timers in order, the queue is a bounded list.
  \<^item> Concurrency: under every interleaving the stack is linearizable; the queue is, as long as no node is
    recycled while an enqueue is about to link to it, and a thread that runs alone then returns; ObjectPool hands out free objects
    only, an actor runs one job at a time and its jobs in order, scoped actors that share actors exclude each other and
    cannot deadlock, timers fire once and when due, the place count of the session manager is right.
  \<^item> Memory: blocks are exclusive and large enough, for every sequence of allocations and frees in any threads; a
    unique array constructs and destroys its elements inside its block and gives it back.
  \<^item> Sessions: sends go out in order, one at a time and without a lost wakeup, under every interleaving while the
    session is open; the server's count is the number of its
    sessions, exactly one disconnect wins.
  \<^item> Schedulers: jobs posted to an idle actor all run, posting a call acts like making it, a delayed
    job runs once and not before its tick, a scoped actor holds all its actors or does nothing.
  \<^item> Programs: when the mains crash and what they serve, what the client says to the server, distinct thread ids.
  \<^item> What goes wrong: a packet in two pieces is not delivered, a queued client is never admitted, a refused
    one stays connected, a negative array count is not refused, a failed DisconnectEx or AcceptEx loses its place for good, a job can be stranded without a packet, a repeated
    actor blocks its scoped actor, a timer added to a late wheel fires early, an actor that has run a member call keeps itself alive, a recycled node breaks the queue, a disconnect makes a concurrent
    send write to freed memory, Close closes no socket, and others; each is a theorem on the definitions.

  \<^bold>\<open>Bounds and fuel.\<close> Loops that may not end are partial functions or are shown to return. A thread that runs alone
  in the queue needs at most 20 steps, the fuel of \<open>cq_solo\<close> there. The fuel of
  \<open>op_Alloc\<close> and \<open>op_Free\<close> (6 and 5 steps) is the length of their loops when nobody interferes, that of
  \<open>as_Dispatch\<close> and \<open>jd_Post\<close> the steps of one packet (\<open>nat E + 15\<close>) and of one post (8); each is proved to
  suffice where it is used. The ticks of a wheel and the sizes of a buffer stay below \<open>2 ^ 32\<close> and \<open>2 ^ 30\<close>
  in the theorems that need it.

  \<^bold>\<open>Assumptions.\<close> Memory is sequentially consistent and a 16-byte compare-and-exchange is atomic. Signed
  counters do not overflow. Handlers of one session and calls of the pools run one after the other
  unless their theory says that it interleaves steps. Windows calls, mimalloc, protobuf and the clock
  are arguments: their results are arbitrary, except that an allocator returns memory that is not in use.

  \<^bold>\<open>Not modelled.\<close> Logging and what is printed by the crash reporter; WSACleanup, CancelIoEx and
  CloseHandle, whose results nobody looks at; the crashpad client, the file system and std::allocate_shared
  (libraries); type aliases and declarations without behaviour; the generated protobuf classes; the C#
  packet generator, whose output is modelled.
\<close>

end
